(* ===== verification/Prelude.thy ===== *)
theory Prelude
  imports Main "HOL-Library.Word"
begin

text \<open>
  Shared vocabulary of the development.

  The programs under src/ are C programs, so this theory names the machine
  types they use, the truncating division and remainder of C, byte buffers with
  the operations that C performs on them (\<open>memcpy\<close> into the middle of a buffer,
  little-endian stores through a cast pointer), and the collections of rewrite
  rules that the component theories extend.
\<close>

unbundle bit_operations_syntax

named_theorems buf_simps "rewrite rules on byte buffers"
named_theorems inv_intros "introduction rules that establish an invariant"

type_synonym u8 = "8 word"
type_synonym u16 = "16 word"
type_synonym u32 = "32 word"
type_synonym u64 = "64 word"
type_synonym bytes = "u8 list"

section \<open>C arithmetic\<close>

text \<open>C's \<open>/\<close> and \<open>%\<close> on signed integers truncate towards zero.\<close>

definition c_div :: "int \<Rightarrow> int \<Rightarrow> int" where
  "c_div a b = sgn a * sgn b * (\<bar>a\<bar> div \<bar>b\<bar>)"

definition c_mod :: "int \<Rightarrow> int \<Rightarrow> int" where
  "c_mod a b = a - b * c_div a b"

section \<open>Byte buffers\<close>

text \<open>
  \<open>overwrite off bs buf\<close> is the effect of \<open>memcpy(buf + off, bs, len)\<close> on a
  buffer that is large enough; \<open>memcpy_at\<close> is the checked version: \<open>None\<close> is a
  store outside the object, which C leaves undefined.
\<close>

definition overwrite :: "nat \<Rightarrow> 'a list \<Rightarrow> 'a list \<Rightarrow> 'a list" where
  "overwrite off bs buf = take off buf @ bs @ drop (off + length bs) buf"

definition memcpy_at :: "nat \<Rightarrow> 'a list \<Rightarrow> 'a list \<Rightarrow> 'a list option" where
  "memcpy_at off bs buf =
     (if off + length bs \<le> length buf then Some (overwrite off bs buf) else None)"

definition slice_at :: "nat \<Rightarrow> nat \<Rightarrow> 'a list \<Rightarrow> 'a list" where
  "slice_at off n buf = take n (drop off buf)"

text \<open>A read of \<open>n\<close> bytes from \<open>buf + off\<close>, \<open>None\<close> when it leaves the object.\<close>

definition read_at :: "nat \<Rightarrow> nat \<Rightarrow> 'a list \<Rightarrow> 'a list option" where
  "read_at off n buf = (if off + n \<le> length buf then Some (slice_at off n buf) else None)"

text \<open>
  The result of an operation that may return a code with the new state, wait for
  another thread, or run into behaviour that C leaves undefined.
\<close>

datatype 'a outcome = Return int 'a | Spin 'a | UB

text \<open>Little-endian stores through \<open>int *\<close> and \<open>short *\<close>.\<close>

definition le32 :: "u32 \<Rightarrow> bytes" where
  "le32 w = [ucast w, ucast (drop_bit 8 w), ucast (drop_bit 16 w), ucast (drop_bit 24 w)]"

definition le16 :: "u16 \<Rightarrow> bytes" where
  "le16 w = [ucast w, ucast (drop_bit 8 w)]"

section \<open>Decimal output of printf\<close>

text \<open>\<open>%d\<close> and \<open>%u\<close> of a nonnegative number, and the zero-padded \<open>%0wd\<close>.\<close>

fun dec :: "nat \<Rightarrow> string" where
  "dec n = (if n < 10 then [char_of (48 + n)] else dec (n div 10) @ [char_of (48 + n mod 10)])"

declare dec.simps [simp del]

definition dec_pad :: "nat \<Rightarrow> nat \<Rightarrow> string" where
  "dec_pad w n = replicate (w - length (dec n)) (CHR ''0'') @ dec n"

text \<open>
  \<open>atoi\<close>: leading white space, an optional sign, then decimal digits up to the first
  other character. A value outside the range of \<open>int\<close> is left undefined by C and is
  not reduced here.
\<close>

definition is_digit :: "char \<Rightarrow> bool" where
  "is_digit c \<longleftrightarrow> 48 \<le> (of_char c :: nat) \<and> (of_char c :: nat) \<le> 57"

definition is_space :: "char \<Rightarrow> bool" where
  "is_space c \<longleftrightarrow> c = CHR '' '' \<or> (9 \<le> (of_char c :: nat) \<and> (of_char c :: nat) \<le> 13)"

definition atoi :: "string \<Rightarrow> int" where
  "atoi str =
     (let str = dropWhile is_space str;
          (neg, str) = (case str of
             c # cs \<Rightarrow> if c = CHR ''-'' then (True, cs) else if c = CHR ''+'' then (False, cs) else (False, str)
           | [] \<Rightarrow> (False, []));
          n = fold (\<lambda>c acc. acc * 10 + (int (of_char c) - 48)) (takeWhile is_digit str) 0
      in if neg then - n else n)"

text \<open>
  The digits that \<open>sscanf\<close> reads for a number, with the sign, and the text behind them. The C
  library then converts: \<open>%d\<close> goes through \<open>long\<close>, where a value out of range becomes the nearest
  one, and keeps the low 32 bits; \<open>%u\<close> and \<open>SCNu64\<close> go through \<open>unsigned long\<close>, where a value out of
  range becomes the greatest one and a sign is a negation modulo \<open>2 ^ 64\<close>.
\<close>

definition scan_sign :: "string \<Rightarrow> int \<times> string" where
  "scan_sign str =
     (case str of
        c # cs \<Rightarrow> if c = CHR ''-'' then (-1, cs) else if c = CHR ''+'' then (1, cs) else (1, str)
      | [] \<Rightarrow> (1, []))"

definition scan_number :: "string \<Rightarrow> (int \<times> string) option" where
  "scan_number str =
     (let (sign, str) = scan_sign (dropWhile is_space str); ds = takeWhile is_digit str in
      if ds = [] then None
      else Some (sign * fold (\<lambda>c acc. acc * 10 + (int (of_char c) - 48)) ds 0, dropWhile is_digit str))"

definition int_of_long :: "int \<Rightarrow> int" where
  "int_of_long n = signed_take_bit 31 (max (- (2 ^ 63)) (min (2 ^ 63 - 1) n))"

definition scan_int :: "string \<Rightarrow> (int \<times> string) option" where
  "scan_int str = map_option (\<lambda>(n, r). (int_of_long n, r)) (scan_number str)"

definition scan_u64 :: "string \<Rightarrow> 64 word option" where
  "scan_u64 str = map_option (\<lambda>(n, r). if \<bar>n\<bar> < 2 ^ 64 then of_int n else NOT 0) (scan_number str)"

text \<open>\<open>basename\<close> of libgen.h.\<close>

definition base_name :: "string \<Rightarrow> string" where
  "base_name s = (let r = rev (dropWhile (\<lambda>c. c = CHR ''/'') (rev s)) in
     if s = [] then ''.'' else if r = [] then ''/'' else rev (takeWhile (\<lambda>c. c \<noteq> CHR ''/'') (rev r)))"

text \<open>The string that starts at the first character of an array.\<close>

definition strlen_cut :: "string \<Rightarrow> string" where
  "strlen_cut s = takeWhile (\<lambda>c. c \<noteq> CHR 0x00) s"

lemma strlen_cut_id: "CHR 0x00 \<notin> set s \<Longrightarrow> strlen_cut s = s"
  unfolding strlen_cut_def by (rule takeWhile_eq_all_conv [THEN iffD2]) auto

section \<open>Lemmas on buffers\<close>

lemma length_overwrite [simp, buf_simps]:
  "off + length bs \<le> length buf \<Longrightarrow> length (overwrite off bs buf) = length buf"
  by (simp add: overwrite_def)

lemma overwrite_Nil [simp, buf_simps]: "overwrite off [] buf = buf"
  by (simp add: overwrite_def)

lemma nth_overwrite:
  assumes "off + length bs \<le> length buf" and "i < length buf"
  shows "overwrite off bs buf ! i =
    (if off \<le> i \<and> i < off + length bs then bs ! (i - off) else buf ! i)"
  using assms by (auto simp: overwrite_def nth_append min_def)

lemma length_slice_at [simp, buf_simps]:
  "length (slice_at off n buf) = min n (length buf - off)"
  by (simp add: slice_at_def)

lemma slice_at_0 [simp, buf_simps]: "slice_at off 0 buf = []"
  by (simp add: slice_at_def)

lemma slice_at_overwrite_disjoint [buf_simps]:
  assumes "off' + n \<le> off \<or> off + length bs \<le> off'"
    and "off + length bs \<le> length buf"
  shows "slice_at off' n (overwrite off bs buf) = slice_at off' n buf"
proof (rule nth_equalityI)
  show "length (slice_at off' n (overwrite off bs buf)) = length (slice_at off' n buf)"
    using assms(2) by simp
next
  fix i assume "i < length (slice_at off' n (overwrite off bs buf))"
  then have "i < n" "off' + i < length buf"
    using assms(2) by auto
  then show "slice_at off' n (overwrite off bs buf) ! i = slice_at off' n buf ! i"
    using assms by (auto simp: slice_at_def nth_overwrite)
qed

lemma slice_at_overwrite_append [buf_simps]:
  assumes "off + n + length bs \<le> length buf"
  shows "slice_at off (n + length bs) (overwrite (off + n) bs buf) = slice_at off n buf @ bs"
proof (rule nth_equalityI)
  show "length (slice_at off (n + length bs) (overwrite (off + n) bs buf))
      = length (slice_at off n buf @ bs)"
    using assms by simp
next
  fix i assume "i < length (slice_at off (n + length bs) (overwrite (off + n) bs buf))"
  then have "i < n + length bs"
    using assms by simp
  then show "slice_at off (n + length bs) (overwrite (off + n) bs buf) ! i
      = (slice_at off n buf @ bs) ! i"
    using assms by (auto simp: slice_at_def nth_overwrite nth_append min_def)
qed

lemma slice_at_overwrite_same [buf_simps]:
  "off + length bs \<le> length buf \<Longrightarrow> slice_at off (length bs) (overwrite off bs buf) = bs"
  using slice_at_overwrite_append [of off 0 bs buf] by simp

lemma length_le32 [simp]: "length (le32 w) = 4"
  by (simp add: le32_def)

lemma length_le16 [simp]: "length (le16 w) = 2"
  by (simp add: le16_def)

lemma memcpy_at_length:
  "memcpy_at off bs buf = Some buf' \<Longrightarrow> length buf' = length buf"
  by (auto simp: memcpy_at_def split: if_splits)

section \<open>Lemmas on C remainders\<close>

lemma c_mod_bounds:
  assumes "0 < b"
  shows "- b < c_mod a b \<and> c_mod a b < b"
proof (cases "a \<ge> 0")
  case True
  then have "c_mod a b = a mod b"
    using assms by (cases "a = 0") (auto simp: c_mod_def c_div_def minus_mult_div_eq_mod)
  moreover have "- b < 0" "0 \<le> a mod b" "a mod b < b"
    using assms by simp_all
  ultimately show ?thesis by linarith
next
  case False
  then have "c_mod a b = - ((- a) mod b)"
    using assms by (simp add: c_mod_def c_div_def minus_mult_div_eq_mod [symmetric])
  moreover have "0 \<le> (- a) mod b" "(- a) mod b < b"
    using assms by simp_all
  ultimately show ?thesis using assms by linarith
qed

lemma c_mod_nonneg: "0 \<le> a \<Longrightarrow> 0 < b \<Longrightarrow> c_mod a b = a mod b"
  by (cases "a = 0") (auto simp: c_mod_def c_div_def minus_mult_div_eq_mod)

lemma c_div_nonneg: "0 \<le> a \<Longrightarrow> 0 < b \<Longrightarrow> c_div a b = a div b"
  by (cases "a = 0") (auto simp: c_div_def)

section \<open>Lemmas on decimal output\<close>

lemma length_dec_le: "n < 10 ^ k \<Longrightarrow> 0 < k \<Longrightarrow> length (dec n) \<le> k"
proof (induction k arbitrary: n)
  case (Suc k)
  show ?case
  proof (cases "n < 10")
    case False
    then have "0 < k" using Suc.prems by (cases k) auto
    moreover have "n div 10 < 10 ^ k" using Suc.prems by auto
    ultimately have "length (dec (n div 10)) \<le> k" by (rule Suc.IH [rotated])
    then show ?thesis using False by (subst dec.simps) simp
  qed (subst dec.simps, simp)
qed simp

lemma dec_nonempty: "dec n \<noteq> []"
  by (subst dec.simps) simp

fun undec :: "string \<Rightarrow> nat" where
  "undec [] = 0"
| "undec (c # cs) = (of_char c - 48) * 10 ^ length cs + undec cs"

lemma undec_append: "undec (xs @ ys) = undec xs * 10 ^ length ys + undec ys"
  by (induction xs) (simp_all add: power_add algebra_simps)

lemma undec_dec: "undec (dec n) = n"
proof (induction n rule: dec.induct)
  case (1 n)
  show ?case
  proof (cases "n < 10")
    case True
    then show ?thesis by (subst dec.simps) simp
  next
    case False
    then have "undec (dec n) = undec (dec (n div 10)) * 10 + n mod 10"
      by (subst dec.simps) (simp add: undec_append)
    then show ?thesis using 1 False by simp
  qed
qed

lemma dec_digits: "c \<in> set (dec n) \<Longrightarrow> is_digit c"
proof (induction n rule: dec.induct)
  case (1 n)
  have d: "is_digit (char_of (48 + k))" if "k < 10" for k :: nat
    using that by (simp add: is_digit_def of_char_of)
  show ?case
  proof (cases "n < 10")
    case True
    then have "c = char_of (48 + n)" using "1.prems" by (simp add: dec.simps [of n])
    then show ?thesis using d True by simp
  next
    case False
    then have "c \<in> set (dec (n div 10)) \<or> c = char_of (48 + n mod 10)"
      using "1.prems" by (auto simp: dec.simps [of n])
    then show ?thesis using "1.IH" False d [of "n mod 10"] by auto
  qed
qed

lemma fold_digits:
  "\<forall>c \<in> set ds. is_digit c \<Longrightarrow>
    fold (\<lambda>c acc. acc * 10 + (int (of_char c) - 48)) ds n = n * 10 ^ length ds + int (undec ds)"
proof (induction ds arbitrary: n)
  case (Cons c ds)
  then have "48 \<le> (of_char c :: nat)" by (simp add: is_digit_def)
  then have c: "int (of_char c) - 48 = int (of_char c - 48)" by linarith
  have "fold (\<lambda>c acc. acc * 10 + (int (of_char c) - 48)) (c # ds) n
      = (n * 10 + int (of_char c - 48)) * 10 ^ length ds + int (undec ds)"
    using Cons.IH [of "n * 10 + (int (of_char c) - 48)"] Cons.prems by (simp add: c)
  also have "\<dots> = n * 10 ^ length (c # ds) + int (undec (c # ds))" by (simp add: distrib_right)
  finally show ?case .
qed simp

lemma scan_number_dec:
  assumes "s = [] \<or> \<not> is_digit (hd s)"
  shows "scan_number (dec n @ s) = Some (int n, s)"
proof -
  obtain c cs where c: "dec n = c # cs" using dec_nonempty by (cases "dec n") auto
  have dig: "\<forall>c \<in> set (dec n). is_digit c" using dec_digits by blast
  then have "is_digit c" by (simp add: c)
  then have c': "\<not> is_space c" "c \<noteq> CHR ''-''" "c \<noteq> CHR ''+''" by (auto simp: is_digit_def is_space_def)
  then have "scan_sign (dropWhile is_space (dec n @ s)) = (1, dec n @ s)" by (simp add: c scan_sign_def)
  moreover have "takeWhile is_digit (dec n @ s) = dec n" "dropWhile is_digit (dec n @ s) = s"
    using dig assms by (cases s; auto simp: takeWhile_append2 dropWhile_append2 takeWhile_append dropWhile_append)+
  ultimately show ?thesis using fold_digits [OF dig, of 0] dec_nonempty by (simp add: scan_number_def undec_dec)
qed

lemma int_of_long_id: "- (2 ^ 31) \<le> n \<Longrightarrow> n < 2 ^ 31 \<Longrightarrow> int_of_long n = n"
  by (simp add: int_of_long_def signed_take_bit_int_eq_self)

lemma scan_int_dec:
  assumes "s = [] \<or> \<not> is_digit (hd s)" "n < 2 ^ 31"
  shows "scan_int (dec n @ s) = Some (int n, s)"
  using assms by (simp add: scan_int_def scan_number_dec int_of_long_id)

lemma scan_u64_dec:
  assumes "s = [] \<or> \<not> is_digit (hd s)" "n < 2 ^ 64"
  shows "scan_u64 (dec n @ s) = Some (of_nat n)"
  using assms by (simp add: scan_u64_def scan_number_dec)

lemma undec_zeros: "undec (replicate k (CHR ''0'') @ xs) = undec xs"
  by (induction k) simp_all

lemma undec_dec_pad [simp]: "undec (dec_pad w n) = n"
  by (simp add: dec_pad_def undec_zeros undec_dec)

lemma dec_pad_inj: "dec_pad w m = dec_pad w n \<Longrightarrow> m = n"
  using undec_dec_pad by metis

lemma length_dec_pad: "n < 10 ^ w \<Longrightarrow> 0 < w \<Longrightarrow> length (dec_pad w n) = w"
  using length_dec_le [of n w] by (simp add: dec_pad_def)

lemma length_dec_pad_le: "n < 10 ^ k \<Longrightarrow> 0 < k \<Longrightarrow> w \<le> k \<Longrightarrow> length (dec_pad w n) \<le> k"
  using length_dec_le [of n k] by (simp add: dec_pad_def)

section \<open>Interfaces of step relations\<close>

text \<open>
  A component whose threads take steps promises an invariant: it holds at the start
  and every step keeps it. What clients use is that it holds after every run.
\<close>

locale invariant_system =
  fixes start :: "'s \<Rightarrow> bool"
    and step :: "'s \<Rightarrow> 's \<Rightarrow> bool"
    and inv :: "'s \<Rightarrow> bool"
  assumes start_inv: "start s \<Longrightarrow> inv s"
    and step_inv: "step s t \<Longrightarrow> inv s \<Longrightarrow> inv t"
begin

lemma run_inv: "step\<^sup>*\<^sup>* s t \<Longrightarrow> inv s \<Longrightarrow> inv t"
  by (induction rule: rtranclp_induct) (auto intro: step_inv)

lemma reachable_inv: "step\<^sup>*\<^sup>* s t \<Longrightarrow> start s \<Longrightarrow> inv t"
  by (rule run_inv) (auto intro: start_inv)

end

text \<open>
  A component that implements an abstract one: under the invariant, every step is a
  step of the abstract component on the abstracted states.
\<close>

locale simulation = invariant_system start step inv
  for start :: "'s \<Rightarrow> bool" and step :: "'s \<Rightarrow> 's \<Rightarrow> bool" and inv :: "'s \<Rightarrow> bool" +
  fixes abs :: "'s \<Rightarrow> 'a"
    and astep :: "'a \<Rightarrow> 'a \<Rightarrow> bool"
  assumes step_sim: "step s t \<Longrightarrow> inv s \<Longrightarrow> astep (abs s) (abs t)"
begin

lemma run_sim: "step\<^sup>*\<^sup>* s t \<Longrightarrow> inv s \<Longrightarrow> astep\<^sup>*\<^sup>* (abs s) (abs t)"
proof (induction rule: rtranclp_induct)
  case (step y z)
  then have "inv y" by (blast intro: run_inv)
  with step show ?case by (meson rtranclp.rtrancl_into_rtrancl step_sim)
qed simp

end

section \<open>The interface of a map\<close>

text \<open>
  What a client of a finite map relies on. The operations may fail (\<open>None\<close>); \<open>ok p m\<close>
  says that \<open>m\<close> is well formed after at most \<open>p\<close> insertions, and \<open>limit\<close> bounds the
  insertions that the provider supports.
\<close>

datatype ('k, 'v) kv_op = Put 'k 'v | Del 'k

fun kv_spec :: "('k, 'v) kv_op \<Rightarrow> ('k \<rightharpoonup> 'v) \<Rightarrow> ('k \<rightharpoonup> 'v)" where
  "kv_spec (Put k v) m = m(k \<mapsto> v)"
| "kv_spec (Del k) m = m(k := None)"

fun kv_run ::
  "('m \<Rightarrow> 'k \<Rightarrow> 'v \<Rightarrow> 'm option) \<Rightarrow> ('m \<Rightarrow> 'k \<Rightarrow> 'm option) \<Rightarrow> ('k, 'v) kv_op list \<Rightarrow> 'm \<Rightarrow> 'm option" where
  "kv_run update delete [] m = Some m"
| "kv_run update delete (Put k v # os) m = Option.bind (update m k v) (kv_run update delete os)"
| "kv_run update delete (Del k # os) m = Option.bind (delete m k) (kv_run update delete os)"

locale kv_map =
  fixes ok :: "nat \<Rightarrow> 'm \<Rightarrow> bool"
    and limit :: nat
    and empty :: 'm
    and lookup :: "'m \<Rightarrow> 'k \<Rightarrow> 'v option"
    and update :: "'m \<Rightarrow> 'k \<Rightarrow> 'v \<Rightarrow> 'm option"
    and delete :: "'m \<Rightarrow> 'k \<Rightarrow> 'm option"
  assumes empty_ok: "ok 0 empty"
    and lookup_empty: "lookup empty = Map.empty"
    and ok_mono: "ok p m \<Longrightarrow> ok (p + 1) m"
    and update_ok: "ok p m \<Longrightarrow> p < limit \<Longrightarrow>
      \<exists>m'. update m k v = Some m' \<and> ok (p + 1) m' \<and> lookup m' = (lookup m)(k \<mapsto> v)"
    and delete_ok: "ok p m \<Longrightarrow> \<exists>m'. delete m k = Some m' \<and> ok p m' \<and> lookup m' = (lookup m)(k := None)"
begin

lemma run_ok:
  "ok p m \<Longrightarrow> p + length os \<le> limit \<Longrightarrow>
    \<exists>m'. kv_run update delete os m = Some m' \<and> ok (p + length os) m' \<and> lookup m' = fold kv_spec os (lookup m)"
proof (induction os arbitrary: p m)
  case (Cons a os)
  have "\<exists>m1. kv_run update delete (a # os) m = kv_run update delete os m1 \<and> ok (p + 1) m1
    \<and> lookup m1 = kv_spec a (lookup m)"
  proof (cases a)
    case (Put k v)
    then show ?thesis using update_ok [OF Cons.prems(1), of k v] Cons.prems(2) by auto
  next
    case (Del k)
    then show ?thesis using delete_ok [OF Cons.prems(1), of k] ok_mono by auto
  qed
  then obtain m1 where "kv_run update delete (a # os) m = kv_run update delete os m1" "ok (p + 1) m1"
    "lookup m1 = kv_spec a (lookup m)" by blast
  then show ?case using Cons.IH [of "p + 1" m1] Cons.prems(2) by simp
qed simp

lemma run_from_empty:
  "length os \<le> limit \<Longrightarrow> \<exists>m. kv_run update delete os empty = Some m \<and> lookup m = fold kv_spec os Map.empty"
  using run_ok [OF empty_ok, of os] lookup_empty by auto

end

end
