(* ===== verification/Toeplitz.thy ===== *)
theory Toeplitz
  imports Prelude
begin

text \<open>
  The receive-side-scaling hash of src/toeplitz_hash.c.

  \<open>toeplitz_hash\<close> is the bit-serial routine of the source: a 32-bit register \<open>v\<close>
  slides over the key, one bit per bit of the input, and is exclusive-ored into
  the hash where the input bit is set. The tests of the file that call it
  (\<open>test1\<close>, \<open>test21\<close>, \<open>test22\<close>, \<open>test3\<close>, \<open>testF1\<close>, \<open>testF2\<close>) are modelled with
  the stores they do into their stack buffers; a store outside the buffer is
  \<open>None\<close>. \<open>toeplitz_ref\<close> is the definition of the hash in the data sheet the
  source cites: the exclusive or of the 32-bit key windows that start at the set
  bits of the input.
\<close>

section \<open>Keys\<close>

definition default_rsskey_40bytes :: bytes where
  "default_rsskey_40bytes =
    [0x6d, 0x5a, 0x56, 0xda, 0x25, 0x5b, 0x0e,
     0xc2, 0x41, 0x67, 0x25, 0x3d, 0x43, 0xa3, 0x8f, 0xb0, 0xd0, 0xca, 0x2b,
     0xcb, 0xae, 0x7b, 0x30, 0xb4, 0x77, 0xcb, 0x2d, 0xa3, 0x80, 0x30, 0xf2,
     0x0c, 0x6a, 0x42, 0xb7, 0x3b, 0xbe, 0xac, 0x01, 0xfa]"

definition rss_sym_key :: bytes where
  "rss_sym_key =
    [0x6D, 0x5A, 0x6D, 0x5A, 0x6D, 0x5A, 0x6D, 0x5A,
     0x6D, 0x5A, 0x6D, 0x5A, 0x6D, 0x5A, 0x6D, 0x5A,
     0x6D, 0x5A, 0x6D, 0x5A, 0x6D, 0x5A, 0x6D, 0x5A,
     0x6D, 0x5A, 0x6D, 0x5A, 0x6D, 0x5A, 0x6D, 0x5A,
     0x6D, 0x5A, 0x6D, 0x5A, 0x6D, 0x5A, 0x6D, 0x5A]"

definition rss_hack_dport :: bytes where
  "rss_hack_dport =
    [0x00, 0x00, 0x00, 0x00, 0x00, 0x00, 0x00, 0x00,
     0x00, 0x00, 0x00, 0x00, 0x00, 0x00, 0x01, 0x00,
     0x00, 0x00, 0x00, 0x00, 0x00, 0x00, 0x00, 0x00,
     0x00, 0x00, 0x00, 0x00, 0x00, 0x00, 0x00, 0x00,
     0x00, 0x00, 0x00, 0x00, 0x00, 0x00, 0x00, 0x00]"

definition rss_hack_sip_16 :: bytes where
  "rss_hack_sip_16 =
    [0x00, 0x00, 0x00, 0x00, 0x10, 0x00, 0x00, 0x00,
     0x00, 0x00, 0x00, 0x00, 0x00, 0x00, 0x00, 0x00,
     0x00, 0x00, 0x00, 0x00, 0x00, 0x00, 0x00, 0x00,
     0x00, 0x00, 0x00, 0x00, 0x00, 0x00, 0x00, 0x00,
     0x00, 0x00, 0x00, 0x00, 0x00, 0x00, 0x00, 0x00]"

definition rss_sym_key_small :: bytes where
  "rss_sym_key_small = [0xFF, 0xFF, 0xFF, 0xFF, 0xFF, 0xFF, 0xFF, 0xFF]"

section \<open>The hash\<close>

text \<open>
  The body of the inner loop: byte \<open>i\<close>, bit \<open>b\<close>, state \<open>(hash, v)\<close>. The index is a \<open>uint32_t\<close>
  in the code; \<open>i + 4\<close> does not wrap while the data has fewer than \<open>2 ^ 32 - 4\<close> bytes.
\<close>

definition hash_step :: "bytes \<Rightarrow> bytes \<Rightarrow> nat \<Rightarrow> nat \<Rightarrow> u32 \<times> u32 \<Rightarrow> u32 \<times> u32" where
  "hash_step key data i b = (\<lambda>(hash, v).
     let hash = (if bit (data ! i) (7 - b) then hash XOR v else hash);
         v = push_bit 1 v;
         v = (if i + 4 < length key \<and> bit (key ! (i + 4)) (7 - b) then v OR 1 else v)
     in (hash, v))"

definition hash_byte :: "bytes \<Rightarrow> bytes \<Rightarrow> nat \<Rightarrow> u32 \<times> u32 \<Rightarrow> u32 \<times> u32" where
  "hash_byte key data i st = fold (\<lambda>b. hash_step key data i b) [0..<8] st"

definition key_head :: "bytes \<Rightarrow> u32" where
  "key_head key = push_bit 24 (ucast (key ! 0)) + push_bit 16 (ucast (key ! 1))
     + push_bit 8 (ucast (key ! 2)) + ucast (key ! 3)"

text \<open>
  The source reads \<open>key[0..3]\<close> whatever \<open>keylen\<close> is, so a key of fewer than four
  bytes is an out-of-bounds read: \<open>None\<close>.
\<close>

definition toeplitz_hash :: "bytes \<Rightarrow> bytes \<Rightarrow> u32 option" where
  "toeplitz_hash key data =
     (if length key < 4 then None
      else Some (fst (fold (hash_byte key data) [0..<length data] (0, key_head key))))"

section \<open>The callers\<close>

text \<open>
  Each test fills a stack array by stores through cast pointers, in the order of
  the source. \<open>memcpy_at\<close> makes a store past the array's end \<open>None\<close>.
\<close>

definition store_tuple :: "u32 \<Rightarrow> u32 \<Rightarrow> u16 \<Rightarrow> u16 \<Rightarrow> bytes \<Rightarrow> bytes option" where
  "store_tuple a b aa bb data =
     Option.bind (memcpy_at 0 (le32 a) data) (\<lambda>data.
     Option.bind (memcpy_at 4 (le32 b) data) (\<lambda>data.
     Option.bind (memcpy_at 8 (le16 aa) data) (\<lambda>data.
     memcpy_at 10 (le16 bb) data)))"

definition hash_both_ways ::
  "bytes \<Rightarrow> bytes \<Rightarrow> u32 \<Rightarrow> u32 \<Rightarrow> u16 \<Rightarrow> u16 \<Rightarrow> (u32 \<times> u32) option" where
  "hash_both_ways key data a b aa bb =
     Option.bind (store_tuple a b aa bb data) (\<lambda>data.
     Option.bind (toeplitz_hash key data) (\<lambda>j1.
     Option.bind (store_tuple b a bb aa data) (\<lambda>data.
     Option.bind (toeplitz_hash key data) (\<lambda>j2. Some (j1, j2)))))"

text \<open>
  \<open>data0\<close> is the uninitialised content of the stack array.
\<close>

definition test21 :: "bytes \<Rightarrow> u32 \<Rightarrow> u32 \<Rightarrow> u16 \<Rightarrow> u16 \<Rightarrow> (u32 \<times> u32) option" where
  "test21 data0 a b aa bb = hash_both_ways default_rsskey_40bytes (take 12 data0) a b aa bb"

definition test22 :: "bytes \<Rightarrow> u32 \<Rightarrow> u32 \<Rightarrow> u16 \<Rightarrow> u16 \<Rightarrow> (u32 \<times> u32) option" where
  "test22 data0 a b aa bb = hash_both_ways rss_sym_key (take 12 data0) a b aa bb"

text \<open>\<open>test1\<close> stores one byte as an \<open>int\<close>, and the second address as a \<open>short\<close>.\<close>

definition test1 :: "bytes \<Rightarrow> u8 \<Rightarrow> u32 \<Rightarrow> u32 \<Rightarrow> u16 \<Rightarrow> u16 \<Rightarrow> u32 option" where
  "test1 data0 p a b aa bb =
     Option.bind (memcpy_at 0 (le32 (ucast p)) (take 13 data0)) (\<lambda>data.
     Option.bind (memcpy_at 1 (le32 a) data) (\<lambda>data.
     Option.bind (memcpy_at 5 (le16 (ucast b)) data) (\<lambda>data.
     Option.bind (memcpy_at 9 (le16 aa) data) (\<lambda>data.
     Option.bind (memcpy_at 11 (le16 bb) data) (\<lambda>data.
     toeplitz_hash rss_sym_key data)))))"

text \<open>\<open>test3\<close> stores two \<open>short\<close> arguments, sign extended, through \<open>int *\<close>.\<close>

definition test3 :: "bytes \<Rightarrow> u16 \<Rightarrow> u16 \<Rightarrow> u32 option" where
  "test3 data0 aa bb =
     Option.bind (memcpy_at 0 (le32 (signed aa)) (take 4 data0)) (\<lambda>data.
     Option.bind (memcpy_at 2 (le32 (signed bb)) data) (\<lambda>data.
     toeplitz_hash rss_sym_key_small data))"

text \<open>\<open>htons\<close> as \<open>testF1\<close> writes it: swap the two bytes of a port.\<close>

definition swap16 :: "u16 \<Rightarrow> u16" where
  "swap16 i = push_bit 8 (i AND 0xFF) + drop_bit 8 (i AND 0xFF00)"

text \<open>
  The second loop of \<open>testF1\<close>: with the destination port fixed, the source ports
  whose hash differs from the reference hash (the lines \<open>Miss_Match_Map\<close>).
\<close>

definition testF1_hash :: "u16 \<Rightarrow> u16 \<Rightarrow> u32 option" where
  "testF1_hash sport dport =
     Option.bind (store_tuple 0xc0a80103 0x72f5269e sport dport (replicate 12 0))
       (toeplitz_hash rss_hack_dport)"

definition testF1_mismatches :: "u16 list" where
  "testF1_mismatches =
     filter (\<lambda>i. testF1_hash (swap16 i) 0x1a90 \<noteq> testF1_hash 0x1F23 0x1a90)
       (map of_nat [1..<0xFFFF])"

text \<open>\<open>testF2\<close>: the hash of sixteen consecutive source addresses.\<close>

definition testF2_hash :: "u32 \<Rightarrow> u32 option" where
  "testF2_hash sip =
     Option.bind (store_tuple sip 0x72f5269e 0x1F23 0x1a90 (replicate 12 0))
       (toeplitz_hash rss_hack_sip_16)"

definition testF2 :: "u32 option list" where
  "testF2 = map (\<lambda>i. testF2_hash (0xc0a80100 + of_nat i)) [0..<16]"

section \<open>The reference definition\<close>

definition key_bit :: "bytes \<Rightarrow> nat \<Rightarrow> bool" where
  "key_bit key n \<longleftrightarrow> n div 8 < length key \<and> bit (key ! (n div 8)) (7 - n mod 8)"

definition key_window :: "bytes \<Rightarrow> nat \<Rightarrow> u32" where
  "key_window key n = horner_sum of_bool 2 (map (\<lambda>j. key_bit key (n + 31 - j)) [0..<32])"

definition byte_ref :: "bytes \<Rightarrow> nat \<Rightarrow> u8 \<Rightarrow> u32" where
  "byte_ref key off d =
     foldr (XOR) (map (\<lambda>b. if bit d (7 - b) then key_window key (8 * off + b) else 0) [0..<8]) 0"

fun chunk_ref :: "bytes \<Rightarrow> nat \<Rightarrow> bytes \<Rightarrow> u32" where
  "chunk_ref key off [] = 0"
| "chunk_ref key off (d # ds) = byte_ref key off d XOR chunk_ref key (Suc off) ds"

definition toeplitz_ref :: "bytes \<Rightarrow> bytes \<Rightarrow> u32" where
  "toeplitz_ref key data = chunk_ref key 0 data"

section \<open>The sliding register holds the key window\<close>

lemma bit_key_window:
  "bit (key_window key n) j \<longleftrightarrow> j < 32 \<and> key_bit key (n + 31 - j)"
  by (auto simp: key_window_def bit_horner_sum_bit_word_iff)

lemma bit_shl1: "bit (push_bit 1 (w::u32)) j \<longleftrightarrow> j < 32 \<and> 0 < j \<and> bit w (j - 1)"
  by (auto simp only: bit_push_bit_iff possible_bit_word) (auto simp: Suc_le_eq)

lemma key_window_Suc:
  "(if key_bit key (n + 32) then push_bit 1 (key_window key n) OR 1
    else push_bit 1 (key_window key n)) = key_window key (Suc n)"
proof (rule bit_word_eqI)
  fix j assume "j < LENGTH(32)"
  then have j: "j < 32" by simp
  define w where "w = push_bit 1 (key_window key n)"
  have w: "bit w j \<longleftrightarrow> 0 < j \<and> key_bit key (n + 31 - (j - 1))"
    unfolding w_def using j by (simp only: bit_shl1 bit_key_window) auto
  have one: "bit (1::u32) j \<longleftrightarrow> j = 0"
    by (auto simp: bit_1_iff)
  have idx: "Suc n + 31 - j = (if j = 0 then n + 32 else n + 31 - (j - 1))"
    using j by auto
  show "bit (if key_bit key (n + 32) then push_bit 1 (key_window key n) OR 1
      else push_bit 1 (key_window key n)) j \<longleftrightarrow> bit (key_window key (Suc n)) j"
    unfolding w_def [symmetric] bit_key_window idx using j w one
    by (auto simp: bit_or_iff)
qed

lemma not_bit_u8: "8 \<le> n \<Longrightarrow> \<not> bit (w::u8) n"
  using bit_imp_le_length [of w n] by auto

lemma key_head_or:
  "key_head key = push_bit 24 (ucast (key ! 0)) OR push_bit 16 (ucast (key ! 1))
     OR push_bit 8 (ucast (key ! 2)) OR ucast (key ! 3)"
proof -
  have disj: "a + b = a OR b" if "\<And>n. \<not> (bit a n \<and> bit b n)" for a b :: u32
    by (rule disjunctive_add_eq_or) (use that in \<open>auto simp: bit_eq_iff bit_and_iff\<close>)
  let ?a = "push_bit 24 (ucast (key ! 0)) :: u32" and ?b = "push_bit 16 (ucast (key ! 1)) :: u32"
    and ?c = "push_bit 8 (ucast (key ! 2)) :: u32" and ?d = "ucast (key ! 3) :: u32"
  have 1: "?a + ?b = ?a OR ?b"
    by (rule disj) (auto simp: bit_push_bit_iff bit_ucast_iff not_bit_u8)
  have 2: "(?a OR ?b) + ?c = (?a OR ?b) OR ?c"
    by (rule disj) (auto simp: bit_push_bit_iff bit_or_iff bit_ucast_iff not_bit_u8)
  have 3: "((?a OR ?b) OR ?c) + ?d = ((?a OR ?b) OR ?c) OR ?d"
    by (rule disj) (auto simp: bit_push_bit_iff bit_or_iff bit_ucast_iff not_bit_u8)
  show ?thesis
    unfolding key_head_def 1 2 3 by (simp only: or.assoc)
qed

lemma key_head_window:
  assumes "4 \<le> length key"
  shows "key_head key = key_window key 0"
proof (rule bit_word_eqI)
  fix j assume "j < LENGTH(32)"
  then have j: "j < 32" by simp
  define q r where "q = j div 8" and "r = j mod 8"
  have qr: "j = 8 * q + r" "r < 8" "q < 4"
    using j by (auto simp: q_def r_def)
  have "31 - j = (7 - r) + 8 * (3 - q)"
    using qr by linarith
  moreover have "7 - r < 8" by simp
  ultimately have dm: "(31 - j) div 8 = 3 - q" "(31 - j) mod 8 = 7 - r"
    by simp_all
  have "bit (key_window key 0) j \<longleftrightarrow> bit (key ! (3 - q)) r"
    using qr(2,3) j assms by (auto simp: bit_key_window key_bit_def dm)
  moreover have "q = 0 \<or> q = 1 \<or> q = 2 \<or> q = 3"
    using qr by linarith
  ultimately show "bit (key_head key) j \<longleftrightarrow> bit (key_window key 0) j"
    using qr by (auto simp: key_head_or bit_or_iff bit_push_bit_iff bit_ucast_iff not_bit_u8)
qed

lemma hash_step_window:
  assumes "b < 8"
  shows "hash_step key data i b (h, key_window key (8 * i + b)) =
    ((if bit (data ! i) (7 - b) then h XOR key_window key (8 * i + b) else h),
     key_window key (Suc (8 * i + b)))"
proof -
  have "(8 * i + b + 32) div 8 = i + 4" "(8 * i + b + 32) mod 8 = b"
    using assms by arith+
  then have "key_bit key (8 * i + b + 32) \<longleftrightarrow> i + 4 < length key \<and> bit (key ! (i + 4)) (7 - b)"
    by (simp add: key_bit_def)
  then show ?thesis
    using key_window_Suc [of key "8 * i + b"]
    by (auto simp: hash_step_def Let_def)
qed

lemma hash_byte_window:
  "hash_byte key data i (h, key_window key (8 * i)) =
    (h XOR byte_ref key i (data ! i), key_window key (8 * Suc i))"
proof -
  have "fold (hash_step key data i) [0..<n] (h, key_window key (8 * i)) =
      (h XOR foldr (XOR) (map (\<lambda>b. if bit (data ! i) (7 - b) then key_window key (8 * i + b) else 0) [0..<n]) 0,
       key_window key (8 * i + n))" if "n \<le> 8" for n
    using that
  proof (induction n)
    case (Suc n)
    have xf: "foldr (XOR) xs (y::u32) = foldr (XOR) xs 0 XOR y" for xs y
      by (induction xs) (simp_all add: xor.assoc)
    show ?case using Suc hash_step_window [of n]
      by (simp add: xf [where y = "_ XOR _"] xf [where y = "key_window _ _"] xor.assoc)
  qed simp
  from this [of 8] show ?thesis
    by (simp add: hash_byte_def byte_ref_def add.commute)
qed

lemma fold_hash_byte_window:
  "fold (hash_byte key data) [m..<m + n] (h, key_window key (8 * m)) =
     (h XOR chunk_ref key m (map ((!) data) [m..<m + n]), key_window key (8 * (m + n)))"
proof (induction n arbitrary: m h)
  case (Suc n)
  have "[m..<m + Suc n] = m # [Suc m..<Suc m + n]"
    by (simp add: upt_rec)
  then show ?case
    using Suc.IH [of "Suc m" "h XOR byte_ref key m (data ! m)"]
    by (simp add: hash_byte_window xor.assoc)
qed simp

section \<open>Linearity and locality of the reference hash\<close>

lemma chunk_ref_append:
  "chunk_ref key off (xs @ ys) = chunk_ref key off xs XOR chunk_ref key (off + length xs) ys"
  by (induction xs arbitrary: off) (simp_all add: xor.assoc)

lemma byte_ref_cong:
  assumes "\<And>b. b < 8 \<Longrightarrow> key_window key (8 * m + b) = key_window key' (8 * n + b)"
  shows "byte_ref key m d = byte_ref key' n d"
proof -
  have "map (\<lambda>b. if bit d (7 - b) then key_window key (8 * m + b) else 0) [0..<8]
      = map (\<lambda>b. if bit d (7 - b) then key_window key' (8 * n + b) else 0) [0..<8]"
    using assms by (intro map_cong) auto
  then show ?thesis by (simp only: byte_ref_def)
qed

lemma chunk_ref_shift:
  assumes "\<And>i b. i < length ds \<Longrightarrow> b < 8 \<Longrightarrow>
      key_window key (8 * (m + i) + b) = key_window key (8 * (n + i) + b)"
  shows "chunk_ref key m ds = chunk_ref key n ds"
  using assms
proof (induction ds arbitrary: m n)
  case (Cons d ds)
  have "byte_ref key m d = byte_ref key n d"
    using Cons.prems [of 0] by (intro byte_ref_cong) simp
  moreover have "chunk_ref key (Suc m) ds = chunk_ref key (Suc n) ds"
    using Cons.prems [of "Suc _"] by (intro Cons.IH) simp
  ultimately show ?case by simp
qed simp

lemma byte_ref_zero_windows:
  assumes "\<And>b. b < 8 \<Longrightarrow> key_window key (8 * off + b) = 0"
  shows "byte_ref key off d = 0"
proof -
  have "foldr (XOR) xs (0::u32) = 0" if "set xs \<subseteq> {0}" for xs
    using that by (induction xs) auto
  then show ?thesis
    unfolding byte_ref_def using assms by (simp add: image_subset_iff)
qed

section \<open>The symmetric key\<close>

lemma rss_sym_key_nth: "m < 40 \<Longrightarrow> rss_sym_key ! m = (if even m then 0x6D else 0x5A)"
proof -
  have "\<forall>m \<in> set [0..<40]. rss_sym_key ! m = (if even m then 0x6D else 0x5A)"
    unfolding rss_sym_key_def by code_simp
  then show "m < 40 \<Longrightarrow> ?thesis" by simp
qed

lemma length_rss_sym_key [simp]: "length rss_sym_key = 40"
  by (simp add: rss_sym_key_def)

lemma rss_sym_key_window_period:
  assumes "n + 16 * k + 31 < 320"
  shows "key_window rss_sym_key (n + 16 * k) = key_window rss_sym_key n"
proof (rule bit_word_eqI)
  fix j assume "j < LENGTH(32)"
  then have j: "j < 32" by simp
  define m where "m = n + 31 - j"
  have m: "n + 16 * k + 31 - j = m + 8 * (2 * k)" "m + 16 * k < 320"
    using j assms by (auto simp: m_def)
  have "(m + 8 * (2 * k)) div 8 = m div 8 + 2 * k" "(m + 8 * (2 * k)) mod 8 = m mod 8"
    by (simp_all only: div_mult_self2 mod_mult_self2)
  moreover have "m div 8 + 2 * k < 40" "m div 8 < 40"
    using m(2) by linarith+
  ultimately have "key_bit rss_sym_key (m + 8 * (2 * k)) = key_bit rss_sym_key m"
    by (simp add: key_bit_def rss_sym_key_nth)
  then show "bit (key_window rss_sym_key (n + 16 * k)) j = bit (key_window rss_sym_key n) j"
    using j m by (simp add: bit_key_window m_def)
qed

lemma rss_sym_key_shift:
  assumes "m + 2 * k + length ds \<le> 36"
  shows "chunk_ref rss_sym_key (m + 2 * k) ds = chunk_ref rss_sym_key m ds"
proof (rule chunk_ref_shift)
  fix i b :: nat assume "i < length ds" "b < 8"
  then have "Suc i \<le> length ds" "b \<le> 7" by simp_all
  then have "m + i + 2 * k \<le> 35" "b \<le> 7" using assms by linarith+
  then have "8 * (m + i) + b + 16 * k + 31 < 320" by presburger
  then show "key_window rss_sym_key (8 * (m + 2 * k + i) + b) = key_window rss_sym_key (8 * (m + i) + b)"
    using rss_sym_key_window_period [of "8 * (m + i) + b" k] by (simp add: algebra_simps)
qed

lemma rss_sym_key_swap:
  assumes "length a = 4" "length b = 4" "length c = 2" "length d = 2"
  shows "toeplitz_ref rss_sym_key (a @ b @ c @ d) = toeplitz_ref rss_sym_key (b @ a @ d @ c)"
proof -
  let ?k = rss_sym_key
  have "chunk_ref ?k 4 a = chunk_ref ?k 0 a" "chunk_ref ?k 4 b = chunk_ref ?k 0 b"
    using rss_sym_key_shift [of 0 2] assms by simp_all
  moreover have "chunk_ref ?k 10 c = chunk_ref ?k 8 c" "chunk_ref ?k 10 d = chunk_ref ?k 8 d"
    using rss_sym_key_shift [of 8 1] assms by simp_all
  ultimately show ?thesis
    using assms by (simp add: toeplitz_ref_def chunk_ref_append ac_simps)
qed

section \<open>The stores of the tests\<close>

lemma store_tuple_eq:
  "length data = 12 \<Longrightarrow> store_tuple a b aa bb data = Some (le32 a @ le32 b @ le16 aa @ le16 bb)"
  by (simp add: store_tuple_def memcpy_at_def overwrite_def)

section \<open>Properties\<close>

lemma toeplitz_hash_eq_ref:
  "toeplitz_hash key data = (if length key < 4 then None else Some (toeplitz_ref key data))"
proof (cases "length key < 4")
  case False
  then have "key_head key = key_window key (8 * 0)"
    by (simp add: key_head_window)
  then show ?thesis
    using False fold_hash_byte_window [of key data 0 "length data" 0]
    by (simp add: toeplitz_hash_def toeplitz_ref_def map_nth)
qed (simp add: toeplitz_hash_def)

text \<open>C8. toeplitz_hash computes the reference Toeplitz hash: the exclusive or, over the
  set bits of the input, of the 32-bit key windows at their positions (keys shorter
  than four bytes are read out of bounds). Keys and data are shorter than 2^32 - 4
  bytes, so that the index does not wrap.\<close>

theorem toeplitz_hash_correct:
  "toeplitz_hash key data = (if length key < 4 then None else Some (toeplitz_ref key data))"
  by (rule toeplitz_hash_eq_ref)

lemma test22_symmetric:
  assumes "12 \<le> length data0"
  shows "\<exists>j. test22 data0 a b aa bb = Some (j, j)"
proof -
  have "toeplitz_ref rss_sym_key (le32 a @ le32 b @ le16 aa @ le16 bb)
      = toeplitz_ref rss_sym_key (le32 b @ le32 a @ le16 bb @ le16 aa)"
    by (rule rss_sym_key_swap) simp_all
  then show ?thesis
    using assms
    by (simp add: test22_def hash_both_ways_def store_tuple_eq toeplitz_hash_eq_ref)
qed

lemma test22_symmetric_witness:
  "\<exists>j. test22 (replicate 12 0) 0xc0a80103 0x72f5269e 0xbede 0x1a90 = Some (j, j)"
  by (rule test22_symmetric) simp

lemma key_bit_single:
  "key_bit (replicate p 0 @ [w] @ replicate q 0) m \<longleftrightarrow> m div 8 = p \<and> bit w (7 - m mod 8)"
  by (cases "m div 8" p rule: linorder_cases) (auto simp: key_bit_def nth_append nth_Cons')

lemma one_bit_u8: "bit (2 ^ k :: u8) n \<longleftrightarrow> n = k \<and> k < 8"
  by (auto simp: bit_exp_iff)

lemma rss_hack_dport_window:
  assumes "n < 88" shows "key_window rss_hack_dport n = 0"
proof -
  have eq: "rss_hack_dport = replicate 14 0 @ [0x01] @ replicate 25 0"
    by (simp add: rss_hack_dport_def numeral_eq_Suc)
  have "key_bit rss_hack_dport m \<longleftrightarrow> m div 8 = 14 \<and> bit (1 :: u8) (7 - m mod 8)" for m
    unfolding eq by (rule key_bit_single)
  moreover have "\<not> (m div 8 = 14 \<and> 7 \<le> m mod 8)" if "m < 119" for m :: nat
    using that by presburger
  ultimately have "\<not> key_bit rss_hack_dport (n + 31 - j)" for j
    using assms by (simp add: bit_1_iff)
  then show ?thesis
    by (intro bit_word_eqI) (simp add: bit_key_window)
qed

lemma rss_hack_dport_ref:
  assumes "length xs = 11"
  shows "toeplitz_ref rss_hack_dport (xs @ [y]) = byte_ref rss_hack_dport 11 y"
proof -
  have "chunk_ref rss_hack_dport off ds = 0" if "off + length ds \<le> 11" for off ds
    using that
  proof (induction ds arbitrary: off)
    case (Cons d ds)
    have "byte_ref rss_hack_dport off d = 0"
      using Cons.prems by (intro byte_ref_zero_windows rss_hack_dport_window) simp
    then show ?case using Cons by simp
  qed simp
  then show ?thesis using assms by (simp add: toeplitz_ref_def chunk_ref_append)
qed

lemma testF1_hash_eq:
  "testF1_hash sport dport = Some (byte_ref rss_hack_dport 11 (ucast (drop_bit 8 dport)))"
  using rss_hack_dport_ref [of "le32 0xc0a80103 @ le32 0x72f5269e @ le16 sport @ [ucast dport]"
      "ucast (drop_bit 8 dport)"]
  by (simp add: testF1_hash_def store_tuple_eq toeplitz_hash_eq_ref le16_def rss_hack_dport_def)

lemma testF1_no_mismatch: "testF1_mismatches = []"
  by (simp add: testF1_mismatches_def testF1_hash_eq)

lemma rss_hack_sip_16_key_bit: "key_bit rss_hack_sip_16 m \<longleftrightarrow> m = 35"
proof -
  have eq: "rss_hack_sip_16 = replicate 4 0 @ [0x10] @ replicate 35 0"
    by (simp add: rss_hack_sip_16_def numeral_eq_Suc)
  have "key_bit rss_hack_sip_16 m \<longleftrightarrow> m div 8 = 4 \<and> bit (0x10 :: u8) (7 - m mod 8)"
    unfolding eq by (rule key_bit_single)
  also have "\<dots> \<longleftrightarrow> m = 35"
    using one_bit_u8 [of 4 "7 - m mod 8"] by auto presburger+
  finally show ?thesis .
qed

lemma rss_hack_sip_16_low_bits:
  assumes "j < 4"
  shows "bit (chunk_ref rss_hack_sip_16 0 (d # ds)) j \<longleftrightarrow> bit d (3 - j)"
proof -
  have win: "bit (key_window rss_hack_sip_16 n) j \<longleftrightarrow> n = j + 4" if "j < 4" for n j
    using that by (auto simp: bit_key_window rss_hack_sip_16_key_bit)
  have "\<not> bit (byte_ref rss_hack_sip_16 off x) j" if "1 \<le> off" for off x
    using that assms by (simp add: byte_ref_def upt_rec bit_xor_iff win)
  then have "\<not> bit (chunk_ref rss_hack_sip_16 off xs) j" if "1 \<le> off" for off xs
    using that by (induction xs arbitrary: off) (simp_all add: bit_xor_iff)
  moreover have "bit (byte_ref rss_hack_sip_16 0 d) j \<longleftrightarrow> bit d (3 - j)"
  proof -
    have "j = 0 \<or> j = 1 \<or> j = 2 \<or> j = 3" using assms by linarith
    then show ?thesis by (elim disjE) (simp_all add: byte_ref_def upt_rec bit_xor_iff win)
  qed
  ultimately show ?thesis by (simp add: bit_xor_iff)
qed

lemma testF2_hash_low_bits:
  assumes "j < 4" shows "bit (the (testF2_hash sip)) j \<longleftrightarrow> bit sip (3 - j)"
proof -
  have "testF2_hash sip = Some (toeplitz_ref rss_hack_sip_16
      (le32 sip @ le32 0x72f5269e @ le16 0x1F23 @ le16 0x1a90))"
    by (simp add: testF2_hash_def store_tuple_eq toeplitz_hash_eq_ref rss_hack_sip_16_def)
  then show ?thesis
    using assms by (auto simp: toeplitz_ref_def le32_def rss_hack_sip_16_low_bits bit_ucast_iff
        simp del: chunk_ref.simps)
qed

lemma testF2_spreads: "distinct (map (\<lambda>h. the h mod 16) testF2)"
proof -
  define f where "f i = the (testF2_hash (0xc0a80100 + of_nat i)) mod 16" for i :: nat
  have low: "bit (f i) j \<longleftrightarrow> bit (0xc0a80100 + of_nat i :: u32) (3 - j)" if "j < 4" for i j
    using that by (simp add: f_def bit_take_bit_iff testF2_hash_low_bits
        flip: take_bit_eq_mod [where n = 4, simplified])
  have eq: "take_bit 4 (0xc0a80100 + of_nat i :: u32) = of_nat i" if "i < 16" for i :: nat
  proof -
    have "\<forall>i \<in> set [0..<16]. take_bit 4 (0xc0a80100 + of_nat i :: u32) = of_nat i"
      by code_simp
    then show ?thesis using that by simp
  qed
  have "inj_on f {..<16}"
  proof (rule inj_onI)
    fix i k :: nat assume ik: "i \<in> {..<16}" "k \<in> {..<16}" "f i = f k"
    have "take_bit 4 (0xc0a80100 + of_nat i :: u32) = take_bit 4 (0xc0a80100 + of_nat k)"
    proof (rule bit_word_eqI)
      fix j
      show "bit (take_bit 4 (0xc0a80100 + of_nat i :: u32)) j = bit (take_bit 4 (0xc0a80100 + of_nat k :: u32)) j"
        using low [of "3 - j" i] low [of "3 - j" k] ik(3) by (auto simp: bit_take_bit_iff)
    qed
    then have "(of_nat i :: u32) = of_nat k" using ik eq by simp
    then show "i = k" using ik by (simp add: of_nat_inverse word_unat_eq_iff unat_of_nat)
  qed
  then show ?thesis
    by (simp add: testF2_def f_def [abs_def] distinct_map comp_def atLeast0LessThan)
qed

lemma test3_out_of_bounds: "test3 data0 aa bb = None"
  by (cases "4 \<le> length data0") (auto simp: test3_def memcpy_at_def)

lemma test1_reads_uninitialised:
  "test1 (replicate 13 0) 6 0xc0a80103 0x72f5269e 0xbede 0x1a90
     \<noteq> test1 (replicate 7 0 @ [1] @ replicate 5 0) 6 0xc0a80103 0x72f5269e 0xbede 0x1a90"
  by code_simp

end
