(* ===== verification/LogSession.thy ===== *)
theory LogSession
  imports Prelude
begin

text \<open>
  The session of the log collection server, src/logServer.c, and its double
  buffer.

  A client session owns one heap block of twice \<open>mem_buf_len\<close> bytes: \<open>buf1\<close> is
  its first half and \<open>buf2\<close> its second. The network thread appends to \<open>cur_buf\<close>
  (\<open>pass2write\<close>), and hands a full half to the disk thread as \<open>disk_buf\<close>. When the
  other half is still pending, \<open>enlarge_session_buf\<close> moves both to a larger block.

  In the model \<open>buf1\<close> is the content of the block (\<open>None\<close> after it was freed),
  and \<open>buf2\<close>, \<open>cur_buf\<close> and \<open>disk_buf\<close> are offsets into the block, so that
  \<open>cur_buf = 0\<close> is the test \<open>s->cur_buf == s->buf1\<close>. Fields that C declares as
  \<open>int\<close> and only uses as flags are \<open>bool\<close>; byte counts of a buffer are \<open>nat\<close>; the
  64-bit counters are words. The spin lock \<open>disk_io_ops_lock\<close> has no field: each
  region the code runs with the lock held is one definition, executed atomically.
\<close>

section \<open>Constants\<close>

definition NET_READ_BUF :: nat where "NET_READ_BUF = 4 * 1024"
definition DEFAULT_DATA_BLOCK_SIZE :: nat where "DEFAULT_DATA_BLOCK_SIZE = 64 * 1024"
definition STEP_DATA_BLOCK_SIZE :: nat where "STEP_DATA_BLOCK_SIZE = 8 * 1024"
definition MAX_DATA_BLOCK_SIZE :: nat where "MAX_DATA_BLOCK_SIZE = 128 * 1024"
definition EXT_DATA_BLOCK_SIZE :: nat where "EXT_DATA_BLOCK_SIZE = 2 * 1024 * 1024"
definition REALLOC_LAT :: u64 where "REALLOC_LAT = 180"
definition FLUSH_DURATION_DEFAULT :: int where "FLUSH_DURATION_DEFAULT = 240"
definition FLUSH_DURATION_VARIABLE :: int where "FLUSH_DURATION_VARIABLE = 60"

lemmas size_consts = NET_READ_BUF_def DEFAULT_DATA_BLOCK_SIZE_def STEP_DATA_BLOCK_SIZE_def
  MAX_DATA_BLOCK_SIZE_def EXT_DATA_BLOCK_SIZE_def

section \<open>The session\<close>

record session =
  disk_buf :: "nat option"
  cur_buf :: nat
  buf1 :: "bytes option"
  buf2 :: nat
  time_out_need_flush_to_disk :: bool
  buf_full_stuck :: bool
  disk_io_in_progress :: bool
  threadidx :: nat
  net_read_buf_len :: nat
  disk_write_buf_len :: nat
  in_delete_stage :: nat
  ip :: u32
  flush_duration :: int
  events :: u32
  socket_fd :: int
  on_disk_fd :: int
  membuf_offset :: nat
  slot_idx :: int
  need_delay_free :: bool
  mem_buf_len :: nat
  file_seq :: int
  start_ticks :: u64
  last_disk_io_write_tick :: u64
  network_bytes :: u64
  disk_bytes :: u64
  rough_file_offset :: u64

text \<open>
  \<open>get_new_session\<close>: both allocations may fail. \<open>ip % FLUSH_DURATION_VARIABLE\<close> is
  taken of a signed \<open>int\<close>.
\<close>

definition get_new_session ::
  "bool \<Rightarrow> bool \<Rightarrow> u64 \<Rightarrow> int \<Rightarrow> u32 \<Rightarrow> u32 \<Rightarrow> int \<Rightarrow> nat \<Rightarrow> session option" where
  "get_new_session calloc_s calloc_buf ticks cur_seq ip0 events0 sfd tid =
     (if \<not> calloc_s then None
      else if \<not> calloc_buf then None
      else Some \<lparr>
        disk_buf = None,
        cur_buf = 0,
        buf1 = Some (replicate (2 * DEFAULT_DATA_BLOCK_SIZE) 0),
        buf2 = DEFAULT_DATA_BLOCK_SIZE,
        time_out_need_flush_to_disk = False,
        buf_full_stuck = False,
        disk_io_in_progress = False,
        threadidx = tid,
        net_read_buf_len = NET_READ_BUF,
        disk_write_buf_len = 0,
        in_delete_stage = 0,
        ip = ip0,
        flush_duration = FLUSH_DURATION_DEFAULT + c_mod (sint ip0) FLUSH_DURATION_VARIABLE,
        events = events0,
        socket_fd = sfd,
        on_disk_fd = -1,
        membuf_offset = 0,
        slot_idx = -1,
        need_delay_free = False,
        mem_buf_len = DEFAULT_DATA_BLOCK_SIZE,
        file_seq = cur_seq,
        start_ticks = ticks,
        last_disk_io_write_tick = ticks,
        network_bytes = 0,
        disk_bytes = 0,
        rough_file_offset = 0\<rparr>)"

section \<open>Enlarging the buffer\<close>

text \<open>The loop \<open>while (newlen < s->mem_buf_len + gap) newlen += STEP\<close>.\<close>

function newlen_loop :: "nat \<Rightarrow> nat \<Rightarrow> nat" where
  "newlen_loop newlen target =
     (if newlen < target then newlen_loop (newlen + STEP_DATA_BLOCK_SIZE) target else newlen)"
  by pat_completeness auto
termination
  by (relation "measure (\<lambda>(newlen, target). target - newlen)") (auto simp: STEP_DATA_BLOCK_SIZE_def)

declare newlen_loop.simps [simp del]

text \<open>
  The average rate \<open>bw\<close>, a 64-bit quotient converted to \<open>int\<close>. The early return
  on \<open>REALLOC_LAT\<close> makes the divisor nonzero.
\<close>

definition avg_bw :: "u64 \<Rightarrow> session \<Rightarrow> int" where
  "avg_bw ticks s = sint (ucast (network_bytes s div (ticks - start_ticks s)) :: u32)"

definition grow_net_read :: "int \<Rightarrow> nat \<Rightarrow> nat" where
  "grow_net_read bw net =
     (let net = (if bw > 256 * 1024 then 32 * 1024 else net);
          net = (if bw > 512 * 1024 then 64 * 1024 else net);
          net = (if bw > 1 * 1024 * 1024 then 128 * 1024 else net)
      in net)"

text \<open>
  Allocation of the new block and the two copies. \<open>calloc_ok n\<close> says whether
  \<open>calloc(2, n)\<close> succeeds; a failed \<open>assert\<close> and a copy outside a block are \<open>UB\<close>.
\<close>

definition enlarge_realloc :: "(nat \<Rightarrow> bool) \<Rightarrow> nat \<Rightarrow> session \<Rightarrow> session outcome" where
  "enlarge_realloc calloc_ok newlen s =
     (if \<not> calloc_ok newlen then Return (-1) s
      else case (buf1 s, disk_buf s) of
        (Some old, Some d) \<Rightarrow>
          (case (read_at (cur_buf s) (membuf_offset s) old,
                 read_at d (disk_write_buf_len s) old) of
            (Some cbytes, Some dbytes) \<Rightarrow>
              (case Option.bind (memcpy_at 0 cbytes (replicate (2 * newlen) 0))
                      (memcpy_at newlen dbytes) of
                Some blk \<Rightarrow> Return 0 (s\<lparr>buf1 := Some blk, mem_buf_len := newlen, buf2 := newlen,
                              cur_buf := 0, disk_buf := Some newlen\<rparr>)
              | None \<Rightarrow> UB)
          | _ \<Rightarrow> UB)
      | _ \<Rightarrow> UB)"

definition enlarge_session_buf ::
  "u64 \<Rightarrow> (nat \<Rightarrow> bool) \<Rightarrow> session \<Rightarrow> nat \<Rightarrow> session outcome" where
  "enlarge_session_buf ticks calloc_ok s gap =
     (let newlen = newlen_loop (mem_buf_len s + STEP_DATA_BLOCK_SIZE) (mem_buf_len s + gap) in
      if ticks - start_ticks s < REALLOC_LAT then Return 1 s
      else if newlen > MAX_DATA_BLOCK_SIZE then
        (let bw = avg_bw ticks s;
             s = s\<lparr>net_read_buf_len := grow_net_read bw (net_read_buf_len s)\<rparr> in
         if bw < 2 * int MAX_DATA_BLOCK_SIZE then Return 2 s
         else if int newlen > 4 * bw then Return 3 s
         else if newlen > EXT_DATA_BLOCK_SIZE then Return 4 s
         else enlarge_realloc calloc_ok newlen s)
      else enlarge_realloc calloc_ok newlen s)"

section \<open>Appending what the network thread read\<close>

definition copy_to_cur :: "session \<Rightarrow> bytes \<Rightarrow> session outcome" where
  "copy_to_cur s buf =
     (case Option.bind (buf1 s) (memcpy_at (cur_buf s + membuf_offset s) buf) of
        Some blk \<Rightarrow> Return 0 (s\<lparr>buf1 := Some blk, membuf_offset := membuf_offset s + length buf\<rparr>)
      | None \<Rightarrow> UB)"

text \<open>The exchange of the two halves, with the lock held.\<close>

definition switch_buffers :: "session \<Rightarrow> session" where
  "switch_buffers s =
     (let s = (if cur_buf s = 0 then s\<lparr>cur_buf := buf2 s, disk_buf := Some 0\<rparr>
               else s\<lparr>cur_buf := 0, disk_buf := Some (buf2 s)\<rparr>)
      in s\<lparr>disk_write_buf_len := membuf_offset s, membuf_offset := 0\<rparr>)"

text \<open>The end of the full-buffer branch, where the lock is held and no I/O runs.\<close>

definition pass2write_switch :: "session \<Rightarrow> bytes \<Rightarrow> session outcome" where
  "pass2write_switch s buf =
     copy_to_cur (switch_buffers (s\<lparr>time_out_need_flush_to_disk := False\<rparr>)) buf"

lemma newlen_loop_ge: "newlen \<le> newlen_loop newlen target"
  by (induction newlen target rule: newlen_loop.induct) (subst newlen_loop.simps, auto)

lemma enlarge_realloc_len:
  "enlarge_realloc calloc_ok newlen s = Return 0 s' \<Longrightarrow> mem_buf_len s' = newlen"
  by (auto simp: enlarge_realloc_def split: if_splits option.splits)

lemma enlarge_session_buf_grows:
  assumes "enlarge_session_buf ticks calloc_ok s gap = Return 0 s'"
  shows "mem_buf_len s < mem_buf_len s'" "mem_buf_len s' \<le> EXT_DATA_BLOCK_SIZE"
  using assms newlen_loop_ge [of "mem_buf_len s + STEP_DATA_BLOCK_SIZE" "mem_buf_len s + gap"]
  by (auto simp: enlarge_session_buf_def Let_def size_consts
      dest!: enlarge_realloc_len split: if_splits)

text \<open>
  \<open>pass2write\<close> (the default build). The label \<open>recheck\<close> is the recursive call;
  each round enlarges the block, whose size is bounded, so the loop ends. \<open>Spin\<close>
  is the busy wait for the disk thread, after which the code goes on with
  \<open>pass2write_switch\<close>.
\<close>

function pass2write :: "u64 \<Rightarrow> (nat \<Rightarrow> bool) \<Rightarrow> session \<Rightarrow> bytes \<Rightarrow> session outcome" where
  "pass2write ticks calloc_ok s buf =
     (if length buf < 1 then Return (-1) s
      else if membuf_offset s + length buf + net_read_buf_len s > mem_buf_len s then
        (if disk_buf s \<noteq> None then
           (case enlarge_session_buf ticks calloc_ok s
                   (membuf_offset s + length buf + net_read_buf_len s - mem_buf_len s) of
              Return rc s' \<Rightarrow>
                (if rc \<noteq> 0 then copy_to_cur (s'\<lparr>buf_full_stuck := True\<rparr>) buf
                 else pass2write ticks calloc_ok s' buf)
            | Spin s' \<Rightarrow> Spin s'
            | UB \<Rightarrow> UB)
         else if disk_io_in_progress s then Spin s
         else pass2write_switch s buf)
      else copy_to_cur s buf)"
  by pat_completeness auto
termination
proof (relation "measure (\<lambda>(ticks, calloc_ok, s, buf). EXT_DATA_BLOCK_SIZE - mem_buf_len s)")
  fix ticks calloc_ok s and buf :: bytes and rc s'
  assume "enlarge_session_buf ticks calloc_ok s
      (membuf_offset s + length buf + net_read_buf_len s - mem_buf_len s) = Return rc s'"
    and "\<not> rc \<noteq> 0"
  then have "enlarge_session_buf ticks calloc_ok s
      (membuf_offset s + length buf + net_read_buf_len s - mem_buf_len s) = Return 0 s'"
    by simp
  from enlarge_session_buf_grows [OF this]
  show "((ticks, calloc_ok, s', buf), ticks, calloc_ok, s, buf)
      \<in> measure (\<lambda>(ticks, calloc_ok, s, buf). EXT_DATA_BLOCK_SIZE - mem_buf_len s)"
    by auto
qed simp

declare pass2write.simps [simp del]

lemma pass2write_Nil [simp]: "pass2write ticks calloc_ok s [] = Return (-1) s"
  by (subst pass2write.simps) simp

section \<open>Invariants and the abstraction to a byte stream\<close>

definition other_half :: "session \<Rightarrow> nat" where
  "other_half s = (if cur_buf s = 0 then mem_buf_len s else 0)"

text \<open>Shape of the double buffer.\<close>

definition buf_inv :: "session \<Rightarrow> bool" where
  "buf_inv s \<longleftrightarrow>
     buf1 s \<noteq> None \<and> length (the (buf1 s)) = 2 * mem_buf_len s
     \<and> 0 < mem_buf_len s \<and> buf2 s = mem_buf_len s
     \<and> (cur_buf s = 0 \<or> cur_buf s = mem_buf_len s)
     \<and> (disk_buf s = None \<or> disk_buf s = Some (other_half s))
     \<and> membuf_offset s \<le> mem_buf_len s \<and> disk_write_buf_len s \<le> mem_buf_len s
     \<and> (disk_io_in_progress s \<longrightarrow> disk_buf s = None)"

text \<open>Sizes the code ever chooses.\<close>

definition size_inv :: "session \<Rightarrow> bool" where
  "size_inv s \<longleftrightarrow>
     STEP_DATA_BLOCK_SIZE dvd mem_buf_len s
     \<and> DEFAULT_DATA_BLOCK_SIZE \<le> mem_buf_len s \<and> mem_buf_len s \<le> EXT_DATA_BLOCK_SIZE
     \<and> net_read_buf_len s \<in> {4 * 1024, 32 * 1024, 64 * 1024, 128 * 1024}
     \<and> (net_read_buf_len s = NET_READ_BUF
         \<or> MAX_DATA_BLOCK_SIZE + net_read_buf_len s \<le> mem_buf_len s)"

text \<open>
  Room for one more read of the network thread, unless the session is stuck or the
  next \<open>pass2write\<close> can exchange the halves.
\<close>

definition room_inv :: "session \<Rightarrow> bool" where
  "room_inv s \<longleftrightarrow>
     membuf_offset s + net_read_buf_len s \<le> mem_buf_len s
     \<or> buf_full_stuck s \<or> (disk_buf s = None \<and> \<not> disk_io_in_progress s)"

definition session_inv :: "session \<Rightarrow> bool" where
  "session_inv s \<longleftrightarrow> buf_inv s \<and> size_inv s \<and> room_inv s"

text \<open>The bytes handed to the disk thread, the bytes still collected, and both.\<close>

definition disk_part :: "session \<Rightarrow> bytes" where
  "disk_part s = (case disk_buf s of None \<Rightarrow> []
     | Some d \<Rightarrow> slice_at d (disk_write_buf_len s) (the (buf1 s)))"

definition mem_part :: "session \<Rightarrow> bytes" where
  "mem_part s = slice_at (cur_buf s) (membuf_offset s) (the (buf1 s))"

definition pending :: "session \<Rightarrow> bytes" where
  "pending s = disk_part s @ mem_part s"

section \<open>Copying and exchanging\<close>

definition appended :: "session \<Rightarrow> bytes \<Rightarrow> session" where
  "appended s buf =
     s\<lparr>buf1 := Some (overwrite (cur_buf s + membuf_offset s) buf (the (buf1 s))),
       membuf_offset := membuf_offset s + length buf\<rparr>"

lemma copy_to_cur_appended:
  assumes "buf_inv s" "membuf_offset s + length buf \<le> mem_buf_len s"
  shows "copy_to_cur s buf = Return 0 (appended s buf)"
  using assms
  by (auto simp: copy_to_cur_def appended_def buf_inv_def memcpy_at_def split: option.splits)

lemma appended_inv:
  assumes "buf_inv s" "membuf_offset s + length buf \<le> mem_buf_len s"
  shows "buf_inv (appended s buf)"
proof -
  obtain blk where blk: "buf1 s = Some blk" "length blk = 2 * mem_buf_len s"
    using assms(1) by (auto simp: buf_inv_def split: option.splits)
  have "cur_buf s + membuf_offset s + length buf \<le> length blk"
    using assms blk by (auto simp: buf_inv_def)
  then show ?thesis
    using assms blk by (auto simp: buf_inv_def appended_def other_half_def)
qed

lemma appended_other_half:
  assumes "buf_inv s" "membuf_offset s + length buf \<le> mem_buf_len s" "n \<le> mem_buf_len s"
  shows "slice_at (other_half s) n (the (buf1 (appended s buf))) = slice_at (other_half s) n (the (buf1 s))"
  using assms
  by (auto simp: buf_inv_def appended_def other_half_def split: option.splits
      intro!: slice_at_overwrite_disjoint)

lemma appended_parts:
  assumes "buf_inv s" "membuf_offset s + length buf \<le> mem_buf_len s"
  shows "disk_part (appended s buf) = disk_part s" "mem_part (appended s buf) = mem_part s @ buf"
proof -
  obtain blk where blk: "buf1 s = Some blk" "length blk = 2 * mem_buf_len s"
    using assms(1) by (auto simp: buf_inv_def split: option.splits)
  have le: "cur_buf s + membuf_offset s + length buf \<le> length blk"
    using assms blk by (auto simp: buf_inv_def)
  show "mem_part (appended s buf) = mem_part s @ buf"
    using le blk by (simp add: mem_part_def appended_def slice_at_overwrite_append)
  show "disk_part (appended s buf) = disk_part s"
  proof (cases "disk_buf s")
    case (Some d)
    then have "d = other_half s" "disk_write_buf_len s \<le> mem_buf_len s"
      using assms(1) by (auto simp: buf_inv_def)
    with Some show ?thesis
      using appended_other_half [OF assms] by (simp add: disk_part_def appended_def)
  qed (simp add: disk_part_def appended_def)
qed

lemma switch_buffers_inv:
  assumes "buf_inv s" "\<not> disk_io_in_progress s"
  shows "buf_inv (switch_buffers s)"
  using assms by (auto simp: buf_inv_def switch_buffers_def Let_def other_half_def)

lemma switch_buffers_parts:
  assumes "buf_inv s"
  shows "disk_part (switch_buffers s) = mem_part s" "mem_part (switch_buffers s) = []"
  using assms by (auto simp: buf_inv_def switch_buffers_def Let_def disk_part_def mem_part_def)

lemma switch_buffers_fields [simp]:
  "mem_buf_len (switch_buffers s) = mem_buf_len s"
  "net_read_buf_len (switch_buffers s) = net_read_buf_len s"
  "membuf_offset (switch_buffers s) = 0"
  "disk_write_buf_len (switch_buffers s) = membuf_offset s"
  "buf_full_stuck (switch_buffers s) = buf_full_stuck s"
  "disk_io_in_progress (switch_buffers s) = disk_io_in_progress s"
  "disk_buf (switch_buffers s) \<noteq> None"
  by (simp_all add: switch_buffers_def Let_def)

lemma appended_fields [simp]:
  "mem_buf_len (appended s buf) = mem_buf_len s"
  "net_read_buf_len (appended s buf) = net_read_buf_len s"
  "membuf_offset (appended s buf) = membuf_offset s + length buf"
  "disk_write_buf_len (appended s buf) = disk_write_buf_len s"
  "buf_full_stuck (appended s buf) = buf_full_stuck s"
  "disk_io_in_progress (appended s buf) = disk_io_in_progress s"
  "disk_buf (appended s buf) = disk_buf s"
  "cur_buf (appended s buf) = cur_buf s"
  by (simp_all add: appended_def)

lemma stuck_update_simps [simp]:
  "buf_inv (s\<lparr>buf_full_stuck := b\<rparr>) = buf_inv s"
  "pending (s\<lparr>buf_full_stuck := b\<rparr>) = pending s"
  "size_inv (s\<lparr>buf_full_stuck := b\<rparr>) = size_inv s"
  "buf_inv (s\<lparr>time_out_need_flush_to_disk := c\<rparr>) = buf_inv s"
  "mem_part (s\<lparr>time_out_need_flush_to_disk := c\<rparr>) = mem_part s"
  "buf_inv (s\<lparr>net_read_buf_len := n\<rparr>) = buf_inv s"
  "pending (s\<lparr>net_read_buf_len := n\<rparr>) = pending s"
  by (simp_all add: buf_inv_def size_inv_def pending_def disk_part_def mem_part_def other_half_def
      split: option.split)

lemma size_inv_appended [simp]: "size_inv (appended s buf) = size_inv s"
  by (simp add: size_inv_def)

section \<open>Enlarging keeps the pending bytes\<close>

lemma newlen_loop_target: "target \<le> newlen_loop newlen target"
  by (induction newlen target rule: newlen_loop.induct) (subst newlen_loop.simps, auto)

lemma newlen_loop_dvd:
  "STEP_DATA_BLOCK_SIZE dvd newlen \<Longrightarrow> STEP_DATA_BLOCK_SIZE dvd newlen_loop newlen target"
  by (induction newlen target rule: newlen_loop.induct) (subst newlen_loop.simps, auto)

lemma newlen_loop_upper:
  "newlen_loop newlen target \<le> max newlen (target + STEP_DATA_BLOCK_SIZE)"
  by (induction newlen target rule: newlen_loop.induct) (subst newlen_loop.simps, auto)

definition enlarged :: "session \<Rightarrow> nat \<Rightarrow> session" where
  "enlarged s n =
     s\<lparr>buf1 := Some (overwrite n (disk_part s) (overwrite 0 (mem_part s) (replicate (2 * n) 0))),
       mem_buf_len := n, buf2 := n, cur_buf := 0, disk_buf := Some n\<rparr>"

lemma length_parts:
  assumes "buf_inv s"
  shows "length (mem_part s) = membuf_offset s"
    "disk_buf s \<noteq> None \<Longrightarrow> length (disk_part s) = disk_write_buf_len s"
  using assms by (auto simp: buf_inv_def mem_part_def disk_part_def other_half_def split: if_splits)

lemma enlarge_realloc_enlarged:
  assumes "buf_inv s" "disk_buf s \<noteq> None" "mem_buf_len s \<le> n"
  shows "enlarge_realloc calloc_ok n s =
    (if calloc_ok n then Return 0 (enlarged s n) else Return (-1) s)"
proof -
  obtain blk d where bd: "buf1 s = Some blk" "disk_buf s = Some d" "d = other_half s"
    using assms by (auto simp: buf_inv_def)
  have len: "length blk = 2 * mem_buf_len s" "membuf_offset s \<le> mem_buf_len s"
    "disk_write_buf_len s \<le> mem_buf_len s"
    using assms bd by (auto simp: buf_inv_def)
  have "cur_buf s + membuf_offset s \<le> length blk" "d + disk_write_buf_len s \<le> length blk"
    using assms bd by (auto simp: buf_inv_def other_half_def split: if_splits)
  then have rd: "read_at (cur_buf s) (membuf_offset s) blk = Some (mem_part s)"
      "read_at d (disk_write_buf_len s) blk = Some (disk_part s)"
    by (simp_all add: read_at_def mem_part_def disk_part_def bd)
  have "memcpy_at 0 (mem_part s) (replicate (2 * n) 0) =
      Some (overwrite 0 (mem_part s) (replicate (2 * n) 0))"
    "length (overwrite 0 (mem_part s) (replicate (2 * n) 0)) = 2 * n"
    "length (disk_part s) \<le> n"
    using length_parts [OF assms(1)] assms len by (simp_all add: memcpy_at_def)
  then have "Option.bind (memcpy_at 0 (mem_part s) (replicate (2 * n) 0)) (memcpy_at n (disk_part s))
      = Some (overwrite n (disk_part s) (overwrite 0 (mem_part s) (replicate (2 * n) 0)))"
    by (simp add: memcpy_at_def)
  then show ?thesis
    by (simp add: enlarge_realloc_def bd(1,2) rd enlarged_def)
qed

lemma enlarged_inv:
  assumes "buf_inv s" "disk_buf s \<noteq> None" "mem_buf_len s \<le> n"
  shows "buf_inv (enlarged s n)" "pending (enlarged s n) = pending s"
proof -
  note len = length_parts [OF assms(1)]
  have le: "length (mem_part s) \<le> n" "length (disk_part s) \<le> n"
    using len assms by (auto simp: buf_inv_def)
  define b0 where "b0 = overwrite 0 (mem_part s) (replicate (2 * n) (0::u8))"
  have b0: "length b0 = 2 * n" "slice_at 0 (membuf_offset s) b0 = mem_part s"
    using le len slice_at_overwrite_same [of 0 "mem_part s" "replicate (2 * n) 0"]
    by (simp_all add: b0_def)
  show "buf_inv (enlarged s n)"
    using assms le b0 by (auto simp: buf_inv_def enlarged_def other_half_def b0_def [symmetric])
  have "disk_part (enlarged s n) = slice_at n (disk_write_buf_len s) (overwrite n (disk_part s) b0)"
    unfolding disk_part_def [of "enlarged s n"] by (simp add: enlarged_def b0_def)
  then have "disk_part (enlarged s n) = disk_part s"
    using len assms le b0 slice_at_overwrite_same [of n "disk_part s" b0] by simp
  moreover have "mem_part (enlarged s n) = slice_at 0 (membuf_offset s) (overwrite n (disk_part s) b0)"
    unfolding mem_part_def [of "enlarged s n"] by (simp add: enlarged_def b0_def)
  then have "mem_part (enlarged s n) = mem_part s"
    using len le b0 by (simp add: slice_at_overwrite_disjoint)
  ultimately show "pending (enlarged s n) = pending s"
    by (simp add: pending_def)
qed

lemma enlarged_fields [simp]:
  "mem_buf_len (enlarged s n) = n"
  "net_read_buf_len (enlarged s n) = net_read_buf_len s"
  "membuf_offset (enlarged s n) = membuf_offset s"
  "buf_full_stuck (enlarged s n) = buf_full_stuck s"
  "disk_io_in_progress (enlarged s n) = disk_io_in_progress s"
  "disk_buf (enlarged s n) = Some n"
  "start_ticks (enlarged s n) = start_ticks s"
  "network_bytes (enlarged s n) = network_bytes s"
  by (simp_all add: enlarged_def)

section \<open>Appending never leaves the half buffer\<close>

lemma enlarge_session_buf_eq:
  assumes "buf_inv s" "disk_buf s \<noteq> None"
    and n: "n = newlen_loop (mem_buf_len s + STEP_DATA_BLOCK_SIZE) (mem_buf_len s + gap)"
    and s1: "s1 = s\<lparr>net_read_buf_len := grow_net_read (avg_bw ticks s) (net_read_buf_len s)\<rparr>"
  shows "enlarge_session_buf ticks calloc_ok s gap =
    (if ticks - start_ticks s < REALLOC_LAT then Return 1 s
     else if n > MAX_DATA_BLOCK_SIZE then
       (if avg_bw ticks s < 2 * int MAX_DATA_BLOCK_SIZE then Return 2 s1
        else if int n > 4 * avg_bw ticks s then Return 3 s1
        else if n > EXT_DATA_BLOCK_SIZE then Return 4 s1
        else if calloc_ok n then Return 0 (enlarged s1 n) else Return (-1) s1)
     else if calloc_ok n then Return 0 (enlarged s n) else Return (-1) s)"
proof -
  have le: "mem_buf_len s \<le> n"
    using newlen_loop_ge [of "mem_buf_len s + STEP_DATA_BLOCK_SIZE" "mem_buf_len s + gap"]
    by (simp add: n)
  have "enlarge_realloc calloc_ok n s = (if calloc_ok n then Return 0 (enlarged s n) else Return (-1) s)"
    by (rule enlarge_realloc_enlarged [OF assms(1,2) le])
  moreover have "enlarge_realloc calloc_ok n s1 =
      (if calloc_ok n then Return 0 (enlarged s1 n) else Return (-1) s1)"
    by (rule enlarge_realloc_enlarged) (use assms le in simp_all)
  ultimately show ?thesis
    by (simp add: enlarge_session_buf_def n [symmetric] s1 Let_def)
qed

text \<open>A state of the \<open>recheck\<close> loop after the block has grown beyond \<open>MAX\<close>.\<close>

definition big :: "session \<Rightarrow> nat \<Rightarrow> bool" where
  "big s t \<longleftrightarrow> STEP_DATA_BLOCK_SIZE dvd mem_buf_len s \<and> mem_buf_len s \<le> EXT_DATA_BLOCK_SIZE
     \<and> net_read_buf_len s \<in> {4 * 1024, 32 * 1024, 64 * 1024, 128 * 1024}
     \<and> t \<le> mem_buf_len s \<and> 124 * 1024 < t"

lemma grow_net_read_range:
  "net \<in> {4 * 1024, 32 * 1024, 64 * 1024, 128 * 1024} \<Longrightarrow>
   grow_net_read bw net \<in> {4 * 1024, 32 * 1024, 64 * 1024, 128 * 1024}"
  by (auto simp: grow_net_read_def Let_def)

lemma grow_net_read_slow: "bw \<le> 256 * 1024 \<Longrightarrow> grow_net_read bw net = net"
  by (simp add: grow_net_read_def)

lemma big_size_inv:
  assumes "big s t" "t + net_read_buf_len s \<le> mem_buf_len s"
  shows "size_inv s"
proof -
  obtain k where k: "mem_buf_len s = 8192 * k"
    using assms(1) by (auto simp: big_def size_consts elim!: dvdE)
  show ?thesis
    using assms k by (auto simp: big_def size_inv_def size_consts)
qed

lemma stuck_copy:
  assumes "buf_inv s" "size_inv s" "membuf_offset s + length buf \<le> mem_buf_len s"
  shows "\<exists>s'. copy_to_cur (s\<lparr>buf_full_stuck := True\<rparr>) buf = Return 0 s'
    \<and> session_inv s' \<and> pending s' = pending s @ buf"
proof -
  let ?s = "s\<lparr>buf_full_stuck := True\<rparr>"
  have "buf_inv ?s" "membuf_offset ?s + length buf \<le> mem_buf_len ?s"
    using assms by simp_all
  from copy_to_cur_appended [OF this] appended_inv [OF this] appended_parts [OF this]
  have "copy_to_cur ?s buf = Return 0 (appended ?s buf)" "buf_inv (appended ?s buf)"
    "pending (appended ?s buf) = pending ?s @ buf"
    by (simp_all add: pending_def)
  moreover have "size_inv (appended ?s buf)" "room_inv (appended ?s buf)"
    using assms by (simp_all add: room_inv_def)
  ultimately show ?thesis by (simp add: session_inv_def)
qed

lemma fitting_copy:
  assumes "buf_inv s" "size_inv s" "membuf_offset s + length buf + net_read_buf_len s \<le> mem_buf_len s"
  shows "\<exists>s'. copy_to_cur s buf = Return 0 s' \<and> session_inv s' \<and> pending s' = pending s @ buf
     \<and> (\<forall>n \<le> mem_buf_len s. slice_at (other_half s) n (the (buf1 s')) = slice_at (other_half s) n (the (buf1 s)))"
proof -
  have le: "membuf_offset s + length buf \<le> mem_buf_len s" using assms(3) by simp
  note fits = assms(1) le
  have "session_inv (appended s buf)"
    using assms appended_inv [OF fits] by (simp add: session_inv_def room_inv_def)
  then show ?thesis
    using copy_to_cur_appended [OF fits] appended_parts [OF fits] appended_other_half [OF fits]
    by (simp add: pending_def)
qed

lemma newlen_facts:
  assumes n: "n = newlen_loop (m + STEP_DATA_BLOCK_SIZE) (m + (t + net - m))"
    and "STEP_DATA_BLOCK_SIZE dvd m" "t \<le> m" "m < t + net"
    and "net \<in> {4 * 1024, 32 * 1024, 64 * 1024, 128 * 1024}"
  shows "m + STEP_DATA_BLOCK_SIZE \<le> n" "STEP_DATA_BLOCK_SIZE dvd n" "n \<le> m + 136 * 1024"
    "t + net \<le> n" "net \<le> STEP_DATA_BLOCK_SIZE \<Longrightarrow> n = m + STEP_DATA_BLOCK_SIZE"
proof -
  show "m + STEP_DATA_BLOCK_SIZE \<le> n"
    unfolding n by (rule newlen_loop_ge)
  show "STEP_DATA_BLOCK_SIZE dvd n"
    unfolding n using assms by (intro newlen_loop_dvd) simp
  show "n \<le> m + 136 * 1024"
    using newlen_loop_upper [of "m + STEP_DATA_BLOCK_SIZE" "m + (t + net - m)"] assms
    by (auto simp: n size_consts)
  show "net \<le> STEP_DATA_BLOCK_SIZE \<Longrightarrow> n = m + STEP_DATA_BLOCK_SIZE"
    unfolding n using assms(3,4) by (subst newlen_loop.simps) simp
  show "t + net \<le> n"
    using newlen_loop_target [of "m + (t + net - m)" "m + STEP_DATA_BLOCK_SIZE"] assms
    by (simp add: n)
qed

text \<open>The session with the read size that the measured rate asks for.\<close>

definition regrown :: "u64 \<Rightarrow> session \<Rightarrow> session" where
  "regrown ticks s = s\<lparr>net_read_buf_len := grow_net_read (avg_bw ticks s) (net_read_buf_len s)\<rparr>"

lemma regrown_simps [simp]:
  "buf_inv (regrown ticks s) = buf_inv s" "disk_buf (regrown ticks s) = disk_buf s"
  "mem_buf_len (regrown ticks s) = mem_buf_len s" "membuf_offset (regrown ticks s) = membuf_offset s"
  "pending (regrown ticks s) = pending s" "start_ticks (regrown ticks s) = start_ticks s"
  "avg_bw ticks (regrown ticks s) = avg_bw ticks s"
  by (simp_all add: regrown_def avg_bw_def)

lemma regrown_net:
  "net_read_buf_len s \<in> {4 * 1024, 32 * 1024, 64 * 1024, 128 * 1024} \<Longrightarrow>
   net_read_buf_len (regrown ticks s) \<in> {4 * 1024, 32 * 1024, 64 * 1024, 128 * 1024}"
  unfolding regrown_def using grow_net_read_range by simp

lemma avg_bw_enlarged [simp]: "avg_bw ticks (enlarged s n) = avg_bw ticks s"
  by (simp add: avg_bw_def)

lemma regrown_refused:
  assumes "int n > 4 * avg_bw ticks s \<or> n > EXT_DATA_BLOCK_SIZE"
    and "2 * int MAX_DATA_BLOCK_SIZE \<le> avg_bw ticks s" "n \<le> mem_buf_len s + 136 * 1024"
    and "STEP_DATA_BLOCK_SIZE dvd mem_buf_len s" "mem_buf_len s \<le> EXT_DATA_BLOCK_SIZE"
    and "net_read_buf_len s \<in> {4 * 1024, 32 * 1024, 64 * 1024, 128 * 1024}"
  shows "size_inv (regrown ticks s)"
proof -
  have "1024 * 1024 < n"
    using assms(1,2) by (auto simp: size_consts)
  then show ?thesis
    using assms(3-5) regrown_net [OF assms(6), of ticks] by (auto simp: size_inv_def size_consts)
qed

lemma pass2write_big:
  assumes "buf_inv s" "disk_buf s \<noteq> None" "big s (membuf_offset s + length buf)"
    and "\<not> ticks - start_ticks s < REALLOC_LAT" "2 * int MAX_DATA_BLOCK_SIZE \<le> avg_bw ticks s"
    and alloc: "\<And>n. MAX_DATA_BLOCK_SIZE < n \<Longrightarrow> calloc_ok n" and "0 < length buf"
  shows "\<exists>s'. pass2write ticks calloc_ok s buf = Return 0 s' \<and> session_inv s'
    \<and> pending s' = pending s @ buf"
  using assms
proof (induction ticks calloc_ok s buf rule: pass2write.induct)
  case (1 ticks calloc_ok s buf)
  note prems = "1.prems"
  let ?t = "membuf_offset s + length buf" and ?net = "net_read_buf_len s" and ?m = "mem_buf_len s"
  show ?case
  proof (cases "?t + ?net > ?m")
    case False
    then have "pass2write ticks calloc_ok s buf = copy_to_cur s buf"
      using prems by (subst pass2write.simps) simp
    moreover have "size_inv s"
      using False prems by (intro big_size_inv [of s ?t]) simp_all
    ultimately show ?thesis
      using False prems fitting_copy [of s buf] by auto
  next
    case True
    define n where "n = newlen_loop (?m + STEP_DATA_BLOCK_SIZE) (?m + (?t + ?net - ?m))"
    let ?s1 = "regrown ticks s"
    have b: "STEP_DATA_BLOCK_SIZE dvd ?m" "?t \<le> ?m" "?m \<le> EXT_DATA_BLOCK_SIZE"
      "?net \<in> {4 * 1024, 32 * 1024, 64 * 1024, 128 * 1024}" "124 * 1024 < ?t"
      using prems(3) by (auto simp: big_def)
    note n = newlen_facts [OF n_def b(1,2) True b(4)]
    have n_max: "MAX_DATA_BLOCK_SIZE < n"
      using n(1) b by (simp add: size_consts)
    have enl: "enlarge_session_buf ticks calloc_ok s (?t + ?net - ?m) =
      (if int n > 4 * avg_bw ticks s then Return 3 ?s1
       else if n > EXT_DATA_BLOCK_SIZE then Return 4 ?s1 else Return 0 (enlarged ?s1 n))"
      using enlarge_session_buf_eq [OF prems(1,2) n_def regrown_def, of ticks calloc_ok] prems(4,5) n_max
        prems(6) [OF n_max] by simp
    have unfold: "pass2write ticks calloc_ok s buf =
       (if int n > 4 * avg_bw ticks s \<or> n > EXT_DATA_BLOCK_SIZE
        then copy_to_cur (?s1\<lparr>buf_full_stuck := True\<rparr>) buf
        else pass2write ticks calloc_ok (enlarged ?s1 n) buf)"
      using True prems by (subst pass2write.simps) (simp add: enl)
    show ?thesis
    proof (cases "int n > 4 * avg_bw ticks s \<or> n > EXT_DATA_BLOCK_SIZE")
      case stuck: True
      then show ?thesis
        using unfold stuck_copy [of ?s1 buf] regrown_refused [OF stuck prems(5) n(3) b(1,3,4)]
          prems b by simp
    next
      case False
      have "big (enlarged ?s1 n) (membuf_offset (enlarged ?s1 n) + length buf)"
        using False n b regrown_net [OF b(4)] by (simp add: big_def)
      then have "\<exists>s'. pass2write ticks calloc_ok (enlarged ?s1 n) buf = Return 0 s' \<and> session_inv s'
          \<and> pending s' = pending (enlarged ?s1 n) @ buf"
        using prems True False enl n enlarged_inv(1) [of ?s1 n]
        by (intro "1.IH" [of 0]) simp_all
      then show ?thesis
        using False unfold prems n enlarged_inv(2) [of ?s1 n] by simp
    qed
  qed
qed

lemma pass2write_small:
  assumes "buf_inv s" "size_inv s" "disk_buf s \<noteq> None" "0 < length buf"
    and "membuf_offset s + length buf + net_read_buf_len s \<le> n"
    and "mem_buf_len s \<le> n" "STEP_DATA_BLOCK_SIZE dvd n" "n \<le> MAX_DATA_BLOCK_SIZE"
  shows "\<exists>s'. pass2write ticks calloc_ok (enlarged s n) buf = Return 0 s' \<and> session_inv s'
    \<and> pending s' = pending s @ buf"
proof -
  have "pass2write ticks calloc_ok (enlarged s n) buf = copy_to_cur (enlarged s n) buf"
    using assms by (subst pass2write.simps) simp
  moreover have "size_inv (enlarged s n)"
    using assms by (auto simp: size_inv_def size_consts)
  ultimately show ?thesis
    using fitting_copy [of "enlarged s n" buf] enlarged_inv [of s n] assms by auto
qed

lemma pass2write_pending:
  assumes inv: "session_inv s" and "\<not> buf_full_stuck s" "disk_buf s \<noteq> None"
    and full: "mem_buf_len s < membuf_offset s + length buf + net_read_buf_len s"
    and alloc: "\<And>n. MAX_DATA_BLOCK_SIZE < n \<Longrightarrow> calloc_ok n"
    and len: "0 < length buf" "length buf \<le> net_read_buf_len s"
  shows "\<exists>s'. pass2write ticks calloc_ok s buf = Return 0 s' \<and> session_inv s'
    \<and> pending s' = pending s @ buf"
proof -
  let ?t = "membuf_offset s + length buf" and ?net = "net_read_buf_len s" and ?m = "mem_buf_len s"
  let ?s1 = "regrown ticks s"
  have i: "buf_inv s" "size_inv s" "membuf_offset s + ?net \<le> ?m"
    using assms by (auto simp: session_inv_def room_inv_def)
  have b: "STEP_DATA_BLOCK_SIZE dvd ?m" "?t \<le> ?m" "?m \<le> EXT_DATA_BLOCK_SIZE"
    "?net \<in> {4 * 1024, 32 * 1024, 64 * 1024, 128 * 1024}"
    using i len by (auto simp: size_inv_def)
  define n where "n = newlen_loop (?m + STEP_DATA_BLOCK_SIZE) (?m + (?t + ?net - ?m))"
  note n = newlen_facts [OF n_def b(1,2) full b(4)]
  have stuck: "\<exists>s'. copy_to_cur (s\<lparr>buf_full_stuck := True\<rparr>) buf = Return 0 s' \<and> session_inv s'
      \<and> pending s' = pending s @ buf"
    using stuck_copy [of s buf] i b by simp
  have unfold: "pass2write ticks calloc_ok s buf =
     (case enlarge_session_buf ticks calloc_ok s (?t + ?net - ?m) of
        Return rc s' \<Rightarrow> (if rc \<noteq> 0 then copy_to_cur (s'\<lparr>buf_full_stuck := True\<rparr>) buf
                        else pass2write ticks calloc_ok s' buf)
      | Spin s' \<Rightarrow> Spin s' | UB \<Rightarrow> UB)"
    using full len assms(3) by (subst pass2write.simps) simp
  note enl = enlarge_session_buf_eq [OF i(1) assms(3) n_def regrown_def, of ticks calloc_ok]
  consider (young) "ticks - start_ticks s < REALLOC_LAT"
    | (small) "\<not> ticks - start_ticks s < REALLOC_LAT" "n \<le> MAX_DATA_BLOCK_SIZE"
    | (slow) "\<not> ticks - start_ticks s < REALLOC_LAT" "MAX_DATA_BLOCK_SIZE < n"
        "avg_bw ticks s < 2 * int MAX_DATA_BLOCK_SIZE"
    | (large) "\<not> ticks - start_ticks s < REALLOC_LAT" "MAX_DATA_BLOCK_SIZE < n"
        "2 * int MAX_DATA_BLOCK_SIZE \<le> avg_bw ticks s"
    by linarith
  then show ?thesis
  proof cases
    case young
    then show ?thesis using unfold enl stuck by simp
  next
    case small
    then show ?thesis
      using unfold enl stuck pass2write_small [of s buf n ticks calloc_ok] i n len assms(3)
      by (simp split: if_splits)
  next
    case slow
    then have "?s1 = s"
      using grow_net_read_slow [of "avg_bw ticks s" ?net] by (simp add: regrown_def size_consts)
    then show ?thesis using unfold enl slow stuck by simp
  next
    case large
    show ?thesis
    proof (cases "int n > 4 * avg_bw ticks s \<or> n > EXT_DATA_BLOCK_SIZE")
      case True
      then have "pass2write ticks calloc_ok s buf = copy_to_cur (?s1\<lparr>buf_full_stuck := True\<rparr>) buf"
        using unfold enl large by auto
      then show ?thesis
        using stuck_copy [of ?s1 buf] regrown_refused [OF True large(3) n(3) b(1,3,4)] i b by simp
    next
      case False
      have "124 * 1024 < ?t"
        using full n(5) i(2) large(2) by (auto simp: size_inv_def size_consts elim!: dvdE)
      then have "big (enlarged ?s1 n) (membuf_offset (enlarged ?s1 n) + length buf)"
        using False n b regrown_net [OF b(4)] by (simp add: big_def)
      then have "\<exists>s'. pass2write ticks calloc_ok (enlarged ?s1 n) buf = Return 0 s' \<and> session_inv s'
          \<and> pending s' = pending (enlarged ?s1 n) @ buf"
        using large alloc len i n assms(3) enlarged_inv(1) [of ?s1 n]
        by (intro pass2write_big) simp_all
      then show ?thesis
        using unfold enl large False alloc [OF large(2)] i n assms(3) enlarged_inv(2) [of ?s1 n] by simp
    qed
  qed
qed

lemma pass2write_switch_inv:
  assumes "session_inv s" "\<not> disk_io_in_progress s" "disk_buf s = None"
    and len: "length buf \<le> net_read_buf_len s"
  shows "\<exists>s'. pass2write_switch s buf = Return 0 s' \<and> session_inv s' \<and> pending s' = pending s @ buf"
proof -
  let ?t = "s\<lparr>time_out_need_flush_to_disk := False\<rparr>"
  let ?s = "switch_buffers ?t"
  have i: "buf_inv ?t" "size_inv s" "\<not> disk_io_in_progress ?t"
    using assms by (auto simp: session_inv_def)
  have "length buf + net_read_buf_len s \<le> mem_buf_len s"
    using i(2) len by (auto simp: size_inv_def size_consts)
  then have le: "membuf_offset ?s + length buf + net_read_buf_len ?s \<le> mem_buf_len ?s"
    by simp
  have "size_inv ?s" using i(2) by (simp add: size_inv_def)
  from fitting_copy [OF switch_buffers_inv [OF i(1,3)] this le]
  have "\<exists>s'. copy_to_cur ?s buf = Return 0 s' \<and> session_inv s' \<and> pending s' = pending ?s @ buf"
    by blast
  moreover have "pending ?s = pending s"
    using switch_buffers_parts [OF i(1)] assms(3) by (simp add: pending_def disk_part_def)
  ultimately show ?thesis by (simp add: pass2write_switch_def)
qed

lemma pass2write_fifo:
  assumes inv: "session_inv s" and "\<not> buf_full_stuck s"
    and alloc: "\<And>n. MAX_DATA_BLOCK_SIZE < n \<Longrightarrow> calloc_ok n"
    and len: "0 < length buf" "length buf \<le> net_read_buf_len s"
  shows "pass2write ticks calloc_ok s buf = Spin s \<and> disk_io_in_progress s
    \<or> (\<exists>s'. pass2write ticks calloc_ok s buf = Return 0 s' \<and> session_inv s'
        \<and> pending s' = pending s @ buf)"
proof (cases "mem_buf_len s < membuf_offset s + length buf + net_read_buf_len s")
  case False
  then have "pass2write ticks calloc_ok s buf = copy_to_cur s buf"
    using len by (subst pass2write.simps) simp
  then show ?thesis
    using False inv fitting_copy [of s buf] by (auto simp: session_inv_def)
next
  case full: True
  show ?thesis
  proof (cases "disk_buf s")
    case None
    then have "pass2write ticks calloc_ok s buf =
        (if disk_io_in_progress s then Spin s else pass2write_switch s buf)"
      using full len by (subst pass2write.simps) simp
    then show ?thesis
      using pass2write_switch_inv [OF inv _ None len(2)] by auto
  next
    case (Some d)
    then show ?thesis
      using pass2write_pending [OF inv assms(2) _ full _ len, of calloc_ok ticks] alloc by auto
  qed
qed

text \<open>While the disk thread writes a half, the network thread leaves it alone.\<close>

lemma pass2write_in_flight:
  assumes "session_inv s" "disk_io_in_progress s" "n \<le> mem_buf_len s"
    and "pass2write ticks calloc_ok s buf = Return rc s'"
  shows "slice_at (other_half s) n (the (buf1 s')) = slice_at (other_half s) n (the (buf1 s))
    \<and> other_half s' = other_half s \<and> disk_io_in_progress s' \<and> mem_buf_len s' = mem_buf_len s"
proof (cases "length buf < 1 \<or> mem_buf_len s < membuf_offset s + length buf + net_read_buf_len s")
  case True
  then have "length buf < 1"
    using assms by (auto simp: session_inv_def buf_inv_def pass2write.simps [of ticks calloc_ok s buf] split: if_splits)
  then have "s' = s" using assms(4) by (simp add: pass2write.simps)
  then show ?thesis using assms by simp
next
  case False
  then have eq: "pass2write ticks calloc_ok s buf = copy_to_cur s buf"
    by (subst pass2write.simps) simp
  have fits: "buf_inv s" "membuf_offset s + length buf \<le> mem_buf_len s"
    using assms False by (auto simp: session_inv_def)
  have "s' = appended s buf"
    using copy_to_cur_appended [OF fits] eq assms(4) by simp
  then show ?thesis
    using appended_other_half [OF fits assms(3)] assms(2) by (simp add: other_half_def)
qed

lemma get_new_session_inv:
  "get_new_session a b ticks seq ip0 ev sfd tid = Some s \<Longrightarrow>
   session_inv s \<and> pending s = [] \<and> \<not> buf_full_stuck s"
  by (auto simp: get_new_session_def session_inv_def buf_inv_def size_inv_def room_inv_def
      pending_def disk_part_def mem_part_def size_consts split: if_splits)

lemma get_new_session_flush_duration:
  "get_new_session a b ticks seq ip0 ev sfd tid = Some s \<Longrightarrow>
   180 < flush_duration s \<and> flush_duration s < 300"
  using c_mod_bounds [of 60 "sint ip0"]
  by (auto simp: get_new_session_def FLUSH_DURATION_DEFAULT_def FLUSH_DURATION_VARIABLE_def
      split: if_splits)

section \<open>A submitted buffer is never empty\<close>

definition flush_inv :: "session \<Rightarrow> bool" where
  "flush_inv s \<longleftrightarrow> (disk_buf s \<noteq> None \<longrightarrow> 0 < disk_write_buf_len s)
     \<and> (time_out_need_flush_to_disk s \<longrightarrow> 0 < membuf_offset s)"

lemma copy_to_cur_flush_inv:
  "copy_to_cur s buf = Return rc s' \<Longrightarrow> flush_inv s \<Longrightarrow> flush_inv s'"
  by (auto simp: copy_to_cur_def flush_inv_def split: option.splits)

lemma enlarge_session_buf_flush_inv:
  "enlarge_session_buf ticks calloc_ok s gap = Return rc s' \<Longrightarrow> flush_inv s \<Longrightarrow>
   disk_buf s \<noteq> None \<Longrightarrow> flush_inv s' \<and> disk_buf s' \<noteq> None"
  by (auto simp: enlarge_session_buf_def enlarge_realloc_def flush_inv_def Let_def
      split: if_splits option.splits)

lemma pass2write_flush_inv_pending:
  "pass2write ticks calloc_ok s buf = Return rc s' \<Longrightarrow> flush_inv s \<Longrightarrow> disk_buf s \<noteq> None \<Longrightarrow> flush_inv s'"
proof (induction ticks calloc_ok s buf rule: pass2write.induct)
  case (1 ticks calloc_ok s buf)
  note [simp] = pass2write.simps [of ticks calloc_ok s buf]
  consider "length buf < 1"
    | "\<not> length buf < 1" "mem_buf_len s < membuf_offset s + length buf + net_read_buf_len s"
    | "\<not> length buf < 1" "\<not> mem_buf_len s < membuf_offset s + length buf + net_read_buf_len s"
    by blast
  then show ?case
  proof cases
    case 2
    then obtain rc1 s1 where enl: "enlarge_session_buf ticks calloc_ok s
        (membuf_offset s + length buf + net_read_buf_len s - mem_buf_len s) = Return rc1 s1"
      using "1.prems" by (auto split: outcome.splits)
    from enlarge_session_buf_flush_inv [OF this "1.prems"(2,3)]
    have s1: "flush_inv s1" "disk_buf s1 \<noteq> None" by simp_all
    show ?thesis
    proof (cases "rc1 = 0")
      case True
      then show ?thesis using "1.IH" [OF _ _ _ enl] "1.prems" 2 enl s1 by simp
    next
      case False
      then show ?thesis
        using "1.prems" 2 enl s1 copy_to_cur_flush_inv [of "s1\<lparr>buf_full_stuck := True\<rparr>" buf rc s']
        by (simp add: flush_inv_def)
    qed
  qed (use "1.prems" copy_to_cur_flush_inv in auto)
qed

lemma pass2write_switch_flush_inv:
  "pass2write_switch s buf = Return rc s' \<Longrightarrow> 0 < membuf_offset s \<Longrightarrow> flush_inv s'"
  unfolding pass2write_switch_def
  by (erule copy_to_cur_flush_inv) (simp add: flush_inv_def switch_buffers_def Let_def)

lemma full_means_nonempty:
  assumes "size_inv s" "length buf \<le> net_read_buf_len s"
    and "mem_buf_len s < membuf_offset s + length buf + net_read_buf_len s"
  shows "0 < membuf_offset s"
  using assms by (auto simp: size_inv_def size_consts)

lemma pass2write_flush_inv:
  assumes "size_inv s" "flush_inv s" "length buf \<le> net_read_buf_len s"
    and ret: "pass2write ticks calloc_ok s buf = Return rc s'"
  shows "flush_inv s'"
proof (cases "disk_buf s")
  case None
  then show ?thesis
    using assms copy_to_cur_flush_inv [of s buf rc s'] pass2write_switch_flush_inv [of s buf rc s']
      full_means_nonempty [of s buf]
    by (auto simp: pass2write.simps [of ticks calloc_ok s buf] split: if_splits)
next
  case (Some d)
  then show ?thesis using pass2write_flush_inv_pending [OF ret] assms by simp
qed

section \<open>A new session\<close>

definition sample_session :: session where
  "sample_session = the (get_new_session True True 0 0 0x0a000001 1 7 0)"

lemma sample_session_inv: "session_inv sample_session" "flush_inv sample_session"
  "pending sample_session = []" "\<not> disk_io_in_progress sample_session" "\<not> buf_full_stuck sample_session"
proof -
  obtain s where s: "get_new_session True True 0 0 0x0a000001 1 7 0 = Some s"
    by (simp add: get_new_session_def)
  then show "session_inv sample_session" "pending sample_session = []" "\<not> buf_full_stuck sample_session"
    using get_new_session_inv [OF s] by (simp_all add: sample_session_def)
  show "flush_inv sample_session" "\<not> disk_io_in_progress sample_session"
    by (simp_all add: sample_session_def get_new_session_def flush_inv_def)
qed

end
