(* ===== verification/LogDisk.thy ===== *)
theory LogDisk
  imports LogSession
begin

text \<open>
  The disk side of src/logServer.c: log file names, rotation by size, the write
  loop, the release of a session, and the body of \<open>disk_write_thread\<close> for one
  session.

  System calls are arguments: the descriptor that \<open>open\<close> returns, whether
  \<open>mkpath\<close> succeeds, and the list of results of successive \<open>write\<close> calls. Files
  are an explicit store. An open descriptor names its file by path; \<open>rename\<close> and
  \<open>remove\<close> carry open descriptors along, as the kernel does.
\<close>

section \<open>Configuration and statistics\<close>

record config =
  nWorkers :: int
  nr_dir :: int
  max_file_size :: u64
  log_idf :: string
  dir_switch_period :: int
  force_disconnect_seconds :: int

record gstatistic =
  cur_time :: int
  date_str1 :: string
  ticks :: u64
  last_report_tick :: u64
  disk_io_bytes :: "nat \<Rightarrow> u64"
  net_in_bytes :: "nat \<Rightarrow> u64"
  last_disk_io_bytes :: "nat \<Rightarrow> u64"
  last_net_in_bytes :: "nat \<Rightarrow> u64"
  disk_io_threads_busy_loops :: u64
  last_disk_io_threads_busy_loops :: u64
  snapshot_session_alive :: int
  period_succ_submit_disk_io_timer_expire_forced :: int
  period_succ_submit_disk_io :: int
  period_succ_finished_disk_io :: int
  period_failed_finished_disk_io :: int
  cur_seq :: int
  failed_disk_bytes_write :: u64

text \<open>The local counters of one scan of \<open>disk_write_thread\<close>.\<close>

record scan_stat =
  stat_session_alive :: int
  stat_succ_submit_disk_io_timer_expire_forced :: int
  stat_succ_submit_disk_io :: int
  stat_succ_finished_disk_io :: int
  stat_failed_finished_disk_io :: int

section \<open>Files\<close>

record ofd =
  o_path :: string
  o_append :: bool
  o_pos :: nat

record fs =
  files :: "string \<Rightarrow> bytes option"
  fdt :: "int \<Rightarrow> ofd option"

definition fs_open :: "string \<Rightarrow> bool \<Rightarrow> int \<Rightarrow> fs \<Rightarrow> fs" where
  "fs_open path app fd f =
     f\<lparr>files := (if files f path = None then (files f)(path \<mapsto> []) else files f),
       fdt := (fdt f)(fd \<mapsto> \<lparr>o_path = path, o_append = app, o_pos = 0\<rparr>)\<rparr>"

definition fs_close :: "int \<Rightarrow> fs \<Rightarrow> fs" where
  "fs_close fd f = f\<lparr>fdt := (fdt f)(fd := None)\<rparr>"

definition put_at :: "nat \<Rightarrow> bytes \<Rightarrow> bytes \<Rightarrow> bytes" where
  "put_at pos bs c = take pos c @ bs @ drop (pos + length bs) c"

definition fs_write :: "int \<Rightarrow> bytes \<Rightarrow> fs \<Rightarrow> fs" where
  "fs_write fd bs f =
     (case fdt f fd of None \<Rightarrow> f
      | Some d \<Rightarrow>
        (case files f (o_path d) of None \<Rightarrow> f
         | Some c \<Rightarrow>
            (let pos = (if o_append d then length c else o_pos d) in
             f\<lparr>files := (files f)(o_path d \<mapsto> put_at pos bs c),
               fdt := (fdt f)(fd \<mapsto> d\<lparr>o_pos := pos + length bs\<rparr>)\<rparr>)))"

definition repath :: "string \<Rightarrow> string \<Rightarrow> (int \<Rightarrow> ofd option) \<Rightarrow> int \<Rightarrow> ofd option" where
  "repath a b t = (\<lambda>fd. map_option (\<lambda>d. if o_path d = a then d\<lparr>o_path := b\<rparr> else d) (t fd))"

definition fs_remove :: "string \<Rightarrow> fs \<Rightarrow> fs" where
  "fs_remove path f =
     (if files f path = None then f
      else f\<lparr>files := (files f)(path := None), fdt := repath path (path @ '' (deleted)'') (fdt f)\<rparr>)"

definition fs_rename :: "string \<Rightarrow> string \<Rightarrow> fs \<Rightarrow> fs" where
  "fs_rename a b f =
     (case files f a of None \<Rightarrow> f
      | Some c \<Rightarrow> f\<lparr>files := (files f)(a := None, b \<mapsto> c), fdt := repath a b (fdt f)\<rparr>)"

section \<open>Log file names\<close>

text \<open>Byte \<open>p[i]\<close> of the address, on a little-endian machine.\<close>

definition ip_byte :: "u32 \<Rightarrow> nat \<Rightarrow> nat" where
  "ip_byte a i = unat (drop_bit (8 * i) a AND 0xFF)"

definition ip_str1 :: "u32 \<Rightarrow> string" where
  "ip_str1 a = dec_pad 3 (ip_byte a 3) @ ''_'' @ dec_pad 3 (ip_byte a 2) @ ''_'' @
     dec_pad 3 (ip_byte a 1) @ ''_'' @ dec_pad 3 0"

definition ip_str2 :: "u32 \<Rightarrow> string" where
  "ip_str2 a = dec_pad 3 (ip_byte a 3) @ ''_'' @ dec_pad 3 (ip_byte a 2) @ ''_'' @
     dec_pad 3 (ip_byte a 1) @ ''_'' @ dec_pad 3 (ip_byte a 0)"

text \<open>
  The default build's name, \<open>/data%02d/%s/%s/%d_%03d/%s/%s.log\<close>. \<open>None\<close> is the
  division by zero of \<open>p[0] % cfg.nr_dir\<close> or \<open>86400 / cfg.dir_switch_period\<close>.
\<close>

definition log_fileName :: "config \<Rightarrow> gstatistic \<Rightarrow> u32 \<Rightarrow> string option" where
  "log_fileName cfg g a =
     (if nr_dir cfg = 0 \<or> dir_switch_period cfg = 0 then None
      else Some (''/data'' @ dec_pad 2 (nat (c_mod (int (ip_byte a 0)) (nr_dir cfg) + 1)) @ ''/'' @
        log_idf cfg @ ''/'' @ date_str1 g @ ''/'' @
        dec (nat (c_div 86400 (dir_switch_period cfg))) @ ''_'' @ dec_pad 3 (nat (cur_seq g)) @ ''/'' @
        ip_str1 a @ ''/'' @ ip_str2 a @ ''.log''))"

text \<open>Results of the system calls made while a log file is opened.\<close>

record open_env =
  mkpath_ok :: bool
  open_fd :: int
  reopen_fd :: int

text \<open>
  \<open>session_set_on_disk_log_filename\<close>. The file that is too large is looked up
  through \<open>s->on_disk_fd\<close>: when that is not an open descriptor, \<open>readlink\<close> fails,
  \<open>srcf\<close> stays empty and nothing is renamed.
\<close>

definition session_set_on_disk_log_filename ::
  "config \<Rightarrow> gstatistic \<Rightarrow> open_env \<Rightarrow> session \<Rightarrow> fs \<Rightarrow> (int \<times> session \<times> fs) option" where
  "session_set_on_disk_log_filename cfg g e s f =
     (case log_fileName cfg g (ip s) of None \<Rightarrow> None
      | Some fileName \<Rightarrow>
        Some (if \<not> mkpath_ok e then (-1, s, f)
        else if open_fd e < 0 then (-1, s, f)
        else
          (let f = fs_open fileName True (open_fd e) f;
               size = length (the (files f fileName));
               s = s\<lparr>rough_file_offset := of_nat size\<rparr> in
           if rough_file_offset s > max_file_size cfg then
             (let srcf = (case fdt f (on_disk_fd s) of None \<Rightarrow> [] | Some d \<Rightarrow> o_path d);
                  dstf = srcf @ ''.last'';
                  f = fs_close (on_disk_fd s) f;
                  s = s\<lparr>on_disk_fd := -1\<rparr>;
                  f = fs_rename srcf dstf (fs_remove dstf f) in
              if reopen_fd e < 0 then (-1, s, f)
              else
                (let f = fs_open fileName False (reopen_fd e) f;
                     s = s\<lparr>rough_file_offset := 0\<rparr> in
                 (reopen_fd e, s\<lparr>on_disk_fd := reopen_fd e\<rparr>, f)))
           else
             (let f = (if on_disk_fd s \<ge> 0 then fs_close (on_disk_fd s) f else f) in
              (open_fd e, s\<lparr>on_disk_fd := open_fd e\<rparr>, f)))))"

text \<open>\<open>handle_filesize_exceeded\<close>: rotation of the file that is being written.\<close>

definition handle_filesize_exceeded :: "config \<Rightarrow> session \<Rightarrow> fs \<Rightarrow> int \<times> session \<times> fs" where
  "handle_filesize_exceeded cfg s f =
     (if on_disk_fd s < 0 then (1, s, f)
      else if rough_file_offset s < max_file_size cfg then (2, s, f)
      else case fdt f (on_disk_fd s) of
        None \<Rightarrow> (3, s, f)
      | Some d \<Rightarrow>
          (let srcf = o_path d;
               dstf = srcf @ ''.last'';
               f = fs_close (on_disk_fd s) f;
               s = s\<lparr>on_disk_fd := -1\<rparr>;
               f = fs_rename srcf dstf (fs_remove dstf f) in
           (0, s\<lparr>rough_file_offset := 0\<rparr>, f)))"

section \<open>Writing to the disk\<close>

text \<open>
  The first critical region of \<open>write2disk\<close>: it claims the pending half. \<open>None\<close> is
  the return of -1. The result holds \<open>buf\<close> and \<open>towrite\<close>.
\<close>

definition write2disk_begin :: "session \<Rightarrow> (nat \<times> nat \<times> session) option" where
  "write2disk_begin s =
     (if disk_io_in_progress s then None
      else case disk_buf s of
        None \<Rightarrow> None
      | Some d \<Rightarrow> Some (d, disk_write_buf_len s, s\<lparr>disk_io_in_progress := True, disk_buf := None\<rparr>))"

text \<open>
  The loop \<open>while (ntries > 0 && nleft > 0)\<close>. \<open>rcs\<close> lists the results of the calls
  of \<open>write\<close>, each with whether \<open>errno\<close> is \<open>EINTR\<close>; \<open>src\<close> is the memory from \<open>buf\<close>
  on. A positive result \<open>rc\<close> means that the kernel took the first \<open>rc\<close> bytes at
  \<open>buf\<close>, which the loop does not advance. \<open>None\<close>: the calls listed did not end the
  loop.
\<close>

fun write_loop :: "(int \<times> bool) list \<Rightarrow> nat \<Rightarrow> int \<Rightarrow> bytes \<Rightarrow> bytes \<Rightarrow> (int \<times> bytes) option" where
  "write_loop rcs ntries nleft src out =
     (if ntries > 0 \<and> nleft > 0 then
        (case rcs of
           [] \<Rightarrow> None
         | (rc, eintr) # rcs \<Rightarrow>
             if rc < -1 then
               (if eintr then write_loop rcs ntries nleft src out
                else write_loop rcs (ntries - 1) nleft src out)
             else write_loop rcs ntries (nleft - rc) src (out @ take (nat rc) src))
      else Some (nleft, out))"

declare write_loop.simps [simp del]

text \<open>The second critical region and the accounting at the end of \<open>write2disk\<close>.\<close>

definition write2disk_end :: "nat \<Rightarrow> int \<Rightarrow> session \<Rightarrow> int \<times> session" where
  "write2disk_end towrite nleft s =
     (int towrite - nleft,
      s\<lparr>disk_write_buf_len := 0, disk_io_in_progress := False, buf_full_stuck := False,
        disk_bytes := disk_bytes s + of_int (int towrite - nleft),
        rough_file_offset := rough_file_offset s + of_int (int towrite - nleft)\<rparr>)"

text \<open>
  \<open>write2disk\<close> run without interruption. \<open>None\<close>: the loop is still running, or it
  reads a freed block.
\<close>

definition write2disk ::
  "(int \<times> bool) list \<Rightarrow> session \<Rightarrow> gstatistic \<Rightarrow> fs \<Rightarrow> (int \<times> session \<times> gstatistic \<times> fs) option" where
  "write2disk rcs s g f =
     (case write2disk_begin s of
        None \<Rightarrow> Some (-1, s, g, f)
      | Some (d, towrite, s) \<Rightarrow>
          (case buf1 s of None \<Rightarrow> None
           | Some blk \<Rightarrow>
             (case write_loop rcs 100 (int towrite) (drop d blk) [] of
                None \<Rightarrow> None
              | Some (nleft, out) \<Rightarrow>
                  (let f = fs_write (on_disk_fd s) out f;
                       g = (if nleft \<noteq> 0 then g\<lparr>failed_disk_bytes_write :=
                              failed_disk_bytes_write g + of_int nleft\<rparr> else g);
                       (rc, s) = write2disk_end towrite nleft s
                   in Some (rc, s, g, f)))))"

section \<open>Releasing a session\<close>

text \<open>\<open>free_session_step1\<close>: \<open>rc\<close> is the result of \<open>epoll_ctl(EPOLL_CTL_DEL)\<close>.\<close>

definition free_session_step1 :: "int \<Rightarrow> session \<Rightarrow> int \<times> session" where
  "free_session_step1 rc s = (rc, s\<lparr>socket_fd := -1, in_delete_stage := 10\<rparr>)"

definition free_session_step2 :: "session \<Rightarrow> session" where
  "free_session_step2 s =
     (let s = (if membuf_offset s > 0 \<and> slot_idx s > -1 then
                 (if disk_buf s = None then
                    s\<lparr>disk_write_buf_len := membuf_offset s, disk_buf := Some (cur_buf s),
                      need_delay_free := True, membuf_offset := 0\<rparr>
                  else s\<lparr>need_delay_free := True\<rparr>)
               else s)
      in s\<lparr>in_delete_stage := 20\<rparr>)"

definition free_session_res :: "session \<Rightarrow> fs \<Rightarrow> session \<times> fs" where
  "free_session_res s f =
     (let (s, f) = (if on_disk_fd s \<ge> 0 then (s\<lparr>on_disk_fd := -1\<rparr>, fs_close (on_disk_fd s) f)
                    else (s, f));
          s = s\<lparr>buf1 := None\<rparr>
      in (s\<lparr>in_delete_stage := 30\<rparr>, f))"

text \<open>
  \<open>del_session\<close>: the session as it is left behind; the flag says that
  \<open>free_session_final\<close> was called on it.
\<close>

definition del_session :: "int \<Rightarrow> session \<Rightarrow> bool \<Rightarrow> fs \<Rightarrow> int \<times> session \<times> bool \<times> fs" where
  "del_session epoll_rc s immediately f =
     (let (rc, s) = free_session_step1 epoll_rc s in
      if membuf_offset s > 0 \<and> slot_idx s > -1 then (0, free_session_step2 s, False, f)
      else (let (s, f) = free_session_res s f in (rc, s, immediately, f)))"

section \<open>The disk thread, one session\<close>

text \<open>
  The loop body up to the write. \<open>Scan_next\<close> is a \<open>continue\<close>, \<open>Scan_free\<close> the end of
  the session (\<open>free_session_final\<close> follows), \<open>Scan_write\<close> reaches the write, and
  \<open>Scan_trap\<close> is the division by zero in the file name or the failed \<open>assert\<close>.
\<close>

datatype scan = Scan_next session | Scan_free session | Scan_write session | Scan_trap

definition scan_timeout :: "session \<Rightarrow> scan_stat \<Rightarrow> session \<times> scan_stat" where
  "scan_timeout s st =
     (if time_out_need_flush_to_disk s then
        (let s = (if disk_buf s = None \<and> \<not> disk_io_in_progress s then switch_buffers s else s)
         in (s\<lparr>time_out_need_flush_to_disk := False\<rparr>,
             st\<lparr>stat_succ_submit_disk_io_timer_expire_forced :=
                  stat_succ_submit_disk_io_timer_expire_forced st + 1\<rparr>))
      else (s, st))"

definition scan_expired :: "gstatistic \<Rightarrow> session \<Rightarrow> bool" where
  "scan_expired g s \<longleftrightarrow>
     membuf_offset s > 0 \<and> ticks g - last_disk_io_write_tick s > of_int (flush_duration s)
     \<and> \<not> time_out_need_flush_to_disk s \<and> disk_buf s = None \<and> \<not> disk_io_in_progress s"

definition scan_force_disconnect :: "config \<Rightarrow> gstatistic \<Rightarrow> session \<Rightarrow> bool" where
  "scan_force_disconnect cfg g s \<longleftrightarrow>
     force_disconnect_seconds cfg > 0
     \<and> last_disk_io_write_tick s + of_int (force_disconnect_seconds cfg) < ticks g"

definition scan_pre ::
  "config \<Rightarrow> nat \<Rightarrow> int \<Rightarrow> open_env \<Rightarrow> session \<Rightarrow> gstatistic \<Rightarrow> scan_stat \<Rightarrow> fs
     \<Rightarrow> scan \<times> gstatistic \<times> scan_stat \<times> fs" where
  "scan_pre cfg thread_idx epoll_rc e s g st f =
     (if scan_force_disconnect cfg g s then
        (let (rc, s, final, f) = del_session epoll_rc s True f in
         (if final then Scan_free s else Scan_next s, g, st, f))
      else if in_delete_stage s = 20 \<and> \<not> need_delay_free s then
        (let (s, f) = free_session_res s f in (Scan_free s, g, st, f))
      else
        (let g = g\<lparr>disk_io_threads_busy_loops := disk_io_threads_busy_loops g + 1\<rparr>;
             st = st\<lparr>stat_session_alive := stat_session_alive st + 1\<rparr>;
             (s, f) = (if on_disk_fd s \<ge> 0 \<and> file_seq s \<noteq> cur_seq g
                       then (s\<lparr>on_disk_fd := -1\<rparr>, fs_close (on_disk_fd s) f) else (s, f));
             (s, st) = scan_timeout s st in
         if scan_expired g s then (Scan_next (s\<lparr>time_out_need_flush_to_disk := True\<rparr>), g, st, f)
         else if disk_buf s = None then (Scan_next s, g, st, f)
         else if disk_write_buf_len s < 1 then (Scan_next s, g, st, f)
         else if threadidx s \<noteq> thread_idx then (Scan_trap, g, st, f)
         else
           (let (_, s, f) = handle_filesize_exceeded cfg s f in
            if on_disk_fd s < 0 \<or> file_seq s \<noteq> cur_seq g then
              (case session_set_on_disk_log_filename cfg g e (s\<lparr>file_seq := cur_seq g\<rparr>) f of
                 None \<Rightarrow> (Scan_trap, g, st, f)
               | Some (_, s, f) \<Rightarrow> (Scan_write s, g, st, f))
            else (Scan_write s, g, st, f))))"

text \<open>The loop body after \<open>write2disk\<close> returned \<open>rc\<close>.\<close>

definition scan_post ::
  "int \<Rightarrow> session \<Rightarrow> gstatistic \<Rightarrow> scan_stat \<Rightarrow> fs \<Rightarrow> scan \<times> gstatistic \<times> scan_stat \<times> fs" where
  "scan_post rc s g st f =
     (let st = st\<lparr>stat_succ_submit_disk_io := stat_succ_submit_disk_io st + 1\<rparr>;
          (s, g, st) =
            (if rc > 0 then
               (s\<lparr>last_disk_io_write_tick := ticks g\<rparr>,
                g\<lparr>disk_io_bytes := (disk_io_bytes g)
                    (threadidx s := disk_io_bytes g (threadidx s) + of_int rc)\<rparr>,
                st\<lparr>stat_succ_finished_disk_io := stat_succ_finished_disk_io st + 1\<rparr>)
             else (s, g, st\<lparr>stat_failed_finished_disk_io := stat_failed_finished_disk_io st + 1\<rparr>)) in
      if need_delay_free s then
        (if membuf_offset s > 0 then
           (Scan_next (s\<lparr>disk_buf := Some (cur_buf s), disk_write_buf_len := membuf_offset s,
              membuf_offset := 0\<rparr>), g, st, f)
         else
           (let (s, f) = free_session_res s f in
            (Scan_free s, g, st\<lparr>stat_session_alive := stat_session_alive st - 1\<rparr>, f)))
      else (Scan_next s, g, st, f))"

text \<open>The whole body for one session; \<open>None\<close> when the write loop does not end.\<close>

definition scan_session ::
  "config \<Rightarrow> nat \<Rightarrow> int \<Rightarrow> open_env \<Rightarrow> (int \<times> bool) list \<Rightarrow> session \<Rightarrow> gstatistic \<Rightarrow> scan_stat \<Rightarrow> fs
     \<Rightarrow> (scan \<times> gstatistic \<times> scan_stat \<times> fs) option" where
  "scan_session cfg thread_idx epoll_rc e rcs s g st f =
     (case scan_pre cfg thread_idx epoll_rc e s g st f of
        (Scan_write s, g, st, f) \<Rightarrow>
          (case write2disk rcs s g f of
             None \<Rightarrow> None
           | Some (rc, s, g, f) \<Rightarrow> Some (scan_post rc s g st f))
      | r \<Rightarrow> Some r)"

section \<open>Log file names identify the client\<close>

lemma ip_byte_less: "ip_byte a i < 256"
proof -
  have "unat (drop_bit (8 * i) a AND 0xFF) \<le> unat (0xFF :: u32)"
    by (rule word_and_le1 [THEN word_le_nat_alt [THEN iffD1]])
  then show ?thesis by (simp add: ip_byte_def)
qed

lemma ip_byte_mask: "ip_byte a i = unat (take_bit 8 (drop_bit (8 * i) a))"
  using take_bit_eq_mask [of 8 "drop_bit (8 * i) a"] by (simp add: ip_byte_def mask_eq_exp_minus_1)

lemma ip_bytes_inj:
  assumes "\<And>i. i < 4 \<Longrightarrow> ip_byte a i = ip_byte b i"
  shows "a = b"
proof (rule bit_word_eqI)
  fix n assume "n < LENGTH(32)"
  then have "n div 8 < 4" by auto
  then have "take_bit 8 (drop_bit (8 * (n div 8)) a) = take_bit 8 (drop_bit (8 * (n div 8)) b)"
    using assms by (simp add: ip_byte_mask word_unat_eq_iff)
  then have "bit (take_bit 8 (drop_bit (8 * (n div 8)) a)) (n mod 8)
      = bit (take_bit 8 (drop_bit (8 * (n div 8)) b)) (n mod 8)"
    by simp
  then show "bit a n = bit b n"
    by (simp add: bit_take_bit_iff bit_drop_bit_eq)
qed

lemma length_dec_pad_ip [simp]: "length (dec_pad 3 (ip_byte a i)) = 3"
  using ip_byte_less [of a i] by (intro length_dec_pad) simp_all

lemma dec_pad_3_0 [simp]: "length (dec_pad 3 0) = 3"
  by (intro length_dec_pad) simp_all

lemma length_ip_str [simp]: "length (ip_str1 a) = 15" "length (ip_str2 a) = 15"
  by (simp_all add: ip_str1_def ip_str2_def)

lemma ip_str2_inj: "ip_str2 a = ip_str2 b \<Longrightarrow> a = b"
proof (rule ip_bytes_inj)
  fix i :: nat assume "ip_str2 a = ip_str2 b" "i < 4"
  then have "i = 0 \<or> i = 1 \<or> i = 2 \<or> i = 3" by linarith
  then show "ip_byte a i = ip_byte b i"
    using \<open>ip_str2 a = ip_str2 b\<close> by (auto simp: ip_str2_def dest: dec_pad_inj)
qed

lemma append_suffix_inj: "length u = length v \<Longrightarrow> xs @ u = ys @ v \<Longrightarrow> u = v"
  by simp

lemma log_fileName_same:
  assumes "log_fileName cfg g a = Some p" "log_fileName cfg g b = Some p"
  shows "a = b"
proof -
  have "\<exists>xs. p = xs @ (ip_str2 c @ ''.log'')" if "log_fileName cfg g c = Some p" for c
  proof -
    from that obtain xs where "p = xs @ ip_str1 c @ ''/'' @ ip_str2 c @ ''.log''"
      by (auto simp: log_fileName_def split: if_splits)
    then show ?thesis by (metis append.assoc)
  qed
  from this [OF assms(1)] this [OF assms(2)] obtain xs ys
    where "xs @ (ip_str2 a @ ''.log'') = ys @ (ip_str2 b @ ''.log'')" by metis
  then have "ip_str2 a @ ''.log'' = ip_str2 b @ ''.log''"
    by (rule append_suffix_inj [rotated]) simp
  then show ?thesis by (simp add: ip_str2_inj)
qed

theorem log_fileName_inj:
  assumes "log_fileName cfg g a = Some p" "log_fileName cfg g b = Some q"
  shows "p = q \<longleftrightarrow> a = b"
  using assms log_fileName_same by auto

lemma log_fileName_fits:
  assumes "1 \<le> nr_dir cfg" "nr_dir cfg \<le> 32" "length (log_idf cfg) \<le> 31" "length (date_str1 g) = 8"
    and "1 \<le> dir_switch_period cfg" "0 \<le> cur_seq g" "cur_seq g < 86400"
  shows "\<exists>p. log_fileName cfg g a = Some p \<and> length p < 128"
proof -
  have "c_mod (int (ip_byte a 0)) (nr_dir cfg) < 32"
    using c_mod_bounds [of "nr_dir cfg" "int (ip_byte a 0)"] assms by linarith
  then have 1: "length (dec_pad 2 (nat (c_mod (int (ip_byte a 0)) (nr_dir cfg) + 1))) \<le> 2"
    by (intro length_dec_pad_le) auto
  have "c_div 86400 (dir_switch_period cfg) \<le> 86400"
    using assms(5) zdiv_mono2 [of 86400 1 "dir_switch_period cfg"] by (simp add: c_div_def)
  then have 2: "length (dec (nat (c_div 86400 (dir_switch_period cfg)))) \<le> 5"
    by (intro length_dec_le) auto
  have 3: "length (dec_pad 3 (nat (cur_seq g))) \<le> 5"
    using assms by (intro length_dec_pad_le) auto
  from 1 2 3 show ?thesis
    using assms by (auto simp: log_fileName_def)
qed

section \<open>The write loop\<close>

lemma write_loop_done [simp]: "write_loop rcs ntries 0 src out = Some (0, out)"
  by (subst write_loop.simps) simp

lemma write_loop_full:
  assumes "0 < n" "n \<le> length src" "0 < ntries"
  shows "write_loop ((int n, e) # rcs) ntries (int n) src out = Some (0, out @ take n src)"
  using assms by (subst write_loop.simps) simp

text \<open>What \<open>write\<close> may return when asked for \<open>nleft\<close> bytes.\<close>

definition write_rc_ok :: "int \<Rightarrow> int \<Rightarrow> bool" where
  "write_rc_ok nleft rc \<longleftrightarrow> rc = -1 \<or> (0 \<le> rc \<and> rc \<le> nleft)"

fun write_rcs_ok :: "(int \<times> bool) list \<Rightarrow> int \<Rightarrow> bool" where
  "write_rcs_ok [] nleft = True"
| "write_rcs_ok ((rc, e) # rcs) nleft = (write_rc_ok nleft rc \<and> write_rcs_ok rcs (nleft - rc))"

lemma write_loop_total:
  assumes "write_rcs_ok rcs nleft" "0 \<le> nleft" "0 < ntries"
    and "write_loop rcs ntries nleft src out = Some (left, out')"
  shows "left = 0"
  using assms
proof (induction rcs arbitrary: nleft out)
  case Nil
  then show ?case by (subst (asm) write_loop.simps) (auto split: if_splits)
next
  case (Cons r rcs)
  obtain rc e where r: "r = (rc, e)" by force
  show ?case
  proof (cases "nleft = 0")
    case False
    then have "write_loop rcs ntries (nleft - rc) src (out @ take (nat rc) src) = Some (left, out')"
      using Cons.prems r by (subst (asm) write_loop.simps) (auto simp: write_rc_ok_def split: if_splits)
    then show ?thesis
      using Cons.prems r False by (intro Cons.IH) (auto simp: write_rc_ok_def)
  qed (use Cons.prems in simp)
qed

lemma write_loop_error_forever:
  assumes "0 < nleft" "0 < ntries"
  shows "write_loop (replicate k (-1, e)) ntries nleft src out = None"
  using assms
proof (induction k arbitrary: nleft)
  case (Suc k)
  then show ?case by (subst write_loop.simps) simp
qed (subst write_loop.simps, simp)

lemma write_loop_short:
  assumes "0 < r" "r < n"
  shows "write_loop [(int r, e), (int n - int r, e')] 100 (int n) src []
    = Some (0, take r src @ take (n - r) src)"
proof -
  have "write_loop [(int n - int r, e')] 100 (int n - int r) src (take r src)
      = Some (0, take r src @ take (n - r) src)"
    using assms by (subst write_loop.simps) (simp add: nat_diff_distrib)
  then show ?thesis using assms by (subst write_loop.simps) simp
qed

section \<open>A completed write moves the pending half to the file\<close>

definition open_append :: "fs \<Rightarrow> int \<Rightarrow> string \<Rightarrow> bytes \<Rightarrow> bool" where
  "open_append f fd path c \<longleftrightarrow>
     (case fdt f fd of None \<Rightarrow> False | Some d \<Rightarrow> o_path d = path \<and> o_append d)
     \<and> files f path = Some c"

lemma fs_write_append:
  assumes "open_append f fd path c"
  shows "files (fs_write fd bs f) = (files f)(path \<mapsto> c @ bs)"
    "open_append (fs_write fd bs f) fd path (c @ bs)"
  using assms by (auto simp: open_append_def fs_write_def put_at_def split: option.splits)

lemma write2disk_begin_Some:
  "write2disk_begin s = Some (d, n, s') \<longleftrightarrow>
     \<not> disk_io_in_progress s \<and> disk_buf s = Some d \<and> n = disk_write_buf_len s
     \<and> s' = s\<lparr>disk_io_in_progress := True, disk_buf := None\<rparr>"
  by (auto simp: write2disk_begin_def split: option.splits)

lemma claimed_inv:
  assumes "session_inv s" "disk_buf s = Some d"
  shows "session_inv (s\<lparr>disk_io_in_progress := True, disk_buf := None\<rparr>)"
  using assms by (simp add: session_inv_def buf_inv_def size_inv_def room_inv_def)

lemma claimed_parts [simp]:
  "mem_part (s\<lparr>disk_io_in_progress := b, disk_buf := x\<rparr>) = mem_part s"
  "pending (s\<lparr>disk_io_in_progress := b, disk_buf := None\<rparr>) = mem_part s"
  "other_half (s\<lparr>disk_io_in_progress := b, disk_buf := x\<rparr>) = other_half s"
  by (simp_all add: mem_part_def other_half_def pending_def disk_part_def)

definition released :: "nat \<Rightarrow> int \<Rightarrow> session \<Rightarrow> session" where
  "released towrite nleft s = snd (write2disk_end towrite nleft s)"

lemma released_fields [simp]:
  "buf1 (released n l s) = buf1 s" "disk_buf (released n l s) = disk_buf s"
  "cur_buf (released n l s) = cur_buf s" "buf2 (released n l s) = buf2 s"
  "membuf_offset (released n l s) = membuf_offset s" "mem_buf_len (released n l s) = mem_buf_len s"
  "net_read_buf_len (released n l s) = net_read_buf_len s"
  "disk_write_buf_len (released n l s) = 0" "\<not> disk_io_in_progress (released n l s)"
  "on_disk_fd (released n l s) = on_disk_fd s" "need_delay_free (released n l s) = need_delay_free s"
  "time_out_need_flush_to_disk (released n l s) = time_out_need_flush_to_disk s"
  "threadidx (released n l s) = threadidx s"
  by (simp_all add: released_def write2disk_end_def)

lemma released_inv:
  assumes "session_inv s" "disk_buf s = None"
  shows "session_inv (released n l s)"
  using assms by (simp add: session_inv_def buf_inv_def size_inv_def room_inv_def)

lemma released_parts [simp]: "mem_part (released n l s) = mem_part s"
  "disk_buf s = None \<Longrightarrow> pending (released n l s) = mem_part s"
  by (simp_all add: mem_part_def pending_def disk_part_def)

abbreviation claimed :: "session \<Rightarrow> session" where
  "claimed s \<equiv> s\<lparr>disk_io_in_progress := True, disk_buf := None\<rparr>"

lemma write2disk_eq:
  assumes "\<not> disk_io_in_progress s" "disk_buf s = Some d" "buf1 s = Some blk"
    and "0 < disk_write_buf_len s" "d + disk_write_buf_len s \<le> length blk"
  shows "write2disk [(int (disk_write_buf_len s), e)] s g f =
    Some (int (disk_write_buf_len s), released (disk_write_buf_len s) 0 (claimed s), g,
      fs_write (on_disk_fd s) (disk_part s) f)"
proof -
  let ?n = "disk_write_buf_len s"
  have loop: "write_loop [(int ?n, e)] 100 (int ?n) (drop d blk) [] = Some (0, disk_part s)"
    using assms write_loop_full [of ?n "drop d blk" 100 e "[]" "[]"]
    by (simp add: disk_part_def slice_at_def)
  have "write2disk_begin s = Some (d, ?n, claimed s)"
    using assms by (simp add: write2disk_begin_Some)
  then show ?thesis
    by (simp add: write2disk_def assms(3) loop released_def write2disk_end_def)
qed

lemma disk_half_in_block:
  assumes "buf_inv s" "disk_buf s = Some d"
  shows "d + disk_write_buf_len s \<le> length (the (buf1 s))"
    "cur_buf s + membuf_offset s \<le> length (the (buf1 s))"
  using assms by (auto simp: buf_inv_def other_half_def split: if_splits)

text \<open>C6. When write takes the whole request, write2disk appends exactly the submitted
  half to the log file, keeps the session invariant and leaves only the half still
  being filled as pending.\<close>

lemma write2disk_complete:
  assumes inv: "session_inv s" and "\<not> disk_io_in_progress s" "disk_buf s \<noteq> None" "0 < disk_write_buf_len s"
    and "open_append f (on_disk_fd s) path c"
  shows "\<exists>s' f'. write2disk [(int (disk_write_buf_len s), e)] s g f
      = Some (int (disk_write_buf_len s), s', g, f')
    \<and> files f' = (files f)(path \<mapsto> c @ disk_part s) \<and> open_append f' (on_disk_fd s') path (c @ disk_part s)
    \<and> session_inv s' \<and> pending s = disk_part s @ pending s'"
proof -
  obtain d blk where d: "disk_buf s = Some d" "buf1 s = Some blk"
    using assms by (auto simp: session_inv_def buf_inv_def)
  have "d + disk_write_buf_len s \<le> length blk"
    using disk_half_in_block [of s d] inv d by (simp add: session_inv_def)
  note eq = write2disk_eq [OF assms(2) d assms(4) this, of e g f]
  have "session_inv (released (disk_write_buf_len s) 0 (claimed s))"
    by (intro released_inv claimed_inv) (use assms d in simp_all)
  then show ?thesis
    using eq fs_write_append [OF assms(5)] by (simp add: pending_def [of s])
qed

section \<open>Rotation\<close>

lemma fs_simps [simp]:
  "files (fs_close fd f) = files f"
  "fdt (fs_close fd f) fd' = (if fd' = fd then None else fdt f fd')"
  "files (fs_remove p f) = (files f)(p := None)"
  by (auto simp: fs_close_def fs_remove_def)

lemma files_fs_rename: "files f a = Some c \<Longrightarrow> files (fs_rename a b f) = (files f)(a := None, b \<mapsto> c)"
  by (simp add: fs_rename_def)

lemma files_fs_open:
  "files (fs_open p app fd f) = (if files f p = None then (files f)(p \<mapsto> []) else files f)"
  by (simp add: fs_open_def)

lemma append_last_neq [simp]: "xs @ ''.last'' \<noteq> xs" "xs \<noteq> xs @ ''.last''"
  by simp_all

lemma handle_filesize_rotates:
  assumes "open_append f (on_disk_fd s) path c" "0 \<le> on_disk_fd s"
    and "max_file_size cfg \<le> rough_file_offset s"
  shows "\<exists>s' f'. handle_filesize_exceeded cfg s f = (0, s', f')
    \<and> files f' = (files f)(path := None, path @ ''.last'' \<mapsto> c)
    \<and> on_disk_fd s' = -1 \<and> rough_file_offset s' = 0 \<and> pending s' = pending s"
proof -
  obtain d where d: "fdt f (on_disk_fd s) = Some d" "o_path d = path" "files f path = Some c"
    using assms(1) by (auto simp: open_append_def split: option.splits)
  let ?f = "fs_remove (path @ ''.last'') (fs_close (on_disk_fd s) f)"
  have "files ?f path = Some c" using d by simp
  from files_fs_rename [OF this, of "path @ ''.last''"]
  have "files (fs_rename path (path @ ''.last'') ?f) = (files f)(path := None, path @ ''.last'' \<mapsto> c)"
    by (auto simp: fun_upd_twist)
  then show ?thesis
    using assms d
    by (auto simp: handle_filesize_exceeded_def Let_def pending_def disk_part_def mem_part_def not_less
        split: option.split)
qed

text \<open>
  A rotated session opens a fresh file under the old name, with the old content
  kept under \<open>.last\<close>.
\<close>

lemma rotation_reopens:
  assumes "open_append f (on_disk_fd s) path c" "0 \<le> on_disk_fd s"
    and "max_file_size cfg \<le> rough_file_offset s"
    and name: "log_fileName cfg g (ip s) = Some path" and "mkpath_ok e" "0 \<le> open_fd e"
  shows "\<exists>s1 f1 s2 f2. handle_filesize_exceeded cfg s f = (0, s1, f1)
    \<and> session_set_on_disk_log_filename cfg g e s1 f1 = Some (open_fd e, s2, f2)
    \<and> files f2 (path @ ''.last'') = Some c \<and> open_append f2 (on_disk_fd s2) path []
    \<and> rough_file_offset s2 = 0"
proof -
  obtain s1 f1 where 1: "handle_filesize_exceeded cfg s f = (0, s1, f1)"
    "files f1 = (files f)(path := None, path @ ''.last'' \<mapsto> c)" "on_disk_fd s1 = -1"
    using handle_filesize_rotates [OF assms(1-3)] by blast
  have ip1: "ip s1 = ip s"
    using 1(1) by (auto simp: handle_filesize_exceeded_def Let_def split: if_splits option.splits)
  have fn: "files f1 path = None" using 1(2) by simp
  have "\<not> max_file_size cfg < 0" by simp
  then have "session_set_on_disk_log_filename cfg g e s1 f1 =
      Some (open_fd e, s1\<lparr>rough_file_offset := 0, on_disk_fd := open_fd e\<rparr>,
        fs_open path True (open_fd e) f1)"
    using assms 1(3) ip1 fn
    by (simp add: session_set_on_disk_log_filename_def Let_def files_fs_open)
  then show ?thesis
    using 1 fn by (auto simp: open_append_def fs_open_def)
qed

text \<open>
  \<open>session_set_on_disk_log_filename\<close> on its own rotates nothing: the session has no
  open descriptor when the disk thread calls it, so the too large file keeps its
  content and its name, the descriptor of the first \<open>open\<close> stays in the table, and the
  second one writes from the start of the file.
\<close>

lemma set_filename_does_not_rotate:
  assumes "on_disk_fd s = -1" "fdt f (-1) = None" "files f [] = None" "files f ''.last'' = None"
    and name: "log_fileName cfg g (ip s) = Some path" and "files f path = Some c"
    and "max_file_size cfg < of_nat (length c)"
    and "mkpath_ok e" "0 \<le> open_fd e" "0 \<le> reopen_fd e" "open_fd e \<noteq> reopen_fd e"
  shows "\<exists>s' f'. session_set_on_disk_log_filename cfg g e s f = Some (reopen_fd e, s', f')
    \<and> files f' = files f \<and> fdt f' (open_fd e) \<noteq> None \<and> rough_file_offset s' = 0
    \<and> files (fs_write (on_disk_fd s') bs f') path = Some (put_at 0 bs c)"
proof -
  let ?f1 = "fs_open path True (open_fd e) f"
  have f1: "files ?f1 = files f" "fdt ?f1 (-1) = None"
    using assms by (auto simp: fs_open_def)
  have f2: "fs_rename [] ''.last'' (fs_remove ''.last'' (fs_close (-1) ?f1)) = fs_close (-1) ?f1"
    using assms(3,4) f1 by (simp add: fs_rename_def fs_remove_def)
  have "session_set_on_disk_log_filename cfg g e s f =
      Some (reopen_fd e, s\<lparr>rough_file_offset := 0, on_disk_fd := reopen_fd e\<rparr>,
        fs_open path False (reopen_fd e) (fs_close (-1) ?f1))"
    using assms f1 f2 by (simp add: session_set_on_disk_log_filename_def Let_def)
  then show ?thesis
    using assms f1 by (auto simp: fs_open_def fs_close_def fs_write_def)
qed

section \<open>Closing a session\<close>

lemma free_session_step2_handover:
  assumes "0 < membuf_offset s" "0 \<le> slot_idx s" "disk_buf s = None"
  shows "need_delay_free (free_session_step2 s)" "disk_part (free_session_step2 s) = mem_part s"
    "membuf_offset (free_session_step2 s) = 0" "in_delete_stage (free_session_step2 s) = 20"
  using assms by (simp_all add: free_session_step2_def Let_def disk_part_def mem_part_def)

lemma close_loses_submitted_data:
  assumes "membuf_offset s = 0" "disk_part s \<noteq> []" "\<not> need_delay_free s"
    and "force_disconnect_seconds cfg \<le> 0"
  shows "\<exists>s' f'. scan_pre cfg thread_idx rc' e (free_session_step2 (snd (free_session_step1 rc s))) g st f
      = (Scan_free s', g, st, f') \<and> buf1 s' = None \<and> files f' = files f"
  using assms
  by (simp add: free_session_step1_def free_session_step2_def scan_pre_def scan_force_disconnect_def
      free_session_res_def Let_def)

text \<open>The second pass of \<open>scan_post\<close> for an orphan with bytes left in memory.\<close>

definition second_pass :: "session \<Rightarrow> session" where
  "second_pass s = s\<lparr>disk_buf := Some (cur_buf s), disk_write_buf_len := membuf_offset s,
     membuf_offset := 0\<rparr>"

lemma scan_post_orphan:
  assumes "0 < rc" "need_delay_free s"
  shows "0 < membuf_offset s \<Longrightarrow>
      fst (scan_post rc s g st f) = Scan_next (second_pass (s\<lparr>last_disk_io_write_tick := ticks g\<rparr>))"
    "0 < membuf_offset s \<Longrightarrow> snd (snd (snd (scan_post rc s g st f))) = f"
    "membuf_offset s = 0 \<Longrightarrow> \<exists>s'. fst (scan_post rc s g st f) = Scan_free s' \<and> buf1 s' = None"
    "membuf_offset s = 0 \<Longrightarrow> files (snd (snd (snd (scan_post rc s g st f)))) = files f"
  using assms by (simp_all add: scan_post_def second_pass_def free_session_res_def Let_def)

text \<open>
  A whole visit of the disk thread to a session with a submitted half: nothing before
  the write stops it, frees the session or changes the file.
\<close>

definition calm :: "config \<Rightarrow> nat \<Rightarrow> session \<Rightarrow> gstatistic \<Rightarrow> bool" where
  "calm cfg tid s g \<longleftrightarrow> force_disconnect_seconds cfg \<le> 0 \<and> 0 \<le> on_disk_fd s \<and> file_seq s = cur_seq g
     \<and> rough_file_offset s < max_file_size cfg \<and> threadidx s = tid"

lemma scan_pre_writes:
  assumes "calm cfg tid s g" "in_delete_stage s \<noteq> 20 \<or> need_delay_free s"
    and "disk_buf s \<noteq> None" "0 < disk_write_buf_len s"
  shows "\<exists>g' st'. scan_pre cfg tid rc e s g st f
      = (Scan_write (s\<lparr>time_out_need_flush_to_disk := False\<rparr>), g', st', f) \<and> ticks g' = ticks g"
proof -
  obtain d where d: "disk_buf s = Some d" using assms(3) by auto
  have skip: "\<not> (in_delete_stage s = 20 \<and> \<not> need_delay_free s)" "\<not> scan_force_disconnect cfg g s"
    using assms(1,2) by (auto simp: calm_def scan_force_disconnect_def)
  obtain st1 where st1: "scan_timeout s (st\<lparr>stat_session_alive := stat_session_alive st + 1\<rparr>)
      = (s\<lparr>time_out_need_flush_to_disk := False\<rparr>, st1)"
    using d by (cases "time_out_need_flush_to_disk s") (cases s, simp_all add: scan_timeout_def)
  have c: "0 \<le> on_disk_fd s" "file_seq s = cur_seq g" "rough_file_offset s < max_file_size cfg" "threadidx s = tid"
    using assms(1) by (simp_all add: calm_def)
  then show ?thesis
    using d assms(4) unfolding scan_pre_def if_not_P [OF skip(1)] if_not_P [OF skip(2)]
    by (simp add: st1 scan_expired_def handle_filesize_exceeded_def Let_def)
qed

lemma scan_session_writes:
  assumes "calm cfg tid s g" "in_delete_stage s \<noteq> 20 \<or> need_delay_free s"
    and "\<not> disk_io_in_progress s" "disk_buf s = Some d" "buf1 s = Some blk"
    and "0 < disk_write_buf_len s" "d + disk_write_buf_len s \<le> length blk"
  shows "\<exists>g' st'. ticks g' = ticks g
    \<and> scan_session cfg tid rc e [(int (disk_write_buf_len s), e1)] s g st f
      = Some (scan_post (int (disk_write_buf_len s))
          (released (disk_write_buf_len s) 0 (claimed (s\<lparr>time_out_need_flush_to_disk := False\<rparr>))) g' st'
          (fs_write (on_disk_fd s) (disk_part s) f))"
proof -
  let ?t = "s\<lparr>time_out_need_flush_to_disk := False\<rparr>"
  obtain g' st' where p: "scan_pre cfg tid rc e s g st f = (Scan_write ?t, g', st', f)" "ticks g' = ticks g"
    using scan_pre_writes [OF assms(1,2) _ assms(6), of rc e st f] assms(4) by auto
  have "write2disk [(int (disk_write_buf_len ?t), e1)] ?t g' f
      = Some (int (disk_write_buf_len ?t), released (disk_write_buf_len ?t) 0 (claimed ?t), g',
          fs_write (on_disk_fd ?t) (disk_part ?t) f)"
    by (rule write2disk_eq [where d = d and blk = blk]) (use assms in simp_all)
  moreover have "disk_part ?t = disk_part s" using assms(4) by (simp add: disk_part_def)
  ultimately show ?thesis using p by (intro exI [of _ g'] exI [of _ st']) (simp add: scan_session_def)
qed

text \<open>C7. Two whole visits of the disk thread to a connection that was closed with a
  submitted half and collected bytes: the first writes the submitted half and keeps
  the session, the second writes the collected bytes and frees it, and the file ends
  with the pending data in order. The conditions: no forced disconnect is configured,
  the log file is open and belongs to the current period, no rotation is due, the
  session belongs to the visiting thread, and each write takes the whole request.\<close>

lemma close_flushes_in_order:
  assumes inv: "session_inv s" and "\<not> disk_io_in_progress s" "disk_buf s \<noteq> None"
    and pos: "0 < disk_write_buf_len s" "0 < membuf_offset s" "0 \<le> slot_idx s"
    and f: "open_append f (on_disk_fd s) path c"
    and calm: "calm cfg tid s g" "rough_file_offset s + of_nat (disk_write_buf_len s) < max_file_size cfg"
      "cur_seq g2 = cur_seq g"
  shows "\<exists>s1 g1 st1 f1 s2 g3 st3 f2.
      scan_session cfg tid rc1 e1 [(int (disk_write_buf_len s), i1)]
        (free_session_step2 (snd (free_session_step1 rc s))) g st f = Some (Scan_next s1, g1, st1, f1)
    \<and> files f1 path = Some (c @ disk_part s)
    \<and> scan_session cfg tid rc2 e2 [(int (membuf_offset s), i2)] s1 g2 st2 f1 = Some (Scan_free s2, g3, st3, f2)
    \<and> files f2 path = Some (c @ pending s) \<and> buf1 s2 = None \<and> fdt f2 (on_disk_fd s) = None"
proof -
  obtain d blk where d: "disk_buf s = Some d" "buf1 s = Some blk"
    using assms by (auto simp: session_inv_def buf_inv_def)
  let ?n = "disk_write_buf_len s" and ?m = "membuf_offset s"
  define o1 where "o1 = free_session_step2 (snd (free_session_step1 rc s))"
  have o: "o1 = s\<lparr>socket_fd := -1, need_delay_free := True, in_delete_stage := 20\<rparr>"
    using assms d by (simp add: o1_def free_session_step1_def free_session_step2_def Let_def)
  have le: "d + ?n \<le> length blk" "cur_buf s + ?m \<le> length blk"
    using disk_half_in_block [of s d] inv d by (simp_all add: session_inv_def)
  define r1 where "r1 = released ?n 0 (claimed (o1\<lparr>time_out_need_flush_to_disk := False\<rparr>))"
  let ?f1 = "fs_write (on_disk_fd s) (disk_part s) f"
  have dp: "disk_part o1 = disk_part s" using d by (simp add: o disk_part_def)
  have "calm cfg tid o1 g" using calm(1) by (simp add: calm_def o)
  from scan_session_writes [OF this, of d blk rc1 e1 i1 st f] obtain g1 st1 where
    v1: "scan_session cfg tid rc1 e1 [(int ?n, i1)] o1 g st f = Some (scan_post (int ?n) r1 g1 st1 ?f1)"
    using assms d le dp by (auto simp: o r1_def)
  have r1: "buf1 r1 = Some blk" "cur_buf r1 = cur_buf s" "membuf_offset r1 = ?m" "need_delay_free r1"
    "on_disk_fd r1 = on_disk_fd s" "\<not> disk_io_in_progress r1" "threadidx r1 = threadidx s"
    "file_seq r1 = file_seq s" "rough_file_offset r1 = rough_file_offset s + of_nat ?n"
    using d by (simp_all add: r1_def o) (simp_all add: released_def write2disk_end_def)
  define p where "p = second_pass (r1\<lparr>last_disk_io_write_tick := ticks g1\<rparr>)"
  have p1: "fst (scan_post (int ?n) r1 g1 st1 ?f1) = Scan_next p" "snd (snd (snd (scan_post (int ?n) r1 g1 st1 ?f1))) = ?f1"
    using scan_post_orphan(1,2) [of "int ?n" r1 g1 st1 ?f1] pos r1 by (simp_all add: p_def)
  have p: "disk_write_buf_len p = ?m" "disk_buf p = Some (cur_buf s)" "buf1 p = Some blk" "\<not> disk_io_in_progress p"
    "need_delay_free p" "on_disk_fd p = on_disk_fd s" "membuf_offset p = 0" "disk_part p = mem_part s" "calm cfg tid p g2"
    using d r1 calm by (simp_all add: p_def second_pass_def disk_part_def mem_part_def calm_def)
  have f1: "open_append ?f1 (on_disk_fd s) path (c @ disk_part s)" "files ?f1 path = Some (c @ disk_part s)"
    using fs_write_append [OF f] by simp_all
  define r2 where "r2 = released ?m 0 (claimed (p\<lparr>time_out_need_flush_to_disk := False\<rparr>))"
  let ?f2 = "fs_write (on_disk_fd s) (mem_part s) ?f1"
  from scan_session_writes [OF p(9), of "cur_buf s" blk rc2 e2 i2 st2 ?f1] obtain g3 st3 where
    v2: "scan_session cfg tid rc2 e2 [(int ?m, i2)] p g2 st2 ?f1 = Some (scan_post (int ?m) r2 g3 st3 ?f2)"
    using p pos le by (auto simp: r2_def)
  have r2: "membuf_offset r2 = 0" "need_delay_free r2" "on_disk_fd r2 = on_disk_fd s"
    using p by (simp_all add: r2_def)
  have fd: "0 \<le> on_disk_fd s" using calm(1) by (simp add: calm_def)
  obtain s2 g4 st4 f2 where p2: "scan_post (int ?m) r2 g3 st3 ?f2 = (Scan_free s2, g4, st4, f2)" "buf1 s2 = None"
    "files f2 = files ?f2" "fdt f2 (on_disk_fd s) = None"
    using pos r2 fd by (simp add: scan_post_def free_session_res_def Let_def)
  obtain g5 st5 where "scan_post (int ?n) r1 g1 st1 ?f1 = (Scan_next p, g5, st5, ?f1)"
    using p1 by (metis prod.collapse)
  then show ?thesis
    using v1 v2 p2 f1(2) fs_write_append [OF f1(1)] by (simp add: o1_def pending_def)
qed

section \<open>Concrete states\<close>

definition disk_config :: config where
  "disk_config = \<lparr>nWorkers = 1, nr_dir = 1, max_file_size = 1, log_idf = ''log'',
     dir_switch_period = 600, force_disconnect_seconds = 0\<rparr>"

definition disk_gstat :: gstatistic where
  "disk_gstat =
     \<lparr>cur_time = 0, date_str1 = ''20200101'', ticks = 0, last_report_tick = 0,
      disk_io_bytes = (\<lambda>_. 0), net_in_bytes = (\<lambda>_. 0), last_disk_io_bytes = (\<lambda>_. 0),
      last_net_in_bytes = (\<lambda>_. 0), disk_io_threads_busy_loops = 0,
      last_disk_io_threads_busy_loops = 0, snapshot_session_alive = 0,
      period_succ_submit_disk_io_timer_expire_forced = 0, period_succ_submit_disk_io = 0,
      period_succ_finished_disk_io = 0, period_failed_finished_disk_io = 0,
      cur_seq = 7, failed_disk_bytes_write = 0\<rparr>"

definition disk_stat :: scan_stat where
  "disk_stat = \<lparr>stat_session_alive = 0, stat_succ_submit_disk_io_timer_expire_forced = 0,
     stat_succ_submit_disk_io = 0, stat_succ_finished_disk_io = 0, stat_failed_finished_disk_io = 0\<rparr>"

definition disk_env :: open_env where
  "disk_env = \<lparr>mkpath_ok = True, open_fd = 8, reopen_fd = 9\<rparr>"

text \<open>Two bytes submitted, one collected, and the log file open on descriptor 5.\<close>

definition half_session :: session where
  "half_session = sample_session\<lparr>disk_buf := Some DEFAULT_DATA_BLOCK_SIZE, disk_write_buf_len := 2,
     membuf_offset := 1, on_disk_fd := 5, slot_idx := 0, rough_file_offset := 9\<rparr>"

definition disk_path :: string where
  "disk_path = the (log_fileName disk_config disk_gstat 0x0a000001)"

definition disk_fs :: fs where
  "disk_fs = \<lparr>files = [disk_path \<mapsto> [1, 2]], fdt = [5 \<mapsto> \<lparr>o_path = disk_path, o_append = True, o_pos = 0\<rparr>]\<rparr>"

lemma sample_session_fields:
  "mem_buf_len sample_session = DEFAULT_DATA_BLOCK_SIZE" "buf1 sample_session = Some (replicate (2 * DEFAULT_DATA_BLOCK_SIZE) 0)"
  "buf2 sample_session = DEFAULT_DATA_BLOCK_SIZE" "cur_buf sample_session = 0" "net_read_buf_len sample_session = 4096"
  "\<not> need_delay_free sample_session" "\<not> disk_io_in_progress sample_session" "ip sample_session = 0x0a000001"
  "on_disk_fd sample_session = -1" "disk_buf sample_session = None" "membuf_offset sample_session = 0"
  by (simp_all add: sample_session_def get_new_session_def size_consts)

lemma half_session_inv: "session_inv half_session"
  by (simp add: half_session_def session_inv_def buf_inv_def size_inv_def room_inv_def other_half_def
      sample_session_fields size_consts)

lemma disk_path_name: "log_fileName disk_config disk_gstat 0x0a000001 = Some disk_path"
  by (simp add: disk_path_def log_fileName_def disk_config_def)

lemma disk_path_nonempty: "disk_path \<noteq> []" "disk_path \<noteq> ''.last''"
  by (simp_all add: disk_path_def log_fileName_def disk_config_def)

lemma disk_fs_open: "open_append disk_fs (on_disk_fd half_session) disk_path [1, 2]"
  by (simp add: open_append_def disk_fs_def half_session_def)

theorem log_fileName_inj_witness:
  "\<exists>p q. log_fileName disk_config disk_gstat 0x0a000001 = Some p
     \<and> log_fileName disk_config disk_gstat 0x0a000002 = Some q \<and> p \<noteq> q"
proof -
  obtain p q where pq: "log_fileName disk_config disk_gstat 0x0a000001 = Some p"
    "log_fileName disk_config disk_gstat 0x0a000002 = Some q"
    by (simp add: log_fileName_def disk_config_def)
  with log_fileName_inj [OF pq] show ?thesis by auto
qed

theorem log_fileName_fits_witness:
  "\<exists>p. log_fileName disk_config disk_gstat 0xffffffff = Some p \<and> length p < 128"
  by (rule log_fileName_fits) (simp_all add: disk_config_def disk_gstat_def)

theorem write_loop_error_forever_witness: "write_loop (replicate 1000 (-1, False)) 100 2 [1, 2] [] = None"
  by (rule write_loop_error_forever) simp_all

theorem write_loop_short_witness:
  "write_loop [(1, False), (2, False)] 100 3 [7, 8, 9] [] = Some (0, [7, 7, 8])"
  using write_loop_short [of 1 3 False False "[7, 8, 9]"] by (simp add: numeral_2_eq_2)

theorem write2disk_complete_witness:
  "\<exists>s' f'. write2disk [(2, False)] half_session disk_gstat disk_fs = Some (2, s', disk_gstat, f')
     \<and> files f' disk_path = Some ([1, 2] @ disk_part half_session)"
  using write2disk_complete [OF half_session_inv _ _ _ disk_fs_open, of False disk_gstat]
  by (force simp: half_session_def sample_session_fields)

theorem rotation_reopens_witness:
  "\<exists>s1 f1 s2 f2. handle_filesize_exceeded disk_config half_session disk_fs = (0, s1, f1)
     \<and> session_set_on_disk_log_filename disk_config disk_gstat disk_env s1 f1 = Some (8, s2, f2)
     \<and> files f2 (disk_path @ ''.last'') = Some [1, 2] \<and> open_append f2 (on_disk_fd s2) disk_path []"
proof -
  have "0 \<le> on_disk_fd half_session" "max_file_size disk_config \<le> rough_file_offset half_session"
    "log_fileName disk_config disk_gstat (ip half_session) = Some disk_path"
    by (simp_all add: half_session_def disk_config_def sample_session_fields
        disk_path_name [unfolded disk_config_def])
  from rotation_reopens [OF disk_fs_open this, of disk_env] show ?thesis
    by (simp add: disk_env_def) blast
qed

theorem set_filename_does_not_rotate_witness:
  "\<exists>s' f'. session_set_on_disk_log_filename disk_config disk_gstat disk_env sample_session disk_fs = Some (9, s', f')
     \<and> files f' = files disk_fs \<and> files (fs_write (on_disk_fd s') [3] f') disk_path = Some (put_at 0 [3] [1, 2])"
proof -
  have "fdt disk_fs (-1) = None" "files disk_fs [] = None" "files disk_fs ''.last'' = None"
    "files disk_fs disk_path = Some [1, 2]"
    using disk_path_nonempty by (auto simp: disk_fs_def)
  moreover have "log_fileName disk_config disk_gstat (ip sample_session) = Some disk_path"
    by (simp add: sample_session_fields disk_path_name)
  ultimately show ?thesis
    using set_filename_does_not_rotate [of sample_session disk_fs disk_config disk_gstat disk_path "[1, 2]" disk_env "[3]"]
    by (auto simp: sample_session_fields disk_config_def disk_env_def)
qed

theorem close_loses_submitted_data_witness:
  "\<exists>s' f'. scan_pre disk_config 0 0 disk_env
       (free_session_step2 (snd (free_session_step1 0 (half_session\<lparr>membuf_offset := 0\<rparr>)))) disk_gstat disk_stat disk_fs
     = (Scan_free s', disk_gstat, disk_stat, f') \<and> buf1 s' = None \<and> files f' = files disk_fs"
  by (rule close_loses_submitted_data)
    (simp_all add: half_session_def disk_config_def disk_part_def sample_session_fields slice_at_def
      size_consts)

theorem close_flushes_in_order_witness:
  "\<exists>s1 g1 st1 f1 s2 g3 st3 f2.
      scan_session (disk_config\<lparr>max_file_size := 100\<rparr>) 0 0 disk_env [(2, False)]
        (free_session_step2 (snd (free_session_step1 0 half_session))) (disk_gstat\<lparr>cur_seq := 0\<rparr>) disk_stat disk_fs = Some (Scan_next s1, g1, st1, f1)
    \<and> scan_session (disk_config\<lparr>max_file_size := 100\<rparr>) 0 0 disk_env [(1, False)] s1 (disk_gstat\<lparr>cur_seq := 0, ticks := 1\<rparr>) disk_stat f1
        = Some (Scan_free s2, g3, st3, f2)
    \<and> files f2 disk_path = Some ([1, 2] @ pending half_session)"
proof -
  have h: "disk_write_buf_len half_session = 2" "membuf_offset half_session = 1" "slot_idx half_session = 0"
    "disk_buf half_session \<noteq> None" "\<not> disk_io_in_progress half_session" "rough_file_offset half_session = 9"
    "on_disk_fd half_session = 5" "file_seq half_session = 0" "threadidx half_session = 0"
    by (simp_all add: half_session_def sample_session_fields) (simp_all add: sample_session_def get_new_session_def)
  have "calm (disk_config\<lparr>max_file_size := 100\<rparr>) 0 half_session (disk_gstat\<lparr>cur_seq := 0\<rparr>)"
    by (simp add: calm_def h) (simp add: disk_config_def disk_gstat_def)
  from close_flushes_in_order [OF half_session_inv h(5,4) _ _ _ disk_fs_open this, of "disk_gstat\<lparr>cur_seq := 0, ticks := 1\<rparr>"
      0 disk_env False 0 disk_stat 0 disk_env False disk_stat]
  show ?thesis unfolding h by simp blast
qed

end
