(* ===== verification/ConnTable.thy ===== *)
theory ConnTable
  imports Prelude
begin

text \<open>
  The connection tables of the servers. Each of them keeps, for every network thread, an
  array of session pointers and the number of those in use; a session holds its thread
  and its slot. The search for a free slot has the same text in all of them.
\<close>

section \<open>Free slots\<close>

definition MAX_CONN_PER_THREAD :: nat where "MAX_CONN_PER_THREAD = 409600"

function free_slot_from :: "(nat \<Rightarrow> 'a option) \<Rightarrow> nat \<Rightarrow> int" where
  "free_slot_from sptr i =
     (if i < MAX_CONN_PER_THREAD then
        (if sptr i = None then int i else free_slot_from sptr (i + 1))
      else -1)"
  by pat_completeness auto
termination
  by (relation "measure (\<lambda>(sptr, i). MAX_CONN_PER_THREAD - i)") auto

declare free_slot_from.simps [simp del]

definition get_free_conn_slot :: "(nat \<Rightarrow> 'a option) \<Rightarrow> int" where
  "get_free_conn_slot sptr = free_slot_from sptr 0"

lemma free_slot_from_bounds:
  "free_slot_from sptr i = r \<Longrightarrow> 0 \<le> r \<Longrightarrow> i \<le> nat r \<and> nat r < MAX_CONN_PER_THREAD \<and> sptr (nat r) = None"
proof (induction sptr i rule: free_slot_from.induct)
  case (1 sptr i)
  then show ?case
    by (subst (asm) (2) free_slot_from.simps) (auto split: if_splits)
qed

lemma free_slot_from_full:
  "free_slot_from sptr i < 0 \<Longrightarrow> i \<le> j \<Longrightarrow> j < MAX_CONN_PER_THREAD \<Longrightarrow> sptr j \<noteq> None"
proof (induction sptr i rule: free_slot_from.induct)
  case (1 sptr i)
  then show ?case
    by (subst (asm) (2) free_slot_from.simps) (cases "i = j", auto split: if_splits)
qed

lemma get_free_conn_slot_spec:
  "get_free_conn_slot sptr = r \<Longrightarrow>
     (if r < 0 then \<forall>j < MAX_CONN_PER_THREAD. sptr j \<noteq> None
      else nat r < MAX_CONN_PER_THREAD \<and> sptr (nat r) = None)"
  using free_slot_from_bounds [of sptr 0 r] free_slot_from_full [of sptr 0]
  by (auto simp: get_free_conn_slot_def)

lemma free_slot_empty: "get_free_conn_slot (\<lambda>_. None) = 0"
  by (simp add: get_free_conn_slot_def free_slot_from.simps [of _ 0] MAX_CONN_PER_THREAD_def)

section \<open>Consistent tables\<close>

text \<open>
  Every session sits where it says (\<open>place\<close> gives its thread and slot), and the counters
  count the slots in use.
\<close>

definition table_ok :: "('s \<Rightarrow> nat \<times> int) \<Rightarrow> (nat \<Rightarrow> nat \<Rightarrow> 's option) \<Rightarrow> (nat \<Rightarrow> int) \<Rightarrow> bool" where
  "table_ok place tab cnt \<longleftrightarrow>
     (\<forall>t i s. tab t i = Some s \<longrightarrow> i < MAX_CONN_PER_THREAD \<and> place s = (t, int i))
     \<and> (\<forall>t. cnt t = int (card {i. tab t i \<noteq> None}))"

lemma table_ok_empty: "table_ok place (\<lambda>_ _. None) (\<lambda>_. 0)"
  by (simp add: table_ok_def)

lemma table_ok_finite: "table_ok place tab cnt \<Longrightarrow> finite {i. tab t i \<noteq> None}"
  by (rule finite_subset [of _ "{..<MAX_CONN_PER_THREAD}"]) (auto simp: table_ok_def)

lemma table_ok_update:
  assumes "table_ok place tab cnt" "tab t i = Some s" "place s' = place s"
  shows "table_ok place (tab(t := (tab t)(i \<mapsto> s'))) cnt"
proof -
  have "{j. ((tab t)(i \<mapsto> s')) j \<noteq> None} = {j. tab t j \<noteq> None}"
    using assms(2) by auto
  then show ?thesis using assms by (auto simp: table_ok_def)
qed

lemma table_ok_remove:
  assumes ok: "table_ok place tab cnt" and s: "tab t i = Some s"
  shows "table_ok place (tab(t := (tab t)(i := None))) (cnt(t := cnt t - 1))"
proof -
  have "{j. ((tab t)(i := None)) j \<noteq> None} = {j. tab t j \<noteq> None} - {i}"
    by auto
  moreover have "card {j. tab t j \<noteq> None} \<ge> 1"
    using table_ok_finite [OF ok, of t] s by (auto simp: Suc_le_eq card_gt_0_iff)
  ultimately have "cnt t - 1 = int (card {j. ((tab t)(i := None)) j \<noteq> None})"
    using ok s table_ok_finite [OF ok, of t] by (simp add: table_ok_def of_nat_diff)
  then show ?thesis using ok by (auto simp: table_ok_def)
qed

lemma table_ok_insert:
  assumes ok: "table_ok place tab cnt" and free: "tab t i = None" and new: "i < MAX_CONN_PER_THREAD"
    "place s = (t, int i)"
  shows "table_ok place (tab(t := (tab t)(i \<mapsto> s))) (cnt(t := cnt t + 1))"
proof -
  have "{j. ((tab t)(i \<mapsto> s)) j \<noteq> None} = insert i {j. tab t j \<noteq> None}"
    by auto
  then have "cnt t + 1 = int (card {j. ((tab t)(i \<mapsto> s)) j \<noteq> None})"
    using ok free table_ok_finite [OF ok, of t] by (simp add: table_ok_def)
  then show ?thesis using ok new by (auto simp: table_ok_def)
qed

end
