(* ===== verification/LogServer.thy ===== *)
theory LogServer
  imports LogDisk ConnTable
begin

text \<open>
  The threads of src/logServer.c around the session: the connection table, the
  accept path, the network threads, the disk thread's scan of the table, the
  one-second tick and the command line.

  \<open>session_array[t][i]\<close> is \<open>slots t i\<close>; a session is held by value, since a slot is
  the only owner of its session. A freed session is gone from the table. System
  calls are arguments, as in the disk side.
\<close>

section \<open>The connection table\<close>

record server =
  cfg :: config
  gstats :: gstatistic
  slots :: "nat \<Rightarrow> nat \<Rightarrow> session option"
  curr_nr_conn :: "nat \<Rightarrow> int"
  sfs :: fs

text \<open>\<open>free_session_final\<close>: the session leaves the table.\<close>

definition free_session_final :: "session \<Rightarrow> server \<Rightarrow> server" where
  "free_session_final s S =
     (let t = threadidx s; pos = slot_idx s in
      if pos > -1 then
        S\<lparr>curr_nr_conn := (curr_nr_conn S)(t := curr_nr_conn S t - 1),
          slots := (slots S)(t := (slots S t)(nat pos := None))\<rparr>
      else S)"

text \<open>
  \<open>accept_client\<close>: \<open>sfd\<close> and \<open>addr\<close> are the results of \<open>accept\<close>, then come the two
  allocations of the session and the result of \<open>epoll_ctl\<close>.
\<close>

definition accept_client ::
  "int \<Rightarrow> u32 \<Rightarrow> bool \<Rightarrow> bool \<Rightarrow> int \<Rightarrow> server \<Rightarrow> int \<times> server" where
  "accept_client sfd addr calloc_s calloc_buf epoll_rc S =
     (if sfd = -1 then (-1, S)
      else
        (let hash = addr AND 0xFF;
             t = nat (c_mod (uint hash) (nWorkers (cfg S))) in
         case get_new_session calloc_s calloc_buf (ticks (gstats S)) (cur_seq (gstats S)) addr 1 sfd t of
           None \<Rightarrow> (-1, S)
         | Some s \<Rightarrow>
             (let slot = get_free_conn_slot (slots S t) in
              if epoll_rc \<noteq> -1 \<and> \<not> slot < 0 then
                (sfd, S\<lparr>slots := (slots S)(t := (slots S t)(nat slot \<mapsto> s\<lparr>slot_idx := slot\<rparr>)),
                        curr_nr_conn := (curr_nr_conn S)(t := curr_nr_conn S t + 1)\<rparr>)
              else
                (let (_, s) = free_session_step1 epoll_rc s;
                     (s, f) = free_session_res s (sfs S) in
                 (-1, free_session_final s (S\<lparr>sfs := f\<rparr>))))))"

section \<open>The network threads\<close>

text \<open>The result of \<open>read\<close>: data, end of file, or an error that is or is not \<open>ECONNRESET\<close>.\<close>

datatype read_result = Read_data bytes | Read_eof | Read_error bool

text \<open>
  \<open>drain_client\<close>. The code ignores what \<open>pass2write\<close> returns; \<open>Spin\<close> is its busy
  wait.
\<close>

definition drain_client ::
  "(nat \<Rightarrow> bool) \<Rightarrow> int \<Rightarrow> read_result \<Rightarrow> session \<Rightarrow> gstatistic \<Rightarrow> session outcome \<times> gstatistic" where
  "drain_client calloc_ok epoll_rc r s g =
     (if slot_idx s < 0 then (Return 0 s, g)
      else if buf_full_stuck s then (Return 0 s, g)
      else case r of
        Read_data buf \<Rightarrow>
          (let t = threadidx s; rc = of_nat (length buf);
               s = s\<lparr>network_bytes := network_bytes s + rc\<rparr>;
               g = g\<lparr>net_in_bytes := (net_in_bytes g)(t := net_in_bytes g t + rc)\<rparr>
           in (pass2write (ticks g) calloc_ok s buf, g))
      | Read_eof \<Rightarrow> (Return 0 (free_session_step2 (snd (free_session_step1 epoll_rc s))), g)
      | Read_error reset \<Rightarrow>
          (if reset then (Return 0 (free_session_step2 (snd (free_session_step1 epoll_rc s))), g)
           else (Return 0 s, g)))"

definition EPOLLIN :: u32 where "EPOLLIN = 1"
definition EPOLLERR :: u32 where "EPOLLERR = 8"

text \<open>One ready descriptor in the loop of \<open>process_thread\<close>.\<close>

definition process_event ::
  "(nat \<Rightarrow> bool) \<Rightarrow> int \<Rightarrow> u32 \<Rightarrow> read_result \<Rightarrow> session \<Rightarrow> gstatistic \<Rightarrow> session outcome \<times> gstatistic" where
  "process_event calloc_ok epoll_rc ev r s g =
     (if ev AND EPOLLIN = 0 \<or> ev AND EPOLLERR \<noteq> 0 then
        (Return 0 (free_session_step2 (snd (free_session_step1 epoll_rc s))), g)
      else drain_client calloc_ok epoll_rc r s g)"

section \<open>The disk thread\<close>

record scan_env =
  env_epoll_rc :: int
  env_open :: open_env
  env_write :: "(int \<times> bool) list"

text \<open>
  The table after the scan of the session in slot \<open>i\<close> of thread \<open>t\<close>. \<open>None\<close>: the thread
  does not get past this slot.
\<close>

definition scan_result ::
  "nat \<Rightarrow> nat \<Rightarrow> (scan \<times> gstatistic \<times> scan_stat \<times> fs) option \<Rightarrow> server \<Rightarrow> (server \<times> scan_stat) option" where
  "scan_result t i x S =
     (case x of
        None \<Rightarrow> None
      | Some (r, g, st, f) \<Rightarrow>
          (let S = S\<lparr>gstats := g, sfs := f\<rparr> in
           case r of
             Scan_next s \<Rightarrow> Some (S\<lparr>slots := (slots S)(t := (slots S t)(i \<mapsto> s))\<rparr>, st)
           | Scan_free s \<Rightarrow> Some (free_session_final s S, st)
           | _ \<Rightarrow> None))"

definition disk_slot ::
  "nat \<Rightarrow> nat \<Rightarrow> scan_env \<Rightarrow> server \<times> scan_stat \<Rightarrow> (server \<times> scan_stat) option" where
  "disk_slot t i e = (\<lambda>(S, st).
     case slots S t i of
       None \<Rightarrow> Some (S, st)
     | Some s \<Rightarrow>
         scan_result t i
           (scan_session (cfg S) t (env_epoll_rc e) (env_open e) (env_write e) s (gstats S) st (sfs S)) S)"

text \<open>
  One round of \<open>disk_write_thread\<close>: publish the counters of the last round, then scan
  every slot of every thread.
\<close>

definition publish_stat :: "scan_stat \<Rightarrow> gstatistic \<Rightarrow> gstatistic" where
  "publish_stat st g =
     g\<lparr>snapshot_session_alive := stat_session_alive st,
       period_succ_submit_disk_io_timer_expire_forced :=
         period_succ_submit_disk_io_timer_expire_forced g + stat_succ_submit_disk_io_timer_expire_forced st,
       period_succ_submit_disk_io := period_succ_submit_disk_io g + stat_succ_submit_disk_io st,
       period_succ_finished_disk_io := period_succ_finished_disk_io g + stat_succ_finished_disk_io st,
       period_failed_finished_disk_io := period_failed_finished_disk_io g + stat_failed_finished_disk_io st\<rparr>"

definition zero_stat :: scan_stat where
  "zero_stat = \<lparr>stat_session_alive = 0, stat_succ_submit_disk_io_timer_expire_forced = 0,
     stat_succ_submit_disk_io = 0, stat_succ_finished_disk_io = 0, stat_failed_finished_disk_io = 0\<rparr>"

fun disk_slots ::
  "(nat \<times> nat) list \<Rightarrow> (nat \<Rightarrow> nat \<Rightarrow> scan_env) \<Rightarrow> server \<times> scan_stat \<Rightarrow> (server \<times> scan_stat) option" where
  "disk_slots [] env X = Some X"
| "disk_slots ((t, i) # ps) env X = Option.bind (disk_slot t i (env t i) X) (disk_slots ps env)"

definition disk_write_round ::
  "(nat \<Rightarrow> nat \<Rightarrow> scan_env) \<Rightarrow> server \<times> scan_stat \<Rightarrow> (server \<times> scan_stat) option" where
  "disk_write_round env = (\<lambda>(S, st).
     disk_slots (List.product [0..<nat (nWorkers (cfg S))] [0..<MAX_CONN_PER_THREAD]) env
       (S\<lparr>gstats := publish_stat st (gstats S)\<rparr>, zero_stat))"

section \<open>The tick\<close>

definition TZ_OFFSET :: int where "TZ_OFFSET = 8"

definition seq_of :: "config \<Rightarrow> int \<Rightarrow> int" where
  "seq_of c now = c_div (c_mod (now + 3600 * TZ_OFFSET) 86400) (dir_switch_period c)"

text \<open>
  \<open>periodic\<close>, without its output: \<open>now\<close> and \<open>date\<close> are what \<open>time\<close> and \<open>strftime\<close>
  give.
\<close>

definition periodic :: "config \<Rightarrow> int \<Rightarrow> string \<Rightarrow> gstatistic \<Rightarrow> gstatistic" where
  "periodic c now date g =
     (let g = g\<lparr>cur_time := now, date_str1 := date, ticks := ticks g + 1, cur_seq := seq_of c now\<rparr> in
      if ticks g mod 10 \<noteq> 0 then g
      else
        g\<lparr>last_report_tick := ticks g,
          last_disk_io_threads_busy_loops := disk_io_threads_busy_loops g,
          period_succ_submit_disk_io_timer_expire_forced := 0,
          period_succ_submit_disk_io := 0,
          period_succ_finished_disk_io := 0,
          last_net_in_bytes := (\<lambda>i. if int i < nWorkers c then net_in_bytes g i else last_net_in_bytes g i),
          last_disk_io_bytes := (\<lambda>i. if int i < nWorkers c then disk_io_bytes g i else last_disk_io_bytes g i)\<rparr>)"

definition init_gstat :: "config \<Rightarrow> int \<Rightarrow> string \<Rightarrow> gstatistic" where
  "init_gstat c now date =
     \<lparr>cur_time = now, date_str1 = date, ticks = 0, last_report_tick = 0,
      disk_io_bytes = (\<lambda>_. 0), net_in_bytes = (\<lambda>_. 0), last_disk_io_bytes = (\<lambda>_. 0),
      last_net_in_bytes = (\<lambda>_. 0), disk_io_threads_busy_loops = 0,
      last_disk_io_threads_busy_loops = 0, snapshot_session_alive = 0,
      period_succ_submit_disk_io_timer_expire_forced = 0, period_succ_submit_disk_io = 0,
      period_succ_finished_disk_io = 0, period_failed_finished_disk_io = 0,
      cur_seq = seq_of c now, failed_disk_bytes_write = 0\<rparr>"

section \<open>The command line\<close>

text \<open>One option of \<open>getopt\<close>; \<open>None\<close> is \<open>usage()\<close>, which exits.\<close>

record main_state =
  mcfg :: config
  port :: int
  verbose :: int
  disk_thread_delay_scan_ms :: int

definition default_main :: main_state where
  "default_main =
     \<lparr>mcfg = \<lparr>nWorkers = 1, nr_dir = 1, max_file_size = 1 * 2 ^ 30, log_idf = '''',
              dir_switch_period = 600, force_disconnect_seconds = 0\<rparr>,
      port = 0, verbose = 0, disk_thread_delay_scan_ms = 0\<rparr>"

definition main_option :: "char \<Rightarrow> string \<Rightarrow> main_state \<Rightarrow> main_state option" where
  "main_option opt optarg m =
     (let c = mcfg m; v = atoi optarg in
      if opt = CHR ''v'' then Some (m\<lparr>verbose := verbose m + 1\<rparr>)
      else if opt = CHR ''p'' then Some (m\<lparr>port := v\<rparr>)
      else if opt = CHR ''a'' then Some m
      else if opt = CHR ''n'' then
        (let n = v; n = (if n < 1 then 1 else n); n = (if n > 64 then 64 else n)
         in Some (m\<lparr>mcfg := c\<lparr>nWorkers := n\<rparr>\<rparr>))
      else if opt = CHR ''m'' then
        (let c = c\<lparr>nr_dir := v\<rparr>;
             c = (if nr_dir c < 1 then c\<lparr>nWorkers := 1\<rparr> else c);
             c = (if nr_dir c > 32 then c\<lparr>nr_dir := 32\<rparr> else c)
         in Some (m\<lparr>mcfg := c\<rparr>))
      else if opt = CHR ''l'' then Some (m\<lparr>mcfg := c\<lparr>log_idf := take 31 optarg\<rparr>\<rparr>)
      else if opt = CHR ''d'' then Some (m\<lparr>disk_thread_delay_scan_ms := v\<rparr>)
      else if opt = CHR ''t'' then Some (m\<lparr>mcfg := c\<lparr>dir_switch_period := v\<rparr>\<rparr>)
      else if opt = CHR ''k'' then Some (m\<lparr>mcfg := c\<lparr>force_disconnect_seconds := v\<rparr>\<rparr>)
      else if opt = CHR ''s'' then Some (m\<lparr>mcfg := c\<lparr>max_file_size := of_int v * 2 ^ 30\<rparr>\<rparr>)
      else None)"

fun main_options :: "(char \<times> string) list \<Rightarrow> main_state \<Rightarrow> main_state option" where
  "main_options [] m = Some m"
| "main_options ((opt, optarg) # os) m = Option.bind (main_option opt optarg m) (main_options os)"

text \<open>The checks after the option loop; \<open>addr_ok\<close> says that \<open>inet_addr\<close> succeeded.\<close>

definition main_checks :: "bool \<Rightarrow> main_state \<Rightarrow> main_state option" where
  "main_checks addr_ok m =
     (if \<not> addr_ok then None
      else if port m < 1 \<or> port m > 65535 then None
      else
        (let c = mcfg m;
             c = (if log_idf c = '''' then c\<lparr>log_idf := ''log''\<rparr> else c);
             c = (if force_disconnect_seconds c < 0 then c\<lparr>force_disconnect_seconds := 0\<rparr> else c)
         in Some (m\<lparr>mcfg := c\<rparr>)))"

definition main_config :: "(char \<times> string) list \<Rightarrow> bool \<Rightarrow> main_state option" where
  "main_config os addr_ok = Option.bind (main_options os default_main) (main_checks addr_ok)"

section \<open>Steps of the server\<close>

text \<open>
  The threads run concurrently; a step is one handler of one thread. A step of a
  network thread that busy-waits (\<open>Spin\<close>) is not taken until it can go on.
\<close>

inductive server_step :: "server \<Rightarrow> server \<Rightarrow> bool" where
  accept: "accept_client sfd addr a b rc S = (r, S') \<Longrightarrow> server_step S S'"
| event: "slots S t i = Some s \<Longrightarrow> process_event ok rc ev r s (gstats S) = (Return c s', g) \<Longrightarrow>
    server_step S (S\<lparr>slots := (slots S)(t := (slots S t)(i \<mapsto> s')), gstats := g\<rparr>)"
| disk: "disk_slot t i e (S, st) = Some (S', st') \<Longrightarrow> server_step S S'"
| tick: "server_step S (S\<lparr>gstats := periodic (cfg S) now date (gstats S)\<rparr>)"

definition init_server :: "config \<Rightarrow> int \<Rightarrow> string \<Rightarrow> fs \<Rightarrow> server" where
  "init_server c now date f =
     \<lparr>cfg = c, gstats = init_gstat c now date, slots = (\<lambda>_ _. None), curr_nr_conn = (\<lambda>_. 0), sfs = f\<rparr>"

definition server_start :: "server \<Rightarrow> bool" where
  "server_start S \<longleftrightarrow> slots S = (\<lambda>_ _. None) \<and> curr_nr_conn S = (\<lambda>_. 0)"

definition table_inv :: "server \<Rightarrow> bool" where
  "table_inv S \<longleftrightarrow>
     (\<forall>t i s. slots S t i = Some s \<longrightarrow>
        i < MAX_CONN_PER_THREAD \<and> threadidx s = t \<and> slot_idx s = int i)
     \<and> (\<forall>t. curr_nr_conn S t = int (card {i. slots S t i \<noteq> None}))"

section \<open>No operation moves a session in the table\<close>

definition ids :: "session \<Rightarrow> nat \<times> int" where
  "ids s = (threadidx s, slot_idx s)"

lemma ids_updates [simp]:
  "ids (s\<lparr>buf_full_stuck := a\<rparr>) = ids s" "ids (s\<lparr>network_bytes := b\<rparr>) = ids s"
  "ids (s\<lparr>time_out_need_flush_to_disk := c\<rparr>) = ids s" "ids (s\<lparr>on_disk_fd := d\<rparr>) = ids s"
  "ids (s\<lparr>file_seq := e\<rparr>) = ids s" "ids (s\<lparr>last_disk_io_write_tick := t\<rparr>) = ids s"
  "ids (switch_buffers s) = ids s" "ids (snd (free_session_step1 rc s)) = ids s"
  "ids (free_session_step2 s) = ids s" "ids (fst (free_session_res s f)) = ids s"
  "ids (second_pass s) = ids s" "ids (released n l s) = ids s" "ids (claimed s) = ids s"
  by (simp_all add: ids_def switch_buffers_def free_session_step1_def free_session_step2_def
      free_session_res_def second_pass_def released_def write2disk_end_def Let_def)

lemma copy_to_cur_ids: "copy_to_cur s buf = Return rc s' \<Longrightarrow> ids s' = ids s"
  by (auto simp: copy_to_cur_def ids_def split: option.splits)

lemma enlarge_session_buf_ids: "enlarge_session_buf tk ok s gap = Return rc s' \<Longrightarrow> ids s' = ids s"
  by (auto simp: enlarge_session_buf_def enlarge_realloc_def ids_def Let_def
      split: if_splits option.splits)

lemma pass2write_ids: "pass2write tk ok s buf = Return rc s' \<Longrightarrow> ids s' = ids s"
proof (induction tk ok s buf rule: pass2write.induct)
  case (1 tk ok s buf)
  then show ?case
    by (subst (asm) pass2write.simps)
      (auto simp: pass2write_switch_def dest!: copy_to_cur_ids enlarge_session_buf_ids
        split: if_splits outcome.splits)
qed

lemma process_event_ids: "process_event ok rc ev r s g = (Return c s', g') \<Longrightarrow> ids s' = ids s"
  by (auto simp: process_event_def drain_client_def Let_def dest!: pass2write_ids
      split: if_splits read_result.splits)

lemma handle_filesize_ids: "handle_filesize_exceeded c s f = (r, s', f') \<Longrightarrow> ids s' = ids s"
  by (auto simp: handle_filesize_exceeded_def ids_def Let_def split: option.splits if_splits)

lemma set_filename_ids:
  "session_set_on_disk_log_filename c g e s f = Some (r, s', f') \<Longrightarrow> ids s' = ids s"
  by (auto simp: session_set_on_disk_log_filename_def ids_def Let_def split: option.splits if_splits)

lemma scan_timeout_ids: "scan_timeout s st = (s', st') \<Longrightarrow> ids s' = ids s"
  by (auto simp: scan_timeout_def Let_def split: if_splits)

lemma free_session_res_ids: "free_session_res s f = (s', f') \<Longrightarrow> ids s' = ids s"
  by (auto simp: free_session_res_def ids_def Let_def split: if_splits)

lemma del_session_ids: "del_session rc s im f = (r, s', fin, f') \<Longrightarrow> ids s' = ids s"
  by (auto simp: del_session_def free_session_step1_def free_session_step2_def free_session_res_def
      ids_def Let_def split: if_splits)

lemma write2disk_ids: "write2disk rcs s g f = Some (rc, s', g', f') \<Longrightarrow> ids s' = ids s"
  by (auto simp: write2disk_def write2disk_begin_def write2disk_end_def ids_def Let_def
      split: if_splits option.splits)

text \<open>The session that a scan result carries.\<close>

fun scan_session_of :: "scan \<Rightarrow> session option" where
  "scan_session_of (Scan_next s) = Some s"
| "scan_session_of (Scan_free s) = Some s"
| "scan_session_of (Scan_write s) = Some s"
| "scan_session_of Scan_trap = None"

lemma scan_post_ids: "scan_session_of (fst (scan_post rc s g st f)) = Some s' \<Longrightarrow> ids s' = ids s"
  by (auto simp: scan_post_def free_session_res_def ids_def Let_def split: if_splits)

lemma scan_pre_ids:
  assumes "scan_pre c t rc e s g st f = (r, g', st', f')" "scan_session_of r = Some s'"
  shows "ids s' = ids s"
  using assms unfolding scan_pre_def Let_def
  by (auto dest!: del_session_ids free_session_res_ids scan_timeout_ids handle_filesize_ids set_filename_ids
      split: if_splits prod.splits option.splits)

lemma scan_session_ids:
  assumes "scan_session c t rc e rcs s g st f = Some (r, g', st', f')" "scan_session_of r = Some s'"
  shows "ids s' = ids s"
proof -
  obtain r1 g1 st1 f1 where pre: "scan_pre c t rc e s g st f = (r1, g1, st1, f1)"
    by (metis prod_cases4)
  show ?thesis
  proof (cases r1)
    case (Scan_write s1)
    with assms pre obtain rc2 s2 g2 f2 where w: "write2disk rcs s1 g1 f1 = Some (rc2, s2, g2, f2)"
      and post: "scan_post rc2 s2 g2 st1 f2 = (r, g', st', f')"
      by (auto simp: scan_session_def split: option.splits)
    have "ids s' = ids s2"
      using scan_post_ids [of rc2 s2 g2 st1 f2 s'] post assms(2) by simp
    also have "\<dots> = ids s1" by (rule write2disk_ids [OF w])
    also have "\<dots> = ids s" using scan_pre_ids [OF pre] Scan_write by simp
    finally show ?thesis .
  qed (use assms pre scan_pre_ids [OF pre] in \<open>auto simp: scan_session_def\<close>)
qed

section \<open>The table invariant\<close>

lemma table_inv_ok: "table_inv S \<longleftrightarrow> table_ok ids (slots S) (curr_nr_conn S)"
  by (auto simp: table_inv_def table_ok_def ids_def)

lemma table_inv_update:
  assumes "table_inv S" "slots S t i = Some s" "ids s' = ids s"
  shows "table_inv (S\<lparr>slots := (slots S)(t := (slots S t)(i \<mapsto> s'))\<rparr>)"
  using table_ok_update [of ids "slots S" "curr_nr_conn S" t i s s'] assms by (simp add: table_inv_ok)

lemma table_inv_frame:
  assumes "table_inv S" "slots S' = slots S" "curr_nr_conn S' = curr_nr_conn S"
  shows "table_inv S'"
  using assms by (simp add: table_inv_def)

lemma table_inv_final:
  assumes inv: "table_inv S" and s: "slots S t i = Some s" and "ids s' = ids s"
  shows "table_inv (free_session_final s' S)"
proof -
  have id: "threadidx s' = t" "slot_idx s' = int i"
    using assms by (auto simp: table_inv_def ids_def)
  show ?thesis
    using table_ok_remove [of ids "slots S" "curr_nr_conn S" t i s] inv s id
    by (simp add: table_inv_ok free_session_final_def Let_def)
qed

lemma table_inv_insert:
  assumes inv: "table_inv S" and "slots S t (nat k) = None" "nat k < MAX_CONN_PER_THREAD" "0 \<le> k"
    and "threadidx s = t"
  shows "table_inv (S\<lparr>slots := (slots S)(t := (slots S t)(nat k \<mapsto> s\<lparr>slot_idx := k\<rparr>)),
      curr_nr_conn := (curr_nr_conn S)(t := curr_nr_conn S t + 1)\<rparr>)"
  using table_ok_insert [of ids "slots S" "curr_nr_conn S" t "nat k" "s\<lparr>slot_idx := k\<rparr>"] assms
  by (simp add: table_inv_ok ids_def)

lemma get_new_session_ids:
  "get_new_session a b tk q addr ev sfd t = Some s \<Longrightarrow> ids s = (t, -1)"
  by (auto simp: get_new_session_def ids_def split: if_splits)

lemma accept_client_table_inv:
  assumes inv: "table_inv S" and acc: "accept_client sfd addr a b rc S = (r, S')"
  shows "table_inv S'"
proof -
  let ?t = "nat (c_mod (uint (addr AND 0xFF)) (nWorkers (cfg S)))"
  let ?k = "get_free_conn_slot (slots S ?t)"
  show ?thesis
  proof (cases "sfd = -1 \<or> get_new_session a b (ticks (gstats S)) (cur_seq (gstats S)) addr 1 sfd ?t = None")
    case True
    then show ?thesis using acc inv by (auto simp: accept_client_def Let_def split: if_splits)
  next
    case False
    then obtain s where s: "sfd \<noteq> -1"
      "get_new_session a b (ticks (gstats S)) (cur_seq (gstats S)) addr 1 sfd ?t = Some s" by auto
    have id: "threadidx s = ?t" "slot_idx s = -1"
      using get_new_session_ids [OF s(2)] by (simp_all add: ids_def)
    show ?thesis
    proof (cases "rc \<noteq> -1 \<and> \<not> ?k < 0")
      case True
      then have "S' = S\<lparr>slots := (slots S)(?t := (slots S ?t)(nat ?k \<mapsto> s\<lparr>slot_idx := ?k\<rparr>)),
          curr_nr_conn := (curr_nr_conn S)(?t := curr_nr_conn S ?t + 1)\<rparr>"
        using acc s by (auto simp: accept_client_def Let_def)
      then show ?thesis
        using table_inv_insert [OF inv, of ?t ?k s] get_free_conn_slot_spec [of "slots S ?t"] True id
        by auto
    next
      case False
      then have "slots S' = slots S \<and> curr_nr_conn S' = curr_nr_conn S"
        using acc s id
        by (auto simp: accept_client_def Let_def free_session_step1_def free_session_res_def
            free_session_final_def split: if_splits)
      then show ?thesis using table_inv_frame [OF inv] by blast
    qed
  qed
qed

lemma scan_result_table_inv:
  assumes inv: "table_inv S" and s: "slots S t i = Some s"
    and ids: "\<And>r g st f s'. x = Some (r, g, st, f) \<Longrightarrow> scan_session_of r = Some s' \<Longrightarrow> ids s' = ids s"
    and res: "scan_result t i x S = Some (S', st')"
  shows "table_inv S'"
proof -
  from res obtain r g st f where x: "x = Some (r, g, st, f)"
    by (auto simp: scan_result_def split: option.splits)
  let ?S = "S\<lparr>gstats := g, sfs := f\<rparr>"
  have inv': "table_inv ?S" "slots ?S t i = Some s" using inv s by (auto simp: table_inv_def)
  show ?thesis
  proof (cases r)
    case (Scan_next s1)
    then have "S' = ?S\<lparr>slots := (slots ?S)(t := (slots ?S t)(i \<mapsto> s1))\<rparr>"
      using res x by (simp add: scan_result_def Let_def)
    then show ?thesis using table_inv_update [OF inv'] ids [OF x] Scan_next by simp
  next
    case (Scan_free s1)
    then have "S' = free_session_final s1 ?S" using res x by (simp add: scan_result_def Let_def)
    then show ?thesis using table_inv_final [OF inv'] ids [OF x] Scan_free by simp
  qed (use res x in \<open>simp_all add: scan_result_def Let_def\<close>)
qed

lemma disk_slot_table_inv:
  assumes inv: "table_inv S" and disk: "disk_slot t i e (S, st) = Some (S', st')"
  shows "table_inv S'"
proof (cases "slots S t i")
  case (Some s)
  then show ?thesis
    using disk scan_result_table_inv [OF inv Some scan_session_ids] by (simp add: disk_slot_def)
qed (use assms in \<open>simp add: disk_slot_def\<close>)

lemma server_step_table_inv: "server_step S S' \<Longrightarrow> table_inv S \<Longrightarrow> table_inv S'"
proof (induction rule: server_step.induct)
  case (event S t i s ok rc ev r c s' g)
  then have "table_inv (S\<lparr>slots := (slots S)(t := (slots S t)(i \<mapsto> s'))\<rparr>)"
    using table_inv_update process_event_ids by blast
  then show ?case by (rule table_inv_frame) simp_all
next
  case (tick S now date)
  then show ?case by (rule table_inv_frame) simp_all
qed (blast intro: accept_client_table_inv disk_slot_table_inv)+

lemma init_server_start: "server_start (init_server c now date f)"
  by (simp add: server_start_def init_server_def)

interpretation server: invariant_system server_start server_step table_inv
proof unfold_locales
  show "table_inv S" if "server_start S" for S
    using that by (simp add: server_start_def table_inv_def)
  show "table_inv S'" if "server_step S S'" "table_inv S" for S S'
    using that by (rule server_step_table_inv)
qed

section \<open>The pipeline of one session\<close>

text \<open>
  One live session with the disk thread's local variables: \<open>inflight\<close> is what
  \<open>write2disk\<close> holds between its two critical regions, \<open>logged\<close> what it has given to
  the kernel for the log file, \<open>received\<close> all that the network thread read. The step \<open>recv\<close>
  is a whole call of \<open>pass2write\<close>, with its copy outside the lock and with the check that
  \<open>recheck\<close> repeats; \<open>LogRace\<close> takes this call apart and lets the disk thread run in between.
\<close>

record pipe =
  sess :: session
  inflight :: "(nat \<times> nat) option"
  logged :: bytes
  received :: bytes

inductive pipe_step :: "pipe \<Rightarrow> pipe \<Rightarrow> bool" where
  recv: "\<not> buf_full_stuck (sess p) \<Longrightarrow> 0 < length buf \<Longrightarrow> length buf \<le> net_read_buf_len (sess p) \<Longrightarrow>
    (\<And>n. MAX_DATA_BLOCK_SIZE < n \<Longrightarrow> ok n) \<Longrightarrow> pass2write tk ok (sess p) buf = Return rc s' \<Longrightarrow>
    pipe_step p (p\<lparr>sess := s', received := received p @ buf\<rparr>)"
| mark: "scan_expired g (sess p) \<Longrightarrow>
    pipe_step p (p\<lparr>sess := (sess p)\<lparr>time_out_need_flush_to_disk := True\<rparr>\<rparr>)"
| flush: "pipe_step p (p\<lparr>sess := fst (scan_timeout (sess p) st)\<rparr>)"
| claim: "inflight p = None \<Longrightarrow> write2disk_begin (sess p) = Some (d, n, s') \<Longrightarrow>
    pipe_step p (p\<lparr>sess := s', inflight := Some (d, n)\<rparr>)"
| commit: "inflight p = Some (d, n) \<Longrightarrow> buf1 (sess p) = Some blk \<Longrightarrow>
    write_loop [(int n, e)] 100 (int n) (drop d blk) [] = Some (nleft, out) \<Longrightarrow>
    pipe_step p (p\<lparr>sess := snd (write2disk_end n nleft (sess p)), inflight := None, logged := logged p @ out\<rparr>)"

definition pipe_start :: "pipe \<Rightarrow> bool" where
  "pipe_start p \<longleftrightarrow> session_inv (sess p) \<and> flush_inv (sess p) \<and> pending (sess p) = []
     \<and> \<not> disk_io_in_progress (sess p) \<and> inflight p = None \<and> logged p = [] \<and> received p = []"

definition inflight_part :: "pipe \<Rightarrow> bytes" where
  "inflight_part p = (case inflight p of None \<Rightarrow> [] | Some (d, n) \<Rightarrow> slice_at d n (the (buf1 (sess p))))"

definition pipe_inv :: "pipe \<Rightarrow> bool" where
  "pipe_inv p \<longleftrightarrow> session_inv (sess p) \<and> flush_inv (sess p)
     \<and> (inflight p \<noteq> None \<longleftrightarrow> disk_io_in_progress (sess p))
     \<and> (case inflight p of None \<Rightarrow> True
         | Some (d, n) \<Rightarrow> d = other_half (sess p) \<and> 0 < n \<and> n \<le> mem_buf_len (sess p))
     \<and> received p = logged p @ inflight_part p @ pending (sess p)"

lemma mark_inv:
  assumes "scan_expired g s" "session_inv s" "flush_inv s"
  shows "session_inv (s\<lparr>time_out_need_flush_to_disk := True\<rparr>)"
    "flush_inv (s\<lparr>time_out_need_flush_to_disk := True\<rparr>)"
    "pending (s\<lparr>time_out_need_flush_to_disk := True\<rparr>) = pending s"
  using assms
  by (auto simp: scan_expired_def session_inv_def size_inv_def room_inv_def flush_inv_def
      pending_def disk_part_def mem_part_def)

lemma session_inv_no_timeout [simp]:
  "session_inv (s\<lparr>time_out_need_flush_to_disk := b\<rparr>) = session_inv s"
  "pending (s\<lparr>time_out_need_flush_to_disk := b\<rparr>) = pending s"
  "other_half (s\<lparr>time_out_need_flush_to_disk := b\<rparr>) = other_half s"
  by (simp_all add: session_inv_def size_inv_def room_inv_def pending_def disk_part_def
      mem_part_def other_half_def split: option.split)

lemma switch_session_inv:
  assumes "session_inv s" "\<not> disk_io_in_progress s" "disk_buf s = None"
  shows "session_inv (switch_buffers s)" "pending (switch_buffers s) = pending s"
proof -
  have "net_read_buf_len s \<le> mem_buf_len s"
    using assms(1) by (auto simp: session_inv_def size_inv_def size_consts)
  then show "session_inv (switch_buffers s)"
    using assms switch_buffers_inv [of s] by (simp add: session_inv_def size_inv_def room_inv_def)
  show "pending (switch_buffers s) = pending s"
    using assms switch_buffers_parts [of s] by (simp add: session_inv_def pending_def disk_part_def)
qed

lemma scan_timeout_inv:
  assumes "session_inv s" "flush_inv s"
  shows "session_inv (fst (scan_timeout s st))" "flush_inv (fst (scan_timeout s st))"
    "pending (fst (scan_timeout s st)) = pending s"
    "disk_io_in_progress s \<Longrightarrow> fst (scan_timeout s st) = s\<lparr>time_out_need_flush_to_disk := False\<rparr>"
    "disk_io_in_progress (fst (scan_timeout s st)) = disk_io_in_progress s"
proof -
  show "session_inv (fst (scan_timeout s st))"
    using assms switch_session_inv [of s] by (auto simp: scan_timeout_def Let_def)
  show "pending (fst (scan_timeout s st)) = pending s"
    using assms switch_session_inv [of s] by (auto simp: scan_timeout_def Let_def)
  show "flush_inv (fst (scan_timeout s st))"
    using assms by (auto simp: scan_timeout_def Let_def flush_inv_def)
  show "disk_io_in_progress s \<Longrightarrow> fst (scan_timeout s st) = s\<lparr>time_out_need_flush_to_disk := False\<rparr>"
    by (auto simp: scan_timeout_def)
  show "disk_io_in_progress (fst (scan_timeout s st)) = disk_io_in_progress s"
    by (auto simp: scan_timeout_def Let_def)
qed

lemma copy_to_cur_progress:
  "copy_to_cur s buf = Return rc s' \<Longrightarrow> disk_io_in_progress s' = disk_io_in_progress s"
  by (auto simp: copy_to_cur_def split: option.splits)

lemma enlarge_session_buf_progress:
  "enlarge_session_buf tk ok s gap = Return rc s' \<Longrightarrow> disk_io_in_progress s' = disk_io_in_progress s"
  by (auto simp: enlarge_session_buf_def enlarge_realloc_def Let_def split: if_splits option.splits)

lemma pass2write_progress:
  "pass2write tk ok s buf = Return rc s' \<Longrightarrow> disk_io_in_progress s' = disk_io_in_progress s"
proof (induction tk ok s buf rule: pass2write.induct)
  case (1 tk ok s buf)
  then show ?case
    by (subst (asm) pass2write.simps)
      (auto simp: pass2write_switch_def dest!: copy_to_cur_progress enlarge_session_buf_progress
        split: if_splits outcome.splits)
qed

section \<open>The pipeline refines a byte queue\<close>

text \<open>
  The abstract queue: bytes enter at the back and leave, in order, at the front.
\<close>

inductive fifo_step :: "bytes \<times> bytes \<Rightarrow> bytes \<times> bytes \<Rightarrow> bool" where
  enq: "fifo_step (q, out) (q @ bs, out)"
| deq: "fifo_step (xs @ q, out) (q, out @ xs)"

definition pipe_abs :: "pipe \<Rightarrow> bytes \<times> bytes" where
  "pipe_abs p = (inflight_part p @ pending (sess p), logged p)"

lemma fifo_stutter: "fifo_step x x"
  using fifo_step.enq [of "fst x" "snd x" "[]"] by simp

lemma recv_pipe_inv:
  assumes inv: "pipe_inv p" and "\<not> buf_full_stuck (sess p)" and len: "0 < length buf" "length buf \<le> net_read_buf_len (sess p)"
    and ok: "\<And>n. MAX_DATA_BLOCK_SIZE < n \<Longrightarrow> ok n" and ret: "pass2write tk ok (sess p) buf = Return rc s'"
  shows "session_inv s' \<and> pending s' = pending (sess p) @ buf"
    "pipe_inv (p\<lparr>sess := s', received := received p @ buf\<rparr>)"
    "inflight_part (p\<lparr>sess := s', received := received p @ buf\<rparr>) = inflight_part p"
proof -
  have i: "session_inv (sess p)" "flush_inv (sess p)" using inv by (auto simp: pipe_inv_def)
  show s': "session_inv s' \<and> pending s' = pending (sess p) @ buf"
    using pass2write_fifo [OF i(1) assms(2) _ len, of ok tk] ok ret by auto
  have fl: "flush_inv s'"
    using pass2write_flush_inv [OF _ i(2) len(2) ret] i(1) by (simp add: session_inv_def)
  have pr: "disk_io_in_progress s' = disk_io_in_progress (sess p)"
    by (rule pass2write_progress [OF ret])
  show part: "inflight_part (p\<lparr>sess := s', received := received p @ buf\<rparr>) = inflight_part p"
    using inv pass2write_in_flight [OF i(1) _ _ ret]
    by (auto simp: inflight_part_def pipe_inv_def split: option.splits)
  show "pipe_inv (p\<lparr>sess := s', received := received p @ buf\<rparr>)"
    using inv s' fl pr part pass2write_in_flight [OF i(1) _ _ ret]
    by (auto simp: pipe_inv_def split: option.splits)
qed

lemma pipe_step_sim:
  "pipe_step p q \<Longrightarrow> pipe_inv p \<Longrightarrow> pipe_inv q \<and> fifo_step (pipe_abs p) (pipe_abs q)"
proof (induction rule: pipe_step.induct)
  case (recv p buf ok tk rc s')
  note r = recv_pipe_inv [OF recv.prems recv.hyps(1,2,3) _ recv.hyps(5), OF recv.hyps(4)]
  then show ?case
    using fifo_step.enq [of "inflight_part p @ pending (sess p)" "logged p" buf]
    by (simp add: pipe_abs_def)
next
  case (mark g p)
  then show ?case
    using mark_inv [of g "sess p"]
    by (auto simp: pipe_inv_def pipe_abs_def inflight_part_def fifo_stutter split: option.splits)
next
  case (flush p st)
  let ?q = "p\<lparr>sess := fst (scan_timeout (sess p) st)\<rparr>"
  have i: "session_inv (sess p)" "flush_inv (sess p)" using flush by (auto simp: pipe_inv_def)
  note t = scan_timeout_inv [OF i, of st]
  have "inflight_part ?q = inflight_part p"
    using flush t(4) by (auto simp: inflight_part_def pipe_inv_def split: option.splits)
  then show ?case
    using flush t by (auto simp: pipe_inv_def pipe_abs_def fifo_stutter split: option.splits)
next
  case (claim p d n s')
  then have c: "\<not> disk_io_in_progress (sess p)" "disk_buf (sess p) = Some d"
    "n = disk_write_buf_len (sess p)" "s' = claimed (sess p)"
    by (auto simp: write2disk_begin_Some)
  have "inflight_part (p\<lparr>sess := s', inflight := Some (d, n)\<rparr>) @ pending s' = pending (sess p)"
    using c by (simp add: inflight_part_def pending_def disk_part_def mem_part_def)
  moreover have "inflight_part p = []" using claim by (simp add: inflight_part_def)
  moreover have "session_inv s'" using claim c claimed_inv by (auto simp: pipe_inv_def)
  ultimately show ?case
    using claim c by (auto simp: pipe_inv_def pipe_abs_def fifo_stutter flush_inv_def
        session_inv_def buf_inv_def)
next
  case (commit p d n blk e nleft out)
  have i: "session_inv (sess p)" "disk_io_in_progress (sess p)" "d = other_half (sess p)"
    "0 < n" "n \<le> mem_buf_len (sess p)" "disk_buf (sess p) = None"
    using commit by (auto simp: pipe_inv_def session_inv_def buf_inv_def)
  have "n \<le> length (drop d blk)"
    using i commit.hyps by (auto simp: session_inv_def buf_inv_def other_half_def)
  then have out: "nleft = 0" "out = inflight_part p"
    using commit.hyps write_loop_full [of n "drop d blk" 100 e "[]" "[]"] i(4)
    by (simp_all add: inflight_part_def slice_at_def)
  let ?s = "released n nleft (sess p)"
  have s: "session_inv ?s" "pending ?s = pending (sess p)"
    using i released_inv by (simp_all add: pending_def disk_part_def)
  let ?q = "p\<lparr>sess := ?s, inflight := None, logged := logged p @ out\<rparr>"
  have q: "inflight_part ?q = []" by (simp add: inflight_part_def)
  then have "pipe_inv ?q"
    using commit.prems i s out by (auto simp: pipe_inv_def flush_inv_def)
  moreover have "fifo_step (pipe_abs p) (pipe_abs ?q)"
    using fifo_step.deq [of "inflight_part p" "pending (sess p)" "logged p"] s out q
    by (simp add: pipe_abs_def)
  ultimately show ?case by (simp add: released_def)
qed

interpretation pipe: simulation pipe_start pipe_step pipe_inv pipe_abs fifo_step
proof unfold_locales
  show "pipe_inv p" if "pipe_start p" for p
    using that by (simp add: pipe_start_def pipe_inv_def inflight_part_def)
qed (use pipe_step_sim in blast)+

section \<open>What an allocation failure does\<close>

text \<open>
  A session that has grown to 128 KiB, receives 2 MiB per second and has a half
  pending.
\<close>

definition busy_session :: session where
  "busy_session = sample_session\<lparr>
     mem_buf_len := 128 * 1024, buf1 := Some (replicate (256 * 1024) 0), buf2 := 128 * 1024,
     disk_buf := Some (128 * 1024), disk_write_buf_len := 1, membuf_offset := 124 * 1024,
     network_bytes := 200 * (2 * 1024 * 1024)\<rparr>"

lemma busy_session_fields [simp]:
  "mem_buf_len busy_session = 128 * 1024" "buf1 busy_session = Some (replicate (256 * 1024) 0)"
  "buf2 busy_session = 128 * 1024" "disk_buf busy_session = Some (128 * 1024)"
  "disk_write_buf_len busy_session = 1" "membuf_offset busy_session = 124 * 1024"
  "cur_buf busy_session = 0" "net_read_buf_len busy_session = 4 * 1024"
  "\<not> disk_io_in_progress busy_session" "\<not> buf_full_stuck busy_session"
  "start_ticks busy_session = 0" "avg_bw 200 busy_session = 2 * 1024 * 1024"
  by (simp_all add: busy_session_def sample_session_def get_new_session_def size_consts avg_bw_def)

lemma busy_session_inv: "session_inv busy_session"
  by (simp add: session_inv_def buf_inv_def size_inv_def room_inv_def other_half_def size_consts)

lemma enlarge_no_memory:
  assumes "buf_inv s" "disk_buf s \<noteq> None" "start_ticks s = 0" "avg_bw 200 s = 2 * 1024 * 1024"
    and "mem_buf_len s = 128 * 1024" "gap \<le> 1024 * 1024"
  shows "enlarge_session_buf 200 (\<lambda>_. False) s gap = Return (-1) (regrown 200 s)"
proof -
  define n where "n = newlen_loop (mem_buf_len s + STEP_DATA_BLOCK_SIZE) (mem_buf_len s + gap)"
  have "MAX_DATA_BLOCK_SIZE < n" "n \<le> EXT_DATA_BLOCK_SIZE"
    using newlen_loop_ge [of "mem_buf_len s + STEP_DATA_BLOCK_SIZE" "mem_buf_len s + gap"]
      newlen_loop_upper [of "mem_buf_len s + STEP_DATA_BLOCK_SIZE" "mem_buf_len s + gap"] assms(5,6)
    by (auto simp: n_def size_consts)
  then show ?thesis
    using enlarge_session_buf_eq [OF assms(1,2) n_def regrown_def, of 200 "\<lambda>_. False"] assms(3,4)
    by (simp add: size_consts REALLOC_LAT_def)
qed

definition stuck1 :: session where
  "stuck1 = appended (regrown 200 busy_session\<lparr>buf_full_stuck := True\<rparr>) (replicate 4096 1)"

definition drained2 :: session where
  "drained2 = released 1 0 (claimed stuck1)"

definition refilled3 :: session where
  "refilled3 = appended (switch_buffers (drained2\<lparr>time_out_need_flush_to_disk := False\<rparr>)) (replicate 131072 2)"

lemma busy_buf_inv: "buf_inv (regrown 200 busy_session\<lparr>buf_full_stuck := True\<rparr>)"
  using busy_session_inv by (simp add: session_inv_def)

lemma busy_step1: "pass2write 200 (\<lambda>_. False) busy_session (replicate 4096 1) = Return 0 stuck1"
proof -
  have "enlarge_session_buf 200 (\<lambda>_. False) busy_session 4096 = Return (-1) (regrown 200 busy_session)"
    by (rule enlarge_no_memory) (use busy_session_inv in \<open>simp_all add: session_inv_def\<close>)
  then have "pass2write 200 (\<lambda>_. False) busy_session (replicate 4096 1) =
      copy_to_cur (regrown 200 busy_session\<lparr>buf_full_stuck := True\<rparr>) (replicate 4096 1)"
    by (subst pass2write.simps) simp
  then show ?thesis
    using copy_to_cur_appended [OF busy_buf_inv, of "replicate 4096 1"] by (simp add: stuck1_def)
qed

lemma regrown_fast [simp]: "avg_bw tk s = 2 * 1024 * 1024 \<Longrightarrow> net_read_buf_len (regrown tk s) = 128 * 1024"
  by (simp add: regrown_def grow_net_read_def)

lemma buf_inv_released_claimed: "buf_inv s \<Longrightarrow> buf_inv (released n l (claimed s))"
  by (simp add: buf_inv_def)

lemma drained2_fields:
  "buf_inv drained2" "disk_buf drained2 = None" "\<not> disk_io_in_progress drained2"
  "mem_buf_len drained2 = 131072" "net_read_buf_len drained2 = 131072" "membuf_offset drained2 = 131072"
  "cur_buf drained2 = 0" "\<not> buf_full_stuck drained2"
  "network_bytes drained2 = network_bytes busy_session" "start_ticks drained2 = 0"
proof -
  have "buf_inv stuck1"
    unfolding stuck1_def by (rule appended_inv [OF busy_buf_inv]) simp
  then show "buf_inv drained2"
    unfolding drained2_def by (rule buf_inv_released_claimed)
qed (simp_all add: drained2_def stuck1_def released_def write2disk_end_def appended_def regrown_def
      grow_net_read_def)

lemma busy_step2: "pass2write 200 (\<lambda>_. False) drained2 (replicate 131072 2) = Return 0 refilled3"
proof -
  have "pass2write 200 (\<lambda>_. False) drained2 (replicate 131072 2) = pass2write_switch drained2 (replicate 131072 2)"
    by (subst pass2write.simps) (simp add: drained2_fields)
  moreover have "buf_inv (switch_buffers (drained2\<lparr>time_out_need_flush_to_disk := False\<rparr>))"
    by (rule switch_buffers_inv) (simp_all add: drained2_fields)
  ultimately show ?thesis
    using copy_to_cur_appended [of "switch_buffers (drained2\<lparr>time_out_need_flush_to_disk := False\<rparr>)"
        "replicate 131072 2"]
    by (simp add: pass2write_switch_def refilled3_def drained2_fields)
qed

lemma refilled3_fields:
  "buf_inv refilled3" "disk_buf refilled3 = Some 0" "mem_buf_len refilled3 = 131072"
  "net_read_buf_len refilled3 = 131072" "membuf_offset refilled3 = 131072" "cur_buf refilled3 = 131072"
  "avg_bw 200 refilled3 = 2 * 1024 * 1024" "start_ticks refilled3 = 0"
proof -
  have "buf_inv (switch_buffers (drained2\<lparr>time_out_need_flush_to_disk := False\<rparr>))"
    by (rule switch_buffers_inv) (simp_all add: drained2_fields)
  then show "buf_inv refilled3"
    unfolding refilled3_def by (rule appended_inv) (simp add: drained2_fields)
  have "buf2 drained2 = 131072" using drained2_fields(1,4) by (simp add: buf_inv_def)
  then show "disk_buf refilled3 = Some 0" "cur_buf refilled3 = 131072"
    by (simp_all add: refilled3_def switch_buffers_def Let_def drained2_fields)
  have "avg_bw 200 refilled3 = avg_bw 200 busy_session"
    by (simp add: avg_bw_def refilled3_def appended_def switch_buffers_def Let_def drained2_fields)
  then show "avg_bw 200 refilled3 = 2 * 1024 * 1024" by simp
qed (simp_all add: refilled3_def drained2_fields appended_def switch_buffers_def Let_def)

lemma busy_step3: "pass2write 200 (\<lambda>_. False) refilled3 (replicate 131072 3) = UB"
proof -
  have "enlarge_session_buf 200 (\<lambda>_. False) refilled3 262144 = Return (-1) (regrown 200 refilled3)"
    by (rule enlarge_no_memory) (simp_all add: refilled3_fields)
  then have "pass2write 200 (\<lambda>_. False) refilled3 (replicate 131072 3) =
      copy_to_cur (regrown 200 refilled3\<lparr>buf_full_stuck := True\<rparr>) (replicate 131072 3)"
    by (subst pass2write.simps) (simp add: refilled3_fields)
  moreover have "\<exists>blk. buf1 refilled3 = Some blk \<and> length blk = 262144"
    using refilled3_fields(1,3) by (auto simp: buf_inv_def)
  ultimately show ?thesis
    by (auto simp: copy_to_cur_def memcpy_at_def regrown_def refilled3_fields)
qed

lemma alloc_failure_overflows:
  "session_inv busy_session
   \<and> pass2write 200 (\<lambda>_. False) busy_session (replicate 4096 1) = Return 0 stuck1
   \<and> drained2 = released 1 0 (claimed stuck1) \<and> net_read_buf_len drained2 = 131072
   \<and> pass2write 200 (\<lambda>_. False) drained2 (replicate 131072 2) = Return 0 refilled3
   \<and> \<not> buf_full_stuck refilled3 \<and> net_read_buf_len refilled3 = 131072
   \<and> pass2write 200 (\<lambda>_. False) refilled3 (replicate 131072 3) = UB"
proof (intro conjI)
  show "drained2 = released 1 0 (claimed stuck1)" by (rule drained2_def)
  show "\<not> buf_full_stuck refilled3" by (simp add: refilled3_def drained2_fields)
qed (rule busy_session_inv busy_step1 busy_step2 busy_step3 drained2_fields refilled3_fields)+

section \<open>Every run of the pipeline\<close>

definition sample_pipe :: pipe where
  "sample_pipe = \<lparr>sess = sample_session, inflight = None, logged = [], received = []\<rparr>"

lemma sample_pipe_start: "pipe_start sample_pipe"
  by (simp add: pipe_start_def sample_pipe_def sample_session_inv)

lemma sample_session_read: "net_read_buf_len sample_session = 4096"
  by (simp add: sample_session_def get_new_session_def size_consts)

lemma pass2write_flush_duration:
  "pass2write tk ok s buf = Return rc s' \<Longrightarrow> flush_duration s' = flush_duration s"
proof (induction tk ok s buf rule: pass2write.induct)
  case (1 tk ok s buf)
  then show ?case
    by (subst (asm) pass2write.simps)
      (auto simp: pass2write_switch_def switch_buffers_def Let_def copy_to_cur_def
        enlarge_session_buf_def enlarge_realloc_def split: if_splits outcome.splits option.splits)
qed

lemma sample_session_flush: "0 \<le> flush_duration sample_session" "flush_duration sample_session < 3600"
proof -
  have "get_new_session True True 0 0 0x0a000001 1 7 0 = Some sample_session"
    by (simp add: sample_session_def get_new_session_def)
  from get_new_session_flush_duration [OF this]
  show "0 \<le> flush_duration sample_session" "flush_duration sample_session < 3600" by simp_all
qed

lemma sample_pipe_run: "\<exists>p. pipe_step\<^sup>*\<^sup>* sample_pipe p \<and> received p = [1, 2, 3] \<and>
    0 \<le> flush_duration (sess p) \<and> flush_duration (sess p) < 3600"
proof -
  obtain s where s: "pass2write 0 (\<lambda>_. True) sample_session [1, 2, 3] = Return 0 s"
    using pass2write_fifo [of sample_session "\<lambda>_. True" "[1, 2, 3]" 0] sample_session_inv
      sample_session_read by auto
  have "pipe_step sample_pipe (sample_pipe\<lparr>sess := s, received := received sample_pipe @ [1, 2, 3]\<rparr>)"
    by (rule pipe_step.recv [where ok = "\<lambda>_. True" and tk = 0])
      (use s sample_session_inv sample_session_read in \<open>simp_all add: sample_pipe_def\<close>)
  then show ?thesis
    using sample_session_flush pass2write_flush_duration [OF s]
    by (intro exI [of _ "sample_pipe\<lparr>sess := s, received := received sample_pipe @ [1, 2, 3]\<rparr>"])
      (auto simp: sample_pipe_def)
qed

lemma pipe_run_inv: "pipe_start p0 \<Longrightarrow> pipe_step\<^sup>*\<^sup>* p0 p \<Longrightarrow> pipe_inv p"
  by (rule pipe.reachable_inv)

text \<open>C2. With each call of pass2write as one step, the double-buffered pipeline of a
  session refines a byte queue: each of its steps is an enqueue, a dequeue or a
  stutter of the abstract queue.\<close>

theorem pipeline_refines_fifo:
  assumes "pipe_start p0" "pipe_step\<^sup>*\<^sup>* p0 p"
  shows "fifo_step\<^sup>*\<^sup>* ([], []) (pipe_abs p)"
proof -
  have "pipe_abs p0 = ([], [])" "pipe_inv p0"
    using assms(1) pipe.start_inv by (simp_all add: pipe_start_def pipe_abs_def inflight_part_def)
  then show ?thesis using pipe.run_sim [OF assms(2)] by simp
qed

theorem pipeline_refines_fifo_witness:
  "\<exists>p. pipe_step\<^sup>*\<^sup>* sample_pipe p \<and> received p = [1, 2, 3] \<and> fifo_step\<^sup>*\<^sup>* ([], []) (pipe_abs p)"
  using sample_pipe_run pipeline_refines_fifo [OF sample_pipe_start] by blast

text \<open>
  Draining: the disk thread alone can always bring everything received so far to the
  file. The first two lemmas finish a write, the third submits what is collected.
\<close>

lemma pipe_finish_write:
  assumes "pipe_inv p" "inflight p = Some (d, n)"
  shows "\<exists>q. pipe_step p q \<and> inflight q = None \<and> disk_buf (sess q) = None \<and> received q = received p
    \<and> membuf_offset (sess q) = membuf_offset (sess p) \<and> flush_duration (sess q) = flush_duration (sess p)"
proof -
  have i: "buf_inv (sess p)" "disk_buf (sess p) = None" "d = other_half (sess p)" "0 < n" "n \<le> mem_buf_len (sess p)"
    using assms by (auto simp: pipe_inv_def session_inv_def buf_inv_def)
  then obtain blk where blk: "buf1 (sess p) = Some blk" by (auto simp: buf_inv_def)
  have "n \<le> length (drop d blk)"
    using i blk by (auto simp: buf_inv_def other_half_def)
  then have "write_loop [(int n, False)] 100 (int n) (drop d blk) [] = Some (0, take n (drop d blk))"
    using write_loop_full [of n "drop d blk" 100 False "[]" "[]"] i(4) by simp
  note step = pipe_step.commit [OF assms(2) blk this]
  show ?thesis
    by (rule exI, rule conjI, rule step) (use i(2) in \<open>simp add: write2disk_end_def\<close>)
qed

lemma pipe_write_half:
  assumes "pipe_inv p" "inflight p = None" "disk_buf (sess p) = Some d"
  shows "\<exists>q. pipe_step\<^sup>*\<^sup>* p q \<and> inflight q = None \<and> disk_buf (sess q) = None \<and> received q = received p
    \<and> membuf_offset (sess q) = membuf_offset (sess p) \<and> flush_duration (sess q) = flush_duration (sess p)"
proof -
  let ?q = "p\<lparr>sess := claimed (sess p), inflight := Some (d, disk_write_buf_len (sess p))\<rparr>"
  have "write2disk_begin (sess p) = Some (d, disk_write_buf_len (sess p), claimed (sess p))"
    using assms by (auto simp: write2disk_begin_Some pipe_inv_def)
  then have step: "pipe_step p ?q" by (rule pipe_step.claim [OF assms(2)])
  then have "pipe_inv ?q" using pipe.step_inv assms(1) by blast
  from pipe_finish_write [OF this] obtain r where
    "pipe_step ?q r" "inflight r = None \<and> disk_buf (sess r) = None \<and> received r = received p
      \<and> membuf_offset (sess r) = membuf_offset (sess p) \<and> flush_duration (sess r) = flush_duration (sess p)"
    by auto
  with step show ?thesis
    by (intro exI [of _ r]) (auto intro: converse_rtranclp_into_rtranclp)
qed

lemma pipe_submit:
  assumes "pipe_inv p" "inflight p = None" "disk_buf (sess p) = None" "time_out_need_flush_to_disk (sess p)"
  shows "\<exists>q. pipe_step p q \<and> inflight q = None \<and> disk_buf (sess q) \<noteq> None \<and> received q = received p
    \<and> membuf_offset (sess q) = 0"
proof -
  have "\<not> disk_io_in_progress (sess p)" using assms by (auto simp: pipe_inv_def)
  then show ?thesis
    by (intro exI [of _ "p\<lparr>sess := fst (scan_timeout (sess p) zero_stat)\<rparr>"] conjI pipe_step.flush)
      (use assms in \<open>auto simp: scan_timeout_def Let_def\<close>)
qed

lemma expires_some_time:
  fixes l :: u64
  assumes "0 \<le> d" "d < 3600"
  shows "(l + of_int d + 1) - l > of_int d"
proof -
  have d: "uint (of_int d :: u64) = d" using assms by (simp add: uint_word_of_int)
  then have "uint (of_int d + 1 :: u64) = d + 1" using assms by (simp add: uint_word_ariths)
  then have "(of_int d :: u64) < of_int d + 1" using d by (simp add: word_less_def)
  then show ?thesis by (simp add: algebra_simps)
qed

lemma pipe_submit_collected:
  assumes "pipe_inv p" "inflight p = None" "disk_buf (sess p) = None" "0 < membuf_offset (sess p)"
    and "0 \<le> flush_duration (sess p)" "flush_duration (sess p) < 3600"
  shows "\<exists>q. pipe_step\<^sup>*\<^sup>* p q \<and> inflight q = None \<and> disk_buf (sess q) \<noteq> None \<and> received q = received p
    \<and> membuf_offset (sess q) = 0"
proof (cases "time_out_need_flush_to_disk (sess p)")
  case True
  then show ?thesis using pipe_submit [OF assms(1-3)] by (meson r_into_rtranclp)
next
  case False
  define g where "g = (init_gstat (mcfg default_main) 0 '''')\<lparr>ticks := last_disk_io_write_tick (sess p)
    + of_int (flush_duration (sess p)) + 1\<rparr>"
  let ?q = "p\<lparr>sess := (sess p)\<lparr>time_out_need_flush_to_disk := True\<rparr>\<rparr>"
  have "scan_expired g (sess p)"
    using assms False expires_some_time [OF assms(5,6), of "last_disk_io_write_tick (sess p)"]
    by (auto simp: scan_expired_def g_def pipe_inv_def)
  then have step: "pipe_step p ?q" by (rule pipe_step.mark)
  then have "pipe_inv ?q" using pipe.step_inv assms(1) by blast
  from pipe_submit [OF this] assms obtain r where
    "pipe_step ?q r" "inflight r = None \<and> disk_buf (sess r) \<noteq> None \<and> received r = received p \<and> membuf_offset (sess r) = 0"
    by auto
  with step show ?thesis by (meson r_into_rtranclp rtranclp_trans)
qed

lemma pipe_empty_logged:
  "pipe_inv p \<Longrightarrow> inflight p = None \<Longrightarrow> disk_buf (sess p) = None \<Longrightarrow> membuf_offset (sess p) = 0 \<Longrightarrow>
   logged p = received p"
  by (simp add: pipe_inv_def inflight_part_def pending_def disk_part_def mem_part_def slice_at_def)

lemma pipe_settle:
  assumes "pipe_inv p"
  shows "\<exists>q. pipe_step\<^sup>*\<^sup>* p q \<and> inflight q = None \<and> disk_buf (sess q) = None \<and> received q = received p
    \<and> membuf_offset (sess q) = membuf_offset (sess p) \<and> flush_duration (sess q) = flush_duration (sess p)"
proof (cases "inflight p")
  case None
  then show ?thesis using pipe_write_half [OF assms] by (cases "disk_buf (sess p)") auto
next
  case (Some x)
  then show ?thesis using pipe_finish_write [OF assms] by (cases x) (meson r_into_rtranclp)
qed

lemma pipe_drain:
  assumes "pipe_inv p" "0 \<le> flush_duration (sess p)" "flush_duration (sess p) < 3600"
  shows "\<exists>q. pipe_step\<^sup>*\<^sup>* p q \<and> received q = received p \<and> logged q = received p"
proof -
  obtain q where q: "pipe_step\<^sup>*\<^sup>* p q" "inflight q = None" "disk_buf (sess q) = None" "received q = received p"
    "flush_duration (sess q) = flush_duration (sess p)"
    using pipe_settle [OF assms(1)] by blast
  have inv: "pipe_inv q" using pipe.run_inv q(1) assms(1) by blast
  show ?thesis
  proof (cases "membuf_offset (sess q) = 0")
    case True
    then show ?thesis using q pipe_empty_logged [OF inv] by auto
  next
    case False
    then obtain r where r: "pipe_step\<^sup>*\<^sup>* q r" "received r = received q" "membuf_offset (sess r) = 0"
      using pipe_submit_collected [OF inv q(2,3)] assms q(5) by auto
    have "pipe_inv r" using pipe.run_inv r(1) inv by blast
    from pipe_settle [OF this] r(3) obtain z where z: "pipe_step\<^sup>*\<^sup>* r z" "inflight z = None"
      "disk_buf (sess z) = None" "received z = received r" "membuf_offset (sess z) = 0" by auto
    have "logged z = received z"
      using pipe_empty_logged z pipe.run_inv [OF z(1) \<open>pipe_inv r\<close>] by blast
    then show ?thesis using q r z by (intro exI [of _ z]) (auto intro: rtranclp_trans)
  qed
qed



lemma other_half_bounds:
  assumes "buf_inv s"
  shows "other_half s \<noteq> cur_buf s" "other_half s + mem_buf_len s \<le> length (the (buf1 s))"
    "cur_buf s + mem_buf_len s \<le> length (the (buf1 s))"
  using assms by (auto simp: buf_inv_def other_half_def)



text \<open>
  A read of the network thread in a reachable state: \<open>pass2write\<close> takes the bytes,
  unless it waits for the disk thread to leave its write.
\<close>

theorem pipeline_accepts_reads:
  assumes "pipe_start p0" "pipe_step\<^sup>*\<^sup>* p0 p" "\<not> buf_full_stuck (sess p)"
    and "\<And>n. MAX_DATA_BLOCK_SIZE < n \<Longrightarrow> ok n"
    and "0 < length buf" "length buf \<le> net_read_buf_len (sess p)" "inflight p = None"
  shows "\<exists>s'. pass2write tk ok (sess p) buf = Return 0 s' \<and> pending s' = pending (sess p) @ buf"
proof -
  have "session_inv (sess p)" "\<not> disk_io_in_progress (sess p)"
    using pipe_run_inv [OF assms(1,2)] assms(7) by (auto simp: pipe_inv_def)
  then show ?thesis using pass2write_fifo [of "sess p" ok buf tk] assms(3-6) by auto
qed

theorem pipeline_accepts_reads_witness:
  "\<exists>s'. pass2write 0 (\<lambda>_. True) (sess sample_pipe) [1, 2, 3] = Return 0 s' \<and>
     pending s' = pending (sess sample_pipe) @ [1, 2, 3]"
  by (rule pipeline_accepts_reads [OF sample_pipe_start rtranclp.rtrancl_refl])
    (simp_all add: sample_pipe_def sample_session_inv sample_session_read)

section \<open>Every run of the server\<close>

text \<open>C5. After any sequence of accepts, network events, disk scans and ticks, each
  session sits in the slot and thread its own fields name, slots are within
  MAX_CONN_PER_THREAD, and curr_nr_conn counts the occupied slots of each thread.\<close>

theorem connection_table_consistent:
  assumes "server_step\<^sup>*\<^sup>* (init_server c now date f) S"
  shows "(\<forall>t i s. slots S t i = Some s \<longrightarrow> i < MAX_CONN_PER_THREAD \<and> threadidx s = t \<and> slot_idx s = int i)
    \<and> curr_nr_conn S t = int (card {i. slots S t i \<noteq> None})"
  using server.reachable_inv [OF assms init_server_start] by (auto simp: table_inv_def)

definition sample_config :: config where
  "sample_config = (mcfg default_main)\<lparr>log_idf := ''log''\<rparr>"

definition sample_server :: server where
  "sample_server = init_server sample_config 0 ''1970-01-01'' \<lparr>files = (\<lambda>_. None), fdt = (\<lambda>_. None)\<rparr>"

lemma sample_server_run:
  "\<exists>S. server_step\<^sup>*\<^sup>* sample_server S \<and> cfg S = sample_config \<and> {i. slots S 0 i \<noteq> None} = {0}"
proof -
  obtain r S where acc: "accept_client 7 0x0a000001 True True 0 sample_server = (r, S)" by fastforce
  have t: "nat (c_mod (uint (0x0a000001 AND 0xFF :: u32)) (nWorkers (cfg sample_server))) = 0"
    by (simp add: sample_server_def init_server_def sample_config_def default_main_def c_mod_def c_div_def)
  have "cfg S = sample_config \<and> {i. slots S 0 i \<noteq> None} = {0}"
    using acc unfolding accept_client_def Let_def t
    by (auto simp: sample_server_def init_server_def get_new_session_def free_slot_empty split: if_splits)
  then show ?thesis using server_step.accept [OF acc] by blast
qed

theorem connection_table_consistent_witness:
  "\<exists>S. server_step\<^sup>*\<^sup>* sample_server S \<and> {i. slots S 0 i \<noteq> None} = {0} \<and> curr_nr_conn S 0 = 1"
proof -
  obtain S where S: "server_step\<^sup>*\<^sup>* sample_server S" "{i. slots S 0 i \<noteq> None} = {0}"
    using sample_server_run by blast
  then show ?thesis
    using connection_table_consistent [OF S(1) [unfolded sample_server_def], of 0] by auto
qed

text \<open>
  Every session belongs to one of the \<open>nWorkers\<close> threads, so the disk thread's scan
  reaches it.
\<close>

definition worker_inv :: "server \<Rightarrow> bool" where
  "worker_inv S \<longleftrightarrow> 0 < nWorkers (cfg S) \<and> (\<forall>t i. slots S t i \<noteq> None \<longrightarrow> t < nat (nWorkers (cfg S)))"

lemma free_session_final_frame:
  "cfg (free_session_final s S) = cfg S"
  "slots (free_session_final s S) t i \<noteq> None \<Longrightarrow> slots S t i \<noteq> None"
  by (auto simp: free_session_final_def Let_def split: if_splits)

lemma accept_client_frame:
  assumes acc: "accept_client sfd addr a b rc S = (r, S')" and new: "slots S' t i \<noteq> None"
  shows "slots S t i \<noteq> None \<or> t = nat (c_mod (uint (addr AND 0xFF)) (nWorkers (cfg S)))"
  using acc new
  by (auto simp: accept_client_def Let_def free_session_final_def split: if_splits option.splits prod.splits)

lemma accept_client_cfg: "accept_client sfd addr a b rc S = (r, S') \<Longrightarrow> cfg S' = cfg S"
  by (auto simp: accept_client_def Let_def free_session_final_frame split: if_splits option.splits prod.splits)

lemma scan_result_frame:
  assumes "scan_result t i x S = Some (S', st')" "slots S t i \<noteq> None"
  shows "cfg S' = cfg S" "slots S' u j \<noteq> None \<Longrightarrow> slots S u j \<noteq> None"
proof -
  show "cfg S' = cfg S"
    using assms by (auto simp: scan_result_def free_session_final_frame Let_def
        split: option.splits scan.splits)
  show "slots S' u j \<noteq> None \<Longrightarrow> slots S u j \<noteq> None"
    using assms by (auto simp: scan_result_def free_session_final_def Let_def
        split: option.splits if_splits scan.splits)
qed

lemma disk_slot_frame:
  assumes "disk_slot t i e (S, st) = Some (S', st')"
  shows "cfg S' = cfg S" "slots S' u j \<noteq> None \<Longrightarrow> slots S u j \<noteq> None"
  using assms scan_result_frame by (auto simp: disk_slot_def split: option.splits)

interpretation worker: invariant_system "\<lambda>S. server_start S \<and> 0 < nWorkers (cfg S)" server_step worker_inv
proof unfold_locales
  show "worker_inv S" if "server_start S \<and> 0 < nWorkers (cfg S)" for S
    using that by (simp add: server_start_def worker_inv_def)
  show "worker_inv S'" if "server_step S S'" "worker_inv S" for S S'
    using that
  proof (induction rule: server_step.induct)
    case (accept sfd addr a b rc S r S')
    have "nat (c_mod (uint (addr AND 0xFF)) (nWorkers (cfg S))) < nat (nWorkers (cfg S))"
      using accept.prems c_mod_bounds [of "nWorkers (cfg S)" "uint (addr AND 0xFF)"]
      by (simp add: worker_inv_def)
    then show ?case
      using accept accept_client_frame [OF accept.hyps] accept_client_cfg [OF accept.hyps]
      unfolding worker_inv_def by metis
  next
    case (disk t i e S st S' st')
    then show ?case using disk_slot_frame [OF disk.hyps] unfolding worker_inv_def by metis
  qed (auto simp: worker_inv_def split: if_splits)
qed

theorem every_session_is_scanned:
  assumes "server_step\<^sup>*\<^sup>* (init_server c now date f) S" "0 < nWorkers c" "slots S t i = Some s"
  shows "(t, i) \<in> set (List.product [0..<nat (nWorkers (cfg S))] [0..<MAX_CONN_PER_THREAD])"
proof -
  have "server_start (init_server c now date f) \<and> 0 < nWorkers (cfg (init_server c now date f))"
    using assms(2) init_server_start by (simp add: init_server_def)
  with assms(1) have "worker_inv S" by (rule worker.reachable_inv)
  moreover have "table_inv S" using server.reachable_inv [OF assms(1) init_server_start] .
  ultimately show ?thesis using assms(3) by (auto simp: worker_inv_def table_inv_def)
qed

theorem every_session_is_scanned_witness:
  "\<exists>S. server_step\<^sup>*\<^sup>* sample_server S \<and> slots S 0 0 \<noteq> None
     \<and> (0, 0) \<in> set (List.product [0..<nat (nWorkers (cfg S))] [0..<MAX_CONN_PER_THREAD])"
proof -
  obtain S where S: "server_step\<^sup>*\<^sup>* sample_server S" "{i. slots S 0 i \<noteq> None} = {0}"
    using sample_server_run by blast
  then obtain s where "slots S 0 0 = Some s" by blast
  from S(1) this show ?thesis
    using every_session_is_scanned [OF S(1) [unfolded sample_server_def], of 0 0 s]
    by (auto simp: sample_config_def default_main_def)
qed

section \<open>The configuration\<close>

definition config_ok :: "main_state \<Rightarrow> bool" where
  "config_ok m \<longleftrightarrow> 1 \<le> nWorkers (mcfg m) \<and> nWorkers (mcfg m) \<le> 64 \<and> nr_dir (mcfg m) \<le> 32
     \<and> length (log_idf (mcfg m)) \<le> 31"

lemma main_option_ok: "main_option opt arg m = Some m' \<Longrightarrow> config_ok m \<Longrightarrow> config_ok m'"
  by (auto simp: main_option_def config_ok_def Let_def split: if_splits)

lemma main_options_ok: "main_options os m = Some m' \<Longrightarrow> config_ok m \<Longrightarrow> config_ok m'"
proof (induction os m rule: main_options.induct)
  case (2 opt optarg os m)
  then show ?case by (auto simp: bind_eq_Some_conv dest: main_option_ok)
qed simp

lemma main_checks_ok:
  assumes "main_checks addr_ok m = Some m'" "config_ok m"
  shows "config_ok m'" "1 \<le> port m'" "port m' \<le> 65535" "log_idf (mcfg m') \<noteq> ''''"
    "0 \<le> force_disconnect_seconds (mcfg m')"
  using assms by (auto simp: main_checks_def config_ok_def Let_def split: if_splits)

theorem main_config_bounds:
  assumes "main_config os addr_ok = Some m"
  shows "1 \<le> nWorkers (mcfg m) \<and> nWorkers (mcfg m) \<le> 64 \<and> nr_dir (mcfg m) \<le> 32
    \<and> 1 \<le> port m \<and> port m \<le> 65535 \<and> log_idf (mcfg m) \<noteq> '''' \<and> length (log_idf (mcfg m)) \<le> 31
    \<and> 0 \<le> force_disconnect_seconds (mcfg m)"
proof -
  obtain m0 where m0: "main_options os default_main = Some m0" "main_checks addr_ok m0 = Some m"
    using assms by (auto simp: main_config_def bind_eq_Some_conv)
  have "config_ok m0"
    by (rule main_options_ok [OF m0(1)]) (simp add: config_ok_def default_main_def)
  from main_checks_ok [OF m0(2) this] show ?thesis by (simp add: config_ok_def)
qed

lemma atoi_samples: "atoi ''8080'' = 8080" "atoi ''999'' = 999" "atoi ''0'' = 0"
  by code_simp+

theorem main_config_bounds_witness:
  "\<exists>m. main_config [(CHR ''p'', ''8080''), (CHR ''n'', ''999'')] True = Some m
     \<and> nWorkers (mcfg m) \<le> 64 \<and> port m = 8080"
proof -
  obtain m where m: "main_config [(CHR ''p'', ''8080''), (CHR ''n'', ''999'')] True = Some m" "port m = 8080"
    by (simp add: main_config_def main_checks_def main_option_def default_main_def atoi_samples Let_def)
  with main_config_bounds [OF m(1)] show ?thesis by blast
qed

theorem zero_dirs_trap:
  "\<exists>m. main_config [(CHR ''p'', ''8080''), (CHR ''m'', ''0'')] True = Some m
     \<and> nr_dir (mcfg m) = 0 \<and> (\<forall>g a. log_fileName (mcfg m) g a = None)"
  by (simp add: main_config_def main_checks_def main_option_def default_main_def atoi_samples Let_def log_fileName_def)

section \<open>The tick\<close>

theorem seq_of_bounds:
  assumes "0 \<le> now" "0 < dir_switch_period c"
  shows "0 \<le> seq_of c now \<and> seq_of c now * dir_switch_period c < 86400"
proof -
  let ?x = "c_mod (now + 3600 * TZ_OFFSET) 86400" and ?p = "dir_switch_period c"
  have x: "0 \<le> ?x" "?x < 86400"
    using assms c_mod_nonneg [of "now + 3600 * TZ_OFFSET" 86400] c_mod_bounds [of 86400 "now + 3600 * TZ_OFFSET"]
    by (simp_all add: TZ_OFFSET_def)
  then have eq: "c_div ?x ?p = ?x div ?p" using assms(2) by (simp add: c_div_nonneg)
  have "?x div ?p * ?p \<le> ?x"
    using assms(2) by (metis minus_mod_eq_div_mult pos_mod_sign diff_le_eq le_add_same_cancel1)
  then show ?thesis
    using x assms(2) eq pos_imp_zdiv_nonneg_iff [of ?p ?x] by (simp add: seq_of_def)
qed

theorem seq_of_bounds_witness: "0 \<le> seq_of sample_config 86399 \<and> seq_of sample_config 86399 * 600 < 86400"
  using seq_of_bounds [of 86399 sample_config] by (simp add: sample_config_def default_main_def)

text \<open>What the report resets and what it leaves.\<close>

theorem periodic_counters:
  "period_succ_finished_disk_io (periodic c now date g) =
     (if (ticks g + 1) mod 10 = 0 then 0 else period_succ_finished_disk_io g)
   \<and> period_succ_submit_disk_io (periodic c now date g) =
     (if (ticks g + 1) mod 10 = 0 then 0 else period_succ_submit_disk_io g)
   \<and> period_failed_finished_disk_io (periodic c now date g) = period_failed_finished_disk_io g
   \<and> net_in_bytes (periodic c now date g) = net_in_bytes g \<and> disk_io_bytes (periodic c now date g) = disk_io_bytes g
   \<and> ticks (periodic c now date g) = ticks g + 1"
  by (simp add: periodic_def Let_def)

end
