(* ===== verification/LogRace.thy ===== *)
theory LogRace
  imports LogServer
begin

text \<open>
  The network thread and the disk thread on one session of src/logServer.c, step by
  step: \<open>pass2write\<close> is not one step here but a program with a counter. Its reads of
  the session before \<open>disk_io_ops_lock\<close> is taken, the busy wait, and the copy with its
  update of \<open>membuf_offset\<close> outside the lock are steps of their own, and the disk
  thread can run between any two of them.
\<close>

section \<open>The two threads\<close>

text \<open>
  Where the network thread stands. \<open>Setup\<close> is the label \<open>setup_copy\<close>, \<open>Full\<close> waits for
  the lock of the full-buffer branch, \<open>Spinning\<close> is in the busy wait and \<open>Spun\<close> waits
  for the lock after it, \<open>Locked\<close> waits for the lock of the guarded copy. The unguarded
  copy is \<open>Target\<close> (\<open>dist_buf\<close> to be computed), \<open>Copying\<close> (\<open>memcpy\<close> to come), \<open>Bump\<close>
  (\<open>membuf_offset\<close> to be read) and \<open>Store\<close> (its new value to be stored).
\<close>

datatype npc =
    Idle
  | Setup bytes
  | Full bytes
  | Spinning bytes
  | Spun bytes
  | Locked bytes
  | Target bytes
  | Copying bytes nat
  | Bump bytes
  | Store bytes nat

text \<open>
  The rounds of \<open>recheck\<close> that enlarge the block while the other half is pending: the
  session that goes on to \<open>setup_copy\<close>, either with room or stuck.
\<close>

function make_room :: "u64 \<Rightarrow> (nat \<Rightarrow> bool) \<Rightarrow> session \<Rightarrow> nat \<Rightarrow> session option" where
  "make_room tk ok s len =
     (if membuf_offset s + len + net_read_buf_len s > mem_buf_len s then
        (case enlarge_session_buf tk ok s
                (membuf_offset s + len + net_read_buf_len s - mem_buf_len s) of
           Return rc s' \<Rightarrow>
             (if rc \<noteq> 0 then Some (s'\<lparr>buf_full_stuck := True\<rparr>) else make_room tk ok s' len)
         | _ \<Rightarrow> None)
      else Some s)"
  by pat_completeness auto
termination
proof (relation "measure (\<lambda>(tk, ok, s, len). EXT_DATA_BLOCK_SIZE - mem_buf_len s)")
  fix tk ok s and len :: nat and rc s'
  assume "enlarge_session_buf tk ok s
      (membuf_offset s + len + net_read_buf_len s - mem_buf_len s) = Return rc s'"
    and "\<not> rc \<noteq> 0"
  then have "enlarge_session_buf tk ok s
      (membuf_offset s + len + net_read_buf_len s - mem_buf_len s) = Return 0 s'"
    by simp
  from enlarge_session_buf_grows [OF this]
  show "((tk, ok, s', len), tk, ok, s, len)
      \<in> measure (\<lambda>(tk, ok, s, len). EXT_DATA_BLOCK_SIZE - mem_buf_len s)"
    by auto
qed simp

declare make_room.simps [simp del]

text \<open>The bytes that the network thread has read and not yet made part of the buffer.\<close>

fun in_hand :: "npc \<Rightarrow> bytes" where
  "in_hand Idle = []"
| "in_hand (Setup b) = b"
| "in_hand (Full b) = b"
| "in_hand (Spinning b) = b"
| "in_hand (Spun b) = b"
| "in_hand (Locked b) = b"
| "in_hand (Target b) = b"
| "in_hand (Copying b _) = b"
| "in_hand (Bump b) = b"
| "in_hand (Store b _) = b"

text \<open>
  The points where the network thread relies on no unlocked reading: elsewhere it has
  decided on the state it saw and has not finished.
\<close>

fun settled :: "npc \<Rightarrow> bool" where
  "settled Idle = True"
| "settled (Setup _) = True"
| "settled (Locked _) = True"
| "settled _ = False"

record race = pipe +
  npc :: npc

text \<open>
  One step. The first parameter says whether the timed exchange S2 of the scan is held
  back while the network thread is not settled: the code means to ensure it by raising
  the flag in one scan and acting on it in a later one. The step \<open>mark\<close> may come at any
  time, whatever the unlocked test before it saw.
\<close>

inductive race_step :: "bool \<Rightarrow> race \<Rightarrow> race \<Rightarrow> bool" for grace where
  fits: "npc p = Idle \<Longrightarrow> \<not> buf_full_stuck (sess p) \<Longrightarrow> 0 < length buf \<Longrightarrow>
    length buf \<le> net_read_buf_len (sess p) \<Longrightarrow>
    membuf_offset (sess p) + length buf + net_read_buf_len (sess p) \<le> mem_buf_len (sess p) \<Longrightarrow>
    race_step grace p (p\<lparr>npc := Setup buf, received := received p @ buf\<rparr>)"
| full: "npc p = Idle \<Longrightarrow> \<not> buf_full_stuck (sess p) \<Longrightarrow> 0 < length buf \<Longrightarrow>
    length buf \<le> net_read_buf_len (sess p) \<Longrightarrow>
    membuf_offset (sess p) + length buf + net_read_buf_len (sess p) > mem_buf_len (sess p) \<Longrightarrow>
    race_step grace p (p\<lparr>npc := Full buf, received := received p @ buf\<rparr>)"
| room: "npc p = Full buf \<Longrightarrow> disk_buf (sess p) \<noteq> None \<Longrightarrow>
    (\<And>n. MAX_DATA_BLOCK_SIZE < n \<Longrightarrow> ok n) \<Longrightarrow> make_room tk ok (sess p) (length buf) = Some s' \<Longrightarrow>
    race_step grace p (p\<lparr>npc := Setup buf, sess := s'\<rparr>)"
| busy: "npc p = Full buf \<Longrightarrow> disk_buf (sess p) = None \<Longrightarrow> disk_io_in_progress (sess p) \<Longrightarrow>
    race_step grace p (p\<lparr>npc := Spinning buf\<rparr>)"
| exchange: "npc p = Full buf \<Longrightarrow> disk_buf (sess p) = None \<Longrightarrow> \<not> disk_io_in_progress (sess p) \<Longrightarrow>
    race_step grace p (p\<lparr>npc := Target buf,
      sess := switch_buffers ((sess p)\<lparr>time_out_need_flush_to_disk := False\<rparr>)\<rparr>)"
| spun: "npc p = Spinning buf \<Longrightarrow> \<not> disk_io_in_progress (sess p) \<Longrightarrow>
    race_step grace p (p\<lparr>npc := Spun buf\<rparr>)"
| late: "npc p = Spun buf \<Longrightarrow>
    race_step grace p (p\<lparr>npc := Target buf,
      sess := switch_buffers ((sess p)\<lparr>time_out_need_flush_to_disk := False\<rparr>)\<rparr>)"
| guarded: "npc p = Setup buf \<Longrightarrow> time_out_need_flush_to_disk (sess p) \<Longrightarrow>
    race_step grace p (p\<lparr>npc := Locked buf\<rparr>)"
| unguarded: "npc p = Setup buf \<Longrightarrow> \<not> time_out_need_flush_to_disk (sess p) \<Longrightarrow>
    race_step grace p (p\<lparr>npc := Target buf\<rparr>)"
| copy: "npc p = Locked buf \<Longrightarrow> copy_to_cur (sess p) buf = Return 0 s' \<Longrightarrow>
    race_step grace p (p\<lparr>npc := Idle, sess := s'\<rparr>)"
| target: "npc p = Target buf \<Longrightarrow>
    race_step grace p (p\<lparr>npc := Copying buf (cur_buf (sess p) + membuf_offset (sess p))\<rparr>)"
| memcpy: "npc p = Copying buf dist \<Longrightarrow> buf1 (sess p) = Some blk \<Longrightarrow> memcpy_at dist buf blk = Some blk' \<Longrightarrow>
    race_step grace p (p\<lparr>npc := Bump buf, sess := (sess p)\<lparr>buf1 := Some blk'\<rparr>\<rparr>)"
| load: "npc p = Bump buf \<Longrightarrow>
    race_step grace p (p\<lparr>npc := Store buf (membuf_offset (sess p) + length buf)\<rparr>)"
| store: "npc p = Store buf off \<Longrightarrow>
    race_step grace p (p\<lparr>npc := Idle, sess := (sess p)\<lparr>membuf_offset := off\<rparr>\<rparr>)"
| mark: "race_step grace p (p\<lparr>sess := (sess p)\<lparr>time_out_need_flush_to_disk := True\<rparr>\<rparr>)"
| flush: "grace \<longrightarrow> settled (npc p) \<or> \<not> time_out_need_flush_to_disk (sess p) \<Longrightarrow>
    race_step grace p (p\<lparr>sess := fst (scan_timeout (sess p) st)\<rparr>)"
| claim: "inflight p = None \<Longrightarrow> 0 < disk_write_buf_len (sess p) \<Longrightarrow>
    write2disk_begin (sess p) = Some (d, n, s') \<Longrightarrow>
    race_step grace p (p\<lparr>sess := s', inflight := Some (d, n)\<rparr>)"
| commit: "inflight p = Some (d, n) \<Longrightarrow> buf1 (sess p) = Some blk \<Longrightarrow>
    write_loop [(int n, e)] 100 (int n) (drop d blk) [] = Some (nleft, out) \<Longrightarrow>
    race_step grace p (p\<lparr>sess := snd (write2disk_end n nleft (sess p)), inflight := None,
      logged := logged p @ out\<rparr>)"

section \<open>Making room\<close>

lemma pass2write_make_room:
  assumes "disk_buf s \<noteq> None" "0 < length buf"
    and "make_room tk ok s (length buf) = Some s'"
  shows "pass2write tk ok s buf = copy_to_cur s' buf"
  using assms
proof (induction tk ok s buf rule: pass2write.induct)
  case (1 tk ok s buf)
  show ?case
  proof (cases "membuf_offset s + length buf + net_read_buf_len s > mem_buf_len s")
    case False
    then have "s' = s" using "1.prems"(3) by (simp add: make_room.simps [of tk ok s])
    then show ?thesis
      using "1.prems"(2) False by (simp add: pass2write.simps [of tk ok s buf])
  next
    case True
    let ?gap = "membuf_offset s + length buf + net_read_buf_len s - mem_buf_len s"
    obtain rc s1 where enl: "enlarge_session_buf tk ok s ?gap = Return rc s1"
      using "1.prems" True by (auto simp: make_room.simps [of tk ok s] split: outcome.splits)
    have d: "disk_buf s1 \<noteq> None"
      using enl "1.prems"(1)
      by (auto simp: enlarge_session_buf_def enlarge_realloc_def Let_def split: if_splits option.splits)
    show ?thesis
    proof (cases "rc = 0")
      case rc: True
      have "pass2write tk ok s1 buf = copy_to_cur s' buf"
        using "1.prems" True enl rc d
        by (intro "1.IH" [of rc]) (simp_all add: make_room.simps [of tk ok s])
      then show ?thesis
        using "1.prems" True enl rc by (simp add: pass2write.simps [of tk ok s buf])
    next
      case False
      then show ?thesis
        using "1.prems" True enl
        by (simp add: pass2write.simps [of tk ok s buf] make_room.simps [of tk ok s])
    qed
  qed
qed

lemma enlarge_session_buf_frame:
  assumes "enlarge_session_buf tk ok s gap = Return rc s'" "disk_buf s \<noteq> None"
  shows "membuf_offset s' = membuf_offset s" "disk_buf s' \<noteq> None"
    "disk_io_in_progress s' = disk_io_in_progress s"
    "net_read_buf_len s' = net_read_buf_len s \<or> 32 * 1024 \<le> net_read_buf_len s'"
  using assms
  by (auto simp: enlarge_session_buf_def enlarge_realloc_def grow_net_read_def Let_def
      split: if_splits option.splits)

lemma make_room_frame:
  assumes "make_room tk ok s len = Some s'" "disk_buf s \<noteq> None"
  shows "membuf_offset s' = membuf_offset s \<and> disk_buf s' \<noteq> None
    \<and> disk_io_in_progress s' = disk_io_in_progress s
    \<and> (net_read_buf_len s' = net_read_buf_len s \<or> 32 * 1024 \<le> net_read_buf_len s')"
  using assms
proof (induction tk ok s len rule: make_room.induct)
  case (1 tk ok s len)
  let ?gap = "membuf_offset s + len + net_read_buf_len s - mem_buf_len s"
  show ?case
  proof (cases "membuf_offset s + len + net_read_buf_len s > mem_buf_len s")
    case False
    then show ?thesis using "1.prems" by (simp add: make_room.simps [of tk ok s])
  next
    case True
    then obtain rc s1 where enl: "enlarge_session_buf tk ok s ?gap = Return rc s1"
      using "1.prems" by (auto simp: make_room.simps [of tk ok s] split: outcome.splits)
    note f = enlarge_session_buf_frame [OF enl "1.prems"(2)]
    show ?thesis
    proof (cases "rc = 0")
      case rc: True
      then have "make_room tk ok s1 len = Some s'"
        using "1.prems"(1) True enl by (simp add: make_room.simps [of tk ok s])
      then show ?thesis
        using "1.IH" [OF True enl _ _ f(2)] rc f by auto
    next
      case False
      then have "s' = s1\<lparr>buf_full_stuck := True\<rparr>"
        using "1.prems"(1) True enl by (simp add: make_room.simps [of tk ok s])
      then show ?thesis using f by simp
    qed
  qed
qed

section \<open>Copies in parts\<close>

text \<open>A session that \<open>len\<close> bytes can be appended to, and that has room for a read afterwards.\<close>

definition copy_ok :: "session \<Rightarrow> nat \<Rightarrow> bool" where
  "copy_ok s len \<longleftrightarrow> buf_inv s \<and> size_inv s \<and> len + net_read_buf_len s \<le> mem_buf_len s
     \<and> membuf_offset s + len \<le> mem_buf_len s
     \<and> (membuf_offset s + len + net_read_buf_len s \<le> mem_buf_len s \<or> buf_full_stuck s
        \<or> (disk_buf s = None \<and> \<not> disk_io_in_progress s))"

definition holds :: "session \<Rightarrow> bytes \<Rightarrow> bool" where
  "holds s buf \<longleftrightarrow> buf1 s = Some (overwrite (cur_buf s + membuf_offset s) buf (the (buf1 s)))"

lemma holds_appended:
  "holds s buf \<Longrightarrow> appended s buf = s\<lparr>membuf_offset := membuf_offset s + length buf\<rparr>"
  unfolding appended_def holds_def by (cases s) simp

lemma overwrite_idem:
  "off + length bs \<le> length buf \<Longrightarrow> overwrite off bs (overwrite off bs buf) = overwrite off bs buf"
  by (simp add: overwrite_def)

lemma copy_ok_appended:
  assumes "copy_ok s (length buf)"
  shows "session_inv (appended s buf)" "pending (appended s buf) = pending s @ buf"
    "n \<le> mem_buf_len s \<Longrightarrow>
      slice_at (other_half s) n (the (buf1 (appended s buf))) = slice_at (other_half s) n (the (buf1 s))"
proof -
  have i: "buf_inv s" "membuf_offset s + length buf \<le> mem_buf_len s" "size_inv s"
    using assms by (simp_all add: copy_ok_def)
  show "session_inv (appended s buf)"
    using assms appended_inv [OF i(1,2)] by (auto simp: session_inv_def copy_ok_def room_inv_def)
  show "pending (appended s buf) = pending s @ buf"
    using appended_parts [OF i(1,2)] by (simp add: pending_def)
  show "slice_at (other_half s) n (the (buf1 (appended s buf))) = slice_at (other_half s) n (the (buf1 s))"
    if "n \<le> mem_buf_len s"
    using appended_other_half [OF i(1,2) that] .
qed

lemma copy_ok_memcpy:
  assumes "copy_ok s (length buf)" "buf1 s = Some blk"
  defines "blk' \<equiv> overwrite (cur_buf s + membuf_offset s) buf blk"
  shows "memcpy_at (cur_buf s + membuf_offset s) buf blk = Some blk'"
    "copy_ok (s\<lparr>buf1 := Some blk'\<rparr>) (length buf)" "holds (s\<lparr>buf1 := Some blk'\<rparr>) buf"
    "pending (s\<lparr>buf1 := Some blk'\<rparr>) = pending s"
    "n \<le> mem_buf_len s \<Longrightarrow> slice_at (other_half s) n blk' = slice_at (other_half s) n blk"
proof -
  have i: "buf_inv s" "membuf_offset s + length buf \<le> mem_buf_len s"
    using assms by (simp_all add: copy_ok_def)
  have le: "cur_buf s + membuf_offset s + length buf \<le> length blk"
    using i assms(2) by (auto simp: buf_inv_def)
  show "memcpy_at (cur_buf s + membuf_offset s) buf blk = Some blk'"
    using le by (simp add: memcpy_at_def blk'_def)
  have len: "length blk' = length blk" using le by (simp add: blk'_def)
  show "copy_ok (s\<lparr>buf1 := Some blk'\<rparr>) (length buf)"
    using assms(1,2) len by (auto simp: copy_ok_def buf_inv_def size_inv_def other_half_def)
  show "holds (s\<lparr>buf1 := Some blk'\<rparr>) buf"
    using le by (simp add: holds_def blk'_def overwrite_idem)
  have a: "appended s buf = s\<lparr>buf1 := Some blk', membuf_offset := membuf_offset s + length buf\<rparr>"
    by (simp add: appended_def blk'_def assms(2))
  show "slice_at (other_half s) n blk' = slice_at (other_half s) n blk" if "n \<le> mem_buf_len s"
    using appended_other_half [OF i that] assms(2) by (simp add: a)
  have "disk_part (s\<lparr>buf1 := Some blk'\<rparr>) = disk_part s"
    using appended_parts(1) [OF i] by (cases "disk_buf s") (simp_all add: a disk_part_def)
  moreover have "mem_part (s\<lparr>buf1 := Some blk'\<rparr>) = mem_part s"
    using le assms(2) slice_at_overwrite_disjoint [of "cur_buf s" "membuf_offset s" "cur_buf s + membuf_offset s" buf blk]
    by (simp add: mem_part_def blk'_def)
  ultimately show "pending (s\<lparr>buf1 := Some blk'\<rparr>) = pending s" by (simp add: pending_def)
qed

section \<open>The invariant\<close>

fun npc_inv :: "npc \<Rightarrow> session \<Rightarrow> bool" where
  "npc_inv Idle s = session_inv s"
| "npc_inv (Setup b) s = copy_ok s (length b)"
| "npc_inv (Locked b) s = copy_ok s (length b)"
| "npc_inv (Target b) s = copy_ok s (length b)"
| "npc_inv (Copying b d) s = (copy_ok s (length b) \<and> d = cur_buf s + membuf_offset s)"
| "npc_inv (Bump b) s = (copy_ok s (length b) \<and> holds s b)"
| "npc_inv (Store b v) s = (copy_ok s (length b) \<and> holds s b \<and> v = membuf_offset s + length b)"
| "npc_inv (Full b) s = (session_inv s \<and> \<not> buf_full_stuck s \<and> 0 < length b \<and> length b \<le> net_read_buf_len s
    \<and> mem_buf_len s < membuf_offset s + length b + net_read_buf_len s)"
| "npc_inv (Spinning b) s = (session_inv s \<and> length b \<le> net_read_buf_len s \<and> disk_buf s = None)"
| "npc_inv (Spun b) s = (session_inv s \<and> length b \<le> net_read_buf_len s \<and> disk_buf s = None
    \<and> \<not> disk_io_in_progress s)"

lemma npc_inv_buf_inv: "npc_inv pc s \<Longrightarrow> buf_inv s"
  by (cases pc) (auto simp: session_inv_def copy_ok_def)

lemma copy_ok_frame [simp]:
  "copy_ok (s\<lparr>time_out_need_flush_to_disk := b\<rparr>) n = copy_ok s n"
  "holds (s\<lparr>time_out_need_flush_to_disk := b\<rparr>) buf = holds s buf"
  "holds (s\<lparr>disk_io_in_progress := b, disk_buf := x\<rparr>) buf = holds s buf"
  by (simp_all add: copy_ok_def holds_def size_inv_def)

lemma npc_inv_flag [simp]: "npc_inv pc (s\<lparr>time_out_need_flush_to_disk := b\<rparr>) = npc_inv pc s"
  by (cases pc) simp_all

lemma copy_ok_claimed: "copy_ok s n \<Longrightarrow> disk_buf s = Some d \<Longrightarrow> copy_ok (claimed s) n"
  by (auto simp: copy_ok_def buf_inv_def size_inv_def other_half_def)

lemma copy_ok_released: "copy_ok s n \<Longrightarrow> disk_buf s = None \<Longrightarrow> copy_ok (released m l s) n"
  by (auto simp: copy_ok_def buf_inv_def size_inv_def other_half_def)

lemma npc_inv_claimed:
  "npc_inv pc s \<Longrightarrow> disk_buf s = Some d \<Longrightarrow> npc_inv pc (claimed s)"
  using claimed_inv [of s d] by (cases pc) (simp_all add: copy_ok_claimed)

lemma released_facts [simp]:
  "holds (released n l s) b = holds s b" "\<not> buf_full_stuck (released n l s)"
  by (simp_all add: holds_def released_def write2disk_end_def)

lemma npc_inv_released:
  "npc_inv pc s \<Longrightarrow> disk_buf s = None \<Longrightarrow> npc_inv pc (released n l s)"
  using released_inv [of s n l] by (cases pc) (simp_all add: copy_ok_released)

lemma fst_scan_timeout:

  "fst (scan_timeout s st) =
     (if time_out_need_flush_to_disk s then
        (if disk_buf s = None \<and> \<not> disk_io_in_progress s then switch_buffers s else s)
          \<lparr>time_out_need_flush_to_disk := False\<rparr>
      else s)"
  by (simp add: scan_timeout_def Let_def)

lemma pending_switch:
  "buf_inv s \<Longrightarrow> disk_buf s = None \<Longrightarrow> pending (switch_buffers s) = pending s"
  using switch_buffers_parts [of s] by (simp add: pending_def disk_part_def [of s])

lemma npc_inv_flush:
  assumes "npc_inv pc s" "settled pc \<or> \<not> time_out_need_flush_to_disk s"
  shows "npc_inv pc (fst (scan_timeout s st))" "pending (fst (scan_timeout s st)) = pending s"
proof -
  have b: "buf_inv s" by (rule npc_inv_buf_inv [OF assms(1)])
  show "pending (fst (scan_timeout s st)) = pending s"
    using pending_switch [OF b] by (simp add: fst_scan_timeout)
  have c: "copy_ok (switch_buffers s) n" if "copy_ok s n" "disk_buf s = None" "\<not> disk_io_in_progress s" for n
    using that switch_buffers_inv [OF b] by (auto simp: copy_ok_def size_inv_def)
  show "npc_inv pc (fst (scan_timeout s st))"
    using assms c switch_session_inv [of s]
    by (cases pc) (auto simp: fst_scan_timeout)
qed

section \<open>Every step keeps the invariant\<close>

definition race_inv :: "race \<Rightarrow> bool" where
  "race_inv p \<longleftrightarrow> npc_inv (npc p) (sess p)
     \<and> (inflight p \<noteq> None \<longleftrightarrow> disk_io_in_progress (sess p))
     \<and> (case inflight p of None \<Rightarrow> True
         | Some (d, n) \<Rightarrow> d = other_half (sess p) \<and> 0 < n \<and> n \<le> mem_buf_len (sess p))
     \<and> received p = logged p @ inflight_part (pipe.truncate p) @ pending (sess p) @ in_hand (npc p)"

lemma inflight_part_truncate [simp]:
  "inflight_part (pipe.truncate p) =
     (case inflight p of None \<Rightarrow> [] | Some (d, n) \<Rightarrow> slice_at d n (the (buf1 (sess p))))"
  by (simp add: inflight_part_def pipe.truncate_def split: option.split)

text \<open>
  A step of the network thread: the half that the disk thread is writing stays as it
  is, and what leaves the hand enters the buffer.
\<close>

lemma race_inv_net:
  assumes "race_inv p" "npc_inv pc s"
    and "disk_io_in_progress s = disk_io_in_progress (sess p)"
    and "disk_io_in_progress (sess p) \<Longrightarrow> other_half s = other_half (sess p) \<and> mem_buf_len s = mem_buf_len (sess p)
      \<and> (\<forall>n \<le> mem_buf_len (sess p). slice_at (other_half (sess p)) n (the (buf1 s))
          = slice_at (other_half (sess p)) n (the (buf1 (sess p))))"
    and "pending s @ in_hand pc = pending (sess p) @ in_hand (npc p)"
  shows "race_inv (p\<lparr>npc := pc, sess := s\<rparr>)"
  using assms by (auto simp: race_inv_def split: option.splits)

lemma make_room_ok:
  fixes buf :: bytes
  assumes "session_inv s" "\<not> buf_full_stuck s" "disk_buf s \<noteq> None"
    and "mem_buf_len s < membuf_offset s + length buf + net_read_buf_len s"
    and len: "0 < length buf" "length buf \<le> net_read_buf_len s"
    and alloc: "\<And>n. MAX_DATA_BLOCK_SIZE < n \<Longrightarrow> ok n"
    and room: "make_room tk ok s (length buf) = Some s'"
  shows "copy_ok s' (length buf) \<and> pending s' = pending s"
proof -
  obtain s2 where s2: "copy_to_cur s' buf = Return 0 s2" "session_inv s2" "pending s2 = pending s @ buf"
    using pass2write_pending [OF assms(1-4) _ len, of ok tk] alloc
      pass2write_make_room [OF assms(3) len(1) room] by auto
  obtain blk where blk: "buf1 s' = Some blk" "cur_buf s' + membuf_offset s' + length buf \<le> length blk"
    and "s2 = appended s' buf"
    using s2(1)
    by (cases "buf1 s'") (auto simp: copy_to_cur_def memcpy_at_def appended_def split: if_splits)
  then have a: "session_inv (appended s' buf)" "pending (appended s' buf) = pending s @ buf"
    using s2 by simp_all
  have b: "buf_inv s'" "size_inv s'" "membuf_offset s' + length buf \<le> mem_buf_len s'"
    "membuf_offset s' + length buf + net_read_buf_len s' \<le> mem_buf_len s' \<or> buf_full_stuck s'
      \<or> (disk_buf s' = None \<and> \<not> disk_io_in_progress s')"
    using a(1) blk by (auto simp: session_inv_def buf_inv_def room_inv_def other_half_def appended_def size_inv_def)
  have "net_read_buf_len s' = net_read_buf_len s \<or> 32 * 1024 \<le> net_read_buf_len s'"
    using make_room_frame [OF room assms(3)] by simp
  then have "length buf + net_read_buf_len s' \<le> mem_buf_len s'"
    using b(2) len(2) assms(1) by (auto simp: size_inv_def session_inv_def size_consts)
  moreover have "pending s' = pending s"
    using a(2) appended_parts [OF b(1,3)] by (simp add: pending_def)
  ultimately show ?thesis using b by (simp add: copy_ok_def)
qed

lemma exchange_ok:
  assumes "session_inv s" "disk_buf s = None" "\<not> disk_io_in_progress s" "length buf \<le> net_read_buf_len s"
  defines "s' \<equiv> switch_buffers (s\<lparr>time_out_need_flush_to_disk := False\<rparr>)"
  shows "copy_ok s' (length buf) \<and> pending s' = pending s"
proof -
  let ?t = "s\<lparr>time_out_need_flush_to_disk := False\<rparr>"
  have i: "buf_inv ?t" "\<not> disk_io_in_progress ?t" "size_inv s"
    using assms by (simp_all add: session_inv_def)
  have "length buf + net_read_buf_len s \<le> mem_buf_len s"
    using i(3) assms(4) by (auto simp: size_inv_def size_consts)
  then show ?thesis
    using switch_buffers_inv [OF i(1,2)] pending_switch [OF i(1)] i(3) assms(2)
    by (simp add: s'_def copy_ok_def size_inv_def)
qed

lemma race_step_inv: "race_step True p q \<Longrightarrow> race_inv p \<Longrightarrow> race_inv q"
proof (induction rule: race_step.induct)
  case (fits p buf)
  then have "copy_ok (sess p) (length buf)" by (auto simp: race_inv_def session_inv_def copy_ok_def)
  then show ?case using fits by (simp add: race_inv_def split: option.splits prod.splits)
next
  case (full p buf)
  then show ?case by (simp add: race_inv_def split: option.splits prod.splits)
next
  case (room p buf ok tk s')
  have "copy_ok s' (length buf) \<and> pending s' = pending (sess p)"
    using room by (intro make_room_ok [of "sess p" buf ok tk s']) (auto simp: race_inv_def)
  moreover have "\<not> disk_io_in_progress (sess p)"
    using room by (auto simp: race_inv_def session_inv_def buf_inv_def)
  ultimately show ?case
    using room race_inv_net [OF room.prems, of "Setup buf" s'] make_room_frame [OF room.hyps(4,2)] by simp
next
  case (exchange p buf)
  then show ?case
    using race_inv_net [OF exchange.prems, of "Target buf"] exchange_ok [of "sess p" buf]
    by (simp add: race_inv_def)
next
  case (late p buf)
  then show ?case
    using race_inv_net [OF late.prems, of "Target buf"] exchange_ok [of "sess p" buf]
    by (simp add: race_inv_def)
next
  case (copy p buf s')
  have ok: "copy_ok (sess p) (length buf)" using copy by (simp add: race_inv_def)
  have "s' = appended (sess p) buf"
    using copy.hyps(2) copy_to_cur_appended [of "sess p" buf] ok by (simp add: copy_ok_def)
  then show ?case
    using race_inv_net [OF copy.prems, of Idle s'] copy copy_ok_appended [OF ok] by (simp add: other_half_def)
next
  case (memcpy p buf dist blk blk')
  have ok: "copy_ok (sess p) (length buf)" "dist = cur_buf (sess p) + membuf_offset (sess p)"
    using memcpy by (simp_all add: race_inv_def)
  note m = copy_ok_memcpy [OF ok(1) memcpy.hyps(2)]
  then show ?case
    using race_inv_net [OF memcpy.prems, of "Bump buf" "(sess p)\<lparr>buf1 := Some blk'\<rparr>"] memcpy.hyps ok(2)
    by (simp add: other_half_def)
next
  case (store p buf off)
  have ok: "copy_ok (sess p) (length buf)" "holds (sess p) buf" "off = membuf_offset (sess p) + length buf"
    using store by (simp_all add: race_inv_def)
  then show ?case
    using race_inv_net [OF store.prems, of Idle "appended (sess p) buf"] store.hyps
      copy_ok_appended [OF ok(1)] holds_appended [OF ok(2)] by (simp add: other_half_def)
next
  case (flush p st)
  have "npc_inv (npc p) (fst (scan_timeout (sess p) st))" "pending (fst (scan_timeout (sess p) st)) = pending (sess p)"
    using npc_inv_flush [of "npc p" "sess p" st] flush by (auto simp: race_inv_def)
  then show ?case
    using flush by (auto simp: race_inv_def fst_scan_timeout split: option.splits if_splits)
next
  case (claim p d n s')
  then have c: "\<not> disk_io_in_progress (sess p)" "disk_buf (sess p) = Some d"
    "n = disk_write_buf_len (sess p)" "s' = claimed (sess p)"
    by (auto simp: write2disk_begin_Some)
  have i: "npc_inv (npc p) (sess p)" using claim by (simp add: race_inv_def)
  have "buf_inv (sess p)" by (rule npc_inv_buf_inv [OF i])
  then show ?case
    using claim c npc_inv_claimed [OF i c(2)]
    by (auto simp: race_inv_def pending_def [of "sess p"] disk_part_def [of "sess p"] buf_inv_def)
next
  case (commit p d n blk e nleft out)
  have i: "npc_inv (npc p) (sess p)" "buf_inv (sess p)" "d = other_half (sess p)" "0 < n" "n \<le> mem_buf_len (sess p)"
    "disk_buf (sess p) = None"
    using commit npc_inv_buf_inv [of "npc p" "sess p"] by (auto simp: race_inv_def buf_inv_def)
  have "n \<le> length (drop d blk)"
    using i commit.hyps by (auto simp: buf_inv_def other_half_def)
  then have "nleft = 0" "out = slice_at d n blk"
    using commit.hyps write_loop_full [of n "drop d blk" 100 e "[]" "[]"] i(4)
    by (simp_all add: slice_at_def)
  then have "race_inv (p\<lparr>sess := released n nleft (sess p), inflight := None, logged := logged p @ out\<rparr>)"
    using commit i npc_inv_released [OF i(1,6)]
    by (simp add: race_inv_def pending_def [of "sess p"] disk_part_def [of "sess p"])
  then show ?case by (simp add: released_def)
qed (simp_all add: race_inv_def split: option.splits prod.splits)

section \<open>Runs\<close>

definition race_start :: "race \<Rightarrow> bool" where
  "race_start p \<longleftrightarrow> session_inv (sess p) \<and> pending (sess p) = [] \<and> \<not> disk_io_in_progress (sess p)
     \<and> inflight p = None \<and> logged p = [] \<and> received p = [] \<and> npc p = Idle"

interpretation race: invariant_system race_start "race_step True" race_inv
proof unfold_locales
  show "race_inv p" if "race_start p" for p
    using that by (simp add: race_start_def race_inv_def)
qed (use race_step_inv in blast)

lemma race_inv_copying:
  assumes "race_inv p" "npc p = Copying buf d"
  shows "cur_buf (sess p) \<le> d \<and> d + length buf \<le> cur_buf (sess p) + mem_buf_len (sess p)"
  using assms by (auto simp: race_inv_def copy_ok_def)

definition sample_race :: race where
  "sample_race = \<lparr>sess = sample_session, inflight = None, logged = [], received = [], npc = Idle\<rparr>"

lemma sample_race_start: "race_start sample_race"
  by (simp add: race_start_def sample_race_def sample_session_inv)

lemma sample_race_run: "\<exists>p. (race_step True)\<^sup>*\<^sup>* sample_race p \<and> received p = [1, 2, 3] \<and> npc p = Copying [1, 2, 3] 0"
proof -
  let ?p1 = "sample_race\<lparr>npc := Setup [1, 2, 3], received := received sample_race @ [1, 2, 3]\<rparr>"
  let ?p2 = "?p1\<lparr>npc := Target [1, 2, 3]\<rparr>"
  let ?p3 = "?p2\<lparr>npc := Copying [1, 2, 3] (cur_buf (sess ?p2) + membuf_offset (sess ?p2))\<rparr>"
  have s: "\<not> time_out_need_flush_to_disk sample_session" "mem_buf_len sample_session = 65536"
    "membuf_offset sample_session = 0" "cur_buf sample_session = 0"
    by (simp_all add: sample_session_def get_new_session_def size_consts)
  have "race_step True sample_race ?p1"
    by (rule race_step.fits) (use sample_session_inv sample_session_read s in \<open>simp_all add: sample_race_def\<close>)
  moreover have "race_step True ?p1 ?p2"
    by (rule race_step.unguarded) (use s in \<open>simp_all add: sample_race_def\<close>)
  moreover have "race_step True ?p2 ?p3"
    by (rule race_step.target) simp
  ultimately have "(race_step True)\<^sup>*\<^sup>* sample_race ?p3" by (meson r_into_rtranclp rtranclp.rtrancl_into_rtrancl)
  then show ?thesis
    by (rule exI [of _ ?p3, OF conjI]) (use s in \<open>simp add: sample_race_def\<close>)
qed

text \<open>C1. While one session of logServer.c is live, the bytes received are the bytes
  written to the log, then those being written, then those pending in the two halves,
  then those that the network thread has in hand: none is lost, repeated or reordered,
  and a copy in progress stays inside its half. This holds in every interleaving of
  the default pass2write with the disk thread, where the unlocked test of the fill
  level, each critical region, the busy wait, and the computation of the target, the
  memcpy, the read and the store of membuf_offset outside the lock are separate steps
  (race_step); the rounds of recheck that enlarge the block are one step, and so is
  the whole check for a timeout. Assumed: memory is sequentially consistent,
  allocations above 128 KiB succeed, a write takes the whole request, and the disk
  thread does not exchange the halves for a timeout while the network thread is
  between its unlocked test and the end of its unlocked copy; without the last
  condition bytes are lost (LogRace.late_flush_loses_bytes).\<close>

theorem log_stream_integrity:
  assumes "race_start p0" "(race_step True)\<^sup>*\<^sup>* p0 p"
  shows "received p = logged p @ inflight_part (pipe.truncate p) @ pending (sess p) @ in_hand (npc p)
    \<and> (npc p = Copying buf d \<longrightarrow>
        cur_buf (sess p) \<le> d \<and> d + length buf \<le> cur_buf (sess p) + mem_buf_len (sess p))"
proof -
  have "race_inv p" by (rule race.reachable_inv [OF assms(2,1)])
  then show ?thesis using race_inv_copying by (auto simp: race_inv_def)
qed

theorem log_stream_integrity_witness:
  "\<exists>p. (race_step True)\<^sup>*\<^sup>* sample_race p \<and> npc p = Copying [1, 2, 3] 0
     \<and> logged p @ inflight_part (pipe.truncate p) @ pending (sess p) @ in_hand (npc p) = [1, 2, 3]"
proof -
  obtain p where p: "(race_step True)\<^sup>*\<^sup>* sample_race p" "received p = [1, 2, 3]" "npc p = Copying [1, 2, 3] 0"
    using sample_race_run by blast
  then show ?thesis
    using log_stream_integrity [OF sample_race_start p(1)] by metis
qed

section \<open>Without the grace period\<close>

lemma late_flush_loses_bytes:
  assumes inv: "race_inv p" "npc p = Bump buf" and exp: "scan_expired g (sess p)"
  shows "\<exists>q. (race_step False)\<^sup>*\<^sup>* p q \<and> npc q = Idle \<and> received q = received p \<and> logged q = logged p
    \<and> inflight q = None
    \<and> pending (sess q) = pending (sess p) @ slice_at (other_half (sess p)) (length buf) (the (buf1 (sess p)))"
proof -
  have e: "disk_buf (sess p) = None" "\<not> disk_io_in_progress (sess p)"
    using exp by (simp_all add: scan_expired_def)
  have c: "buf_inv (sess p)" "length buf \<le> mem_buf_len (sess p)"
    using inv e by (auto simp: race_inv_def copy_ok_def)
  have n: "inflight p = None"
    using inv(1) e(2) unfolding race_inv_def by blast
  let ?p1 = "p\<lparr>sess := (sess p)\<lparr>time_out_need_flush_to_disk := True\<rparr>\<rparr>"
  define s where "s = fst (scan_timeout (sess ?p1) zero_stat)"
  let ?p2 = "?p1\<lparr>sess := s\<rparr>"
  let ?p3 = "?p2\<lparr>npc := Store buf (membuf_offset (sess ?p2) + length buf)\<rparr>"
  let ?p4 = "?p3\<lparr>npc := Idle, sess := (sess ?p3)\<lparr>membuf_offset := membuf_offset (sess ?p2) + length buf\<rparr>\<rparr>"
  have s: "s = (switch_buffers ((sess p)\<lparr>time_out_need_flush_to_disk := True\<rparr>))\<lparr>time_out_need_flush_to_disk := False\<rparr>"
    using e by (simp add: s_def fst_scan_timeout)
  have "race_step False p ?p1" by (rule race_step.mark)
  moreover have "race_step False ?p1 ?p2" unfolding s_def by (rule race_step.flush) simp
  moreover have "race_step False ?p2 ?p3" by (rule race_step.load) (simp add: inv)
  moreover have "race_step False ?p3 ?p4" by (rule race_step.store) simp
  ultimately have run: "(race_step False)\<^sup>*\<^sup>* p ?p4" by (meson r_into_rtranclp rtranclp.rtrancl_into_rtrancl)
  have "pending (s\<lparr>membuf_offset := membuf_offset s + length buf\<rparr>)
      = pending (sess p) @ slice_at (other_half (sess p)) (length buf) (the (buf1 (sess p)))"
    using e c by (auto simp: s switch_buffers_def Let_def pending_def disk_part_def mem_part_def other_half_def buf_inv_def)
  with run n show ?thesis
    by (intro exI [of _ ?p4]) (simp add: s)
qed

text \<open>One byte collected four minutes ago, and a read of three being appended to it.\<close>

definition late_race :: race where
  "late_race = \<lparr>sess = sample_session\<lparr>buf1 := Some ([9, 1, 2, 3] @ replicate 131068 0), membuf_offset := 1\<rparr>,
     inflight = None, logged = [], received = [9, 1, 2, 3], npc = Bump [1, 2, 3]\<rparr>"

lemma late_race_facts:
  "race_inv late_race" "pending (sess late_race) = [9]"
  "scan_expired ((init_gstat (mcfg default_main) 0 '''')\<lparr>ticks := 300\<rparr>) (sess late_race)"
  "slice_at (other_half (sess late_race)) 3 (the (buf1 (sess late_race))) = [0, 0, 0]"
proof -
  have s: "mem_buf_len sample_session = 65536" "cur_buf sample_session = 0" "buf2 sample_session = 65536"
    "disk_buf sample_session = None" "disk_write_buf_len sample_session = 0"
    "last_disk_io_write_tick sample_session = 0" "\<not> time_out_need_flush_to_disk sample_session"
    "flush_duration sample_session = 281"
    by (simp_all add: sample_session_def get_new_session_def size_consts c_mod_def c_div_def
        FLUSH_DURATION_DEFAULT_def FLUSH_DURATION_VARIABLE_def)
  show p: "pending (sess late_race) = [9]"
    by (simp add: late_race_def pending_def disk_part_def mem_part_def slice_at_def s)
  have "buf_inv (sess late_race)"
    by (simp add: late_race_def buf_inv_def s sample_session_inv other_half_def)
  moreover have "size_inv (sess late_race)"
    by (simp add: late_race_def size_inv_def s size_consts sample_session_read)
  ultimately have "copy_ok (sess late_race) (Suc (Suc (Suc 0)))"
    by (simp add: copy_ok_def) (simp add: late_race_def s sample_session_read)
  moreover have "holds (sess late_race) [1, 2, 3]"
    by (simp add: holds_def late_race_def overwrite_def s)
  ultimately show inv: "race_inv late_race"
    unfolding race_inv_def using p
    by (simp add: late_race_def sample_session_inv)
  show "scan_expired ((init_gstat (mcfg default_main) 0 '''')\<lparr>ticks := 300\<rparr>) (sess late_race)"
    by (simp add: scan_expired_def late_race_def s sample_session_inv)
  show "slice_at (other_half (sess late_race)) 3 (the (buf1 (sess late_race))) = [0, 0, 0]"
    by (simp add: late_race_def other_half_def s slice_at_def numeral_3_eq_3)
qed

theorem late_flush_loses_bytes_witness:
  "\<exists>q. (race_step False)\<^sup>*\<^sup>* late_race q \<and> npc q = Idle \<and> received q = [9, 1, 2, 3]
     \<and> logged q @ pending (sess q) = [9, 0, 0, 0]"
proof -
  have n: "npc late_race = Bump [1, 2, 3]" "length [1 :: u8, 2, 3] = 3" by (simp_all add: late_race_def)
  obtain q where "(race_step False)\<^sup>*\<^sup>* late_race q" "npc q = Idle" "received q = received late_race"
    "logged q = logged late_race" "pending (sess q) = pending (sess late_race) @
      slice_at (other_half (sess late_race)) 3 (the (buf1 (sess late_race)))"
    using late_flush_loses_bytes [OF late_race_facts(1) n(1) late_race_facts(3), unfolded n(2)] by blast
  then show ?thesis
    using late_race_facts by (intro exI [of _ q]) (simp add: late_race_def)
qed

end
