(* ===== verification/LogCollect.thy ===== *)
theory LogCollect
  imports LogServer
begin

text \<open>
  src/logCollectSrv.c, the later version of the log server. It shares the session
  buffers, the write loop and the table with src/logServer.c; this theory models the
  functions whose code differs: the opening and rotation of log files, the size check,
  the part of the disk thread's scan that calls them, and the size option of the
  command line.
\<close>

section \<open>The functions shared with the log server\<close>

text \<open>
  The text of these functions is the same in both files, line by line; the collector's
  copies are named here so that the steps below are made of the collector's own code.
\<close>

definition lc_log_fileName :: "config \<Rightarrow> gstatistic \<Rightarrow> u32 \<Rightarrow> string option" where
  "lc_log_fileName = log_fileName"

definition lc_get_free_conn_slot :: "(nat \<Rightarrow> session option) \<Rightarrow> int" where
  "lc_get_free_conn_slot = get_free_conn_slot"

definition lc_get_new_session :: "bool \<Rightarrow> bool \<Rightarrow> u64 \<Rightarrow> int \<Rightarrow> u32 \<Rightarrow> u32 \<Rightarrow> int \<Rightarrow> nat \<Rightarrow> session option" where
  "lc_get_new_session = get_new_session"

definition lc_free_session_step1 :: "int \<Rightarrow> session \<Rightarrow> int \<times> session" where
  "lc_free_session_step1 = free_session_step1"

definition lc_free_session_step2 :: "session \<Rightarrow> session" where
  "lc_free_session_step2 = free_session_step2"

definition lc_free_session_res :: "session \<Rightarrow> fs \<Rightarrow> session \<times> fs" where
  "lc_free_session_res = free_session_res"

definition lc_free_session_final :: "session \<Rightarrow> server \<Rightarrow> server" where
  "lc_free_session_final = free_session_final"

definition lc_del_session :: "int \<Rightarrow> session \<Rightarrow> bool \<Rightarrow> fs \<Rightarrow> int \<times> session \<times> bool \<times> fs" where
  "lc_del_session = del_session"

definition lc_accept_client :: "int \<Rightarrow> u32 \<Rightarrow> bool \<Rightarrow> bool \<Rightarrow> int \<Rightarrow> server \<Rightarrow> int \<times> server" where
  "lc_accept_client = accept_client"

definition lc_enlarge_session_buf :: "u64 \<Rightarrow> (nat \<Rightarrow> bool) \<Rightarrow> session \<Rightarrow> nat \<Rightarrow> session outcome" where
  "lc_enlarge_session_buf = enlarge_session_buf"

definition lc_pass2write :: "u64 \<Rightarrow> (nat \<Rightarrow> bool) \<Rightarrow> session \<Rightarrow> bytes \<Rightarrow> session outcome" where
  "lc_pass2write = pass2write"

definition lc_drain_client :: "(nat \<Rightarrow> bool) \<Rightarrow> int \<Rightarrow> read_result \<Rightarrow> session \<Rightarrow> gstatistic \<Rightarrow> session outcome \<times> gstatistic" where
  "lc_drain_client = drain_client"

definition lc_process_event :: "(nat \<Rightarrow> bool) \<Rightarrow> int \<Rightarrow> u32 \<Rightarrow> read_result \<Rightarrow> session \<Rightarrow> gstatistic \<Rightarrow> session outcome \<times> gstatistic" where
  "lc_process_event = process_event"

definition lc_write2disk :: "(int \<times> bool) list \<Rightarrow> session \<Rightarrow> gstatistic \<Rightarrow> fs \<Rightarrow> (int \<times> session \<times> gstatistic \<times> fs) option" where
  "lc_write2disk = write2disk"

definition lc_scan_post :: "int \<Rightarrow> session \<Rightarrow> gstatistic \<Rightarrow> scan_stat \<Rightarrow> fs \<Rightarrow> scan \<times> gstatistic \<times> scan_stat \<times> fs" where
  "lc_scan_post = scan_post"

definition lc_publish_stat :: "scan_stat \<Rightarrow> gstatistic \<Rightarrow> gstatistic" where
  "lc_publish_stat = publish_stat"

definition lc_periodic :: "config \<Rightarrow> int \<Rightarrow> string \<Rightarrow> gstatistic \<Rightarrow> gstatistic" where
  "lc_periodic = periodic"

definition lc_init_gstat :: "config \<Rightarrow> int \<Rightarrow> string \<Rightarrow> gstatistic" where
  "lc_init_gstat = init_gstat"

lemmas lc_shared [simp] = lc_log_fileName_def lc_get_free_conn_slot_def lc_get_new_session_def
  lc_free_session_step1_def lc_free_session_step2_def lc_free_session_res_def lc_free_session_final_def
  lc_del_session_def lc_accept_client_def lc_enlarge_session_buf_def lc_pass2write_def lc_drain_client_def
  lc_process_event_def lc_write2disk_def lc_scan_post_def lc_publish_stat_def lc_periodic_def lc_init_gstat_def

section \<open>Opening and rotation\<close>

text \<open>
  \<open>session_set_on_disk_log_filename\<close>: the file that is too large is looked up through
  the descriptor just opened, renamed, and closed afterwards.
\<close>

definition lc_session_set_on_disk_log_filename ::
  "config \<Rightarrow> gstatistic \<Rightarrow> open_env \<Rightarrow> session \<Rightarrow> fs \<Rightarrow> (int \<times> session \<times> fs) option" where
  "lc_session_set_on_disk_log_filename cf g e s f =
     (case lc_log_fileName cf g (ip s) of None \<Rightarrow> None
      | Some fileName \<Rightarrow>
        Some (if \<not> mkpath_ok e then (-1, s, f)
        else if open_fd e < 0 then (-1, s, f)
        else
          (let fd = open_fd e;
               f = fs_open fileName True fd f;
               size = length (the (files f fileName));
               s = s\<lparr>rough_file_offset := of_nat size\<rparr> in
           if rough_file_offset s > max_file_size cf then
             (let srcf = (case fdt f fd of None \<Rightarrow> [] | Some d \<Rightarrow> o_path d);
                  dstf = srcf @ ''.last'';
                  f = fs_rename srcf dstf (fs_remove dstf f);
                  f = fs_close fd f in
              if reopen_fd e < 0 then (-1, s, f)
              else
                (let fd = reopen_fd e;
                     f = fs_open fileName False fd f;
                     s = s\<lparr>rough_file_offset := 0\<rparr>;
                     f = (if on_disk_fd s \<ge> 0 then fs_close (on_disk_fd s) f else f) in
                 (fd, s\<lparr>on_disk_fd := fd\<rparr>, f)))
           else
             (let f = (if on_disk_fd s \<ge> 0 then fs_close (on_disk_fd s) f else f) in
              (fd, s\<lparr>on_disk_fd := fd\<rparr>, f)))))"

text \<open>
  \<open>handle_filesize_exceeded\<close>: here 0 also means that the file is small enough.
\<close>

definition lc_handle_filesize_exceeded :: "config \<Rightarrow> session \<Rightarrow> fs \<Rightarrow> int \<times> session \<times> fs" where
  "lc_handle_filesize_exceeded cf s f =
     (if on_disk_fd s < 0 then (1, s, f)
      else if rough_file_offset s < max_file_size cf then (0, s, f)
      else case fdt f (on_disk_fd s) of
        None \<Rightarrow> (2, s, f)
      | Some d \<Rightarrow>
          (let srcf = o_path d;
               dstf = srcf @ ''.last'';
               f = fs_close (on_disk_fd s) f;
               s = s\<lparr>on_disk_fd := -1\<rparr>;
               f = fs_rename srcf dstf (fs_remove dstf f) in
           (0, s\<lparr>rough_file_offset := 0\<rparr>, f)))"

section \<open>The disk thread, one session\<close>

definition lc_scan_open ::
  "config \<Rightarrow> open_env \<Rightarrow> session \<Rightarrow> gstatistic \<Rightarrow> scan_stat \<Rightarrow> fs
     \<Rightarrow> scan \<times> gstatistic \<times> scan_stat \<times> fs" where
  "lc_scan_open cf e s g st f =
     (let (_, s, f) = lc_handle_filesize_exceeded cf s f in
      if on_disk_fd s < 0 \<or> file_seq s \<noteq> cur_seq g then
        (case lc_session_set_on_disk_log_filename cf g e (s\<lparr>file_seq := cur_seq g\<rparr>) f of
           None \<Rightarrow> (Scan_trap, g, st, f)
         | Some (_, s, f) \<Rightarrow> (Scan_write s, g, st, f))
      else (Scan_write s, g, st, f))"

definition lc_scan_pre ::
  "config \<Rightarrow> nat \<Rightarrow> int \<Rightarrow> open_env \<Rightarrow> session \<Rightarrow> gstatistic \<Rightarrow> scan_stat \<Rightarrow> fs
     \<Rightarrow> scan \<times> gstatistic \<times> scan_stat \<times> fs" where
  "lc_scan_pre cf thread_idx epoll_rc e s g st f =
     (if scan_force_disconnect cf g s then
        (let (rc, s, final, f) = lc_del_session epoll_rc s True f in
         (if final then Scan_free s else Scan_next s, g, st, f))
      else if in_delete_stage s = 20 \<and> \<not> need_delay_free s then
        (let (s, f) = lc_free_session_res s f in (Scan_free s, g, st, f))
      else
        (let g = g\<lparr>disk_io_threads_busy_loops := disk_io_threads_busy_loops g + 1\<rparr>;
             st = st\<lparr>stat_session_alive := stat_session_alive st + 1\<rparr>;
             (s, f) = (if on_disk_fd s \<ge> 0 \<and> file_seq s \<noteq> cur_seq g
                       then (s\<lparr>on_disk_fd := -1\<rparr>, fs_close (on_disk_fd s) f) else (s, f));
             (s, st) = scan_timeout s st in
         if scan_expired g s then (Scan_next (s\<lparr>time_out_need_flush_to_disk := True\<rparr>), g, st, f)
         else if disk_buf s = None then (Scan_next s, g, st, f)
         else if disk_write_buf_len s < 1 then (Scan_next s, g, st, f)
         else if threadidx s \<noteq> thread_idx then (Scan_trap, g, st, f)
         else lc_scan_open cf e s g st f))"

definition lc_scan_session ::
  "config \<Rightarrow> nat \<Rightarrow> int \<Rightarrow> open_env \<Rightarrow> (int \<times> bool) list \<Rightarrow> session \<Rightarrow> gstatistic \<Rightarrow> scan_stat \<Rightarrow> fs
     \<Rightarrow> (scan \<times> gstatistic \<times> scan_stat \<times> fs) option" where
  "lc_scan_session cf thread_idx epoll_rc e rcs s g st f =
     (case lc_scan_pre cf thread_idx epoll_rc e s g st f of
        (Scan_write s, g, st, f) \<Rightarrow>
          (case lc_write2disk rcs s g f of
             None \<Rightarrow> None
           | Some (rc, s, g, f) \<Rightarrow> Some (lc_scan_post rc s g st f))
      | r \<Rightarrow> Some r)"

section \<open>The command line\<close>

text \<open>The options of \<open>main\<close>; \<open>-s\<close> counts mebibytes here, the default limit is 128 of them.\<close>

definition lc_default_main :: main_state where
  "lc_default_main = default_main\<lparr>mcfg := (mcfg default_main)\<lparr>max_file_size := 128 * 2 ^ 20\<rparr>\<rparr>"

definition lc_main_option :: "char \<Rightarrow> string \<Rightarrow> main_state \<Rightarrow> main_state option" where
  "lc_main_option opt optarg m =
     (if opt = CHR ''s'' then Some (m\<lparr>mcfg := (mcfg m)\<lparr>max_file_size := of_int (atoi optarg) * 2 ^ 20\<rparr>\<rparr>)
      else main_option opt optarg m)"

text \<open>The option loop and the checks after it; \<open>addr_ok\<close> says that \<open>inet_addr\<close> succeeded.\<close>

fun lc_main_options :: "(char \<times> string) list \<Rightarrow> main_state \<Rightarrow> main_state option" where
  "lc_main_options [] m = Some m"
| "lc_main_options ((opt, optarg) # os) m = Option.bind (lc_main_option opt optarg m) (lc_main_options os)"

definition lc_main_config :: "(char \<times> string) list \<Rightarrow> bool \<Rightarrow> main_state option" where
  "lc_main_config os addr_ok = Option.bind (lc_main_options os lc_default_main) (main_checks addr_ok)"

section \<open>The collector\<close>

text \<open>The scan of the table, with the collector's scan of a session.\<close>

definition lc_disk_slot ::
  "nat \<Rightarrow> nat \<Rightarrow> scan_env \<Rightarrow> server \<times> scan_stat \<Rightarrow> (server \<times> scan_stat) option" where
  "lc_disk_slot t i e = (\<lambda>(S, st).
     case slots S t i of
       None \<Rightarrow> Some (S, st)
     | Some s \<Rightarrow>
         scan_result t i
           (lc_scan_session (cfg S) t (env_epoll_rc e) (env_open e) (env_write e) s (gstats S) st (sfs S)) S)"

fun lc_disk_slots ::
  "(nat \<times> nat) list \<Rightarrow> (nat \<Rightarrow> nat \<Rightarrow> scan_env) \<Rightarrow> server \<times> scan_stat \<Rightarrow> (server \<times> scan_stat) option" where
  "lc_disk_slots [] env X = Some X"
| "lc_disk_slots ((t, i) # ps) env X = Option.bind (lc_disk_slot t i (env t i) X) (lc_disk_slots ps env)"

definition lc_disk_write_round ::
  "(nat \<Rightarrow> nat \<Rightarrow> scan_env) \<Rightarrow> server \<times> scan_stat \<Rightarrow> (server \<times> scan_stat) option" where
  "lc_disk_write_round env = (\<lambda>(S, st).
     lc_disk_slots (List.product [0..<nat (nWorkers (cfg S))] [0..<MAX_CONN_PER_THREAD]) env
       (S\<lparr>gstats := lc_publish_stat st (gstats S)\<rparr>, zero_stat))"

inductive lc_server_step :: "server \<Rightarrow> server \<Rightarrow> bool" where
  accept: "lc_accept_client sfd addr a b rc S = (r, S') \<Longrightarrow> lc_server_step S S'"
| event: "slots S t i = Some s \<Longrightarrow> lc_process_event ok rc ev r s (gstats S) = (Return c s', g) \<Longrightarrow>
    lc_server_step S (S\<lparr>slots := (slots S)(t := (slots S t)(i \<mapsto> s')), gstats := g\<rparr>)"
| disk: "lc_disk_slot t i e (S, st) = Some (S', st') \<Longrightarrow> lc_server_step S S'"
| tick: "lc_server_step S (S\<lparr>gstats := lc_periodic (cfg S) now date (gstats S)\<rparr>)"

definition lc_init_server :: "config \<Rightarrow> int \<Rightarrow> string \<Rightarrow> fs \<Rightarrow> server" where
  "lc_init_server c now date f =
     \<lparr>cfg = c, gstats = lc_init_gstat c now date, slots = (\<lambda>_ _. None), curr_nr_conn = (\<lambda>_. 0), sfs = f\<rparr>"

section \<open>The table of the collector\<close>

lemma lc_handle_filesize_ids: "lc_handle_filesize_exceeded c s f = (r, s', f') \<Longrightarrow> ids s' = ids s"
  by (auto simp: lc_handle_filesize_exceeded_def ids_def Let_def split: if_splits option.splits)

lemma lc_set_filename_ids:
  "lc_session_set_on_disk_log_filename c g e s f = Some (r, s', f') \<Longrightarrow> ids s' = ids s"
  by (auto simp: lc_session_set_on_disk_log_filename_def ids_def Let_def split: if_splits option.splits)

lemma lc_scan_open_ids:
  assumes "lc_scan_open c e s g st f = (r, g', st', f')" "scan_session_of r = Some s'"
  shows "ids s' = ids s"
proof -
  obtain x s1 f1 where h: "lc_handle_filesize_exceeded c s f = (x, s1, f1)" by (metis prod_cases3)
  have "ids (s1\<lparr>file_seq := n\<rparr>) = ids s1" for n by (simp add: ids_def)
  then show ?thesis
    using assms h lc_handle_filesize_ids [OF h] unfolding lc_scan_open_def Let_def
    by (auto dest!: lc_set_filename_ids split: if_splits option.splits)
qed

lemma lc_scan_pre_ids:
  assumes "lc_scan_pre c t rc e s g st f = (r, g', st', f')" "scan_session_of r = Some s'"
  shows "ids s' = ids s"
  using assms unfolding lc_scan_pre_def Let_def
  by (auto dest!: del_session_ids free_session_res_ids scan_timeout_ids lc_scan_open_ids
      split: if_splits prod.splits)

lemma lc_scan_session_ids:
  assumes "lc_scan_session c t rc e rcs s g st f = Some (r, g', st', f')" "scan_session_of r = Some s'"
  shows "ids s' = ids s"
proof -
  obtain r1 g1 st1 f1 where pre: "lc_scan_pre c t rc e s g st f = (r1, g1, st1, f1)"
    by (metis prod_cases4)
  show ?thesis
  proof (cases r1)
    case (Scan_write s1)
    with assms pre obtain rc2 s2 g2 f2 where w: "write2disk rcs s1 g1 f1 = Some (rc2, s2, g2, f2)"
      and post: "scan_post rc2 s2 g2 st1 f2 = (r, g', st', f')"
      by (auto simp: lc_scan_session_def lc_write2disk_def lc_scan_post_def split: option.splits)
    have "ids s' = ids s2"
      using scan_post_ids [of rc2 s2 g2 st1 f2 s'] post assms(2) by simp
    also have "\<dots> = ids s1" by (rule write2disk_ids [OF w])
    also have "\<dots> = ids s" using lc_scan_pre_ids [OF pre] Scan_write by simp
    finally show ?thesis .
  qed (use assms pre lc_scan_pre_ids [OF pre] in \<open>auto simp: lc_scan_session_def\<close>)
qed

lemma lc_disk_slot_table_inv:
  assumes inv: "table_inv S" and disk: "lc_disk_slot t i e (S, st) = Some (S', st')"
  shows "table_inv S'"
proof (cases "slots S t i")
  case (Some s)
  then show ?thesis
    using disk scan_result_table_inv [OF inv Some lc_scan_session_ids] by (simp add: lc_disk_slot_def)
qed (use assms in \<open>simp add: lc_disk_slot_def\<close>)

lemma lc_disk_slot_frame:
  assumes "lc_disk_slot t i e (S, st) = Some (S', st')"
  shows "cfg S' = cfg S" "slots S' u j \<noteq> None \<Longrightarrow> slots S u j \<noteq> None"
  using assms scan_result_frame by (auto simp: lc_disk_slot_def split: option.splits)

text \<open>Every step but the disk thread's is one of the log server.\<close>

lemma lc_server_step_cases:
  assumes "lc_server_step S S'"
  obtains "server_step S S'" | t i e st st' where "lc_disk_slot t i e (S, st) = Some (S', st')"
  using assms
  by cases (unfold lc_shared, auto intro: server_step.intros)

interpretation collector: invariant_system
  "\<lambda>S. server_start S \<and> 0 < nWorkers (cfg S)" lc_server_step "\<lambda>S. table_inv S \<and> worker_inv S"
proof unfold_locales
  show "table_inv S \<and> worker_inv S" if "server_start S \<and> 0 < nWorkers (cfg S)" for S
    using that server.start_inv worker.start_inv by blast
  show "table_inv S' \<and> worker_inv S'" if "lc_server_step S S'" "table_inv S \<and> worker_inv S" for S S'
    using that(1)
  proof (cases rule: lc_server_step_cases)
    case 1
    then show ?thesis using that(2) server.step_inv worker.step_inv by blast
  next
    case (2 t i e st st')
    have "worker_inv S'" using that(2) lc_disk_slot_frame [OF 2] unfolding worker_inv_def by metis
    then show ?thesis using that(2) lc_disk_slot_table_inv [OF _ 2] by blast
  qed
qed

theorem collector_table_consistent:
  assumes "lc_server_step\<^sup>*\<^sup>* (lc_init_server c now date f) S" "0 < nWorkers c"
  shows "(\<forall>t i s. slots S t i = Some s \<longrightarrow> i < MAX_CONN_PER_THREAD \<and> threadidx s = t \<and> slot_idx s = int i
      \<and> t < nat (nWorkers (cfg S)))
    \<and> curr_nr_conn S t = int (card {i. slots S t i \<noteq> None})"
proof -
  have "server_start (lc_init_server c now date f) \<and> 0 < nWorkers (cfg (lc_init_server c now date f))"
    using assms(2) by (simp add: server_start_def lc_init_server_def)
  from collector.reachable_inv [OF assms(1) this] show ?thesis
    by (auto simp: table_inv_def worker_inv_def)
qed

theorem collector_table_consistent_witness:
  "\<exists>S. lc_server_step\<^sup>*\<^sup>* sample_server S \<and> slots S 0 0 \<noteq> None \<and> 0 < nat (nWorkers (cfg S)) \<and> curr_nr_conn S 0 \<noteq> 0"
proof -
  obtain r S where acc: "accept_client 7 0x0a000001 True True 0 sample_server = (r, S)" by fastforce
  have t: "nat (c_mod (uint (0x0a000001 AND 0xFF :: u32)) (nWorkers (cfg sample_server))) = 0"
    by (simp add: sample_server_def init_server_def sample_config_def default_main_def c_mod_def c_div_def)
  have slot: "{i. slots S 0 i \<noteq> None} = {0}"
    using acc unfolding accept_client_def Let_def t
    by (auto simp: sample_server_def init_server_def get_new_session_def free_slot_empty split: if_splits)
  have run: "lc_server_step\<^sup>*\<^sup>* sample_server S"
    using acc by (intro r_into_rtranclp lc_server_step.accept) simp
  have eq: "sample_server = lc_init_server sample_config 0 ''1970-01-01'' \<lparr>files = (\<lambda>_. None), fdt = (\<lambda>_. None)\<rparr>"
    by (simp add: sample_server_def init_server_def lc_init_server_def lc_shared)
  have "0 < nWorkers sample_config" by (simp add: sample_config_def default_main_def)
  then have "curr_nr_conn S 0 = int (card {i. slots S 0 i \<noteq> None})" "\<forall>s. slots S 0 0 = Some s \<longrightarrow> 0 < nat (nWorkers (cfg S))"
    using collector_table_consistent [OF run [unfolded eq]] by blast+
  with run slot show ?thesis
    by (intro exI [of _ S]) auto
qed

section \<open>Rotation on open\<close>

text \<open>The store after the rotation of \<open>path\<close>.\<close>

lemma files_rotate:
  assumes "files f path = Some c"
  shows "files (fs_rename path (path @ ''.last'') (fs_remove (path @ ''.last'') f))
    = (files f)(path := None, path @ ''.last'' \<mapsto> c)"
proof -
  have "files (fs_remove (path @ ''.last'') f) path = Some c" using assms by simp
  from files_fs_rename [OF this, of "path @ ''.last''"] show ?thesis
    by (auto simp: fun_upd_twist)
qed

lemma lc_set_filename_rotated:
  assumes "on_disk_fd s = -1" "log_fileName cf g (ip s) = Some path" "files f path = Some c"
    and "max_file_size cf < of_nat (length c)"
    and "mkpath_ok e" "0 \<le> open_fd e" "0 \<le> reopen_fd e"
  shows "\<exists>f'. lc_session_set_on_disk_log_filename cf g e s f
      = Some (reopen_fd e, s\<lparr>rough_file_offset := 0, on_disk_fd := reopen_fd e\<rparr>, f')
    \<and> files f' = (files f)(path \<mapsto> [], path @ ''.last'' \<mapsto> c)
    \<and> fdt f' (reopen_fd e) = Some \<lparr>o_path = path, o_append = False, o_pos = 0\<rparr>
    \<and> (open_fd e \<noteq> reopen_fd e \<longrightarrow> fdt f' (open_fd e) = None)"
proof -
  let ?f1 = "fs_open path True (open_fd e) f"
  let ?f2 = "fs_close (open_fd e) (fs_rename path (path @ ''.last'') (fs_remove (path @ ''.last'') ?f1))"
  let ?f3 = "fs_open path False (reopen_fd e) ?f2"
  have f1: "files ?f1 = files f" "fdt ?f1 (open_fd e) = Some \<lparr>o_path = path, o_append = True, o_pos = 0\<rparr>"
    using assms(3) by (auto simp: fs_open_def)
  have "files ?f2 = (files f)(path := None, path @ ''.last'' \<mapsto> c)"
    using files_rotate [of ?f1 path c] f1 assms(3) by simp
  then have "files ?f3 = (files f)(path \<mapsto> [], path @ ''.last'' \<mapsto> c)"
    by (auto simp: files_fs_open fun_upd_twist)
  moreover have "fdt ?f3 (reopen_fd e) = Some \<lparr>o_path = path, o_append = False, o_pos = 0\<rparr>"
    "open_fd e \<noteq> reopen_fd e \<Longrightarrow> fdt ?f3 (open_fd e) = None"
    by (simp_all add: fs_open_def fs_close_def)
  moreover have "lc_session_set_on_disk_log_filename cf g e s f =
      Some (reopen_fd e, s\<lparr>rough_file_offset := 0, on_disk_fd := reopen_fd e\<rparr>, ?f3)"
    using assms f1 by (simp add: lc_session_set_on_disk_log_filename_def Let_def)
  ultimately show ?thesis by blast
qed

theorem lc_set_filename_rotates:
  assumes "on_disk_fd s = -1" "log_fileName cf g (ip s) = Some path" "files f path = Some c"
    and "max_file_size cf < of_nat (length c)"
    and "mkpath_ok e" "0 \<le> open_fd e" "0 \<le> reopen_fd e"
  shows "\<exists>s' f'. lc_session_set_on_disk_log_filename cf g e s f = Some (reopen_fd e, s', f')
    \<and> files f' = (files f)(path \<mapsto> [], path @ ''.last'' \<mapsto> c) \<and> on_disk_fd s' = reopen_fd e
    \<and> rough_file_offset s' = 0 \<and> (open_fd e \<noteq> reopen_fd e \<longrightarrow> fdt f' (open_fd e) = None)
    \<and> files (fs_write (on_disk_fd s') bs f') path = Some bs"
  using lc_set_filename_rotated [OF assms] by (auto simp: fs_write_def put_at_def)

theorem lc_set_filename_rotates_witness:
  "\<exists>s' f'. lc_session_set_on_disk_log_filename disk_config disk_gstat disk_env sample_session disk_fs = Some (9, s', f')
     \<and> files f' (disk_path @ ''.last'') = Some [1, 2] \<and> files (fs_write (on_disk_fd s') [3] f') disk_path = Some [3]"
proof -
  have "on_disk_fd sample_session = -1" "log_fileName disk_config disk_gstat (ip sample_session) = Some disk_path"
    "files disk_fs disk_path = Some [1, 2]"
    by (simp_all add: sample_session_fields disk_path_name disk_fs_def)
  from lc_set_filename_rotates [OF this, of disk_env "[3]"] show ?thesis
    by (auto simp: disk_config_def disk_env_def)
qed

text \<open>
  The scan of a session with a submitted half whose log file is too large: the old
  content moves to \<open>.last\<close> and the new file holds exactly the half.
\<close>

theorem lc_scan_rotates:
  assumes inv: "session_inv s" and "\<not> disk_io_in_progress s" "disk_buf s = Some d" "0 < disk_write_buf_len s"
    and "\<not> time_out_need_flush_to_disk s" "\<not> scan_force_disconnect cf g s" "in_delete_stage s \<noteq> 20"
    and "\<not> need_delay_free s" "threadidx s = t"
    and open_args: "on_disk_fd s = -1" "log_fileName cf g (ip s) = Some path" "files f path = Some c"
      "max_file_size cf < of_nat (length c)" "mkpath_ok e" "0 \<le> open_fd e" "0 \<le> reopen_fd e"
  shows "\<exists>s' g' st' f'. lc_scan_session cf t rc e [(int (disk_write_buf_len s), False)] s g st f
      = Some (Scan_next s', g', st', f')
    \<and> files f' = (files f)(path \<mapsto> disk_part s, path @ ''.last'' \<mapsto> c)
    \<and> disk_buf s' = None \<and> pending s = disk_part s @ pending s'
    \<and> disk_io_bytes g' t = disk_io_bytes g t + of_nat (disk_write_buf_len s)"
proof -
  let ?n = "disk_write_buf_len s"
  define g1 where "g1 = g\<lparr>disk_io_threads_busy_loops := disk_io_threads_busy_loops g + 1\<rparr>"
  define s1 where "s1 = s\<lparr>file_seq := cur_seq g1\<rparr>"
  define s2 where "s2 = s1\<lparr>rough_file_offset := 0, on_disk_fd := reopen_fd e\<rparr>"
  have name: "log_fileName cf g1 (ip s1) = Some path"
    using open_args(2) by (simp add: log_fileName_def g1_def s1_def split: if_splits)
  obtain f2 where f2: "lc_session_set_on_disk_log_filename cf g1 e s1 f = Some (reopen_fd e, s2, f2)"
    "files f2 = (files f)(path \<mapsto> [], path @ ''.last'' \<mapsto> c)"
    "fdt f2 (reopen_fd e) = Some \<lparr>o_path = path, o_append = False, o_pos = 0\<rparr>"
    using lc_set_filename_rotated [of s1 cf g1 path f c e] open_args name
    by (auto simp: s1_def s2_def)
  let ?st = "st\<lparr>stat_session_alive := stat_session_alive st + 1\<rparr>"
  have "lc_scan_open cf e s g1 ?st f = (Scan_write s2, g1, ?st, f2)"
    using open_args(1) f2(1)
    by (simp add: lc_scan_open_def lc_handle_filesize_exceeded_def s1_def)
  moreover have "lc_scan_pre cf t rc e s g st f = lc_scan_open cf e s g1 ?st f"
    using assms(3-9) open_args(1)
    by (simp add: lc_scan_pre_def scan_timeout_def scan_expired_def Let_def g1_def)
  ultimately have pre: "lc_scan_pre cf t rc e s g st f = (Scan_write s2, g1, ?st, f2)" by simp
  obtain blk where blk: "buf1 s = Some blk" using inv by (auto simp: session_inv_def buf_inv_def)
  have "d + ?n \<le> length blk"
    using disk_half_in_block [of s d] inv assms(3) blk by (simp add: session_inv_def)
  then have w: "write2disk [(int ?n, False)] s2 g1 f2 =
      Some (int ?n, released ?n 0 (claimed s2), g1, fs_write (reopen_fd e) (disk_part s) f2)"
    using write2disk_eq [of s2 d blk False g1 f2] assms blk
    by (simp add: s2_def s1_def disk_part_def)
  have "files (fs_write (reopen_fd e) (disk_part s) f2) = (files f)(path \<mapsto> disk_part s, path @ ''.last'' \<mapsto> c)"
    using f2 by (auto simp: fs_write_def put_at_def)
  moreover have "pending (released ?n 0 (claimed s2)\<lparr>last_disk_io_write_tick := ticks g1\<rparr>) = mem_part s"
    by (simp add: pending_def disk_part_def mem_part_def s2_def s1_def)
  ultimately show ?thesis
    using assms(4,8,9) pre w
    by (simp add: lc_scan_session_def scan_post_def Let_def s2_def s1_def g1_def pending_def [of s])
qed

theorem lc_scan_rotates_witness:
  "\<exists>s' g' st' f'. lc_scan_session disk_config 0 0 disk_env [(2, False)] (half_session\<lparr>on_disk_fd := -1\<rparr>)
       disk_gstat disk_stat disk_fs = Some (Scan_next s', g', st', f')
     \<and> files f' disk_path = Some [0, 0] \<and> files f' (disk_path @ ''.last'') = Some [1, 2]"
proof -
  let ?s = "half_session\<lparr>on_disk_fd := -1\<rparr>"
  have inv: "session_inv ?s"
    by (simp add: half_session_def session_inv_def buf_inv_def size_inv_def room_inv_def other_half_def
        sample_session_fields size_consts)
  have part: "disk_part ?s = [0, 0]"
    by (simp add: disk_part_def half_session_def sample_session_fields slice_at_def size_consts numeral_2_eq_2)
  have "log_fileName disk_config disk_gstat (ip ?s) = Some disk_path" "files disk_fs disk_path = Some [1, 2]"
    by (simp_all add: half_session_def sample_session_fields disk_path_name disk_fs_def)
  from lc_scan_rotates [OF inv _ _ _ _ _ _ _ _ _ this, of "DEFAULT_DATA_BLOCK_SIZE" 0 disk_env 0 disk_stat]
  show ?thesis
    unfolding part
    by (fastforce simp: half_session_def sample_session_fields sample_session_def get_new_session_def
        scan_force_disconnect_def disk_config_def disk_env_def)
qed

end
