(* ===== verification/LogFixed.thy ===== *)
theory LogFixed
  imports LogDisk
begin

text \<open>
  The build of src/logServer.c (and src/logCollectSrv.c) with \<open>FIX_LOG_FILE\<close>: the log
  file holds the last record only. A record starts with \<open>top\<close> and ends with three line
  feeds; \<open>pass2write\<close> collects it from the reads, and \<open>write2disk\<close> empties the file before
  it writes.
\<close>

section \<open>Collecting a record\<close>

definition leading_idf :: bytes where "leading_idf = [0x74, 0x6f, 0x70]"

definition has_start :: "bytes \<Rightarrow> bool" where
  "has_start buf \<longleftrightarrow> take 3 buf = leading_idf"

definition has_end :: "bytes \<Rightarrow> bool" where
  "has_end buf \<longleftrightarrow> buf ! (length buf - 1) = 0x0A \<and> buf ! (length buf - 2) = 0x0A \<and> buf ! (length buf - 3) = 0x0A"

text \<open>\<open>membuf_offset = 0\<close> and a zero byte at \<open>cur_buf\<close>.\<close>

definition discard :: "int \<Rightarrow> session \<Rightarrow> session outcome" where
  "discard rc s =
     (case Option.bind (buf1 s) (memcpy_at (cur_buf s) [0]) of
        Some blk \<Rightarrow> Return rc (s\<lparr>buf1 := Some blk, membuf_offset := 0\<rparr>)
      | None \<Rightarrow> UB)"

definition append_part :: "session \<Rightarrow> bytes \<Rightarrow> session outcome" where
  "append_part s buf =
     (if membuf_offset s + length buf > mem_buf_len s then discard (-1) s else copy_to_cur s buf)"

definition flush_record :: "session \<Rightarrow> bytes \<Rightarrow> session outcome" where
  "flush_record s buf =
     (let new_len = (if membuf_offset s + length buf > mem_buf_len s
                     then mem_buf_len s - membuf_offset s else length buf) in
      case copy_to_cur s (take new_len buf) of
        Return _ s \<Rightarrow>
          (if disk_io_in_progress s then discard (-2) s else discard 0 (switch_buffers s))
      | r \<Rightarrow> r)"

definition pass2write_fix :: "session \<Rightarrow> bytes \<Rightarrow> session outcome" where
  "pass2write_fix s buf =
     (if length buf < 3 then Return (-1) s
      else case buf1 s of None \<Rightarrow> UB
      | Some blk \<Rightarrow>
          (if has_end buf \<and> \<not> has_start (drop (cur_buf s) blk) \<and> \<not> has_start buf then discard (-1) s
           else
             (case (if has_start buf \<and> membuf_offset s \<noteq> 0 then discard 0 s else Return 0 s) of
                Return _ s \<Rightarrow> (if \<not> has_end buf then append_part s buf else flush_record s buf)
              | r \<Rightarrow> r)))"

text \<open>Successive reads, with the results that \<open>drain_client\<close> ignores.\<close>

fun fix_reads :: "session \<Rightarrow> bytes list \<Rightarrow> (int list \<times> session) option" where
  "fix_reads s [] = Some ([], s)"
| "fix_reads s (buf # bufs) =
     (case pass2write_fix s buf of
        Return rc s \<Rightarrow> map_option (\<lambda>(rcs, s). (rc # rcs, s)) (fix_reads s bufs)
      | _ \<Rightarrow> None)"

section \<open>Writing the file\<close>

definition log_fileName_fix :: "config \<Rightarrow> u32 \<Rightarrow> string" where
  "log_fileName_fix cf a = ''/var/run/'' @ log_idf cf @ ''/'' @ ip_str1 a @ ''/'' @ ip_str2 a @ ''.log''"

text \<open>\<open>ftruncate (fd, 0)\<close> and \<open>lseek (fd, 0, SEEK_SET)\<close>.\<close>

definition fs_rewind :: "int \<Rightarrow> fs \<Rightarrow> fs" where
  "fs_rewind fd f =
     (case fdt f fd of None \<Rightarrow> f
      | Some d \<Rightarrow> f\<lparr>files := (files f)(o_path d := map_option (\<lambda>_. []) (files f (o_path d))),
                     fdt := (fdt f)(fd \<mapsto> d\<lparr>o_pos := 0\<rparr>)\<rparr>)"

definition write2disk_fix ::
  "(int \<times> bool) list \<Rightarrow> session \<Rightarrow> gstatistic \<Rightarrow> fs \<Rightarrow> (int \<times> session \<times> gstatistic \<times> fs) option" where
  "write2disk_fix rcs s g f =
     (if write2disk_begin s = None then Some (-1, s, g, f)
      else write2disk rcs s g (fs_rewind (on_disk_fd s) f))"

text \<open>The collector's copies have the same text.\<close>

definition lc_pass2write_fix :: "session \<Rightarrow> bytes \<Rightarrow> session outcome" where
  "lc_pass2write_fix = pass2write_fix"

definition lc_write2disk_fix :: "(int \<times> bool) list \<Rightarrow> session \<Rightarrow> gstatistic \<Rightarrow> fs \<Rightarrow> (int \<times> session \<times> gstatistic \<times> fs) option" where
  "lc_write2disk_fix = write2disk_fix"

section \<open>The collector of records is safe\<close>

definition cleared :: "session \<Rightarrow> session" where
  "cleared s = (appended (s\<lparr>membuf_offset := 0\<rparr>) [0])\<lparr>membuf_offset := 0\<rparr>"

lemma offset_update [simp]:
  "buf_inv s \<Longrightarrow> n \<le> mem_buf_len s \<Longrightarrow> buf_inv (s\<lparr>membuf_offset := n\<rparr>)"
  "disk_part (s\<lparr>membuf_offset := n\<rparr>) = disk_part s"
  "mem_part (s\<lparr>membuf_offset := 0\<rparr>) = []"
  by (auto simp: buf_inv_def other_half_def disk_part_def mem_part_def split: option.split)

lemma cleared_fields [simp]:
  "mem_buf_len (cleared s) = mem_buf_len s" "membuf_offset (cleared s) = 0"
  "disk_io_in_progress (cleared s) = disk_io_in_progress s" "disk_buf (cleared s) = disk_buf s"
  "cur_buf (cleared s) = cur_buf s" "mem_part (cleared s) = []" "on_disk_fd (cleared s) = on_disk_fd s"
  "disk_write_buf_len (cleared s) = disk_write_buf_len s"
  by (simp_all add: cleared_def appended_def)

lemma cleared_inv:
  assumes "buf_inv s"
  shows "buf_inv (cleared s)" "disk_part (cleared s) = disk_part s"
proof -
  have room: "buf_inv (s\<lparr>membuf_offset := 0\<rparr>)"
      "membuf_offset (s\<lparr>membuf_offset := 0\<rparr>) + length [0 :: u8] \<le> mem_buf_len (s\<lparr>membuf_offset := 0\<rparr>)"
    using assms by (auto simp: buf_inv_def other_half_def)
  show "buf_inv (cleared s)" "disk_part (cleared s) = disk_part s"
    using appended_inv [OF room] appended_parts(1) [OF room] by (simp_all add: cleared_def)
qed

lemma discard_eq: "buf_inv s \<Longrightarrow> discard rc s = Return rc (cleared s)"
  by (auto simp: discard_def cleared_def appended_def buf_inv_def memcpy_at_def split: option.splits)

text \<open>A part that fits is appended; a longer one is cut or discarded.\<close>

lemma append_part_inv:
  assumes "buf_inv s"
  shows "\<exists>rc s'. append_part s buf = Return rc s' \<and> buf_inv s'"
  using assms cleared_inv(1) appended_inv copy_to_cur_appended discard_eq
  by (cases "membuf_offset s + length buf > mem_buf_len s") (auto simp: append_part_def)

lemma flush_record_eq:
  assumes "buf_inv s" "new = take (mem_buf_len s - membuf_offset s) buf"
  shows "flush_record s buf =
    (if disk_io_in_progress s then Return (-2) (cleared (appended s new))
     else Return 0 (cleared (switch_buffers (appended s new))))"
proof -
  have le: "membuf_offset s \<le> mem_buf_len s" using assms(1) by (simp add: buf_inv_def)
  then have cut: "take (if membuf_offset s + length buf > mem_buf_len s then mem_buf_len s - membuf_offset s
      else length buf) buf = new"
    using assms(2) by auto
  have room: "membuf_offset s + length new \<le> mem_buf_len s" using assms(2) le by simp
  note copied = copy_to_cur_appended [OF assms(1) room] and inv = appended_inv [OF assms(1) room]
  show ?thesis
    unfolding flush_record_def Let_def cut copied
    using discard_eq [OF inv] discard_eq [OF switch_buffers_inv [OF inv]] by simp
qed

lemma flush_record_inv:
  assumes "buf_inv s"
  shows "\<exists>rc s'. flush_record s buf = Return rc s' \<and> buf_inv s'"
proof -
  let ?new = "take (mem_buf_len s - membuf_offset s) buf"
  have "membuf_offset s + length ?new \<le> mem_buf_len s" using assms by (auto simp: buf_inv_def)
  note inv = appended_inv [OF assms this]
  show ?thesis
    using flush_record_eq [OF assms refl, of buf] cleared_inv(1) [OF inv]
      cleared_inv(1) [OF switch_buffers_inv [OF inv]] by auto
qed

text \<open>C14. On every input the FIX_LOG_FILE pass2write returns, stays inside the block and
  keeps the shape of the double buffer.\<close>

theorem pass2write_fix_safe:
  assumes "buf_inv s"
  shows "\<exists>rc s'. pass2write_fix s buf = Return rc s' \<and> buf_inv s'"
proof -
  obtain blk where blk: "buf1 s = Some blk" using assms by (auto simp: buf_inv_def)
  show ?thesis
    using assms blk append_part_inv flush_record_inv cleared_inv(1) discard_eq
    unfolding pass2write_fix_def by auto
qed

theorem pass2write_fix_safe_witness:
  "\<exists>rc s'. pass2write_fix sample_session (leading_idf @ [0x0A, 0x0A, 0x0A]) = Return rc s' \<and> buf_inv s'"
  using pass2write_fix_safe [of sample_session] sample_session_inv(1) by (simp add: session_inv_def)

section \<open>A record in several reads\<close>

text \<open>
  The reads of one record: only the first starts with \<open>top\<close>, only the last ends with
  three line feeds, and none is shorter than three bytes.
\<close>

fun record_tail :: "bytes list \<Rightarrow> bool" where
  "record_tail [] \<longleftrightarrow> False"
| "record_tail [b] \<longleftrightarrow> 3 \<le> length b \<and> \<not> has_start b \<and> has_end b"
| "record_tail (b # bs) \<longleftrightarrow> 3 \<le> length b \<and> \<not> has_start b \<and> \<not> has_end b \<and> record_tail bs"

definition record_reads :: "bytes list \<Rightarrow> bool" where
  "record_reads bufs \<longleftrightarrow>
     (case bufs of [] \<Rightarrow> False
      | b # bs \<Rightarrow> 3 \<le> length b \<and> has_start b \<and> (if bs = [] then has_end b else \<not> has_end b \<and> record_tail bs))"

text \<open>The state once the record is complete.\<close>

definition submitted :: "bytes \<Rightarrow> session \<Rightarrow> session \<Rightarrow> bool" where
  "submitted rec s s' \<longleftrightarrow> buf_inv s' \<and> disk_part s' = rec \<and> mem_part s' = [] \<and> \<not> disk_io_in_progress s'
     \<and> mem_buf_len s' = mem_buf_len s \<and> on_disk_fd s' = on_disk_fd s \<and> disk_buf s' \<noteq> None
     \<and> disk_write_buf_len s' = length rec"

lemma mem_part_length: "buf_inv s \<Longrightarrow> length (mem_part s) = membuf_offset s"
  by (auto simp: mem_part_def buf_inv_def)

lemma mem_part_start:
  assumes "buf_inv s" "buf1 s = Some blk" "3 \<le> membuf_offset s"
  shows "has_start (drop (cur_buf s) blk) \<longleftrightarrow> has_start (mem_part s)"
  using assms by (simp add: has_start_def mem_part_def slice_at_def min_def)

lemma switch_fd: "on_disk_fd (switch_buffers s) = on_disk_fd s"
  by (simp add: switch_buffers_def Let_def)

lemma flush_submits:
  assumes inv: "buf_inv s" and idle: "\<not> disk_io_in_progress s"
    and room: "membuf_offset s + length buf \<le> mem_buf_len s"
  shows "\<exists>s'. flush_record s buf = Return 0 s' \<and> submitted (mem_part s @ buf) s s'"
proof -
  let ?a = "appended s buf"
  have cut: "take (mem_buf_len s - membuf_offset s) buf = buf" using room by simp
  note a = appended_inv [OF inv room] appended_parts [OF inv room]
  have sw: "buf_inv (switch_buffers ?a)" using switch_buffers_inv [OF a(1)] idle by simp
  have "flush_record s buf = Return 0 (cleared (switch_buffers ?a))"
    using flush_record_eq [OF inv refl, of buf] idle cut by simp
  moreover have "submitted (mem_part s @ buf) s (cleared (switch_buffers ?a))"
    using cleared_inv [OF sw] switch_buffers_parts [OF a(1)] a(3) idle mem_part_length [OF inv]
    by (simp add: submitted_def switch_fd appended_def)
  ultimately show ?thesis by blast
qed

lemma tail_submits:
  assumes "record_tail bufs" "buf_inv s" "\<not> disk_io_in_progress s" "3 \<le> membuf_offset s" "has_start (mem_part s)"
    and "membuf_offset s + length (concat bufs) \<le> mem_buf_len s"
  shows "\<exists>s'. fix_reads s bufs = Some (replicate (length bufs) 0, s') \<and> submitted (mem_part s @ concat bufs) s s'"
  using assms
proof (induction bufs arbitrary: s rule: record_tail.induct)
  case (2 b)
  obtain blk where blk: "buf1 s = Some blk" using 2(2) by (auto simp: buf_inv_def)
  have "pass2write_fix s b = flush_record s b"
    using 2 blk mem_part_start [OF 2(2) blk 2(4)] by (simp add: pass2write_fix_def)
  then show ?case using flush_submits [OF 2(2,3), of b] 2(6) by auto
next
  case (3 b c bs)
  obtain blk where blk: "buf1 s = Some blk" using 3(3) by (auto simp: buf_inv_def)
  have room: "membuf_offset s + length b \<le> mem_buf_len s" using 3(7) by simp
  note a = appended_inv [OF 3(3) room] appended_parts [OF 3(3) room]
  have "pass2write_fix s b = append_part s b"
    using 3 blk by (simp add: pass2write_fix_def)
  also have "\<dots> = Return 0 (appended s b)"
    using room copy_to_cur_appended [OF 3(3) room] by (simp add: append_part_def)
  finally have step: "pass2write_fix s b = Return 0 (appended s b)" .
  have start: "has_start (mem_part (appended s b))"
    using 3(5,6) a(3) mem_part_length [OF 3(3)] by (simp add: has_start_def)
  have "\<exists>s'. fix_reads (appended s b) (c # bs) = Some (replicate (length (c # bs)) 0, s')
      \<and> submitted (mem_part (appended s b) @ concat (c # bs)) (appended s b) s'"
    by (rule 3(1)) (use 3 a(1) start in simp_all)
  then obtain s' where "fix_reads (appended s b) (c # bs) = Some (replicate (length (c # bs)) 0, s')"
      "submitted (mem_part s @ b @ concat (c # bs)) (appended s b) s'"
    using a(3) by auto
  then show ?case
    using step by (auto simp: submitted_def appended_def simp del: fix_reads.simps(1))
qed simp

lemma cleared_if:
  assumes "buf_inv s"
  obtains s1 where "(if membuf_offset s \<noteq> 0 then discard 0 s else Return 0 s) = Return 0 s1" "buf_inv s1"
    "mem_part s1 = []" "membuf_offset s1 = 0" "disk_io_in_progress s1 = disk_io_in_progress s"
    "mem_buf_len s1 = mem_buf_len s" "on_disk_fd s1 = on_disk_fd s" "disk_part s1 = disk_part s"
  using assms discard_eq [OF assms, of 0] cleared_inv [OF assms] that [of "cleared s"] that [of s]
  by (cases "membuf_offset s = 0") (auto simp: mem_part_def)

theorem record_is_submitted:
  assumes rec: "record_reads bufs" and inv: "buf_inv s" and idle: "\<not> disk_io_in_progress s"
    and room: "length (concat bufs) \<le> mem_buf_len s"
  shows "\<exists>s'. fix_reads s bufs = Some (replicate (length bufs) 0, s') \<and> submitted (concat bufs) s s'"
proof -
  obtain b bs where bs: "bufs = b # bs" using rec by (auto simp: record_reads_def split: list.splits)
  obtain blk where blk: "buf1 s = Some blk" using inv by (auto simp: buf_inv_def)
  obtain s1 where s1: "(if membuf_offset s \<noteq> 0 then discard 0 s else Return 0 s) = Return 0 s1" "buf_inv s1"
    "mem_part s1 = []" "membuf_offset s1 = 0" "disk_io_in_progress s1 = disk_io_in_progress s"
    "mem_buf_len s1 = mem_buf_len s" "on_disk_fd s1 = on_disk_fd s" "disk_part s1 = disk_part s"
    using cleared_if [OF inv] by metis
  have b: "3 \<le> length b" "has_start b" using rec bs by (simp_all add: record_reads_def)
  have first: "pass2write_fix s b = (if \<not> has_end b then append_part s1 b else flush_record s1 b)"
    using b blk s1(1) by (simp add: pass2write_fix_def)
  show ?thesis
  proof (cases "bs = []")
    case True
    then have "has_end b" using rec bs by (simp add: record_reads_def)
    then show ?thesis
      using first flush_submits [OF s1(2), of b] s1 idle room bs True by (auto simp: submitted_def)
  next
    case False
    then have tail: "\<not> has_end b" "record_tail bs" using rec bs by (simp_all add: record_reads_def)
    have fit: "membuf_offset s1 + length b \<le> mem_buf_len s1" using room bs s1 by simp
    note a = appended_inv [OF s1(2) fit] appended_parts [OF s1(2) fit]
    have step: "pass2write_fix s b = Return 0 (appended s1 b)"
      using first tail(1) fit copy_to_cur_appended [OF s1(2) fit] by (simp add: append_part_def)
    have "\<exists>s'. fix_reads (appended s1 b) bs = Some (replicate (length bs) 0, s')
        \<and> submitted (mem_part (appended s1 b) @ concat bs) (appended s1 b) s'"
      by (rule tail_submits [OF tail(2) a(1)]) (use s1 idle b a(3) room bs in simp_all)
    then show ?thesis
      using step bs a(3) s1 by (auto simp: submitted_def appended_def)
  qed
qed

text \<open>
  A record that completes while the previous one is still waiting for the disk thread
  takes its place: only the last record counts.
\<close>

lemma fix_reads_append:
  "fix_reads s xs = Some (rcs, s1) \<Longrightarrow> fix_reads s (xs @ ys) = map_option (\<lambda>(rcs', s'). (rcs @ rcs', s')) (fix_reads s1 ys)"
proof (induction xs arbitrary: s rcs)
  case Nil
  then show ?case by (cases "fix_reads s1 ys") auto
next
  case (Cons x xs)
  then obtain rc s0 rcs0 where "pass2write_fix s x = Return rc s0" "fix_reads s0 xs = Some (rcs0, s1)"
      "rcs = rc # rcs0"
    by (auto split: outcome.splits)
  then show ?case using Cons.IH [of s0 rcs0] by (cases "fix_reads s1 ys") auto
qed

theorem next_record_replaces:
  assumes "record_reads r1" "record_reads r2" "buf_inv s" "\<not> disk_io_in_progress s"
    and "length (concat r1) \<le> mem_buf_len s" "length (concat r2) \<le> mem_buf_len s"
  shows "\<exists>s'. fix_reads s (r1 @ r2) = Some (replicate (length r1 + length r2) 0, s') \<and> pending s' = concat r2"
proof -
  obtain s1 where s1: "fix_reads s r1 = Some (replicate (length r1) 0, s1)" "submitted (concat r1) s s1"
    using record_is_submitted assms by blast
  then obtain s2 where s2: "fix_reads s1 r2 = Some (replicate (length r2) 0, s2)" "submitted (concat r2) s1 s2"
    using record_is_submitted [OF assms(2), of s1] assms(6) by (auto simp: submitted_def)
  have "fix_reads s (r1 @ r2) = Some (replicate (length r1 + length r2) 0, s2)"
    using fix_reads_append [OF s1(1)] s2(1) by (simp add: replicate_add)
  moreover have "pending s2 = concat r2" using s2(2) by (simp add: submitted_def pending_def)
  ultimately show ?thesis by blast
qed

section \<open>The file holds the last record\<close>

lemma rewound:
  assumes "fdt f fd = Some d" "o_path d = path" "files f path = Some c"
  shows "files (fs_write fd bs (fs_rewind fd f)) = (files f)(path \<mapsto> bs)"
  using assms by (auto simp: fs_write_def fs_rewind_def put_at_def)

lemma record_is_written:
  assumes rec: "record_reads bufs" and inv: "buf_inv s" and idle: "\<not> disk_io_in_progress s"
    and room: "length (concat bufs) \<le> mem_buf_len s"
    and op: "fdt f (on_disk_fd s) = Some d" "o_path d = path" "files f path = Some c"
  shows "\<exists>s' s'' g' f'. fix_reads s bufs = Some (replicate (length bufs) 0, s')
    \<and> write2disk_fix [(int (length (concat bufs)), e)] s' g f = Some (int (length (concat bufs)), s'', g', f')
    \<and> files f' = (files f)(path \<mapsto> concat bufs) \<and> buf_inv s'' \<and> pending s'' = []"
proof -
  let ?n = "length (concat bufs)"
  obtain s' where s': "fix_reads s bufs = Some (replicate (length bufs) 0, s')" "submitted (concat bufs) s s'"
    using record_is_submitted [OF rec inv idle room] by blast
  then obtain h where h: "disk_buf s' = Some h" by (auto simp: submitted_def)
  obtain blk where blk: "buf1 s' = Some blk" using s'(2) by (auto simp: submitted_def buf_inv_def)
  have n: "disk_write_buf_len s' = ?n" "0 < ?n"
    using s'(2) rec by (auto simp: submitted_def record_reads_def split: list.splits)
  have "h + ?n \<le> length blk"
    using disk_half_in_block [of s' h] s'(2) h blk n by (simp add: submitted_def)
  then have w: "write2disk [(int ?n, e)] s' g (fs_rewind (on_disk_fd s) f) = Some (int ?n, released ?n 0 (claimed s'), g,
      fs_write (on_disk_fd s) (concat bufs) (fs_rewind (on_disk_fd s) f))"
    using write2disk_eq [OF _ h blk, of e g "fs_rewind (on_disk_fd s) f"] s'(2) n by (simp add: submitted_def)
  have "write2disk_begin s' \<noteq> None" using h s'(2) by (simp add: write2disk_begin_def submitted_def)
  then have "write2disk_fix [(int ?n, e)] s' g f = Some (int ?n, released ?n 0 (claimed s'), g,
      fs_write (on_disk_fd s) (concat bufs) (fs_rewind (on_disk_fd s) f))"
    using w s'(2) by (simp add: write2disk_fix_def submitted_def)
  moreover have "buf_inv (released ?n 0 (claimed s'))" "pending (released ?n 0 (claimed s')) = []"
    using s'(2) by (auto simp: submitted_def buf_inv_def)
  ultimately show ?thesis using s'(1) rewound [OF op] by blast
qed

text \<open>
  A read of one or two bytes is dropped, wherever in the record it falls: the record that is
  written is made of the longer reads.
\<close>

definition long_reads :: "bytes list \<Rightarrow> bytes list" where
  "long_reads bufs = filter (\<lambda>b. 3 \<le> length b) bufs"

lemma fix_reads_drops_short:
  "fix_reads s (long_reads bufs) = Some (replicate (length (long_reads bufs)) 0, s') \<Longrightarrow>
    fix_reads s bufs = Some (map (\<lambda>b. if length b < 3 then -1 else 0) bufs, s')"
proof (induction bufs arbitrary: s)
  case (Cons b bufs)
  show ?case
  proof (cases "length b < 3")
    case True
    then have "pass2write_fix s b = Return (-1) s" by (simp add: pass2write_fix_def)
    then show ?thesis using Cons True by (simp add: long_reads_def)
  next
    case False
    then have l: "long_reads (b # bufs) = b # long_reads bufs" by (simp add: long_reads_def)
    then obtain s1 where "pass2write_fix s b = Return 0 s1"
        "fix_reads s1 (long_reads bufs) = Some (replicate (length (long_reads bufs)) 0, s')"
      using Cons.prems by (auto split: outcome.splits)
    then show ?thesis using Cons.IH False by simp
  qed
qed (simp add: long_reads_def)

text \<open>C13. In the FIX_LOG_FILE build every read of fewer than 3 bytes is dropped with the
  result -1. When the other reads make up one record (top in the first, three line
  feeds at the end of the last, and it fits into one half), no write is in progress
  and write takes the whole request, the record is submitted whole, and write2disk
  leaves exactly this record in the log file.\<close>

theorem fixed_file_holds_record:
  assumes rec: "record_reads (long_reads bufs)" and inv: "buf_inv s" and idle: "\<not> disk_io_in_progress s"
    and room: "length (concat (long_reads bufs)) \<le> mem_buf_len s"
    and op: "fdt f (on_disk_fd s) = Some d" "o_path d = path" "files f path = Some c"
  defines "r \<equiv> concat (long_reads bufs)"
  shows "\<exists>s' s'' g' f'. fix_reads s bufs = Some (map (\<lambda>b. if length b < 3 then -1 else 0) bufs, s')
    \<and> write2disk_fix [(int (length r), e)] s' g f = Some (int (length r), s'', g', f')
    \<and> files f' = (files f)(path \<mapsto> r) \<and> buf_inv s'' \<and> pending s'' = []"
  using record_is_written [OF rec inv idle room op, of e g] fix_reads_drops_short [of s bufs]
  unfolding r_def by blast

text \<open>A record in three reads, and the file that had another content.\<close>

definition sample_record :: "bytes list" where
  "sample_record = [leading_idf @ [0x20], [0x31, 0x32, 0x0A], [0x33, 0x0A, 0x0A, 0x0A]]"

definition record_fs :: fs where
  "record_fs = \<lparr>files = [disk_path \<mapsto> [9, 9]], fdt = [-1 \<mapsto> \<lparr>o_path = disk_path, o_append = True, o_pos = 2\<rparr>]\<rparr>"

lemma sample_record_ok: "record_reads sample_record" "length (concat sample_record) \<le> mem_buf_len sample_session"
  by (simp_all add: sample_record_def record_reads_def leading_idf_def has_start_def has_end_def
      sample_session_fields size_consts)

theorem next_record_replaces_witness:
  "\<exists>s'. fix_reads sample_session (sample_record @ sample_record) = Some ([0, 0, 0, 0, 0, 0], s')
     \<and> pending s' = concat sample_record"
  using next_record_replaces [OF sample_record_ok(1) sample_record_ok(1) _ _ sample_record_ok(2) sample_record_ok(2)]
    sample_session_inv by (simp add: session_inv_def sample_record_def [THEN arg_cong [where f = length]])

text \<open>The same record with a read of two bytes in its middle, which the file misses.\<close>

definition cut_record :: "bytes list" where
  "cut_record = [leading_idf @ [0x20], [0x35, 0x36], [0x31, 0x32, 0x0A], [0x33, 0x0A, 0x0A, 0x0A]]"

theorem fixed_file_holds_record_witness:
  "\<exists>s' s'' g' f'. fix_reads sample_session cut_record = Some ([0, -1, 0, 0], s')
    \<and> write2disk_fix [(11, False)] s' disk_gstat record_fs = Some (11, s'', g', f')
    \<and> files f' disk_path = Some (leading_idf @ [0x20, 0x31, 0x32, 0x0A, 0x33, 0x0A, 0x0A, 0x0A])"
proof -
  have l: "long_reads cut_record = sample_record"
    by (simp add: long_reads_def cut_record_def sample_record_def leading_idf_def)
  have n: "length (concat sample_record) = 11"
    and c: "concat sample_record = leading_idf @ [0x20, 0x31, 0x32, 0x0A, 0x33, 0x0A, 0x0A, 0x0A]"
    and m: "map (\<lambda>b. if length b < 3 then -1 else 0 :: int) cut_record = [0, -1, 0, 0]"
    by (simp_all add: sample_record_def cut_record_def leading_idf_def)
  have "fdt record_fs (on_disk_fd sample_session) = Some \<lparr>o_path = disk_path, o_append = True, o_pos = 2\<rparr>"
    "files record_fs disk_path = Some [9, 9]"
    by (simp_all add: record_fs_def sample_session_fields)
  moreover have "buf_inv sample_session" "\<not> disk_io_in_progress sample_session"
    using sample_session_inv by (simp_all add: session_inv_def)
  ultimately obtain s' s'' g' f' where "fix_reads sample_session cut_record = Some ([0, -1, 0, 0], s')"
      "write2disk_fix [(int 11, False)] s' disk_gstat record_fs = Some (int 11, s'', g', f')"
      "files f' = (files record_fs)(disk_path \<mapsto> concat sample_record)"
    using fixed_file_holds_record [of cut_record sample_session record_fs
        "\<lparr>o_path = disk_path, o_append = True, o_pos = 2\<rparr>" disk_path "[9, 9]" False disk_gstat]
      sample_record_ok unfolding l m n by auto
  then show ?thesis unfolding c by auto
qed

end
