(* ===== verification/Khash.thy ===== *)
theory Khash
  imports Prelude
begin

unbundle bit_operations_syntax

text \<open>
  The open-addressing hash table that src/ConfCli.c carries (khash 0.2.8): packed
  two-bit flags, triangular probing over a power-of-two table, and the in-place rehash
  of \<open>kh_resize\<close>. The macros are generic in the key and value types; the hash function
  is an argument. Array cells that were allocated and never written are \<open>None\<close>.
\<close>

section \<open>Flags\<close>

text \<open>
  Two bits for each bucket, sixteen buckets in a word: the upper bit says empty, the
  lower one deleted.
\<close>

definition ac_isempty :: "u32 list \<Rightarrow> nat \<Rightarrow> bool" where
  "ac_isempty flag i = (drop_bit (2 * (i AND 0xf)) (flag ! drop_bit 4 i) AND 2 \<noteq> 0)"

definition ac_isdel :: "u32 list \<Rightarrow> nat \<Rightarrow> bool" where
  "ac_isdel flag i = (drop_bit (2 * (i AND 0xf)) (flag ! drop_bit 4 i) AND 1 \<noteq> 0)"

definition ac_iseither :: "u32 list \<Rightarrow> nat \<Rightarrow> bool" where
  "ac_iseither flag i = (drop_bit (2 * (i AND 0xf)) (flag ! drop_bit 4 i) AND 3 \<noteq> 0)"

definition ac_set_isempty_false :: "u32 list \<Rightarrow> nat \<Rightarrow> u32 list" where
  "ac_set_isempty_false flag i =
     flag[drop_bit 4 i := flag ! drop_bit 4 i AND NOT (push_bit (2 * (i AND 0xf)) 2)]"

definition ac_set_isboth_false :: "u32 list \<Rightarrow> nat \<Rightarrow> u32 list" where
  "ac_set_isboth_false flag i =
     flag[drop_bit 4 i := flag ! drop_bit 4 i AND NOT (push_bit (2 * (i AND 0xf)) 3)]"

definition ac_set_isdel_true :: "u32 list \<Rightarrow> nat \<Rightarrow> u32 list" where
  "ac_set_isdel_true flag i =
     flag[drop_bit 4 i := flag ! drop_bit 4 i OR push_bit (2 * (i AND 0xf)) 1]"

definition ac_fsize :: "nat \<Rightarrow> nat" where
  "ac_fsize m = (if m < 16 then 1 else drop_bit 4 m)"

text \<open>\<open>memset (flags, 0xaa, ...)\<close>: every bucket empty, none deleted.\<close>

definition all_empty :: "nat \<Rightarrow> u32 list" where
  "all_empty m = replicate (ac_fsize m) 0xaaaaaaaa"

definition kroundup32 :: "u32 \<Rightarrow> u32" where
  "kroundup32 x =
     (let x = x - 1;
          x = x OR drop_bit 1 x;
          x = x OR drop_bit 2 x;
          x = x OR drop_bit 4 x;
          x = x OR drop_bit 8 x;
          x = x OR drop_bit 16 x
      in x + 1)"

section \<open>The table\<close>

record ('k, 'v) khash =
  n_buckets :: nat
  kh_size :: nat
  n_occupied :: nat
  upper_bound :: nat
  flags :: "u32 list"
  keys :: "'k option list"
  vals :: "'v option list"

text \<open>
  \<open>(khint_t)(m * 0.77 + 0.5)\<close>: on powers of two the product in double precision
  truncates to the same integer as this exact form.
\<close>

definition hash_upper :: "nat \<Rightarrow> nat" where
  "hash_upper m = (77 * m + 50) div 100"

definition kh_init :: "('k, 'v) khash" where
  "kh_init = \<lparr>n_buckets = 0, kh_size = 0, n_occupied = 0, upper_bound = 0, flags = [], keys = [], vals = []\<rparr>"

definition kh_clear :: "('k, 'v) khash \<Rightarrow> ('k, 'v) khash" where
  "kh_clear h =
     (if flags h \<noteq> [] then h\<lparr>flags := all_empty (n_buckets h), kh_size := 0, n_occupied := 0\<rparr> else h)"

section \<open>Lookup\<close>

text \<open>
  The probe loop of \<open>kh_get\<close>; the first argument bounds the number of turns and
  \<open>None\<close> says that it was reached.
\<close>

fun get_loop :: "nat \<Rightarrow> ('k, 'v) khash \<Rightarrow> 'k \<Rightarrow> nat \<Rightarrow> nat \<Rightarrow> nat \<Rightarrow> nat option" where
  "get_loop 0 h key i0 i step = None"
| "get_loop (Suc fuel) h key i0 i step =
     (if \<not> ac_isempty (flags h) i \<and> (ac_isdel (flags h) i \<or> keys h ! i \<noteq> Some key) then
        (let i = (i + (step + 1)) AND (n_buckets h - 1) in
         if i = i0 then Some (n_buckets h)
         else get_loop fuel h key i0 i (step + 1))
      else Some (if ac_iseither (flags h) i then n_buckets h else i))"

definition kh_get :: "('k \<Rightarrow> u32) \<Rightarrow> ('k, 'v) khash \<Rightarrow> 'k \<Rightarrow> nat option" where
  "kh_get hash_func h key =
     (if n_buckets h \<noteq> 0 then
        (let mask = n_buckets h - 1; k = unat (hash_func key); i = k AND mask
         in get_loop (2 * n_buckets h) h key i i 0)
      else Some 0)"

section \<open>Resizing\<close>

text \<open>The search for a free bucket in the new flags.\<close>

fun place_loop :: "nat \<Rightarrow> u32 list \<Rightarrow> nat \<Rightarrow> nat \<Rightarrow> nat \<Rightarrow> nat option" where
  "place_loop 0 new_flags new_mask i step = None"
| "place_loop (Suc fuel) new_flags new_mask i step =
     (if \<not> ac_isempty new_flags i then place_loop fuel new_flags new_mask ((i + (step + 1)) AND new_mask) (step + 1)
      else Some i)"

text \<open>The kick-out loop for one pending element.\<close>

fun kick_loop ::
  "nat \<Rightarrow> ('k \<Rightarrow> u32) \<Rightarrow> nat \<Rightarrow> 'k option \<Rightarrow> 'v option \<Rightarrow> ('k, 'v) khash \<times> u32 list
     \<Rightarrow> (('k, 'v) khash \<times> u32 list) option" where
  "kick_loop 0 hash_func new_n key val S = None"
| "kick_loop (Suc fuel) hash_func new_n key val (h, new_flags) =
     (let new_mask = new_n - 1; k = unat (hash_func (the key)) in
      case place_loop new_n new_flags new_mask (k AND new_mask) 0 of
        None \<Rightarrow> None
      | Some i \<Rightarrow>
          (let new_flags = ac_set_isempty_false new_flags i in
           if i < n_buckets h \<and> \<not> ac_iseither (flags h) i then
             kick_loop fuel hash_func new_n (keys h ! i) (vals h ! i)
               (h\<lparr>keys := (keys h)[i := key], vals := (vals h)[i := val],
                  flags := ac_set_isdel_true (flags h) i\<rparr>, new_flags)
           else Some (h\<lparr>keys := (keys h)[i := key], vals := (vals h)[i := val]\<rparr>, new_flags)))"

fun rehash_loop ::
  "('k \<Rightarrow> u32) \<Rightarrow> nat \<Rightarrow> nat list \<Rightarrow> ('k, 'v) khash \<times> u32 list \<Rightarrow> (('k, 'v) khash \<times> u32 list) option" where
  "rehash_loop hash_func new_n [] S = Some S"
| "rehash_loop hash_func new_n (j # js) (h, new_flags) =
     (if \<not> ac_iseither (flags h) j then
        Option.bind
          (kick_loop (n_buckets h + 1) hash_func new_n (keys h ! j) (vals h ! j)
            (h\<lparr>flags := ac_set_isdel_true (flags h) j\<rparr>, new_flags))
          (rehash_loop hash_func new_n js)
      else rehash_loop hash_func new_n js (h, new_flags))"

text \<open>The results of the three allocations of \<open>kh_resize\<close>, in the order of the calls.\<close>

record alloc3 =
  flags_ok :: bool
  keys_ok :: bool
  vals_ok :: bool

definition grow_array :: "nat \<Rightarrow> 'a option list \<Rightarrow> 'a option list" where
  "grow_array m xs = xs @ replicate (m - length xs) None"

definition kh_resize ::
  "('k \<Rightarrow> u32) \<Rightarrow> alloc3 \<Rightarrow> ('k, 'v) khash \<Rightarrow> u32 \<Rightarrow> (int \<times> ('k, 'v) khash) option" where
  "kh_resize hash_func a h new_n_buckets =
     (let new_n = unat (kroundup32 new_n_buckets);
          new_n = (if new_n < 4 then 4 else new_n) in
      if kh_size h \<ge> hash_upper new_n then Some (0, h)
      else if \<not> flags_ok a then Some (-1, h)
      else if n_buckets h < new_n \<and> \<not> keys_ok a then Some (-1, h)
      else if n_buckets h < new_n \<and> \<not> vals_ok a then Some (-1, h\<lparr>keys := grow_array new_n (keys h)\<rparr>)
      else
        (let h1 = (if n_buckets h < new_n
                   then h\<lparr>keys := grow_array new_n (keys h), vals := grow_array new_n (vals h)\<rparr> else h) in
         case rehash_loop hash_func new_n [0..<n_buckets h1] (h1, all_empty new_n) of
           None \<Rightarrow> None
         | Some (h2, new_flags) \<Rightarrow>
             (let h2 = (if n_buckets h2 > new_n
                        then h2\<lparr>keys := take new_n (keys h2), vals := take new_n (vals h2)\<rparr> else h2) in
              Some (0, h2\<lparr>flags := new_flags, n_buckets := new_n, n_occupied := kh_size h2,
                          upper_bound := hash_upper new_n\<rparr>))))"

section \<open>Insertion and deletion\<close>

text \<open>The probe loop of \<open>kh_put\<close>: it ends with \<open>x\<close>, \<open>site\<close> and \<open>i\<close>.\<close>

fun put_loop ::
  "nat \<Rightarrow> ('k, 'v) khash \<Rightarrow> 'k \<Rightarrow> nat \<Rightarrow> nat \<Rightarrow> nat \<Rightarrow> nat \<Rightarrow> (nat \<times> nat \<times> nat) option" where
  "put_loop 0 h key i0 site i step = None"
| "put_loop (Suc fuel) h key i0 site i step =
     (if \<not> ac_isempty (flags h) i \<and> (ac_isdel (flags h) i \<or> keys h ! i \<noteq> Some key) then
        (let site = (if ac_isdel (flags h) i then i else site);
             i = (i + (step + 1)) AND (n_buckets h - 1) in
         if i = i0 then Some (site, site, i)
         else put_loop fuel h key i0 site i (step + 1))
      else Some (n_buckets h, site, i))"

definition put_index :: "('k \<Rightarrow> u32) \<Rightarrow> ('k, 'v) khash \<Rightarrow> 'k \<Rightarrow> nat option" where
  "put_index hash_func h key =
     (let mask = n_buckets h - 1; k = unat (hash_func key); i = k AND mask in
      if ac_isempty (flags h) i then Some i
      else
        (case put_loop (2 * n_buckets h) h key i (n_buckets h) i 0 of
           None \<Rightarrow> None
         | Some (x, site, i) \<Rightarrow>
             Some (if x = n_buckets h then
                     (if ac_isempty (flags h) i \<and> site \<noteq> n_buckets h then site else i)
                   else x)))"

definition put_at_index :: "('k, 'v) khash \<Rightarrow> 'k \<Rightarrow> nat \<Rightarrow> int \<times> nat \<times> ('k, 'v) khash" where
  "put_at_index h key x =
     (if ac_isempty (flags h) x then
        (1, x, h\<lparr>keys := (keys h)[x := Some key], flags := ac_set_isboth_false (flags h) x,
                 kh_size := kh_size h + 1, n_occupied := n_occupied h + 1\<rparr>)
      else if ac_isdel (flags h) x then
        (2, x, h\<lparr>keys := (keys h)[x := Some key], flags := ac_set_isboth_false (flags h) x,
                 kh_size := kh_size h + 1\<rparr>)
      else (0, x, h))"

text \<open>\<open>kh_put\<close>: the value of \<open>*ret\<close>, the bucket and the table.\<close>

definition kh_put ::
  "('k \<Rightarrow> u32) \<Rightarrow> alloc3 \<Rightarrow> ('k, 'v) khash \<Rightarrow> 'k \<Rightarrow> (int \<times> nat \<times> ('k, 'v) khash) option" where
  "kh_put hash_func a h key =
     (let r = (if n_occupied h \<ge> upper_bound h then
                 (if n_buckets h > 2 * kh_size h then kh_resize hash_func a h (of_nat (n_buckets h) - 1)
                  else kh_resize hash_func a h (of_nat (n_buckets h) + 1))
               else Some (0, h)) in
      case r of
        None \<Rightarrow> None
      | Some (rc, h) \<Rightarrow>
          if rc < 0 then Some (-1, n_buckets h, h)
          else map_option (put_at_index h key) (put_index hash_func h key))"

definition kh_del :: "('k, 'v) khash \<Rightarrow> nat \<Rightarrow> ('k, 'v) khash" where
  "kh_del h x =
     (if x \<noteq> n_buckets h \<and> \<not> ac_iseither (flags h) x
      then h\<lparr>flags := ac_set_isdel_true (flags h) x, kh_size := kh_size h - 1\<rparr> else h)"

text \<open>\<open>kh_exist\<close>, \<open>kh_value\<close> and the assignment to \<open>kh_value\<close>.\<close>

definition kh_exist :: "('k, 'v) khash \<Rightarrow> nat \<Rightarrow> bool" where
  "kh_exist h x = (\<not> ac_iseither (flags h) x)"

definition kh_set_value :: "('k, 'v) khash \<Rightarrow> nat \<Rightarrow> 'v \<Rightarrow> ('k, 'v) khash" where
  "kh_set_value h x v = h\<lparr>vals := (vals h)[x := Some v]\<rparr>"

section \<open>Hash functions\<close>

text \<open>\<open>char\<close> is signed on the target.\<close>

definition char_khint :: "char \<Rightarrow> u32" where
  "char_khint c = signed (of_char c :: u8)"

definition ac_X31_hash_string :: "string \<Rightarrow> u32" where
  "ac_X31_hash_string s =
     (case s of [] \<Rightarrow> 0 | c # cs \<Rightarrow> fold (\<lambda>c h. push_bit 5 h - h + char_khint c) cs (char_khint c))"

definition ac_Wang_hash :: "u32 \<Rightarrow> u32" where
  "ac_Wang_hash key =
     (let key = key + NOT (push_bit 15 key);
          key = key XOR drop_bit 10 key;
          key = key + push_bit 3 key;
          key = key XOR drop_bit 6 key;
          key = key + NOT (push_bit 11 key);
          key = key XOR drop_bit 16 key
      in key)"

section \<open>Laws of the flags\<close>

lemma nibble: "(i :: nat) AND 0xf = i mod 16" "drop_bit 4 (i :: nat) = i div 16"
  using take_bit_eq_mask [of 4 i] by (simp_all add: take_bit_eq_mod mask_eq_exp_minus_1 drop_bit_eq_div)

lemma flag_bits:
  "ac_isempty flag i \<longleftrightarrow> bit (flag ! (i div 16)) (2 * (i mod 16) + 1)"
  "ac_isdel flag i \<longleftrightarrow> bit (flag ! (i div 16)) (2 * (i mod 16))"
  "ac_iseither flag i \<longleftrightarrow> ac_isempty flag i \<or> ac_isdel flag i"
proof -
  have two: "(w AND 2 \<noteq> 0) \<longleftrightarrow> bit w 1" for w :: u32
    using and_exp_eq_0_iff_not_bit [of w 1] by simp
  have one: "(w AND 1 \<noteq> 0) \<longleftrightarrow> bit w 0" for w :: u32
    using and_exp_eq_0_iff_not_bit [of w 0] by simp
  have three: "(w AND 3 \<noteq> 0) \<longleftrightarrow> bit w 0 \<or> bit w 1" for w :: u32
  proof -
    have m: "(3 :: u32) = mask 2" by (simp add: mask_eq_exp_minus_1)
    have "bit (w AND 3) n \<longleftrightarrow> bit w n \<and> n < 2" for n
      unfolding m by (auto simp: bit_and_iff bit_mask_iff)
    then have "(w AND 3 \<noteq> 0) \<longleftrightarrow> (\<exists>n < 2. bit w n)"
      by (metis bit_0_eq bit_eqI bot_apply bot_bool_def)
    also have "\<dots> \<longleftrightarrow> bit w 0 \<or> bit w 1"
      by (metis One_nat_def less_2_cases_iff)
    finally show ?thesis .
  qed
  show "ac_isempty flag i \<longleftrightarrow> bit (flag ! (i div 16)) (2 * (i mod 16) + 1)"
    by (simp add: ac_isempty_def two nibble bit_drop_bit_eq)
  show "ac_isdel flag i \<longleftrightarrow> bit (flag ! (i div 16)) (2 * (i mod 16))"
    by (simp add: ac_isdel_def one nibble bit_drop_bit_eq)
  show "ac_iseither flag i \<longleftrightarrow> ac_isempty flag i \<or> ac_isdel flag i"
    by (auto simp: ac_iseither_def ac_isempty_def ac_isdel_def one two three)
qed

lemma flag_pos_eq:
  "i div 16 = j div 16 \<Longrightarrow> i mod 16 = j mod 16 \<longleftrightarrow> i = (j :: nat)"
  by (metis div_mult_mod_eq)

lemma parity_neq: "2 * a + 1 \<noteq> 2 * (b :: nat)" "2 * a \<noteq> 2 * (b :: nat) + 1"
  by presburger+

lemma flag_range: "2 * (i mod 16) + 1 < (32 :: nat)" "2 * (i mod 16) < (32 :: nat)"
  by presburger+

lemma small_bits:
  "bit (1 :: u32) n \<longleftrightarrow> n = 0" "bit (2 :: u32) n \<longleftrightarrow> n = 1" "bit (3 :: u32) n \<longleftrightarrow> n = 0 \<or> n = 1"
proof -
  show "bit (1 :: u32) n \<longleftrightarrow> n = 0" by (rule bit_1_iff)
  show "bit (2 :: u32) n \<longleftrightarrow> n = 1"
    using bit_exp_iff [of 1 n, where ?'a = u32] by auto
  have m: "(3 :: u32) = mask 2" by (simp add: mask_eq_exp_minus_1)
  show "bit (3 :: u32) n \<longleftrightarrow> n = 0 \<or> n = 1"
    unfolding m bit_mask_iff by auto
qed

lemma bit_flag_mask:
  "bit (push_bit k 1 :: u32) n \<longleftrightarrow> n = k \<and> n < 32"
  "bit (push_bit k 2 :: u32) n \<longleftrightarrow> n = k + 1 \<and> n < 32"
  "bit (push_bit k 3 :: u32) n \<longleftrightarrow> (n = k \<or> n = k + 1) \<and> n < 32"
  unfolding bit_push_bit_iff small_bits by auto

text \<open>The buckets whose flags a list of words holds.\<close>

lemma isempty_updates:
  assumes "i div 16 < length flag"
  shows "ac_isempty (ac_set_isdel_true flag i) j = ac_isempty flag j"
    "ac_isempty (ac_set_isempty_false flag i) j \<longleftrightarrow> j \<noteq> i \<and> ac_isempty flag j"
    "ac_isempty (ac_set_isboth_false flag i) j \<longleftrightarrow> j \<noteq> i \<and> ac_isempty flag j"
  unfolding flag_bits ac_set_isdel_true_def ac_set_isempty_false_def ac_set_isboth_false_def nibble
  using assms flag_range [of j] flag_pos_eq [of j i]
  by (cases "j div 16 = i div 16"; simp only: nth_list_update_eq nth_list_update_neq bit_or_iff bit_and_iff
      bit_not_iff bit_flag_mask parity_neq; auto)+

lemma isdel_updates:
  assumes "i div 16 < length flag"
  shows "ac_isdel (ac_set_isdel_true flag i) j \<longleftrightarrow> j = i \<or> ac_isdel flag j"
    "ac_isdel (ac_set_isempty_false flag i) j = ac_isdel flag j"
    "ac_isdel (ac_set_isboth_false flag i) j \<longleftrightarrow> j \<noteq> i \<and> ac_isdel flag j"
  unfolding flag_bits ac_set_isdel_true_def ac_set_isempty_false_def ac_set_isboth_false_def nibble
  using assms flag_range [of j] flag_pos_eq [of j i]
  by (cases "j div 16 = i div 16"; simp only: nth_list_update_eq nth_list_update_neq bit_or_iff bit_and_iff
      bit_not_iff bit_flag_mask parity_neq; auto)+

lemma length_flag_updates [simp]:
  "length (ac_set_isdel_true flag i) = length flag" "length (ac_set_isempty_false flag i) = length flag"
  "length (ac_set_isboth_false flag i) = length flag"
  by (simp_all add: ac_set_isdel_true_def ac_set_isempty_false_def ac_set_isboth_false_def)

lemmas flag_updates = isempty_updates isdel_updates

lemma fsize_covers: "i < m \<Longrightarrow> i div 16 < ac_fsize m" if "m < 16 \<or> 16 dvd m"
  using that by (auto simp: ac_fsize_def drop_bit_eq_div elim!: dvdE)

lemma all_empty_flags:
  assumes "i div 16 < ac_fsize m"
  shows "ac_isempty (all_empty m) i" "\<not> ac_isdel (all_empty m) i"
proof -
  have "\<forall>k \<in> set [0..<16]. bit (0xaaaaaaaa :: u32) (2 * k + 1) \<and> \<not> bit (0xaaaaaaaa :: u32) (2 * k)"
    by code_simp
  then have "k < 16 \<Longrightarrow> bit (0xaaaaaaaa :: u32) (2 * k + 1) \<and> \<not> bit (0xaaaaaaaa :: u32) (2 * k)" for k
    by simp
  moreover have "i mod 16 < 16" by simp
  ultimately show "ac_isempty (all_empty m) i" "\<not> ac_isdel (all_empty m) i"
    using assms unfolding flag_bits all_empty_def by simp_all
qed

section \<open>Triangular probing\<close>

lemma and_mask: "(i :: nat) AND (2 ^ k - 1) = i mod 2 ^ k"
  using take_bit_eq_mask [of k i] by (simp add: take_bit_eq_mod mask_eq_exp_minus_1)

lemmas and_mask_simps = and_mask and_mask [unfolded One_nat_def]

definition tri :: "nat \<Rightarrow> nat" where "tri s = s * (s + 1) div 2"

lemma tri_Suc: "tri (Suc s) = tri s + (s + 1)"
proof -
  have "Suc s * (Suc s + 1) = s * (s + 1) + 2 * (s + 1)" by (simp add: algebra_simps)
  then show ?thesis by (simp add: tri_def)
qed

lemma tri_0 [simp]: "tri 0 = 0" by (simp add: tri_def)

lemma two_tri: "2 * tri s = s * (s + 1)"
  by (simp add: tri_def)

text \<open>Bucket number \<open>s\<close> of the probe sequence that starts at hash \<open>a\<close>.\<close>

definition pos :: "nat \<Rightarrow> nat \<Rightarrow> nat \<Rightarrow> nat" where
  "pos n a s = (a + tri s) mod n"

lemma pos_less: "0 < n \<Longrightarrow> pos n a s < n"
  by (simp add: pos_def)

lemma pos_Suc: "(pos n a s + (s + 1)) mod n = pos n a (s + 1)"
  using mod_add_left_eq [of "a + tri s" n "s + 1"] by (simp add: pos_def tri_Suc add.assoc)

lemma tri_mod_inj:
  assumes "(tri a) mod 2 ^ k = (tri b) mod 2 ^ k" "a < 2 ^ k" "b < 2 ^ k" "b < a"
  shows False
proof -
  have "2 ^ k dvd tri a - tri b"
    using assms(1) by (metis mod_eq_dvd_iff_nat dvd_diff_nat nat_le_linear diff_is_0_eq dvd_0_right)
  moreover have "tri b \<le> tri a"
    unfolding tri_def using assms(4) by (intro div_le_mono mult_le_mono) simp_all
  moreover have "2 * (tri a - tri b) = (a - b) * (a + b + 1)"
  proof -
    obtain d where "a = b + d" using assms(4) less_imp_add_positive by blast
    then show ?thesis using two_tri [of a] two_tri [of b] by (simp add: diff_mult_distrib2 algebra_simps)
  qed
  ultimately have dvd: "2 ^ Suc k dvd (a - b) * (a + b + 1)"
    by (metis mult_dvd_mono dvd_refl power_Suc)
  show False
  proof (cases "even (a - b)")
    case True
    then have "odd (a + b + 1)" using assms(4) by auto
    then have "coprime (2 ^ Suc k) (a + b + 1)" by simp
    with dvd have "2 ^ Suc k dvd a - b" using coprime_dvd_mult_left_iff by blast
    then show False using assms by (auto dest!: dvd_imp_le)
  next
    case False
    then have "coprime (2 ^ Suc k) (a - b)" by simp
    with dvd have "2 ^ Suc k dvd a + b + 1" using coprime_dvd_mult_right_iff by blast
    then show False using assms by (auto dest!: dvd_imp_le)
  qed
qed

lemma pos_inj:
  assumes "pos (2 ^ k) x a = pos (2 ^ k) x b" "a < 2 ^ k" "b < 2 ^ k"
  shows "a = b"
proof -
  have "tri a mod 2 ^ k = tri b mod 2 ^ k"
    using assms(1) by (auto simp: pos_def nat_mod_eq_iff)
  then show ?thesis using tri_mod_inj [of a k b] tri_mod_inj [of b k a] assms by (metis linorder_neqE_nat)
qed

lemma pos_surj:
  assumes "i < 2 ^ k" shows "\<exists>s < 2 ^ k. pos (2 ^ k) x s = i"
proof -
  have "inj_on (pos (2 ^ k) x) {..<2 ^ k}" by (auto intro!: inj_onI dest: pos_inj)
  moreover have "pos (2 ^ k) x ` {..<2 ^ k} \<subseteq> {..<2 ^ k}" by (auto simp: pos_less)
  ultimately have "pos (2 ^ k) x ` {..<2 ^ k} = {..<2 ^ k}"
    by (simp add: endo_inj_surj)
  then show ?thesis using assms by (auto simp: image_iff) (metis (no_types) imageE lessThan_iff)
qed

lemma pos_period: "pos (2 ^ k) x (2 * 2 ^ k - 1) = pos (2 ^ k) x 0"
proof -
  have "tri (2 * 2 ^ k - 1) = (2 * 2 ^ k - 1) * 2 ^ k"
    by (simp add: tri_def)
  then show ?thesis by (simp add: pos_def)
qed

section \<open>Well-formed tables\<close>

definition live :: "('k, 'v) khash \<Rightarrow> nat \<Rightarrow> bool" where
  "live h i \<longleftrightarrow> \<not> ac_isempty (flags h) i \<and> \<not> ac_isdel (flags h) i"

text \<open>Bucket \<open>i\<close> is on the probe sequence of hash \<open>a\<close>, behind non-empty buckets only.\<close>

definition on_path :: "nat \<Rightarrow> (nat \<Rightarrow> bool) \<Rightarrow> nat \<Rightarrow> nat \<Rightarrow> bool" where
  "on_path n occupied a i \<longleftrightarrow> (\<exists>s < n. pos n a s = i \<and> (\<forall>t < s. occupied (pos n a t)))"

definition kh_empty :: "('k, 'v) khash \<Rightarrow> bool" where
  "kh_empty h \<longleftrightarrow> n_buckets h = 0 \<and> kh_size h = 0 \<and> n_occupied h = 0 \<and> upper_bound h = 0
     \<and> flags h = [] \<and> keys h = [] \<and> vals h = []"

definition kh_shape :: "nat \<Rightarrow> ('k, 'v) khash \<Rightarrow> bool" where
  "kh_shape k h \<longleftrightarrow> 2 \<le> k \<and> n_buckets h = 2 ^ k \<and> length (keys h) = 2 ^ k \<and> length (vals h) = 2 ^ k
     \<and> length (flags h) = ac_fsize (2 ^ k) \<and> upper_bound h = hash_upper (2 ^ k)
     \<and> n_occupied h \<le> upper_bound h
     \<and> kh_size h = card {i. i < 2 ^ k \<and> live h i}
     \<and> n_occupied h = card {i. i < 2 ^ k \<and> \<not> ac_isempty (flags h) i}"

definition kh_keys_ok :: "('k \<Rightarrow> u32) \<Rightarrow> nat \<Rightarrow> ('k, 'v) khash \<Rightarrow> bool" where
  "kh_keys_ok f n h \<longleftrightarrow>
     (\<forall>i < n. live h i \<longrightarrow> (\<exists>x. keys h ! i = Some x \<and>
         on_path n (\<lambda>j. \<not> ac_isempty (flags h) j) (unat (f x)) i))
     \<and> (\<forall>i < n. \<forall>j < n. live h i \<longrightarrow> live h j \<longrightarrow> keys h ! i = keys h ! j \<longrightarrow> i = j)"

definition kh_wf :: "('k \<Rightarrow> u32) \<Rightarrow> ('k, 'v) khash \<Rightarrow> bool" where
  "kh_wf f h \<longleftrightarrow> kh_empty h \<or> (\<exists>k. kh_shape k h \<and> kh_keys_ok f (2 ^ k) h)"

lemma iseither_live: "ac_iseither (flags h) i \<longleftrightarrow> \<not> live h i"
  by (auto simp: flag_bits(3) live_def)

lemma pow2_covers: "2 \<le> k \<Longrightarrow> i < 2 ^ k \<Longrightarrow> i div 16 < ac_fsize (2 ^ k)"
proof -
  assume k: "2 \<le> k" and i: "i < 2 ^ k"
  have "k < 4 \<or> 4 \<le> k" by auto
  then have "(2 :: nat) ^ k < 16 \<or> 16 dvd (2 :: nat) ^ k"
  proof
    assume "k < 4"
    then have "(2 :: nat) ^ k \<le> 2 ^ 3" by (intro power_increasing) simp_all
    then show ?thesis by simp
  next
    assume "4 \<le> k"
    then have "(2 :: nat) ^ 4 dvd 2 ^ k" by (rule le_imp_power_dvd)
    then show ?thesis by simp
  qed
  then show ?thesis using fsize_covers i by blast
qed

lemma hash_upper_less: "4 \<le> m \<Longrightarrow> hash_upper m < m"
  by (auto simp: hash_upper_def)

lemma four_le_pow: "2 \<le> k \<Longrightarrow> (4 :: nat) \<le> 2 ^ k"
  using power_increasing [of 2 k "2 :: nat"] by simp

lemma kh_shape_has_empty:
  assumes "kh_shape k h"
  shows "\<exists>e < 2 ^ k. ac_isempty (flags h) e"
proof (rule ccontr)
  assume "\<not> ?thesis"
  then have "{i. i < 2 ^ k \<and> \<not> ac_isempty (flags h) i} = {..<2 ^ k}" by auto
  then have "n_occupied h = 2 ^ k" using assms by (simp add: kh_shape_def)
  moreover have "hash_upper (2 ^ k) < 2 ^ k"
    using assms four_le_pow by (intro hash_upper_less) (auto simp: kh_shape_def)
  ultimately show False using assms by (simp add: kh_shape_def)
qed

section \<open>Lookup is correct\<close>

text \<open>The test of the probe loops.\<close>

definition go_on :: "('k, 'v) khash \<Rightarrow> 'k \<Rightarrow> nat \<Rightarrow> bool" where
  "go_on h x i \<longleftrightarrow> \<not> ac_isempty (flags h) i \<and> (ac_isdel (flags h) i \<or> keys h ! i \<noteq> Some x)"

lemma go_on_live: "\<not> go_on h x i \<longleftrightarrow> ac_isempty (flags h) i \<or> (live h i \<and> keys h ! i = Some x)"
  by (auto simp: go_on_def live_def)

lemma probe_next:
  assumes "n_buckets h = 2 ^ k"
  shows "(pos (2 ^ k) a s + (s + 1)) AND (n_buckets h - 1) = pos (2 ^ k) a (s + 1)"
  using pos_Suc [of "2 ^ k" a s] by (simp only: assms and_mask)

lemma probe_first: "n_buckets h = 2 ^ k \<Longrightarrow> a AND (n_buckets h - 1) = pos (2 ^ k) a 0"
  by (simp only: and_mask) (simp add: pos_def)

lemma probe_not_first: "0 < s \<Longrightarrow> s < 2 ^ k \<Longrightarrow> pos (2 ^ k) a s \<noteq> pos (2 ^ k) a 0"
  using pos_inj [of k a s 0] by auto

lemma get_loop_stop:
  assumes n: "n_buckets h = 2 ^ k" and m: "m < 2 ^ k" "\<And>t. t < m \<Longrightarrow> go_on h x (pos (2 ^ k) a t)"
    "\<not> go_on h x (pos (2 ^ k) a m)"
  shows "s \<le> m \<Longrightarrow> m - s < fuel \<Longrightarrow>
    get_loop fuel h x (pos (2 ^ k) a 0) (pos (2 ^ k) a s) s
      = Some (if ac_iseither (flags h) (pos (2 ^ k) a m) then 2 ^ k else pos (2 ^ k) a m)"
proof (induction fuel arbitrary: s)
  case (Suc fuel)
  show ?case
  proof (cases "s = m")
    case True
    then show ?thesis using m(3) n by (auto simp: go_on_def)
  next
    case False
    then have "s < m" using Suc.prems by simp
    then have "pos (2 ^ k) a (s + 1) \<noteq> pos (2 ^ k) a 0" using m(1) by (intro probe_not_first) auto
    moreover have "get_loop fuel h x (pos (2 ^ k) a 0) (pos (2 ^ k) a (s + 1)) (s + 1)
      = Some (if ac_iseither (flags h) (pos (2 ^ k) a m) then 2 ^ k else pos (2 ^ k) a m)"
      using \<open>s < m\<close> Suc.prems by (intro Suc.IH) auto
    ultimately show ?thesis
      using m(2) [OF \<open>s < m\<close>] probe_next [OF n, of a s] by (simp add: go_on_def Let_def)
  qed
qed simp

text \<open>Where the probe sequence of a key stops.\<close>

lemma probe_stops:
  assumes "kh_shape k h"
  obtains m where "m < 2 ^ k" "\<And>t. t < m \<Longrightarrow> go_on h x (pos (2 ^ k) a t)" "\<not> go_on h x (pos (2 ^ k) a m)"
proof -
  obtain e where e: "e < 2 ^ k" "ac_isempty (flags h) e" using kh_shape_has_empty [OF assms] by blast
  obtain s where s: "s < 2 ^ k" "pos (2 ^ k) a s = e" using pos_surj [OF e(1)] by blast
  define m where "m = (LEAST s. \<not> go_on h x (pos (2 ^ k) a s))"
  have ex: "\<not> go_on h x (pos (2 ^ k) a s)" using e s by (simp add: go_on_def)
  show ?thesis
  proof (rule that [of m])
    show "m < 2 ^ k" using Least_le [of "\<lambda>s. \<not> go_on h x (pos (2 ^ k) a s)", OF ex] s(1) by (simp add: m_def)
    show "\<not> go_on h x (pos (2 ^ k) a m)" unfolding m_def by (rule LeastI [of "\<lambda>s. \<not> go_on h x (pos (2 ^ k) a s)" s, OF ex])
    show "go_on h x (pos (2 ^ k) a t)" if "t < m" for t using not_less_Least that by (auto simp: m_def)
  qed
qed

text \<open>A live key is where its probe sequence stops.\<close>

lemma stop_at_live:
  assumes ok: "kh_keys_ok f (2 ^ k) h" and i: "i < 2 ^ k" "live h i" "keys h ! i = Some x"
    and m: "\<And>t. t < m \<Longrightarrow> go_on h x (pos (2 ^ k) (unat (f x)) t)" "\<not> go_on h x (pos (2 ^ k) (unat (f x)) m)"
  shows "pos (2 ^ k) (unat (f x)) m = i"
proof -
  let ?p = "pos (2 ^ k) (unat (f x))"
  obtain s where s: "s < 2 ^ k" "?p s = i" "\<forall>t < s. \<not> ac_isempty (flags h) (?p t)"
    using ok i by (auto simp: kh_keys_ok_def on_path_def)
  have "m \<le> s" using m(1) [of s] i s by (auto simp: go_on_def live_def not_less [symmetric])
  then have "\<not> ac_isempty (flags h) (?p m)" using s i(2) by (cases "m = s") (auto simp: live_def)
  then have "live h (?p m)" "keys h ! ?p m = Some x" using m(2) go_on_live by metis+
  then show ?thesis using ok i by (auto simp: kh_keys_ok_def pos_less)
qed

lemma kh_get_spec:
  assumes "kh_wf f h"
  shows "\<exists>r. kh_get f h x = Some r \<and>
    (r = n_buckets h \<and> (\<forall>i < n_buckets h. live h i \<longrightarrow> keys h ! i \<noteq> Some x)
     \<or> r < n_buckets h \<and> live h r \<and> keys h ! r = Some x)"
proof (cases "kh_empty h")
  case True
  then show ?thesis by (simp add: kh_get_def kh_empty_def)
next
  case False
  then obtain k where k: "kh_shape k h" "kh_keys_ok f (2 ^ k) h" using assms by (auto simp: kh_wf_def)
  let ?a = "unat (f x)"
  have n: "n_buckets h = 2 ^ k" using k by (simp add: kh_shape_def)
  obtain m where m: "m < 2 ^ k" "\<And>t. t < m \<Longrightarrow> go_on h x (pos (2 ^ k) ?a t)" "\<not> go_on h x (pos (2 ^ k) ?a m)"
    using probe_stops [OF k(1), of x ?a] by blast
  have "kh_get f h x = Some (if ac_iseither (flags h) (pos (2 ^ k) ?a m) then 2 ^ k else pos (2 ^ k) ?a m)"
    using get_loop_stop [OF n m, of 0 "2 * 2 ^ k"] m(1) probe_first [OF n, of ?a]
    by (simp add: kh_get_def n Let_def)
  moreover have "\<forall>i < 2 ^ k. live h i \<longrightarrow> keys h ! i \<noteq> Some x" if "\<not> live h (pos (2 ^ k) ?a m)"
    using stop_at_live [OF k(2) _ _ _ m(2,3)] that by metis
  ultimately show ?thesis
    using m(3) n by (auto simp: iseither_live go_on_live live_def pos_less)
qed

text \<open>The bound on the turns is never reached, whatever the flags say.\<close>

lemma get_loop_total:
  assumes n: "n_buckets h = 2 ^ k"
  shows "s \<le> 2 * 2 ^ k - 2 \<Longrightarrow> 2 * 2 ^ k - 1 - s \<le> fuel \<Longrightarrow>
    \<exists>r. get_loop fuel h x (pos (2 ^ k) a 0) (pos (2 ^ k) a s) s = Some r"
proof (induction fuel arbitrary: s)
  case 0
  have "(0 :: nat) < 2 ^ k" by simp
  then show ?case using 0 by linarith
next
  case (Suc fuel)
  have pos: "(0 :: nat) < 2 ^ k" by simp
  show ?case
  proof (cases "pos (2 ^ k) a (s + 1) = pos (2 ^ k) a 0")
    case True
    then show ?thesis using probe_next [OF n, of a s] by (simp add: Let_def)
  next
    case False
    then have "s + 1 \<noteq> 2 * 2 ^ k - 1" using pos_period [of k a] by metis
    then have "s + 1 \<le> 2 * 2 ^ k - 2" "2 * 2 ^ k - 1 - (s + 1) \<le> fuel" using Suc.prems pos by linarith+
    from Suc.IH [OF this] show ?thesis using probe_next [OF n, of a s] by (auto simp: Let_def)
  qed
qed

text \<open>C10. The probe loop of kh_get ends within two rounds of any table whose number of
  buckets is a power of two, even when no bucket is empty.\<close>

theorem kh_get_total:
  assumes "n_buckets h = 2 ^ k"
  shows "\<exists>r. kh_get f h x = Some r"
proof -
  have "\<exists>r. get_loop (2 * 2 ^ k) h x (pos (2 ^ k) (unat (f x)) 0) (pos (2 ^ k) (unat (f x)) 0) 0 = Some r"
    by (rule get_loop_total [OF assms]) simp_all
  then show ?thesis
    using probe_first [OF assms, of "unat (f x)"] by (simp add: kh_get_def assms Let_def)
qed

definition full_table :: "(u32, nat) khash" where
  "full_table = \<lparr>n_buckets = 4, kh_size = 4, n_occupied = 4, upper_bound = 3, flags = [0],
     keys = map Some [0, 1, 2, 3], vals = map Some [0, 1, 2, 3]\<rparr>"

theorem kh_get_total_witness: "\<exists>r. kh_get id full_table 4 = Some r"
  by (rule kh_get_total [of _ 2]) (simp add: full_table_def)

section \<open>Where an insertion goes\<close>

lemma put_loop_stop:
  assumes n: "n_buckets h = 2 ^ k" and m: "m < 2 ^ k" "\<And>t. t < m \<Longrightarrow> go_on h x (pos (2 ^ k) a t)"
    "\<not> go_on h x (pos (2 ^ k) a m)"
  shows "s \<le> m \<Longrightarrow> m - s < fuel \<Longrightarrow>
    \<exists>site'. put_loop fuel h x (pos (2 ^ k) a 0) site (pos (2 ^ k) a s) s = Some (2 ^ k, site', pos (2 ^ k) a m)
      \<and> (site' = site \<or> (\<exists>t < m. site' = pos (2 ^ k) a t \<and> ac_isdel (flags h) site'))"
proof (induction fuel arbitrary: s site)
  case (Suc fuel)
  show ?case
  proof (cases "s = m")
    case True
    then show ?thesis using m(3) n by (auto simp: go_on_def)
  next
    case False
    then have "s < m" using Suc.prems by simp
    then have ne: "pos (2 ^ k) a (s + 1) \<noteq> pos (2 ^ k) a 0" using m(1) by (intro probe_not_first) auto
    let ?site = "if ac_isdel (flags h) (pos (2 ^ k) a s) then pos (2 ^ k) a s else site"
    obtain site' where s': "put_loop fuel h x (pos (2 ^ k) a 0) ?site (pos (2 ^ k) a (s + 1)) (s + 1)
        = Some (2 ^ k, site', pos (2 ^ k) a m)"
      "site' = ?site \<or> (\<exists>t < m. site' = pos (2 ^ k) a t \<and> ac_isdel (flags h) site')"
    proof -
      have "s + 1 \<le> m" "m - (s + 1) < fuel" using \<open>s < m\<close> Suc.prems by linarith+
      from Suc.IH [OF this, of ?site] show ?thesis using that by blast
    qed
    have "put_loop (Suc fuel) h x (pos (2 ^ k) a 0) site (pos (2 ^ k) a s) s = Some (2 ^ k, site', pos (2 ^ k) a m)"
      using m(2) [OF \<open>s < m\<close>] probe_next [OF n, of a s] ne s'(1) by (simp add: go_on_def Let_def)
    then show ?thesis using s'(2) \<open>s < m\<close> by (auto split: if_splits)
  qed
qed simp

text \<open>
  The bucket of an insertion is the one of the key, if it is live, and otherwise a
  bucket on the key's path that is not live.
\<close>

lemma put_index_spec:
  assumes shape: "kh_shape k h" and ok: "kh_keys_ok f (2 ^ k) h"
  shows "\<exists>i < 2 ^ k. put_index f h x = Some i
    \<and> on_path (2 ^ k) (\<lambda>j. \<not> ac_isempty (flags h) j) (unat (f x)) i
    \<and> (live h i \<longrightarrow> keys h ! i = Some x)
    \<and> (\<not> live h i \<longrightarrow> (\<forall>j < 2 ^ k. live h j \<longrightarrow> keys h ! j \<noteq> Some x))"
proof -
  let ?a = "unat (f x)" and ?p = "pos (2 ^ k) (unat (f x))"
  have n: "n_buckets h = 2 ^ k" using shape by (simp add: kh_shape_def)
  obtain m where m: "m < 2 ^ k" "\<And>t. t < m \<Longrightarrow> go_on h x (?p t)" "\<not> go_on h x (?p m)"
    using probe_stops [OF shape, of x ?a] by blast
  have filled: "\<not> ac_isempty (flags h) (?p t)" if "t < m" for t using m(2) [OF that] by (simp add: go_on_def)
  have path: "on_path (2 ^ k) (\<lambda>j. \<not> ac_isempty (flags h) j) ?a (?p t)" if "t \<le> m" for t
    using that m(1) filled by (auto simp: on_path_def intro!: exI [of _ t])
  have absent: "\<forall>j < 2 ^ k. live h j \<longrightarrow> keys h ! j \<noteq> Some x" if "\<not> live h (?p m)"
    using stop_at_live [OF ok _ _ _ m(2,3)] that by metis
  have key: "live h (?p m) \<longrightarrow> keys h ! ?p m = Some x" using m(3) by (auto simp: go_on_live live_def)
  obtain site where site: "put_loop (2 * 2 ^ k) h x (?p 0) (2 ^ k) (?p 0) 0 = Some (2 ^ k, site, ?p m)"
    "site = 2 ^ k \<or> (\<exists>t < m. site = ?p t \<and> ac_isdel (flags h) site)"
    using put_loop_stop [OF n m, of 0 "2 * 2 ^ k" "2 ^ k"] m(1) by auto
  define i where "i = (if ac_isempty (flags h) (?p m) \<and> site \<noteq> 2 ^ k then site else ?p m)"
  have i: "put_index f h x = Some i"
  proof (cases "ac_isempty (flags h) (?p 0)")
    case True
    then have "m = 0" using filled [of 0] by auto
    then show ?thesis using True site(2) probe_first [OF n, of ?a] by (simp add: put_index_def Let_def i_def)
  next
    case False
    then show ?thesis
      using site(1) probe_first [OF n, of ?a] by (simp add: put_index_def Let_def n i_def)
  qed
  show ?thesis
  proof (cases "i = ?p m")
    case True
    then show ?thesis using i path [of m] key absent m(1) by (intro exI [of _ i]) (auto simp: pos_less)
  next
    case False
    then have "site \<noteq> 2 ^ k" "i = site" "ac_isempty (flags h) (?p m)" by (auto simp: i_def split: if_splits)
    then obtain t where "t < m" "i = ?p t" "ac_isdel (flags h) i" using site(2) by auto
    moreover have "\<not> live h i" using \<open>ac_isdel (flags h) i\<close> by (simp add: live_def)
    moreover have "\<not> live h (?p m)" using \<open>ac_isempty (flags h) (?p m)\<close> by (simp add: live_def)
    ultimately show ?thesis using i path [of t] absent by (intro exI [of _ i]) (auto simp: pos_less)
  qed
qed

lemma flags_cover: "kh_shape k h \<Longrightarrow> i < 2 ^ k \<Longrightarrow> i div 16 < length (flags h)"
  using pow2_covers by (simp add: kh_shape_def)

lemma on_path_mono: "on_path n P a i \<Longrightarrow> (\<And>j. P j \<Longrightarrow> Q j) \<Longrightarrow> on_path n Q a i"
  by (auto simp: on_path_def)

text \<open>Filling a bucket that is not live.\<close>

lemma fill_bucket:
  assumes shape: "kh_shape k h" and ok: "kh_keys_ok f (2 ^ k) h" and i: "i < 2 ^ k" "\<not> live h i"
    and path: "on_path (2 ^ k) (\<lambda>j. \<not> ac_isempty (flags h) j) (unat (f x)) i"
    and fresh: "\<forall>j < 2 ^ k. live h j \<longrightarrow> keys h ! j \<noteq> Some x"
    and room: "n_occupied h < upper_bound h"
    and h': "h' = h\<lparr>keys := (keys h)[i := Some x], flags := ac_set_isboth_false (flags h) i,
      kh_size := kh_size h + 1, n_occupied := n_occupied h + (if ac_isempty (flags h) i then 1 else 0)\<rparr>"
  shows "kh_shape k h'" "kh_keys_ok f (2 ^ k) h'" "\<And>j. j < 2 ^ k \<Longrightarrow> live h' j \<longleftrightarrow> j = i \<or> live h j"
proof -
  note cover = flags_cover [OF shape i(1)]
  have empty: "ac_isempty (flags h') j \<longleftrightarrow> j \<noteq> i \<and> ac_isempty (flags h) j" for j
    using cover by (simp add: h' flag_updates)
  show lv: "live h' j \<longleftrightarrow> j = i \<or> live h j" for j
    using cover by (auto simp: h' live_def flag_updates)
  have lives: "{j. j < 2 ^ k \<and> live h' j} = insert i {j. j < 2 ^ k \<and> live h j}"
    using lv i(1) by auto
  have occ: "{j. j < 2 ^ k \<and> \<not> ac_isempty (flags h') j} = insert i {j. j < 2 ^ k \<and> \<not> ac_isempty (flags h) j}"
    using empty i(1) by auto
  have fields: "n_buckets h' = n_buckets h" "length (keys h') = length (keys h)" "vals h' = vals h"
    "length (flags h') = length (flags h)" "upper_bound h' = upper_bound h" "kh_size h' = kh_size h + 1"
    "n_occupied h' = n_occupied h + (if ac_isempty (flags h) i then 1 else 0)"
    by (simp_all add: h')
  show "kh_shape k h'"
    using shape room i fields unfolding kh_shape_def lives occ by (auto simp: card_insert_if)
  have keys: "keys h' ! j = (if j = i then Some x else keys h ! j)" if "j < 2 ^ k" for j
    using that shape by (simp add: h' kh_shape_def nth_list_update)
  have mono: "on_path (2 ^ k) (\<lambda>j. \<not> ac_isempty (flags h') j) a j"
    if "on_path (2 ^ k) (\<lambda>j. \<not> ac_isempty (flags h) j) a j" for a j
    using that by (rule on_path_mono) (simp add: empty)
  show "kh_keys_ok f (2 ^ k) h'"
    unfolding kh_keys_ok_def
  proof (intro conjI allI impI)
    fix j assume "j < 2 ^ k" "live h' j"
    then show "\<exists>y. keys h' ! j = Some y \<and> on_path (2 ^ k) (\<lambda>j. \<not> ac_isempty (flags h') j) (unat (f y)) j"
      using ok lv keys mono path by (auto simp: kh_keys_ok_def)
  next
    fix j l assume "j < 2 ^ k" "l < 2 ^ k" "live h' j" "live h' l" "keys h' ! j = keys h' ! l"
    then show "j = l"
      using ok lv keys fresh unfolding kh_keys_ok_def by (metis)
  qed
qed

lemma put_at_index_cases:
  "put_at_index h x i =
     (if live h i then (0, i, h)
      else ((if ac_isempty (flags h) i then 1 else 2), i,
        h\<lparr>keys := (keys h)[i := Some x], flags := ac_set_isboth_false (flags h) i,
          kh_size := kh_size h + 1, n_occupied := n_occupied h + (if ac_isempty (flags h) i then 1 else 0)\<rparr>))"
  by (simp add: put_at_index_def live_def)

section \<open>The rounding of table sizes\<close>

lemma smear_step:
  fixes w y :: u32
  assumes "\<And>n. bit w n \<longleftrightarrow> (\<exists>e < d. bit y (n + e))"
  shows "bit (w OR drop_bit d w) n \<longleftrightarrow> (\<exists>e < 2 * d. bit y (n + e))"
proof -
  have "bit (w OR drop_bit d w) n \<longleftrightarrow> (\<exists>e < d. bit y (n + e)) \<or> (\<exists>e < d. bit y (n + (d + e)))"
    by (simp add: bit_or_iff bit_drop_bit_eq assms ac_simps)
  also have "\<dots> \<longleftrightarrow> (\<exists>e < 2 * d. bit y (n + e))"
  proof
    assume "\<exists>e < 2 * d. bit y (n + e)"
    then obtain e where e: "e < 2 * d" "bit y (n + e)" by blast
    show "(\<exists>e < d. bit y (n + e)) \<or> (\<exists>e < d. bit y (n + (d + e)))"
    proof (cases "e < d")
      case False
      then have "e - d < d" "n + (d + (e - d)) = n + e" using e(1) by auto
      then show ?thesis using e(2) by metis
    qed (use e in blast)
  next
    assume "(\<exists>e < d. bit y (n + e)) \<or> (\<exists>e < d. bit y (n + (d + e)))"
    then show "\<exists>e < 2 * d. bit y (n + e)"
      by (metis add_less_cancel_left mult_2 trans_less_add1)
  qed
  finally show ?thesis .
qed

lemma kroundup32_smear:
  obtains w where "kroundup32 x = w + 1" "\<And>n. bit w n \<longleftrightarrow> (\<exists>e < 32. bit (x - 1) (n + e))"
proof -
  define y where "y = x - 1"
  define a where "a = y OR drop_bit 1 y"
  define b where "b = a OR drop_bit 2 a"
  define c where "c = b OR drop_bit 4 b"
  define d where "d = c OR drop_bit 8 c"
  define w where "w = d OR drop_bit 16 d"
  have "bit y n \<longleftrightarrow> (\<exists>e < 1. bit y (n + e))" for n by simp
  then have "bit a n \<longleftrightarrow> (\<exists>e < 2 * 1. bit y (n + e))" for n unfolding a_def by (rule smear_step)
  then have "bit a n \<longleftrightarrow> (\<exists>e < 2. bit y (n + e))" for n by simp
  then have "bit b n \<longleftrightarrow> (\<exists>e < 2 * 2. bit y (n + e))" for n unfolding b_def by (rule smear_step)
  then have "bit b n \<longleftrightarrow> (\<exists>e < 4. bit y (n + e))" for n by simp
  then have "bit c n \<longleftrightarrow> (\<exists>e < 2 * 4. bit y (n + e))" for n unfolding c_def by (rule smear_step)
  then have "bit c n \<longleftrightarrow> (\<exists>e < 8. bit y (n + e))" for n by simp
  then have "bit d n \<longleftrightarrow> (\<exists>e < 2 * 8. bit y (n + e))" for n unfolding d_def by (rule smear_step)
  then have "bit d n \<longleftrightarrow> (\<exists>e < 16. bit y (n + e))" for n by simp
  then have "bit w n \<longleftrightarrow> (\<exists>e < 2 * 16. bit y (n + e))" for n unfolding w_def by (rule smear_step)
  then have "bit w n \<longleftrightarrow> (\<exists>e < 32. bit (x - 1) (n + e))" for n by (simp add: y_def)
  moreover have "kroundup32 x = w + 1"
    by (simp only: kroundup32_def Let_def w_def d_def c_def b_def a_def y_def)
  ultimately show ?thesis using that by blast
qed

lemma top_bit:
  fixes y :: u32
  assumes "2 ^ m \<le> unat y" "unat y < 2 ^ (m + 1)"
  shows "bit y m" "bit y j \<Longrightarrow> j \<le> m"
proof -
  have "unat y div 2 ^ m = 1"
    using assms by (intro div_nat_eqI) simp_all
  then have "bit (unat y) m" by (simp add: bit_iff_odd)
  then show "bit y m" by (simp add: bit_unsigned_iff)
  show "j \<le> m" if "bit y j"
  proof (rule ccontr)
    assume "\<not> j \<le> m"
    then have "(2 :: nat) ^ (m + 1) \<le> 2 ^ j" by (intro power_increasing) simp_all
    then have "unat y < 2 ^ j" using assms(2) by simp
    then have "\<not> bit (unat y) j" by (simp add: bit_iff_odd)
    then show False using that by (simp add: bit_unsigned_iff)
  qed
qed

lemma kroundup32_pow:
  assumes "2 ^ m \<le> unat (x - 1)" "unat (x - 1) < 2 ^ (m + 1)" "m < 31"
  shows "unat (kroundup32 x) = 2 ^ (m + 1)"
proof -
  obtain w where w: "kroundup32 x = w + 1" "\<And>n. bit w n \<longleftrightarrow> (\<exists>e < 32. bit (x - 1) (n + e))"
    using kroundup32_smear [of x] by blast
  have "bit w n \<longleftrightarrow> n < m + 1" for n
  proof
    assume "bit w n"
    then obtain e where "bit (x - 1) (n + e)" using w(2) by blast
    then show "n < m + 1" using top_bit(2) [OF assms(1,2)] by fastforce
  next
    assume "n < m + 1"
    then have "n + (m - n) = m" "m - n < 32" using assms(3) by auto
    then show "bit w n" using w(2) top_bit(1) [OF assms(1,2)] by metis
  qed
  then have "w = mask (m + 1)"
    using assms(3) by (intro bit_word_eqI) (simp add: bit_mask_iff)
  then have "w + 1 = 2 ^ (m + 1)" by (simp add: mask_eq_exp_minus_1)
  moreover have "unat (2 ^ (m + 1) :: u32) = 2 ^ (m + 1)"
  proof -
    have "(2 :: nat) ^ (m + 1) < 2 ^ 32" using assms(3) by (intro power_strict_increasing) simp_all
    then have "unat (of_nat (2 ^ (m + 1)) :: u32) = 2 ^ (m + 1)"
      by (subst unat_of_nat) simp
    then show ?thesis by simp
  qed
  ultimately show ?thesis using w(1) by simp
qed

theorem kroundup32_least:
  assumes "1 < x" "x \<le> 2 ^ 31"
  shows "\<exists>k. unat (kroundup32 x) = 2 ^ k \<and> unat x \<le> 2 ^ k \<and> 2 ^ k < 2 * unat x"
proof -
  have x: "1 < unat x" "unat x \<le> 2 ^ 31" "unat (x - 1) = unat x - 1"
    using assms by (auto simp: word_less_nat_alt word_le_nat_alt unat_minus_one unat_sub)
  then have "1 \<le> unat (x - 1)" by simp
  from ex_power_ivl1 [OF order_refl this] obtain m where m: "2 ^ m \<le> unat (x - 1)" "unat (x - 1) < 2 ^ (m + 1)"
    by blast
  have "(2 :: nat) ^ m < 2 ^ 31" using m(1) x by linarith
  then have "m < 31" by (rule power_less_imp_less_exp [rotated]) simp
  then have "unat (kroundup32 x) = 2 ^ (m + 1)" using kroundup32_pow m by blast
  moreover have "unat x \<le> 2 ^ (m + 1)" "2 ^ (m + 1) < 2 * unat x" using m x by simp_all
  ultimately show ?thesis by blast
qed

theorem kroundup32_least_witness: "unat (kroundup32 5) = 8"
proof -
  obtain k where k: "unat (kroundup32 5) = 2 ^ k" "unat (5 :: u32) \<le> 2 ^ k" "2 ^ k < 2 * unat (5 :: u32)"
    using kroundup32_least [of 5] by auto
  then have "4 < (2 :: nat) ^ k" "(2 :: nat) ^ k < 2 ^ 4" by simp_all
  then have "2 < k" "k < 4" using power_less_imp_less_exp [of 2 2 k] power_less_imp_less_exp [of 2 k 4] by simp_all
  then have "k = 3" by linarith
  then show ?thesis using k(1) by simp
qed

section \<open>The in-place rehash\<close>

text \<open>
  During the rehash a bucket belongs to the old table (\<open>old_live\<close>), to the new one
  (\<open>new_live\<close>) or to none; both share the arrays. \<open>entry\<close> is what a bucket holds.
\<close>

definition old_live :: "('k, 'v) khash \<Rightarrow> nat set" where
  "old_live h = {j. j < n_buckets h \<and> live h j}"

definition new_live :: "nat \<Rightarrow> u32 list \<Rightarrow> nat set" where
  "new_live m nf = {i. i < m \<and> \<not> ac_isempty nf i}"

definition entry :: "('k, 'v) khash \<Rightarrow> nat \<Rightarrow> 'k option \<times> 'v option" where
  "entry h j = (keys h ! j, vals h ! j)"

definition rehash_shape :: "nat \<Rightarrow> nat \<Rightarrow> ('k, 'v) khash \<Rightarrow> u32 list \<Rightarrow> bool" where
  "rehash_shape k l h nf \<longleftrightarrow> 2 \<le> k \<and> length (keys h) = l \<and> length (vals h) = l \<and> n_buckets h \<le> l \<and> 2 ^ k \<le> l
     \<and> length nf = ac_fsize (2 ^ k) \<and> (\<forall>j < n_buckets h. j div 16 < length (flags h))"

definition new_ok :: "('k \<Rightarrow> u32) \<Rightarrow> nat \<Rightarrow> ('k, 'v) khash \<Rightarrow> u32 list \<Rightarrow> bool" where
  "new_ok f m h nf \<longleftrightarrow> (\<forall>i < m. \<not> ac_isdel nf i)
     \<and> (\<forall>i \<in> new_live m nf. \<exists>x. keys h ! i = Some x \<and> on_path m (\<lambda>j. \<not> ac_isempty nf j) (unat (f x)) i)"

definition rehash_inv ::
  "('k \<Rightarrow> u32) \<Rightarrow> nat \<Rightarrow> nat \<Rightarrow> ('k option \<times> 'v option) set \<Rightarrow> ('k option \<times> 'v option) set
    \<Rightarrow> ('k, 'v) khash \<Rightarrow> u32 list \<Rightarrow> bool" where
  "rehash_inv f k l M pend h nf \<longleftrightarrow> rehash_shape k l h nf \<and> new_ok f (2 ^ k) h nf
     \<and> old_live h \<inter> new_live (2 ^ k) nf = {}
     \<and> inj_on (entry h) (old_live h \<union> new_live (2 ^ k) nf)
     \<and> entry h ` (old_live h \<union> new_live (2 ^ k) nf) \<inter> pend = {}
     \<and> entry h ` (old_live h \<union> new_live (2 ^ k) nf) \<union> pend = M"

definition entries_ok :: "nat \<Rightarrow> ('k option \<times> 'v option) set \<Rightarrow> bool" where
  "entries_ok k M \<longleftrightarrow> finite M \<and> card M < 2 ^ k \<and> (\<forall>e \<in> M. fst e \<noteq> None)"

lemma place_loop_stop:
  assumes m: "m < 2 ^ k" "\<And>t. t < m \<Longrightarrow> \<not> ac_isempty nf (pos (2 ^ k) a t)" "ac_isempty nf (pos (2 ^ k) a m)"
  shows "s \<le> m \<Longrightarrow> m - s < fuel \<Longrightarrow> place_loop fuel nf (2 ^ k - 1) (pos (2 ^ k) a s) s = Some (pos (2 ^ k) a m)"
proof (induction fuel arbitrary: s)
  case (Suc fuel)
  show ?case
  proof (cases "s = m")
    case False
    then have "s < m" "s + 1 \<le> m" "m - (s + 1) < fuel" using Suc.prems by linarith+
    then show ?thesis
      using m(2) Suc.IH [of "s + 1"] pos_Suc [of "2 ^ k" a s] by (simp add: and_mask_simps)
  qed (use m(3) in simp)
qed simp

lemma place_loop_spec:
  assumes "\<exists>e < 2 ^ k. ac_isempty nf e"
  shows "\<exists>i < 2 ^ k. place_loop (2 ^ k) nf (2 ^ k - 1) (a AND (2 ^ k - 1)) 0 = Some i \<and> ac_isempty nf i
    \<and> on_path (2 ^ k) (\<lambda>j. \<not> ac_isempty nf j) a i"
proof -
  obtain e where e: "e < 2 ^ k" "ac_isempty nf e" using assms by blast
  obtain s where s: "s < 2 ^ k" "pos (2 ^ k) a s = e" using pos_surj [OF e(1)] by blast
  define m where "m = (LEAST s. ac_isempty nf (pos (2 ^ k) a s))"
  have ex: "ac_isempty nf (pos (2 ^ k) a s)" using e s by simp
  have m: "m < 2 ^ k" "ac_isempty nf (pos (2 ^ k) a m)"
    using Least_le [of "\<lambda>s. ac_isempty nf (pos (2 ^ k) a s)", OF ex] s(1)
      LeastI [of "\<lambda>s. ac_isempty nf (pos (2 ^ k) a s)", OF ex] by (simp_all add: m_def)
  have before: "\<not> ac_isempty nf (pos (2 ^ k) a t)" if "t < m" for t
    using not_less_Least that by (auto simp: m_def)
  have "place_loop (2 ^ k) nf (2 ^ k - 1) (a AND (2 ^ k - 1)) 0 = Some (pos (2 ^ k) a m)"
    using place_loop_stop [OF m(1) before m(2), of 0 "2 ^ k"] m(1) by (simp add: and_mask_simps pos_def)
  then show ?thesis
    using m before by (intro exI [of _ "pos (2 ^ k) a m"]) (auto simp: pos_less on_path_def)
qed

lemma new_has_empty:
  assumes inv: "rehash_inv f k l M pend h nf" and ok: "entries_ok k M"
  shows "\<exists>e < 2 ^ k. ac_isempty nf e"
proof (rule ccontr)
  assume "\<not> ?thesis"
  then have full: "new_live (2 ^ k) nf = {..<2 ^ k}" by (auto simp: new_live_def)
  have "inj_on (entry h) (new_live (2 ^ k) nf)" "entry h ` new_live (2 ^ k) nf \<subseteq> M"
    using inv by (auto simp: rehash_inv_def intro: inj_on_subset)
  then have "card (new_live (2 ^ k) nf) \<le> card M"
    using ok by (auto simp: entries_ok_def intro: card_inj_on_le)
  then show False using full ok by (simp add: entries_ok_def)
qed

lemma finite_old_live [simp]: "finite (old_live h)"
  by (simp add: old_live_def)

text \<open>Placing the pending element at \<open>i\<close>; \<open>kicked\<close> is what it displaces.\<close>

lemma new_live_place:
  assumes "i div 16 < length nf" "i < m"
  shows "new_live m (ac_set_isempty_false nf i) = insert i (new_live m nf)"
  using assms by (auto simp: new_live_def flag_updates)

lemma entry_upd:
  assumes "h' = h\<lparr>keys := (keys h)[i := key], vals := (vals h)[i := val], flags := fl\<rparr>"
    and "i < length (keys h)" "i < length (vals h)"
  shows "entry h' j = (if j = i then (key, val) else entry h j)"
  using assms by (simp add: entry_def nth_list_update)

lemma inj_replace:
  assumes "inj_on g U" "e \<notin> g ` U" "\<And>j. g' j = (if j = i then e else g j)"
  shows "inj_on g' (insert i U)" "g' ` insert i U = insert e (g ` (U - {i}))"
  using assms by (auto simp: inj_on_def)

lemma place_element:
  assumes inv: "rehash_inv f k l M {(key, val)} h nf" and ok: "entries_ok k M"
    and i: "i < 2 ^ k" "ac_isempty nf i" "on_path (2 ^ k) (\<lambda>j. \<not> ac_isempty nf j) (unat (f (the key))) i"
    and h': "h' = h\<lparr>keys := (keys h)[i := key], vals := (vals h)[i := val], flags := fl\<rparr>"
    and fl: "length fl = length (flags h)" "old_live h' = old_live h - {i}"
  shows "rehash_inv f k l M (if i \<in> old_live h then {entry h i} else {}) h' (ac_set_isempty_false nf i)"
proof -
  let ?O = "old_live h" and ?N = "new_live (2 ^ k) nf" and ?nf = "ac_set_isempty_false nf i"
  have shape: "rehash_shape k l h nf" using inv by (simp add: rehash_inv_def)
  then have len: "i < length (keys h)" "i < length (vals h)" "i div 16 < length nf"
    using i(1) pow2_covers by (auto simp: rehash_shape_def)
  have N: "new_live (2 ^ k) ?nf = insert i ?N" by (rule new_live_place [OF len(3) i(1)])
  have iN: "i \<notin> ?N" using i(2) by (simp add: new_live_def)
  have e: "entry h' j = (if j = i then (key, val) else entry h j)" for j by (rule entry_upd [OF h' len(1,2)])
  have U: "old_live h' \<union> new_live (2 ^ k) ?nf = insert i (?O \<union> ?N)" using fl(2) N by auto
  have inj: "inj_on (entry h) (?O \<union> ?N)" and fresh: "(key, val) \<notin> entry h ` (?O \<union> ?N)"
    and M: "entry h ` (?O \<union> ?N) \<union> {(key, val)} = M" and dis: "?O \<inter> ?N = {}"
    using inv by (auto simp: rehash_inv_def)
  note rep = inj_replace [OF inj fresh e]
  have "(key, val) \<in> M" using M by blast
  then obtain x where x: "key = Some x" using ok by (auto simp: entries_ok_def)
  have "rehash_shape k l h' ?nf" using shape fl(1) by (simp add: rehash_shape_def h')
  moreover have "new_ok f (2 ^ k) h' ?nf"
    unfolding new_ok_def N
  proof (intro conjI allI impI ballI)
    show "\<not> ac_isdel ?nf j" if "j < 2 ^ k" for j
      using that inv len(3) by (simp add: flag_updates rehash_inv_def new_ok_def)
    fix j assume j: "j \<in> insert i ?N"
    have old: "\<exists>y. keys h ! j = Some y \<and> on_path (2 ^ k) (\<lambda>j. \<not> ac_isempty nf j) (unat (f y)) j" if "j \<noteq> i"
      using inv j that by (auto simp: rehash_inv_def new_ok_def)
    have mono: "on_path (2 ^ k) (\<lambda>j. \<not> ac_isempty ?nf j) a j"
      if "on_path (2 ^ k) (\<lambda>j. \<not> ac_isempty nf j) a j" for a
      using that by (rule on_path_mono) (simp add: len(3) flag_updates)
    show "\<exists>y. keys h' ! j = Some y \<and> on_path (2 ^ k) (\<lambda>j. \<not> ac_isempty ?nf j) (unat (f y)) j"
      using old mono i(3) x len(1) by (cases "j = i") (auto simp: h')
  qed
  moreover have "old_live h' \<inter> new_live (2 ^ k) ?nf = {}" using fl(2) N dis by auto
  moreover have "inj_on (entry h') (old_live h' \<union> new_live (2 ^ k) ?nf)" unfolding U by (rule rep(1))
  moreover have img: "entry h' ` (old_live h' \<union> new_live (2 ^ k) ?nf) = insert (key, val) (entry h ` (?O \<union> ?N - {i}))"
    unfolding U by (rule rep(2))
  moreover have "insert (key, val) (entry h ` (?O \<union> ?N - {i})) \<inter> (if i \<in> ?O then {entry h i} else {}) = {}"
    using fresh inj iN by (auto simp: inj_on_def)
  moreover have "insert (key, val) (entry h ` (?O \<union> ?N - {i})) \<union> (if i \<in> ?O then {entry h i} else {}) = M"
    using M iN by auto
  ultimately show ?thesis by (simp add: rehash_inv_def)
qed

lemma kick_loop_spec:
  assumes ok: "entries_ok k M"
  shows "rehash_inv f k l M {(key, val)} h nf \<Longrightarrow> card (old_live h) < fuel \<Longrightarrow>
    \<exists>h' nf'. kick_loop fuel f (2 ^ k) key val (h, nf) = Some (h', nf') \<and> rehash_inv f k l M {} h' nf'
      \<and> old_live h' \<subseteq> old_live h \<and> n_buckets h' = n_buckets h \<and> kh_size h' = kh_size h"
proof (induction fuel arbitrary: key val h nf)
  case (Suc fuel)
  note inv = Suc.prems(1)
  obtain i where i: "i < 2 ^ k" "ac_isempty nf i"
      "place_loop (2 ^ k) nf (2 ^ k - 1) (unat (f (the key)) AND (2 ^ k - 1)) 0 = Some i"
      "on_path (2 ^ k) (\<lambda>j. \<not> ac_isempty nf j) (unat (f (the key))) i"
    using place_loop_spec [OF new_has_empty [OF inv ok]] by blast
  have shape: "rehash_shape k l h nf" using inv by (simp add: rehash_inv_def)
  show ?case
  proof (cases "i \<in> old_live h")
    case True
    let ?fl = "ac_set_isdel_true (flags h) i"
    define h1 where "h1 = h\<lparr>keys := (keys h)[i := key], vals := (vals h)[i := val], flags := ?fl\<rparr>"
    have cover: "i div 16 < length (flags h)" using True shape by (simp add: old_live_def rehash_shape_def)
    have ol: "old_live h1 = old_live h - {i}"
      using cover by (auto simp: old_live_def h1_def live_def flag_updates)
    have "rehash_inv f k l M {entry h i} h1 (ac_set_isempty_false nf i)"
      using place_element [OF inv ok i(1,2,4) h1_def _ ol] True by simp
    moreover have "card (old_live h1) < fuel"
      using Suc.prems(2) True ol by (metis card_Diff1_less finite_old_live less_Suc_eq_le order_less_le_trans)
    ultimately obtain h' nf' where "kick_loop fuel f (2 ^ k) (keys h ! i) (vals h ! i) (h1, ac_set_isempty_false nf i)
        = Some (h', nf')" "rehash_inv f k l M {} h' nf'" "old_live h' \<subseteq> old_live h1"
      "n_buckets h' = n_buckets h1" "kh_size h' = kh_size h1"
      using Suc.IH [of "keys h ! i" "vals h ! i" h1 "ac_set_isempty_false nf i"] by (auto simp: entry_def)
    then show ?thesis
      using i(3) True ol by (auto simp: h1_def old_live_def iseither_live)
  next
    case False
    define h1 where "h1 = h\<lparr>keys := (keys h)[i := key], vals := (vals h)[i := val], flags := flags h\<rparr>"
    have ol: "old_live h1 = old_live h - {i}"
      using False by (auto simp: old_live_def h1_def live_def)
    have "rehash_inv f k l M {} h1 (ac_set_isempty_false nf i)"
      using place_element [OF inv ok i(1,2,4) h1_def _ ol] False by simp
    then show ?thesis
      using i(3) False ol by (auto simp: h1_def old_live_def iseither_live)
  qed
qed simp

lemma pick_element:
  assumes inv: "rehash_inv f k l M {} h nf" and j: "j \<in> old_live h"
    and h1: "h1 = h\<lparr>flags := ac_set_isdel_true (flags h) j\<rparr>"
  shows "rehash_inv f k l M {(keys h ! j, vals h ! j)} h1 nf" "old_live h1 = old_live h - {j}"
proof -
  have cover: "j div 16 < length (flags h)"
    using inv j by (simp add: rehash_inv_def rehash_shape_def old_live_def)
  show ol: "old_live h1 = old_live h - {j}"
    using cover by (auto simp: old_live_def h1 live_def flag_updates)
  have e: "entry h1 = entry h" by (simp add: entry_def h1 fun_eq_iff)
  let ?U = "old_live h \<union> new_live (2 ^ k) nf"
  have jN: "j \<notin> new_live (2 ^ k) nf" using inv j by (auto simp: rehash_inv_def)
  have U: "old_live h1 \<union> new_live (2 ^ k) nf = ?U - {j}" using ol jN by auto
  have inj: "inj_on (entry h) ?U" and M: "entry h ` ?U = M" using inv by (auto simp: rehash_inv_def)
  have "rehash_shape k l h1 nf" "new_ok f (2 ^ k) h1 nf" "old_live h1 \<inter> new_live (2 ^ k) nf = {}"
    using inv ol by (auto simp: rehash_inv_def rehash_shape_def new_ok_def h1)
  moreover have "inj_on (entry h) (?U - {j})" using inj by (rule inj_on_subset) auto
  moreover have "entry h ` (?U - {j}) \<inter> {entry h j} = {}" using inj j by (auto simp: inj_on_def)
  moreover have "entry h ` (?U - {j}) \<union> {entry h j} = M" using M j by auto
  ultimately show "rehash_inv f k l M {(keys h ! j, vals h ! j)} h1 nf"
    unfolding rehash_inv_def U e by (simp add: entry_def)
qed

lemma rehash_loop_spec:
  assumes ok: "entries_ok k M"
  shows "rehash_inv f k l M {} h nf \<Longrightarrow> set js \<subseteq> {..<n_buckets h} \<Longrightarrow>
    \<exists>h' nf'. rehash_loop f (2 ^ k) js (h, nf) = Some (h', nf') \<and> rehash_inv f k l M {} h' nf'
      \<and> old_live h' \<subseteq> old_live h - set js \<and> n_buckets h' = n_buckets h \<and> kh_size h' = kh_size h"
proof (induction js arbitrary: h nf)
  case (Cons j js)
  show ?case
  proof (cases "live h j")
    case False
    then show ?thesis
      using Cons.IH [OF Cons.prems(1)] Cons.prems(2) by (auto simp: iseither_live old_live_def)
  next
    case True
    then have j: "j \<in> old_live h" using Cons.prems(2) by (simp add: old_live_def)
    define h1 where "h1 = h\<lparr>flags := ac_set_isdel_true (flags h) j\<rparr>"
    note pick = pick_element [OF Cons.prems(1) j h1_def]
    have "card (old_live h) \<le> n_buckets h"
      using card_mono [of "{..<n_buckets h}" "old_live h"] by (auto simp: old_live_def)
    then have "card (old_live h1) < n_buckets h + 1"
      using pick(2) card_mono [of "old_live h" "old_live h1"] by auto
    from kick_loop_spec [OF ok pick(1) this] obtain h2 nf2 where kick:
      "kick_loop (n_buckets h + 1) f (2 ^ k) (keys h ! j) (vals h ! j) (h1, nf) = Some (h2, nf2)"
      "rehash_inv f k l M {} h2 nf2" "old_live h2 \<subseteq> old_live h1" "n_buckets h2 = n_buckets h1"
      "kh_size h2 = kh_size h1" by blast
    have "set js \<subseteq> {..<n_buckets h2}" using Cons.prems(2) kick(4) by (simp add: h1_def)
    from Cons.IH [OF kick(2) this] obtain h' nf' where rest:
      "rehash_loop f (2 ^ k) js (h2, nf2) = Some (h', nf')" "rehash_inv f k l M {} h' nf'"
      "old_live h' \<subseteq> old_live h2 - set js" "n_buckets h' = n_buckets h2" "kh_size h' = kh_size h2" by blast
    have "rehash_loop f (2 ^ k) (j # js) (h, nf) = Some (h', nf')"
      using True kick(1) rest(1) by (simp add: iseither_live h1_def)
    then show ?thesis using rest kick pick(2) by (auto simp: h1_def)
  qed
qed simp

text \<open>The content of a table.\<close>

definition kh_entries :: "('k, 'v) khash \<Rightarrow> ('k option \<times> 'v option) set" where
  "kh_entries h = entry h ` old_live h"

definition all_ok :: alloc3 where
  "all_ok = \<lparr>flags_ok = True, keys_ok = True, vals_ok = True\<rparr>"

lemma wf_facts:
  assumes "kh_wf f h"
  shows "length (keys h) = n_buckets h" "length (vals h) = n_buckets h"
    "\<forall>j < n_buckets h. j div 16 < length (flags h)" "kh_size h = card (old_live h)"
    "inj_on (entry h) (old_live h)" "inj_on fst (kh_entries h)" "\<forall>e \<in> kh_entries h. fst e \<noteq> None"
    "kh_size h = card (kh_entries h)"
proof -
  have *: "length (keys h) = n_buckets h \<and> length (vals h) = n_buckets h
    \<and> (\<forall>j < n_buckets h. j div 16 < length (flags h)) \<and> kh_size h = card (old_live h)"
    and some: "\<forall>i \<in> old_live h. \<exists>x. keys h ! i = Some x"
    and inj: "\<forall>i \<in> old_live h. \<forall>j \<in> old_live h. keys h ! i = keys h ! j \<longrightarrow> i = j"
  proof (atomize (full), cases "kh_empty h")
    case True
    then show "(length (keys h) = n_buckets h \<and> length (vals h) = n_buckets h
        \<and> (\<forall>j < n_buckets h. j div 16 < length (flags h)) \<and> kh_size h = card (old_live h))
      \<and> (\<forall>i \<in> old_live h. \<exists>x. keys h ! i = Some x)
      \<and> (\<forall>i \<in> old_live h. \<forall>j \<in> old_live h. keys h ! i = keys h ! j \<longrightarrow> i = j)"
      by (simp add: kh_empty_def old_live_def)
  next
    case False
    then obtain k where k: "kh_shape k h" "kh_keys_ok f (2 ^ k) h" using assms by (auto simp: kh_wf_def)
    show "(length (keys h) = n_buckets h \<and> length (vals h) = n_buckets h
        \<and> (\<forall>j < n_buckets h. j div 16 < length (flags h)) \<and> kh_size h = card (old_live h))
      \<and> (\<forall>i \<in> old_live h. \<exists>x. keys h ! i = Some x)
      \<and> (\<forall>i \<in> old_live h. \<forall>j \<in> old_live h. keys h ! i = keys h ! j \<longrightarrow> i = j)"
    proof (intro conjI ballI)
      show "\<exists>x. keys h ! i = Some x" if "i \<in> old_live h" for i
        using that k by (auto simp: kh_shape_def kh_keys_ok_def old_live_def)
    qed (use k flags_cover [OF k(1)] in \<open>auto simp: kh_shape_def kh_keys_ok_def old_live_def\<close>)
  qed
  from * show 1: "length (keys h) = n_buckets h" "length (vals h) = n_buckets h"
    "\<forall>j < n_buckets h. j div 16 < length (flags h)" "kh_size h = card (old_live h)"
    by simp_all
  show 2: "inj_on (entry h) (old_live h)"
    using inj by (auto simp: entry_def intro!: inj_onI)
  show "inj_on fst (kh_entries h)"
  proof (rule inj_onI)
    fix a b assume "a \<in> kh_entries h" "b \<in> kh_entries h" "fst a = fst b"
    then show "a = b" using inj unfolding kh_entries_def entry_def by fastforce
  qed
  show "\<forall>e \<in> kh_entries h. fst e \<noteq> None" using some by (auto simp: kh_entries_def entry_def)
  show "kh_size h = card (kh_entries h)" using 1(4) card_image [OF 2] by (simp add: kh_entries_def)
qed

lemma rehash_start:
  assumes wf: "kh_wf f h" and k: "2 \<le> k" and size: "kh_size h < 2 ^ k"
    and h1: "h1 = (if n_buckets h < 2 ^ k
      then h\<lparr>keys := grow_array (2 ^ k) (keys h), vals := grow_array (2 ^ k) (vals h)\<rparr> else h)"
  shows "rehash_inv f k (max (2 ^ k) (n_buckets h)) (kh_entries h) {} h1 (all_empty (2 ^ k))"
    "entries_ok k (kh_entries h)" "n_buckets h1 = n_buckets h" "kh_size h1 = kh_size h"
proof -
  note facts = wf_facts [OF wf]
  show n: "n_buckets h1 = n_buckets h" "kh_size h1 = kh_size h" by (simp_all add: h1)
  have fin: "finite (kh_entries h)" by (simp add: kh_entries_def)
  show ok: "entries_ok k (kh_entries h)" using facts(7,8) size fin by (simp add: entries_ok_def)
  have none: "new_live (2 ^ k) (all_empty (2 ^ k)) = {}"
    using all_empty_flags(1) pow2_covers [OF k] by (auto simp: new_live_def)
  have old: "old_live h1 = old_live h" by (simp add: h1 old_live_def live_def)
  have e: "entry h1 j = entry h j" if "j \<in> old_live h" for j
    using that facts(1,2) by (simp add: h1 entry_def old_live_def grow_array_def nth_append)
  have "rehash_shape k (max (2 ^ k) (n_buckets h)) h1 (all_empty (2 ^ k))"
    using facts(1-3) k by (auto simp: rehash_shape_def h1 grow_array_def all_empty_def)
  moreover have "new_ok f (2 ^ k) h1 (all_empty (2 ^ k))"
    using all_empty_flags(2) pow2_covers [OF k] none by (auto simp: new_ok_def)
  moreover have "inj_on (entry h1) (old_live h1)"
    using facts(5) e old by (metis (no_types, lifting) inj_on_cong)
  moreover have "entry h1 ` old_live h1 = kh_entries h" using e old by (auto simp: kh_entries_def)
  ultimately show "rehash_inv f k (max (2 ^ k) (n_buckets h)) (kh_entries h) {} h1 (all_empty (2 ^ k))"
    by (simp add: rehash_inv_def none)
qed

lemma rehash_finish:
  assumes inv: "rehash_inv f k l M {} h nf" and emp: "old_live h = {}" and ok: "entries_ok k M"
    and M: "inj_on fst M" and size: "kh_size h = card M" "kh_size h < hash_upper (2 ^ k)"
    and ks: "length ks = 2 ^ k" "length vs = 2 ^ k" "\<And>i. i < 2 ^ k \<Longrightarrow> ks ! i = keys h ! i \<and> vs ! i = vals h ! i"
    and h': "h' = h\<lparr>keys := ks, vals := vs, flags := nf, n_buckets := 2 ^ k, n_occupied := kh_size h,
      upper_bound := hash_upper (2 ^ k)\<rparr>"
  shows "kh_shape k h'" "kh_keys_ok f (2 ^ k) h'" "kh_entries h' = M"
proof -
  have shape: "rehash_shape k l h nf" and new: "new_ok f (2 ^ k) h nf"
    and inj: "inj_on (entry h) (new_live (2 ^ k) nf)" and img: "entry h ` new_live (2 ^ k) nf = M"
    using inv emp by (auto simp: rehash_inv_def)
  have lv: "live h' i \<longleftrightarrow> \<not> ac_isempty nf i" if "i < 2 ^ k" for i
    using new that by (auto simp: h' live_def new_ok_def)
  have ol: "old_live h' = new_live (2 ^ k) nf" using lv by (auto simp: old_live_def new_live_def h')
  have e: "entry h' i = entry h i" if "i < 2 ^ k" for i using ks(3) that by (simp add: entry_def h')
  have keys: "keys h' ! i = keys h ! i" if "i < 2 ^ k" for i using ks(3) that by (simp add: h')
  have card: "card (new_live (2 ^ k) nf) = card M" using card_image [OF inj] img by simp
  have sets: "{i. i < 2 ^ k \<and> live h' i} = new_live (2 ^ k) nf"
    "{i. i < 2 ^ k \<and> \<not> ac_isempty (flags h') i} = new_live (2 ^ k) nf"
    using lv by (auto simp: new_live_def h')
  show "kh_shape k h'"
    unfolding kh_shape_def sets card
    using shape size ks(1,2) by (simp add: h' rehash_shape_def)
  show "kh_entries h' = M"
    using e img ol by (auto simp: kh_entries_def new_live_def)
  show "kh_keys_ok f (2 ^ k) h'"
    unfolding kh_keys_ok_def
  proof (intro conjI allI impI)
    fix i assume "i < 2 ^ k" "live h' i"
    then show "\<exists>x. keys h' ! i = Some x \<and> on_path (2 ^ k) (\<lambda>j. \<not> ac_isempty (flags h') j) (unat (f x)) i"
      using new lv keys by (auto simp: new_ok_def new_live_def h')
  next
    fix i j assume ij: "i < 2 ^ k" "j < 2 ^ k" "live h' i" "live h' j" "keys h' ! i = keys h' ! j"
    then have N: "i \<in> new_live (2 ^ k) nf" "j \<in> new_live (2 ^ k) nf" using lv by (auto simp: new_live_def)
    then have "entry h i \<in> M" "entry h j \<in> M" using img by blast+
    moreover have "fst (entry h i) = fst (entry h j)" using ij keys by (simp add: entry_def)
    ultimately have "entry h i = entry h j" using M by (auto dest: inj_onD)
    then show "i = j" using inj N by (auto dest: inj_onD)
  qed
qed

lemma kh_resize_spec:
  assumes wf: "kh_wf f h" and k: "2 \<le> k" and size: "kh_size h < hash_upper (2 ^ k)"
    and w: "(if unat (kroundup32 w) < 4 then 4 else unat (kroundup32 w)) = 2 ^ k"
  shows "\<exists>h'. kh_resize f all_ok h w = Some (0, h') \<and> kh_shape k h' \<and> kh_keys_ok f (2 ^ k) h'
    \<and> kh_entries h' = kh_entries h \<and> kh_size h' = kh_size h \<and> n_occupied h' = kh_size h"
proof -
  define h1 where "h1 = (if n_buckets h < 2 ^ k
      then h\<lparr>keys := grow_array (2 ^ k) (keys h), vals := grow_array (2 ^ k) (vals h)\<rparr> else h)"
  have "kh_size h < 2 ^ k" using size hash_upper_less [OF four_le_pow [OF k]] by simp
  note start = rehash_start [OF wf k this h1_def]
  obtain h2 nf where loop: "rehash_loop f (2 ^ k) [0..<n_buckets h1] (h1, all_empty (2 ^ k)) = Some (h2, nf)"
    "rehash_inv f k (max (2 ^ k) (n_buckets h)) (kh_entries h) {} h2 nf"
    "old_live h2 \<subseteq> old_live h1 - set [0..<n_buckets h1]" "n_buckets h2 = n_buckets h1" "kh_size h2 = kh_size h1"
  proof -
    have "set [0..<n_buckets h1] \<subseteq> {..<n_buckets h1}" by auto
    from rehash_loop_spec [OF start(2,1) this] show ?thesis using that by blast
  qed
  have emp: "old_live h2 = {}" using loop(3) by (auto simp: old_live_def)
  define ks where "ks = (if n_buckets h2 > 2 ^ k then take (2 ^ k) (keys h2) else keys h2)"
  define vs where "vs = (if n_buckets h2 > 2 ^ k then take (2 ^ k) (vals h2) else vals h2)"
  define h' where "h' = h2\<lparr>keys := ks, vals := vs, flags := nf, n_buckets := 2 ^ k, n_occupied := kh_size h2,
      upper_bound := hash_upper (2 ^ k)\<rparr>"
  have len: "length (keys h2) = max (2 ^ k) (n_buckets h2)" "length (vals h2) = max (2 ^ k) (n_buckets h2)"
    using loop(2,4) start(3) by (simp_all add: rehash_inv_def rehash_shape_def)
  have sz: "kh_size h2 = kh_size h" using loop(5) start(4) by simp
  have cardM: "kh_size h2 = card (kh_entries h)" "inj_on fst (kh_entries h)" "kh_size h2 < hash_upper (2 ^ k)"
    using wf_facts(6,8) [OF wf] sz size by simp_all
  have kv: "length ks = 2 ^ k" "length vs = 2 ^ k"
    "\<And>i. i < 2 ^ k \<Longrightarrow> ks ! i = keys h2 ! i \<and> vs ! i = vals h2 ! i"
    using len by (auto simp: ks_def vs_def)
  note fin = rehash_finish [OF loop(2) emp start(2) cardM(2,1,3) kv h'_def]
  have h2: "(if n_buckets h2 > 2 ^ k
      then h2\<lparr>keys := take (2 ^ k) (keys h2), vals := take (2 ^ k) (vals h2)\<rparr> else h2)
    = h2\<lparr>keys := ks, vals := vs\<rparr>"
    by (simp add: ks_def vs_def)
  have "kh_resize f all_ok h w = Some (0, h')"
    unfolding kh_resize_def Let_def w h1_def [symmetric] loop(1) option.case prod.case h2
    using size by (simp add: all_ok_def h'_def)
  then show ?thesis using fin sz by (simp add: h'_def)
qed

section \<open>Insertion is correct\<close>

lemma unat_pow: "k < 32 \<Longrightarrow> unat (of_nat (2 ^ k) :: u32) = 2 ^ k"
proof -
  assume "k < 32"
  then have "(2 :: nat) ^ k < 2 ^ 32" by (intro power_strict_increasing) simp_all
  then show ?thesis by (subst unat_of_nat) simp
qed

lemma roundup_same:
  assumes "2 \<le> k" "k < 31"
  shows "unat (kroundup32 (of_nat (2 ^ k) - 1)) = 2 ^ k"
proof -
  let ?y = "of_nat (2 ^ k) :: u32"
  have y: "unat ?y = 2 ^ k" using assms by (intro unat_pow) simp
  have four: "(4 :: nat) \<le> 2 ^ k" by (rule four_le_pow [OF assms(1)])
  then have "2 \<le> ?y" using y by (simp add: word_le_nat_alt)
  then have "unat (?y - 2) = 2 ^ k - 2" using y unat_sub [of 2 ?y] by simp
  then have "unat (?y - 1 - 1) = 2 ^ k - 2" by (simp add: diff_diff_eq)
  moreover obtain m where m: "k = m + 1" using assms(1) by (cases k) simp_all
  ultimately show ?thesis
    using kroundup32_pow [of m "?y - 1"] four assms(2) by simp
qed

lemma roundup_next:
  assumes "2 \<le> k" "k < 31"
  shows "unat (kroundup32 (of_nat (2 ^ k) + 1)) = 2 ^ (k + 1)"
  using kroundup32_pow [of k "of_nat (2 ^ k) + 1"] unat_pow [of k] assms by simp

lemma roundup_first: "unat (kroundup32 1) = 1"
  by (simp add: kroundup32_def)

lemma hash_upper_double: "4 \<le> m \<Longrightarrow> hash_upper m < hash_upper (2 * m)"
  unfolding hash_upper_def by linarith

lemma put_room:
  assumes wf: "kh_wf f h" and small: "n_buckets h < 2 ^ 31"
  shows "\<exists>k h1. (if n_occupied h \<ge> upper_bound h then
        (if n_buckets h > 2 * kh_size h then kh_resize f all_ok h (of_nat (n_buckets h) - 1)
         else kh_resize f all_ok h (of_nat (n_buckets h) + 1))
      else Some (0, h)) = Some (0, h1)
    \<and> kh_shape k h1 \<and> kh_keys_ok f (2 ^ k) h1 \<and> kh_entries h1 = kh_entries h \<and> n_occupied h1 < upper_bound h1
    \<and> n_buckets h1 \<le> max (n_buckets h) (max 4 (4 * kh_size h))"
proof (cases "kh_empty h")
  case True
  have "\<exists>h'. kh_resize f all_ok h (of_nat 0 + 1) = Some (0, h') \<and> kh_shape 2 h' \<and> kh_keys_ok f (2 ^ 2) h'
    \<and> kh_entries h' = kh_entries h \<and> kh_size h' = kh_size h \<and> n_occupied h' = kh_size h"
    by (rule kh_resize_spec [OF wf]) (use True roundup_first in \<open>simp_all add: kh_empty_def hash_upper_def\<close>)
  then obtain h' where "kh_resize f all_ok h (of_nat 0 + 1) = Some (0, h')" "kh_shape 2 h'"
    "kh_keys_ok f (2 ^ 2) h'" "kh_entries h' = kh_entries h" "n_occupied h' = kh_size h" by blast
  moreover have "kh_size h < upper_bound h'"
    using True \<open>kh_shape 2 h'\<close> by (simp add: kh_shape_def hash_upper_def kh_empty_def)
  ultimately show ?thesis
    using True by (intro exI [of _ 2] exI [of _ h']) (simp add: kh_empty_def kh_shape_def)
next
  case False
  then obtain k where k: "kh_shape k h" "kh_keys_ok f (2 ^ k) h" using wf by (auto simp: kh_wf_def)
  then have n: "n_buckets h = 2 ^ k" "2 \<le> k" "upper_bound h = hash_upper (2 ^ k)" by (simp_all add: kh_shape_def)
  have k31: "k < 31" using small n(1) by (metis power_less_imp_less_exp one_less_numeral_iff semiring_norm(76))
  have four: "(4 :: nat) \<le> 2 ^ k" by (rule four_le_pow [OF n(2)])
  have occ: "kh_size h \<le> n_occupied h"
    using k(1) by (auto simp: kh_shape_def live_def intro!: card_mono)
  show ?thesis
  proof (cases "n_occupied h < upper_bound h")
    case True
    then show ?thesis using k by (intro exI [of _ k] exI [of _ h]) simp
  next
    case full: False
    show ?thesis
    proof (cases "n_buckets h > 2 * kh_size h")
      case True
      have size: "kh_size h < hash_upper (2 ^ k)"
        using True n(1) four by (simp add: hash_upper_def)
      obtain h' where "kh_resize f all_ok h (of_nat (n_buckets h) - 1) = Some (0, h')" "kh_shape k h'"
        "kh_keys_ok f (2 ^ k) h'" "kh_entries h' = kh_entries h" "n_occupied h' = kh_size h"
        using kh_resize_spec [OF wf n(2) size, of "of_nat (n_buckets h) - 1"] roundup_same [OF n(2) k31] four n(1)
        by auto
      then show ?thesis
        using True full size n(1) by (intro exI [of _ k] exI [of _ h']) (simp add: kh_shape_def)
    next
      case less: False
      have size: "kh_size h < hash_upper (2 ^ (k + 1))"
        using occ hash_upper_double [OF four] k(1) by (simp add: kh_shape_def)
      obtain h' where "kh_resize f all_ok h (of_nat (n_buckets h) + 1) = Some (0, h')" "kh_shape (k + 1) h'"
        "kh_keys_ok f (2 ^ (k + 1)) h'" "kh_entries h' = kh_entries h" "n_occupied h' = kh_size h"
        using kh_resize_spec [OF wf _ size, of "of_nat (n_buckets h) + 1"] roundup_next [OF n(2) k31] four n
        by auto
      then show ?thesis
        using less full size n(1) by (intro exI [of _ "k + 1"] exI [of _ h']) (auto simp: kh_shape_def)
    qed
  qed
qed

lemma entry_eqI: "i < n_buckets h \<Longrightarrow> live h i \<Longrightarrow> entry h i \<in> kh_entries h"
  by (simp add: kh_entries_def old_live_def)

lemma kh_put_spec:
  assumes wf: "kh_wf f h" and small: "n_buckets h < 2 ^ 31"
  shows "\<exists>ret i h'. kh_put f all_ok h x = Some (ret, i, h') \<and> 0 \<le> ret \<and> kh_wf f h'
    \<and> i < n_buckets h' \<and> live h' i \<and> keys h' ! i = Some x
    \<and> (if ret = 0 then kh_entries h' = kh_entries h \<and> entry h' i \<in> kh_entries h
       else (\<forall>v. (Some x, v) \<notin> kh_entries h) \<and> kh_entries h' = insert (entry h' i) (kh_entries h))
    \<and> n_buckets h' \<le> max (n_buckets h) (max 4 (4 * kh_size h))"
proof -
  obtain k h1 where room: "(if n_occupied h \<ge> upper_bound h then
        (if n_buckets h > 2 * kh_size h then kh_resize f all_ok h (of_nat (n_buckets h) - 1)
         else kh_resize f all_ok h (of_nat (n_buckets h) + 1))
      else Some (0, h)) = Some (0, h1)"
    and h1: "kh_shape k h1" "kh_keys_ok f (2 ^ k) h1" "kh_entries h1 = kh_entries h" "n_occupied h1 < upper_bound h1"
      "n_buckets h1 \<le> max (n_buckets h) (max 4 (4 * kh_size h))"
    using put_room [OF wf small] by blast
  have n: "n_buckets h1 = 2 ^ k" using h1(1) by (simp add: kh_shape_def)
  have len: "length (keys h1) = 2 ^ k" using h1(1) by (simp add: kh_shape_def)
  obtain i where i: "i < 2 ^ k" "put_index f h1 x = Some i"
      "on_path (2 ^ k) (\<lambda>j. \<not> ac_isempty (flags h1) j) (unat (f x)) i"
      "live h1 i \<Longrightarrow> keys h1 ! i = Some x"
      "\<not> live h1 i \<Longrightarrow> \<forall>j < 2 ^ k. live h1 j \<longrightarrow> keys h1 ! j \<noteq> Some x"
    using put_index_spec [OF h1(1,2), of x] by blast
  have put: "kh_put f all_ok h x = Some (put_at_index h1 x i)"
    unfolding kh_put_def Let_def room using i(2) by simp
  show ?thesis
  proof (cases "live h1 i")
    case True
    then have "kh_put f all_ok h x = Some (0, i, h1)" using put by (simp add: put_at_index_cases)
    moreover have "kh_wf f h1" using h1 by (auto simp: kh_wf_def)
    ultimately show ?thesis using i True n h1(3,5) entry_eqI [of i h1] by auto
  next
    case False
    define h' where "h' = h1\<lparr>keys := (keys h1)[i := Some x], flags := ac_set_isboth_false (flags h1) i,
      kh_size := kh_size h1 + 1, n_occupied := n_occupied h1 + (if ac_isempty (flags h1) i then 1 else 0)\<rparr>"
    note fill = fill_bucket [OF h1(1,2) i(1) False i(3) i(5) [OF False] h1(4) h'_def]
    obtain r where r: "kh_put f all_ok h x = Some (r, i, h')" "0 < r"
    proof (rule that)
      show "kh_put f all_ok h x = Some (if ac_isempty (flags h1) i then 1 else 2, i, h')"
        using put False unfolding h'_def by (simp add: put_at_index_cases)
    qed simp
    have n': "n_buckets h' = 2 ^ k" using fill(1) by (simp add: kh_shape_def)
    have wf': "kh_wf f h'" using fill by (auto simp: kh_wf_def)
    have ol: "old_live h' = insert i (old_live h1)"
      using fill(3) n n' i(1) by (auto simp: old_live_def)
    have e: "entry h' j = entry h1 j" if "j \<in> old_live h1" for j
      using that False by (cases "i = j") (auto simp: entry_def h'_def old_live_def)
    have "kh_entries h' = insert (entry h' i) (kh_entries h)"
      using e h1(3) by (auto simp: kh_entries_def ol image_iff)
    moreover have "\<forall>v. (Some x, v) \<notin> kh_entries h1"
      using i(5) [OF False] n by (auto simp: kh_entries_def old_live_def entry_def)
    then have "\<forall>v. (Some x, v) \<notin> kh_entries h" by (simp only: h1(3) simp_thms)
    moreover have "keys h' ! i = Some x" using i(1) len by (simp add: h'_def)
    ultimately show ?thesis
      using r wf' fill(3) [OF i(1)] i(1) n n' h1(5) by (intro exI [of _ r] exI [of _ i] exI [of _ h']) auto
  qed
qed

section \<open>Deletion is correct\<close>

lemma kh_del_spec:
  assumes wf: "kh_wf f h" and i: "i < n_buckets h" "live h i"
  shows "kh_wf f (kh_del h i)" "kh_entries (kh_del h i) = kh_entries h - {entry h i}"
proof -
  obtain k where k: "kh_shape k h" "kh_keys_ok f (2 ^ k) h"
    using wf i by (auto simp: kh_wf_def kh_empty_def)
  have n: "n_buckets h = 2 ^ k" using k(1) by (simp add: kh_shape_def)
  note cover = flags_cover [OF k(1), of i]
  define h' where "h' = kh_del h i"
  have h': "h' = h\<lparr>flags := ac_set_isdel_true (flags h) i, kh_size := kh_size h - 1\<rparr>"
    using i by (simp add: h'_def kh_del_def iseither_live)
  have lv: "live h' j \<longleftrightarrow> j \<noteq> i \<and> live h j" for j
    using cover i n by (auto simp: h' live_def flag_updates)
  have emp: "ac_isempty (flags h') j = ac_isempty (flags h) j" for j
    using cover i n by (simp add: h' flag_updates)
  have sets: "{j. j < 2 ^ k \<and> live h' j} = {j. j < 2 ^ k \<and> live h j} - {i}" using lv by auto
  have "i \<in> {j. j < 2 ^ k \<and> live h j}" using i n by simp
  then have "card {j. j < 2 ^ k \<and> live h' j} = card {j. j < 2 ^ k \<and> live h j} - 1"
    unfolding sets by (rule card_Diff_singleton)
  then have shape: "kh_shape k h'" using k(1) emp by (simp add: kh_shape_def) (simp add: h')
  have "kh_keys_ok f (2 ^ k) h'" using k(2) lv emp by (simp add: kh_keys_ok_def) (simp add: h')
  with shape show "kh_wf f (kh_del h i)" by (auto simp: kh_wf_def h'_def)
  have ol: "old_live h' = old_live h - {i}" using lv by (auto simp: old_live_def h')
  have e: "entry h' = entry h" by (simp add: entry_def h' fun_eq_iff)
  have "i \<in> old_live h" using i by (simp add: old_live_def)
  then have "entry h ` (old_live h - {i}) = kh_entries h - {entry h i}"
    using wf_facts(5) [OF wf] by (auto simp: kh_entries_def inj_on_def)
  then show "kh_entries (kh_del h i) = kh_entries h - {entry h i}"
    by (simp add: kh_entries_def h'_def [symmetric] ol e)
qed

lemma kh_init_wf: "kh_wf f kh_init" "kh_entries kh_init = {}"
  by (simp_all add: kh_wf_def kh_init_def kh_empty_def kh_entries_def old_live_def)

lemma kh_clear_wf:
  assumes "kh_wf f h"
  shows "kh_wf f (kh_clear h)" "kh_entries (kh_clear h) = {}"
proof -
  have "kh_wf f (kh_clear h) \<and> old_live (kh_clear h) = {}"
  proof (cases "kh_empty h")
    case True
    then show ?thesis by (simp add: kh_clear_def kh_wf_def kh_empty_def old_live_def)
  next
    case False
    then obtain k where k: "kh_shape k h" using assms by (auto simp: kh_wf_def)
    then have h': "kh_clear h = h\<lparr>flags := all_empty (2 ^ k), kh_size := 0, n_occupied := 0\<rparr>"
    proof -
      have "0 div 16 < length (flags h)" using k by (intro flags_cover) simp_all
      then have "flags h \<noteq> []" by auto
      then show ?thesis using k by (simp add: kh_clear_def kh_shape_def)
    qed
    have "ac_isempty (all_empty (2 ^ k)) i" if "i < 2 ^ k" for i
      using that k pow2_covers all_empty_flags(1) by (auto simp: kh_shape_def)
    then have emp: "ac_isempty (flags (kh_clear h)) i" if "i < 2 ^ k" for i using that h' by simp
    have sets: "{i. i < 2 ^ k \<and> live (kh_clear h) i} = {}"
      "{i. i < 2 ^ k \<and> \<not> ac_isempty (flags (kh_clear h)) i} = {}" using emp by (auto simp: live_def)
    have "kh_shape k (kh_clear h)"
      unfolding kh_shape_def sets using k by (simp add: h' kh_shape_def all_empty_def)
    moreover have "kh_keys_ok f (2 ^ k) (kh_clear h)" using sets by (auto simp: kh_keys_ok_def)
    moreover have "n_buckets (kh_clear h) = 2 ^ k" using k h' by (simp add: kh_shape_def)
    ultimately show ?thesis using sets by (auto simp: kh_wf_def old_live_def)
  qed
  then show "kh_wf f (kh_clear h)" "kh_entries (kh_clear h) = {}" by (simp_all add: kh_entries_def)
qed

section \<open>The table as a map\<close>

text \<open>
  The idioms of the callers: read \<open>kh_value\<close> at the result of \<open>kh_get\<close>, assign it at
  the result of \<open>kh_put\<close>, delete at the result of \<open>kh_get\<close>.
\<close>

definition kh_lookup :: "('k \<Rightarrow> u32) \<Rightarrow> ('k, 'v) khash \<Rightarrow> 'k \<Rightarrow> 'v option" where
  "kh_lookup f h x =
     (case kh_get f h x of None \<Rightarrow> None
      | Some k \<Rightarrow> if k = n_buckets h then None else vals h ! k)"

definition kh_store :: "('k \<Rightarrow> u32) \<Rightarrow> ('k, 'v) khash \<Rightarrow> 'k \<Rightarrow> 'v \<Rightarrow> ('k, 'v) khash option" where
  "kh_store f h x v =
     (case kh_put f all_ok h x of None \<Rightarrow> None
      | Some (ret, k, h) \<Rightarrow> if ret < 0 then None else Some (kh_set_value h k v))"

definition kh_remove :: "('k \<Rightarrow> u32) \<Rightarrow> ('k, 'v) khash \<Rightarrow> 'k \<Rightarrow> ('k, 'v) khash option" where
  "kh_remove f h x = map_option (kh_del h) (kh_get f h x)"

definition kh_ok :: "('k \<Rightarrow> u32) \<Rightarrow> nat \<Rightarrow> ('k, 'v) khash \<Rightarrow> bool" where
  "kh_ok f p h \<longleftrightarrow> kh_wf f h \<and> (\<forall>e \<in> kh_entries h. snd e \<noteq> None) \<and> kh_size h \<le> p \<and> n_buckets h \<le> 4 * p + 4"

lemma live_entry: "kh_wf f h \<Longrightarrow> i < n_buckets h \<Longrightarrow> live h i \<Longrightarrow> (keys h ! i, vals h ! i) \<in> kh_entries h"
  using entry_eqI [of i h] by (simp add: entry_def)

lemma entry_fst_unique:
  "kh_wf f h \<Longrightarrow> a \<in> kh_entries h \<Longrightarrow> b \<in> kh_entries h \<Longrightarrow> fst a = fst b \<Longrightarrow> a = b"
  using wf_facts(6) [of f h] by (simp add: inj_on_def)

lemma entry_unique: "kh_wf f h \<Longrightarrow> (x, v) \<in> kh_entries h \<Longrightarrow> (x, w) \<in> kh_entries h \<Longrightarrow> v = w"
  using entry_fst_unique [of f h "(x, v)" "(x, w)"] by simp

lemma kh_lookup_spec:
  assumes ok: "kh_ok f p h"
  shows "kh_lookup f h x = Some v \<longleftrightarrow> (Some x, Some v) \<in> kh_entries h"
proof -
  have wf: "kh_wf f h" using ok by (simp add: kh_ok_def)
  obtain r where r: "kh_get f h x = Some r"
    "r = n_buckets h \<and> (\<forall>i < n_buckets h. live h i \<longrightarrow> keys h ! i \<noteq> Some x)
     \<or> r < n_buckets h \<and> live h r \<and> keys h ! r = Some x"
    using kh_get_spec [OF wf, of x] by blast
  show ?thesis
  proof (cases "r = n_buckets h")
    case True
    then have "(Some x, w) \<notin> kh_entries h" for w
      using r(2) by (auto simp: kh_entries_def old_live_def entry_def)
    then show ?thesis using r(1) True by (simp add: kh_lookup_def)
  next
    case False
    then have lv: "r < n_buckets h" "live h r" "keys h ! r = Some x" using r(2) by auto
    then have "(Some x, vals h ! r) \<in> kh_entries h" using live_entry [OF wf lv(1,2)] by simp
    then show ?thesis using r(1) False entry_unique [OF wf] by (auto simp: kh_lookup_def)
  qed
qed

lemma kh_lookup_fun_eq:
  assumes "kh_ok f p h" "kh_ok f q h'"
    and "\<And>y v. (Some y, Some v) \<in> kh_entries h' \<longleftrightarrow> m y = Some v"
  shows "kh_lookup f h' = m"
proof
  fix y
  have "kh_lookup f h' y = Some v \<longleftrightarrow> m y = Some v" for v using kh_lookup_spec [OF assms(2)] assms(3) by simp
  then show "kh_lookup f h' y = m y" by (metis not_Some_eq)
qed

lemma set_value_spec:
  assumes wf: "kh_wf f h" and i: "i < n_buckets h" "live h i"
  shows "kh_wf f (kh_set_value h i v)" "n_buckets (kh_set_value h i v) = n_buckets h"
    "kh_size (kh_set_value h i v) = kh_size h"
    "kh_entries (kh_set_value h i v) = insert (keys h ! i, Some v) (kh_entries h - {entry h i})"
proof -
  let ?h = "kh_set_value h i v"
  have lv: "live ?h j = live h j" for j by (simp add: live_def kh_set_value_def)
  show "kh_wf f ?h"
    using wf lv by (simp add: kh_wf_def kh_empty_def kh_shape_def kh_keys_ok_def) (simp add: kh_set_value_def)
  show "n_buckets ?h = n_buckets h" "kh_size ?h = kh_size h" by (simp_all add: kh_set_value_def)
  have ol: "old_live ?h = old_live h" using lv by (auto simp: old_live_def kh_set_value_def)
  have iU: "i \<in> old_live h" using i by (simp add: old_live_def)
  have len: "i < length (vals h)" using wf_facts(2) [OF wf] i(1) by simp
  have e: "entry ?h j = (if j = i then (keys h ! i, Some v) else entry h j)" for j
    using len by (simp add: entry_def kh_set_value_def nth_list_update)
  have "entry ?h ` old_live h = insert (keys h ! i, Some v) (entry h ` (old_live h - {i}))"
    using iU e by (auto simp: image_iff)
  also have "entry h ` (old_live h - {i}) = kh_entries h - {entry h i}"
    using wf_facts(5) [OF wf] iU by (auto simp: kh_entries_def inj_on_def)
  finally show "kh_entries ?h = insert (keys h ! i, Some v) (kh_entries h - {entry h i})"
    by (simp add: kh_entries_def ol)
qed

lemma kh_store_ok:
  assumes ok: "kh_ok f p h" and small: "p < 2 ^ 28"
  shows "\<exists>h'. kh_store f h x v = Some h' \<and> kh_ok f (p + 1) h' \<and> kh_lookup f h' = (kh_lookup f h)(x \<mapsto> v)"
proof -
  have wf: "kh_wf f h" and n: "n_buckets h < 2 ^ 31" using ok small by (auto simp: kh_ok_def)
  obtain ret i h1 where put: "kh_put f all_ok h x = Some (ret, i, h1)" "0 \<le> ret" "kh_wf f h1"
    and i: "i < n_buckets h1" "live h1 i" "keys h1 ! i = Some x"
    and ents: "if ret = 0 then kh_entries h1 = kh_entries h \<and> entry h1 i \<in> kh_entries h
       else (\<forall>w. (Some x, w) \<notin> kh_entries h) \<and> kh_entries h1 = insert (entry h1 i) (kh_entries h)"
    and nb: "n_buckets h1 \<le> max (n_buckets h) (max 4 (4 * kh_size h))"
    using kh_put_spec [OF wf n, of x] by auto
  define h' where "h' = kh_set_value h1 i v"
  note set = set_value_spec [OF put(3) i(1,2), of v, folded h'_def]
  have fst_e: "fst (entry h1 i) = Some x" by (simp add: entry_def i(3))
  have rest: "kh_entries h1 - {entry h1 i} = {e \<in> kh_entries h. fst e \<noteq> Some x}"
  proof -
    have "fst e \<noteq> Some x" if "e \<in> kh_entries h1" "e \<noteq> entry h1 i" for e
    proof
      assume "fst e = Some x"
      moreover have "entry h1 i \<in> kh_entries h1" by (rule entry_eqI [OF i(1,2)])
      ultimately show False using that fst_e entry_fst_unique [OF put(3)] by metis
    qed
    then show ?thesis using ents fst_e by (cases "ret = 0") auto
  qed
  have E: "kh_entries h' = insert (Some x, Some v) {e \<in> kh_entries h. fst e \<noteq> Some x}"
    using set(4) rest i(3) by simp
  have "kh_size h1 \<le> kh_size h + 1"
  proof -
    have "finite (kh_entries h)" by (simp add: kh_entries_def)
    then have "card (kh_entries h1) \<le> card (kh_entries h) + 1"
      using ents by (cases "ret = 0") (auto simp: card_insert_if)
    then show ?thesis using wf_facts(8) [OF wf] wf_facts(8) [OF put(3)] by simp
  qed
  moreover have "\<forall>e \<in> kh_entries h'. snd e \<noteq> None" unfolding E using ok by (auto simp: kh_ok_def)
  ultimately have ok': "kh_ok f (p + 1) h'"
    using ok set(1-3) nb by (auto simp: kh_ok_def)
  have "(Some y, Some w) \<in> kh_entries h' \<longleftrightarrow> ((kh_lookup f h)(x \<mapsto> v)) y = Some w" for y w
    using kh_lookup_spec [OF ok, of y w] E by auto
  then have "kh_lookup f h' = (kh_lookup f h)(x \<mapsto> v)" by (rule kh_lookup_fun_eq [OF ok ok'])
  moreover have "kh_store f h x v = Some h'" using put(1,2) by (simp add: kh_store_def h'_def)
  ultimately show ?thesis using ok' by blast
qed

lemma kh_remove_ok:
  assumes ok: "kh_ok f p h"
  shows "\<exists>h'. kh_remove f h x = Some h' \<and> kh_ok f p h' \<and> kh_lookup f h' = (kh_lookup f h)(x := None)"
proof -
  have wf: "kh_wf f h" using ok by (simp add: kh_ok_def)
  obtain r where r: "kh_get f h x = Some r"
    "r = n_buckets h \<and> (\<forall>i < n_buckets h. live h i \<longrightarrow> keys h ! i \<noteq> Some x)
     \<or> r < n_buckets h \<and> live h r \<and> keys h ! r = Some x"
    using kh_get_spec [OF wf, of x] by blast
  define h' where "h' = kh_del h r"
  have "kh_wf f h' \<and> kh_entries h' = {e \<in> kh_entries h. fst e \<noteq> Some x} \<and> n_buckets h' = n_buckets h
    \<and> kh_size h' \<le> kh_size h"
  proof (cases "r = n_buckets h")
    case True
    then have "\<forall>e \<in> kh_entries h. fst e \<noteq> Some x"
      using r(2) by (auto simp: kh_entries_def old_live_def entry_def)
    then show ?thesis using True wf by (auto simp: h'_def kh_del_def)
  next
    case False
    then have lv: "r < n_buckets h" "live h r" "keys h ! r = Some x" using r(2) by auto
    have "kh_entries h - {entry h r} = {e \<in> kh_entries h. fst e \<noteq> Some x}"
    proof -
      have fst_e: "fst (entry h r) = Some x" by (simp add: entry_def lv(3))
      have "fst e \<noteq> Some x" if "e \<in> kh_entries h" "e \<noteq> entry h r" for e
        using entry_fst_unique [OF wf that(1) entry_eqI [OF lv(1,2)]] fst_e that(2) by auto
      then show ?thesis using fst_e by auto
    qed
    then show ?thesis using kh_del_spec [OF wf lv(1,2)] by (simp add: h'_def kh_del_def)
  qed
  then have E: "kh_entries h' = {e \<in> kh_entries h. fst e \<noteq> Some x}" and ok': "kh_ok f p h'"
    using ok by (auto simp: kh_ok_def)
  have "(Some y, Some w) \<in> kh_entries h' \<longleftrightarrow> ((kh_lookup f h)(x := None)) y = Some w" for y w
    using kh_lookup_spec [OF ok, of y w] E by auto
  then have "kh_lookup f h' = (kh_lookup f h)(x := None)" by (rule kh_lookup_fun_eq [OF ok ok'])
  then show ?thesis using r(1) ok' by (simp add: kh_remove_def h'_def)
qed

interpretation khash: kv_map "kh_ok f" "2 ^ 28" kh_init "kh_lookup f" "kh_store f" "kh_remove f"
  for f :: "'k \<Rightarrow> u32"
proof unfold_locales
  show init: "kh_ok f 0 kh_init" by (simp add: kh_ok_def kh_init_wf) (simp add: kh_init_def)
  show "kh_lookup f kh_init = Map.empty"
    by (rule kh_lookup_fun_eq [OF init init]) (simp add: kh_init_wf)
  show "kh_ok f (p + 1) m" if "kh_ok f p m" for p m using that by (auto simp: kh_ok_def)
qed (rule kh_store_ok kh_remove_ok; assumption)+

section \<open>The table refines a map\<close>

text \<open>C9. A sequence of at most 2^28 insertions (kh_put and the assignment of the value)
  and deletions (kh_get and kh_del) on an empty table succeeds and leaves a well-
  formed table whose lookup is the map that the same operations build.\<close>

theorem khash_refines_map:
  assumes "length os \<le> 2 ^ 28"
  shows "\<exists>h. kv_run (kh_store f) (kh_remove f) os kh_init = Some h \<and> kh_wf f h
    \<and> kh_lookup f h = fold kv_spec os Map.empty"
proof -
  obtain h where "kv_run (kh_store f) (kh_remove f) os kh_init = Some h" "kh_ok f (0 + length os) h"
    "kh_lookup f h = fold kv_spec os (kh_lookup f kh_init)"
    using khash.run_ok [OF khash.empty_ok, of os f] assms by auto
  then show ?thesis by (simp add: kh_ok_def khash.lookup_empty)
qed

theorem khash_refines_map_witness:
  "\<exists>h. kv_run (kh_store id) (kh_remove id) [Put 1 ''a'', Put 5 ''b'', Put 1 ''c'', Del 5] kh_init = Some h
     \<and> kh_lookup id h 1 = Some ''c'' \<and> kh_lookup id h 5 = None"
  using khash_refines_map [of "[Put 1 ''a'', Put 5 ''b'', Put 1 ''c'', Del 5]" id] by auto

text \<open>\<open>kh_resize\<close> rehashes in place and keeps the content.\<close>

theorem kh_resize_keeps_entries:
  assumes "kh_wf f h" "2 \<le> k" "kh_size h < hash_upper (2 ^ k)"
    and "(if unat (kroundup32 w) < 4 then 4 else unat (kroundup32 w)) = 2 ^ k"
  shows "\<exists>h'. kh_resize f all_ok h w = Some (0, h') \<and> kh_wf f h' \<and> n_buckets h' = 2 ^ k
    \<and> kh_entries h' = kh_entries h \<and> n_occupied h' = kh_size h'"
  using kh_resize_spec [OF assms] by (auto simp: kh_wf_def kh_shape_def)

theorem kh_resize_keeps_entries_witness:
  "\<exists>h'. kh_resize id all_ok (kh_init :: (u32, nat) khash) 9 = Some (0, h') \<and> n_buckets h' = 16"
proof -
  have "unat (kroundup32 9) = 16" by (simp add: kroundup32_def)
  then have "\<exists>h'. kh_resize id all_ok (kh_init :: (u32, nat) khash) 9 = Some (0, h') \<and> kh_wf id h' \<and> n_buckets h' = 2 ^ 4
    \<and> kh_entries h' = kh_entries (kh_init :: (u32, nat) khash) \<and> n_occupied h' = kh_size h'"
    by (intro kh_resize_keeps_entries) (simp_all add: kh_init_wf(1), simp add: kh_init_def hash_upper_def)
  then show ?thesis by auto
qed

end
