(* ===== verification/ConfCli.thy ===== *)
theory ConfCli
  imports Khash
begin

text \<open>
  src/ConfCli.c, the configuration client: it receives lines "key value" from a
  server, keeps them in a hash table of strings and writes the table to a file.

  The table maps a key to the address of its value; \<open>heap\<close> holds the strings that
  \<open>strdup\<close> allocated and \<open>free\<close> has not released. Keys are stored by content: the code
  compares them with \<open>strcmp\<close> and releases them only together with their entry. An
  access to a released or unknown address, and a read outside a buffer, make the result
  \<open>None\<close>. Allocations succeed (the code exits otherwise).
\<close>

section \<open>State\<close>

definition NUL :: char where "NUL = CHR 0x00"
definition NL :: char where "NL = CHR 0x0A"

definition HOST_MAX :: int where "HOST_MAX = 5"
definition FLUSH_INTERVAL :: int where "FLUSH_INTERVAL = 10"
definition PING_TIMER :: int where "PING_TIMER = 3600 div FLUSH_INTERVAL"
definition LINE_BUF :: nat where "LINE_BUF = 1024"

definition uplink_list :: "string list" where
  "uplink_list = [''srv1'', ''srv2'', ''srv3'']"

record cli =
  cfkv :: "(string, nat) khash"
  heap :: "nat \<Rightarrow> string option"
  next_addr :: nat
  data_dirty :: bool
  mfile_dirty :: bool
  global_line_buf :: string
  cur_line_buf_offset :: nat

definition init_cli :: cli where
  "init_cli = \<lparr>cfkv = kh_init, heap = (\<lambda>_. None), next_addr = 0, data_dirty = False,
     mfile_dirty = False, global_line_buf = replicate LINE_BUF NUL, cur_line_buf_offset = 0\<rparr>"

text \<open>\<open>strdup\<close> returns an address that was never used; \<open>free\<close> needs a live one.\<close>

definition strdup :: "string \<Rightarrow> cli \<Rightarrow> nat \<times> cli" where
  "strdup s st = (next_addr st, st\<lparr>heap := (heap st)(next_addr st \<mapsto> s), next_addr := next_addr st + 1\<rparr>)"

definition free_at :: "nat option \<Rightarrow> cli \<Rightarrow> cli option" where
  "free_at a st =
     (case a of None \<Rightarrow> None
      | Some a \<Rightarrow> if heap st a = None then None else Some (st\<lparr>heap := (heap st)(a := None)\<rparr>))"

section \<open>Parsing a line\<close>

definition char_at :: "string \<Rightarrow> nat \<Rightarrow> char option" where
  "char_at buf i = (if i < length buf then Some (buf ! i) else None)"

text \<open>A loop \<open>while (P (buf[i])) i++\<close>.\<close>

definition skip :: "(char \<Rightarrow> bool) \<Rightarrow> string \<Rightarrow> nat \<Rightarrow> nat" where
  "skip P buf i = i + length (takeWhile P (drop i buf))"

definition cstr_at :: "string \<Rightarrow> nat \<Rightarrow> string" where
  "cstr_at buf i = takeWhile (\<lambda>c. c \<noteq> NUL) (drop i buf)"

text \<open>
  The scanner of \<open>parse_single_line\<close>: the line number it returns, or key and value.
  \<open>None\<close>: it read behind the buffer.
\<close>

definition parse_tokens :: "string \<Rightarrow> (int + string \<times> string) option" where
  "parse_tokens linebuf =
     (case char_at linebuf 0 of None \<Rightarrow> None | Some c \<Rightarrow>
      if c = NL then Some (Inl 827)
      else
        let i = skip (\<lambda>c. c = CHR '' '') linebuf 0 in
        case char_at linebuf i of None \<Rightarrow> None | Some c \<Rightarrow>
        if c = NUL \<or> c = NL then Some (Inl 835)
        else
          let key = i; i = skip (\<lambda>c. c \<noteq> NUL \<and> c \<noteq> CHR '' '') linebuf (i + 1) in
          case char_at linebuf i of None \<Rightarrow> None | Some c \<Rightarrow>
          if c = NUL \<or> c = NL then Some (Inl 844)
          else
            let linebuf = linebuf[i := NUL]; i = skip (\<lambda>c. c = CHR '' '') linebuf (i + 1) in
            case char_at linebuf i of None \<Rightarrow> None | Some c \<Rightarrow>
            if c = NUL \<or> c = NL then Some (Inl 854)
            else
              let val = i; i = skip (\<lambda>c. c \<noteq> CHR '' '' \<and> c \<noteq> NUL \<and> c \<noteq> NL) linebuf i in
              case char_at linebuf i of None \<Rightarrow> None | Some c \<Rightarrow>
              let linebuf = linebuf[i := NUL]
              in Some (Inr (cstr_at linebuf key, cstr_at linebuf val)))"

section \<open>Executing a line\<close>

definition hash_str :: "string \<Rightarrow> u32" where
  "hash_str = ac_X31_hash_string"

definition delete_key :: "string \<Rightarrow> cli \<Rightarrow> (int \<times> cli) option" where
  "delete_key key st =
     Option.bind (kh_get hash_str (cfkv st) key) (\<lambda>k.
       if k = n_buckets (cfkv st) then Some (871, st)
       else Option.bind (free_at (vals (cfkv st) ! k) st) (\<lambda>st.
         Some (0, st\<lparr>cfkv := kh_del (cfkv st) k, data_dirty := True\<rparr>)))"

text \<open>The last branch releases the old value and keeps its address in the table.\<close>

definition set_key :: "string \<Rightarrow> string \<Rightarrow> cli \<Rightarrow> (int \<times> cli) option" where
  "set_key key val st =
     Option.bind (kh_get hash_str (cfkv st) key) (\<lambda>k.
       if k = n_buckets (cfkv st) then
         (let (val_dup, st) = strdup val st in
          Option.bind (kh_put hash_str all_ok (cfkv st) key) (\<lambda>(ret, k, h).
            Some (0, st\<lparr>cfkv := kh_set_value h k val_dup, data_dirty := True\<rparr>)))
       else
         Option.bind (free_at (vals (cfkv st) ! k) st) (\<lambda>st.
           let (val_dup, st) = strdup val st in
           Some (0, st\<lparr>data_dirty := True\<rparr>)))"

definition exec_line :: "string \<Rightarrow> string \<Rightarrow> cli \<Rightarrow> (int \<times> cli) option" where
  "exec_line key val st =
     (if take 7 val = ''!delete'' then delete_key key st else set_key key val st)"

definition parse_single_line :: "string \<Rightarrow> cli \<Rightarrow> (int \<times> cli) option" where
  "parse_single_line linebuf st =
     (case parse_tokens linebuf of
        None \<Rightarrow> None
      | Some (Inl line) \<Rightarrow> Some (line, st)
      | Some (Inr (key, val)) \<Rightarrow> exec_line key val st)"

section \<open>Collecting lines\<close>

text \<open>One turn of the loop of \<open>process_content\<close>.\<close>

definition content_char :: "char \<Rightarrow> cli \<Rightarrow> cli option" where
  "content_char c st =
     (let st = st\<lparr>global_line_buf := (global_line_buf st)[cur_line_buf_offset st := c]\<rparr> in
      if c = NL then
        map_option (\<lambda>(_, st). st\<lparr>global_line_buf := replicate LINE_BUF NUL, cur_line_buf_offset := 0\<rparr>)
          (parse_single_line (global_line_buf st) st)
      else Some (st\<lparr>cur_line_buf_offset := cur_line_buf_offset st + 1\<rparr>))"

fun process_content :: "string \<Rightarrow> cli \<Rightarrow> (int \<times> cli) option" where
  "process_content [] st = Some (0, st)"
| "process_content (c # cs) st =
     (if cur_line_buf_offset st < 1023 then Option.bind (content_char c st) (process_content cs)
      else Some (1, st\<lparr>cur_line_buf_offset := 0\<rparr>))"

section \<open>Writing the table\<close>

text \<open>The lines of \<open>dump_htable\<close>; \<open>None\<close> when a value's address is not live.\<close>

fun dump_from :: "cli \<Rightarrow> nat list \<Rightarrow> (string \<times> string) list option" where
  "dump_from st [] = Some []"
| "dump_from st (k # ks) =
     (if kh_exist (cfkv st) k then
        (case (keys (cfkv st) ! k, vals (cfkv st) ! k) of
           (Some key, Some a) \<Rightarrow>
             (case heap st a of None \<Rightarrow> None
              | Some val \<Rightarrow> map_option ((#) (key, val)) (dump_from st ks))
         | _ \<Rightarrow> None)
      else dump_from st ks)"

definition dump_htable :: "cli \<Rightarrow> (string \<times> string) list option" where
  "dump_htable st = dump_from st [0..<n_buckets (cfkv st)]"

section \<open>The connection loop\<close>

text \<open>
  What the network does: the result of a connection attempt, and the outcome of \<open>poll\<close>
  with the following \<open>read\<close> or \<open>write\<close>. A timeout carries whether \<open>fopen\<close> of the memory
  file succeeds and whether the \<open>write\<close> of the keep-alive line does.
\<close>

datatype net_event =
  Connect bool | Poll_error | Poll_timeout bool bool | Read_fail | Read_closed | Read_content string

text \<open>
  \<open>mfile\<close> and \<open>dfile\<close> are the contents of the two files; \<open>m_failed\<close> and \<open>d_failed\<close> note
  that the last call of \<open>dump_htable\<close> for the file could not open it.
\<close>

record worker =
  wcli :: cli
  cur_uplink_idx :: int
  connected :: bool
  wait_cnt :: int
  mfile :: "(string \<times> string) list option"
  dfile :: "(string \<times> string) list option"
  dumped :: bool
  m_failed :: bool
  d_failed :: bool

definition init_worker :: worker where
  "init_worker = \<lparr>wcli = init_cli, cur_uplink_idx = -1, connected = False, wait_cnt = 0,
     mfile = None, dfile = None, dumped = False, m_failed = False, d_failed = False\<rparr>"

text \<open>\<open>try_conn\<close>: choose the next server; its name is read from \<open>uplink_list\<close>.\<close>

definition try_conn :: "bool \<Rightarrow> worker \<Rightarrow> worker option" where
  "try_conn success w =
     (let idx = c_mod (cur_uplink_idx w + 1) HOST_MAX in
      if 0 \<le> idx \<and> idx < int (length uplink_list)
      then Some (w\<lparr>cur_uplink_idx := idx, connected := success\<rparr>) else None)"

text \<open>
  \<open>dump_htable\<close> returns at once when \<open>fopen\<close> fails, with the file as it was; its callers do
  not notice.
\<close>

definition dump_mfile :: "bool \<Rightarrow> worker \<Rightarrow> worker option" where
  "dump_mfile fopen_ok w =
     (if fopen_ok then map_option (\<lambda>ls. w\<lparr>mfile := Some ls, m_failed := False\<rparr>) (dump_htable (wcli w))
      else Some (w\<lparr>m_failed := True\<rparr>))"

definition dump_dfile :: "bool \<Rightarrow> worker \<Rightarrow> worker option" where
  "dump_dfile fopen_ok w =
     (if fopen_ok then map_option (\<lambda>ls. w\<lparr>dfile := Some ls, d_failed := False\<rparr>) (dump_htable (wcli w))
      else Some (w\<lparr>d_failed := True\<rparr>))"

definition flush_dirty :: "bool \<Rightarrow> worker \<Rightarrow> worker option" where
  "flush_dirty fopen_ok w =
     (if data_dirty (wcli w) then
        map_option (\<lambda>w. w\<lparr>wcli := (wcli w)\<lparr>data_dirty := False, mfile_dirty := True\<rparr>\<rparr>) (dump_mfile fopen_ok w)
      else Some w)"

text \<open>One event of \<open>worker_thread\<close>; an event that the current state cannot meet is ignored.\<close>

fun worker_step :: "net_event \<Rightarrow> worker \<Rightarrow> worker option" where
  "worker_step (Connect success) w = (if connected w then Some w else try_conn success w)"
| "worker_step Poll_error w = (if connected w then Some (w\<lparr>connected := False\<rparr>) else Some w)"
| "worker_step (Poll_timeout fopen_ok write_ok) w =
     (if connected w then
        Option.bind (flush_dirty fopen_ok w) (\<lambda>w.
          let w = w\<lparr>wait_cnt := wait_cnt w + 1\<rparr> in
          if wait_cnt w \<ge> PING_TIMER then
            (let w = w\<lparr>wait_cnt := 0\<rparr> in
             Some (if write_ok then w else w\<lparr>connected := False\<rparr>))
          else Some w)
      else Some w)"
| "worker_step Read_fail w = (if connected w then Some (w\<lparr>connected := False\<rparr>) else Some w)"
| "worker_step Read_closed w =
     (if connected w then Some (w\<lparr>cur_uplink_idx := -1, connected := False\<rparr>) else Some w)"
| "worker_step (Read_content buf) w =
     (if connected w then
        map_option (\<lambda>(_, st). w\<lparr>wcli := st\<rparr>) (process_content buf (wcli w))
      else Some w)"

text \<open>
  One turn of the thread \<open>disk_worker\<close>: it writes the file and then, in a separate step,
  clears the flag; \<open>dumped\<close> says that it is between the two.
\<close>

definition disk_dump :: "bool \<Rightarrow> worker \<Rightarrow> worker option" where
  "disk_dump fopen_ok w =
     (if mfile_dirty (wcli w) \<and> \<not> dumped w then
        map_option (\<lambda>w. w\<lparr>dumped := True\<rparr>) (dump_dfile fopen_ok w)
      else Some w)"

definition disk_clear :: "worker \<Rightarrow> worker" where
  "disk_clear w =
     (if dumped w then w\<lparr>wcli := (wcli w)\<lparr>mfile_dirty := False\<rparr>, dumped := False\<rparr> else w)"

definition disk_worker :: "bool \<Rightarrow> worker \<Rightarrow> worker option" where
  "disk_worker fopen_ok w = map_option disk_clear (disk_dump fopen_ok w)"

section \<open>The scanner stays in the buffer\<close>

lemma skip_stop:
  assumes "NUL \<in> set (drop i buf)" "\<not> P NUL"
  shows "skip P buf i < length buf" "\<not> P (buf ! skip P buf i)" "NUL \<in> set (drop (skip P buf i) buf)"
proof -
  let ?r = "takeWhile P (drop i buf)"
  have split: "drop i buf = ?r @ dropWhile P (drop i buf)" by simp
  have "NUL \<notin> set ?r" using assms(2) by (auto dest: set_takeWhileD)
  then have mem: "NUL \<in> set (dropWhile P (drop i buf))"
    using assms(1) split by (metis Un_iff set_append)
  then have lt: "length ?r < length (drop i buf)"
    by (metis (no_types, lifting) append_Nil2 dropWhile_eq_Nil_conv empty_iff le_neq_implies_less length_takeWhile_le
        list.set(1) split takeWhile_eq_all_conv append_self_conv length_append add_cancel_right_right length_0_conv)
  then show "skip P buf i < length buf" by (simp add: skip_def)
  show "\<not> P (buf ! skip P buf i)"
    using nth_length_takeWhile [OF lt] lt by (simp add: skip_def)
  have "drop (skip P buf i) buf = drop (length ?r) (drop i buf)" by (simp add: skip_def add.commute)
  also have "\<dots> = dropWhile P (drop i buf)" by (metis dropWhile_eq_drop)
  finally show "NUL \<in> set (drop (skip P buf i) buf)" using mem by simp
qed

lemma NUL_after:
  assumes "NUL \<in> set (drop i buf)" "i < length buf" "buf ! i \<noteq> NUL"
  shows "NUL \<in> set (drop (i + 1) buf)"
  using assms by (simp add: Cons_nth_drop_Suc [symmetric])

theorem parse_tokens_safe:
  assumes "NUL \<in> set linebuf"
  shows "parse_tokens linebuf \<noteq> None"
proof -
  let ?sp = "\<lambda>c. c = CHR '' ''" and ?kc = "\<lambda>c. c \<noteq> NUL \<and> c \<noteq> CHR '' ''"
    and ?vc = "\<lambda>c. c \<noteq> CHR '' '' \<and> c \<noteq> NUL \<and> c \<noteq> NL"
  define i where "i = skip ?sp linebuf 0"
  have nul: "\<not> ?sp NUL" "\<not> ?kc NUL" "\<not> ?vc NUL" by (simp_all add: NUL_def)
  have i: "i < length linebuf" "NUL \<in> set (drop i linebuf)"
    using skip_stop [of 0 linebuf ?sp] assms nul(1) by (simp_all add: i_def)
  show ?thesis
  proof (cases "linebuf ! 0 = NL \<or> linebuf ! i = NUL \<or> linebuf ! i = NL")
    case True
    then show ?thesis using i(1) by (auto simp: parse_tokens_def char_at_def Let_def i_def [symmetric])
  next
    case False
    define k where "k = skip ?kc linebuf (i + 1)"
    have "NUL \<in> set (drop (i + 1) linebuf)" using NUL_after i False by blast
    from skip_stop [of "i + 1" linebuf ?kc, OF this nul(2)]
    have k: "k < length linebuf" "linebuf ! k = NUL \<or> linebuf ! k = CHR '' ''" "NUL \<in> set (drop k linebuf)"
      by (auto simp: k_def)
    show ?thesis
    proof (cases "linebuf ! k = NUL")
      case True
      then show ?thesis using i(1) k(1)
        unfolding parse_tokens_def Let_def i_def [symmetric] k_def [symmetric] char_at_def by auto
    next
      case kspace: False
      let ?b = "linebuf[k := NUL]"
      have "NUL \<in> set (drop (k + 1) linebuf)" using NUL_after k kspace by blast
      then have nb: "NUL \<in> set (drop (k + 1) ?b)" by simp
      define v where "v = skip ?sp ?b (k + 1)"
      from skip_stop [of "k + 1" ?b ?sp, OF nb nul(1)] have v: "v < length linebuf" "NUL \<in> set (drop v ?b)" by (simp_all add: v_def)
      from skip_stop [of v ?b ?vc, OF v(2) nul(3)] have "skip ?vc ?b v < length linebuf" by simp
      then show ?thesis
        using i(1) k(1) v(1)
        unfolding parse_tokens_def Let_def i_def [symmetric] k_def [symmetric] v_def [symmetric] char_at_def
        by auto
    qed
  qed
qed

theorem parse_tokens_safe_witness: "parse_tokens (''key'' @ [NUL]) \<noteq> None"
  by (rule parse_tokens_safe) simp

section \<open>What the scanner finds\<close>

lemma skip_run:
  assumes "buf = pre @ run @ d # rest" "i = length pre" "\<forall>c \<in> set run. P c" "\<not> P d"
  shows "skip P buf i = length pre + length run" "char_at buf (length pre + length run) = Some d"
  using assms by (simp_all add: skip_def char_at_def takeWhile_append nth_append)

lemma cstr_run:
  assumes "buf = pre @ run @ NUL # rest" "i = length pre" "NUL \<notin> set run"
  shows "cstr_at buf i = run"
proof -
  have "takeWhile (\<lambda>c. c \<noteq> NUL) (run @ NUL # rest) = run"
    using assms(3) by (subst takeWhile_append2) auto
  then show ?thesis using assms(1,2) by (simp add: cstr_at_def)
qed

definition key_ok :: "string \<Rightarrow> bool" where
  "key_ok key \<longleftrightarrow> key \<noteq> [] \<and> hd key \<noteq> NL \<and> CHR '' '' \<notin> set key \<and> NUL \<notin> set key"

definition val_ok :: "string \<Rightarrow> bool" where
  "val_ok v \<longleftrightarrow> v \<noteq> [] \<and> CHR '' '' \<notin> set v \<and> NUL \<notin> set v \<and> NL \<notin> set v"

lemma parse_tokens_line:
  assumes key: "key_ok key" and val: "val_ok v"
    and d: "d = CHR '' '' \<or> d = NUL \<or> d = NL"
  shows "parse_tokens (replicate a (CHR '' '') @ key @ replicate (Suc b) (CHR '' '') @ v @ d # rest)
    = Some (Inr (key, v))"
proof -
  let ?sp = "\<lambda>c. c = CHR '' ''" and ?kc = "\<lambda>c. c \<noteq> NUL \<and> c \<noteq> CHR '' ''"
    and ?vc = "\<lambda>c. c \<noteq> CHR '' '' \<and> c \<noteq> NUL \<and> c \<noteq> NL"
  let ?A = "replicate a (CHR '' '')" and ?B = "replicate b (CHR '' '')"
  obtain k0 ks where k: "key = k0 # ks" using key by (cases key) (auto simp: key_ok_def)
  obtain v0 vs where v: "v = v0 # vs" using val by (cases v) (auto simp: val_ok_def)
  define buf where "buf = ?A @ key @ CHR '' '' # ?B @ v @ d # rest"
  define buf1 where "buf1 = ?A @ key @ NUL # ?B @ v @ d # rest"
  define buf2 where "buf2 = ?A @ key @ NUL # ?B @ v @ NUL # rest"
  have k0: "k0 \<noteq> NUL" "k0 \<noteq> NL" "k0 \<noteq> CHR '' ''" using key k by (auto simp: key_ok_def)
  have v0: "v0 \<noteq> NUL" "v0 \<noteq> NL" "v0 \<noteq> CHR '' ''" using val v by (auto simp: val_ok_def)
  have 0: "\<exists>c. char_at buf 0 = Some c \<and> c \<noteq> NL"
    using k k0 by (cases a) (auto simp: buf_def char_at_def NL_def)
  have 1: "skip ?sp buf 0 = a" "char_at buf a = Some k0"
    using skip_run [of buf "[]" ?A k0 "ks @ CHR '' '' # ?B @ v @ d # rest" 0 ?sp] k k0 by (simp_all add: buf_def)
  have 2: "skip ?kc buf (a + 1) = a + length key" "char_at buf (a + length key) = Some (CHR '' '')"
    using skip_run [of buf "?A @ [k0]" ks "CHR '' ''" "?B @ v @ d # rest" "a + 1" ?kc] k key
    by (auto simp: buf_def key_ok_def)
  have 3: "buf[a + length key := NUL] = buf1"
    by (simp add: buf_def buf1_def list_update_append)
  have 4: "skip ?sp buf1 (a + length key + 1) = a + length key + 1 + b"
      "char_at buf1 (a + length key + 1 + b) = Some v0"
    using skip_run [of buf1 "?A @ key @ [NUL]" ?B v0 "vs @ d # rest" "a + length key + 1" ?sp] v v0
    by (simp_all add: buf1_def)
  have 5: "skip ?vc buf1 (a + length key + 1 + b) = a + length key + 1 + b + length v"
      "char_at buf1 (a + length key + 1 + b + length v) = Some d"
  proof -
    have "\<forall>c \<in> set v. ?vc c" "\<not> ?vc d" using val d by (auto simp: val_ok_def)
    from skip_run [OF _ _ this, of buf1 "?A @ key @ NUL # ?B" rest "a + length key + 1 + b"]
    show "skip ?vc buf1 (a + length key + 1 + b) = a + length key + 1 + b + length v"
      "char_at buf1 (a + length key + 1 + b + length v) = Some d"
      by (simp_all add: buf1_def add.assoc)
  qed
  have 6: "buf1[a + length key + 1 + b + length v := NUL] = buf2"
    by (simp add: buf1_def buf2_def list_update_append)
  have 7: "cstr_at buf2 a = key"
    using key by (intro cstr_run [of buf2 ?A key "?B @ v @ NUL # rest"]) (auto simp: buf2_def key_ok_def)
  have 8: "cstr_at buf2 (a + length key + 1 + b) = v"
    using val by (intro cstr_run [of buf2 "?A @ key @ NUL # ?B" v rest]) (auto simp: buf2_def val_ok_def)
  obtain c where c: "char_at buf 0 = Some c" "c \<noteq> NL" using 0 by blast
  have "parse_tokens buf = Some (Inr (key, v))"
    unfolding parse_tokens_def Let_def c(1) 1 2 3 4 5 6 7 8 option.case
    using c(2) k0 v0 by (simp add: NUL_def NL_def)
  then show ?thesis by (simp add: buf_def)
qed


theorem parse_line_tokens:
  assumes "key_ok key" "val_ok v" "d = CHR '' '' \<or> d = NUL \<or> d = NL"
  shows "parse_tokens (replicate a (CHR '' '') @ key @ replicate (Suc b) (CHR '' '') @ v @ d # rest)
    = Some (Inr (key, v))"
  by (rule parse_tokens_line [OF assms])

theorem parse_line_tokens_witness:
  "parse_tokens (''  x3 v_x1 asdfsd'' @ [NL]) = Some (Inr (''x3'', ''v_x1''))"
proof -
  have "key_ok ''x3''" "val_ok ''v_x1''" by (simp_all add: key_ok_def val_ok_def NUL_def NL_def)
  from parse_line_tokens [OF this, of "CHR '' ''" 2 0 "''asdfsd'' @ [NL]"] show ?thesis
    by (simp add: numeral_2_eq_2)
qed

text \<open>
  The scan of the key does not stop at the end of the line: bytes that a previous,
  overlong line left behind it in the buffer become part of the key and the value.
\<close>

theorem stale_bytes_are_parsed:
  "parse_tokens (''k1'' @ [NL] @ ''old stale'' @ [NUL]) = Some (Inr (''k1'' @ [NL] @ ''old'', ''stale''))"
proof -
  have "key_ok (''k1'' @ [NL] @ ''old'')" "val_ok ''stale''" by (simp_all add: key_ok_def val_ok_def NUL_def NL_def)
  from parse_tokens_line [OF this, of NUL 0 0 "[]"] show ?thesis by simp
qed

section \<open>The table as a configuration\<close>

definition config_of :: "cli \<Rightarrow> string \<Rightarrow> string option" where
  "config_of st key = Option.bind (kh_lookup hash_str (cfkv st) key) (heap st)"

text \<open>
  Every value address is live and belongs to one key, and the addresses not yet handed
  out are free.
\<close>

definition cli_ok :: "nat \<Rightarrow> cli \<Rightarrow> bool" where
  "cli_ok p st \<longleftrightarrow> kh_ok hash_str p (cfkv st)
     \<and> (\<forall>k a. kh_lookup hash_str (cfkv st) k = Some a \<longrightarrow> heap st a \<noteq> None)
     \<and> (\<forall>k l a. kh_lookup hash_str (cfkv st) k = Some a \<longrightarrow> kh_lookup hash_str (cfkv st) l = Some a \<longrightarrow> k = l)
     \<and> (\<forall>a \<ge> next_addr st. heap st a = None)"

lemma cli_ok_live: "cli_ok p st \<Longrightarrow> kh_lookup hash_str (cfkv st) k = Some a \<Longrightarrow> \<exists>s. heap st a = Some s"
  unfolding cli_ok_def by blast

lemma config_none: "cli_ok p st \<Longrightarrow> config_of st k = None \<longleftrightarrow> kh_lookup hash_str (cfkv st) k = None"
  using cli_ok_live [of p st k] by (cases "kh_lookup hash_str (cfkv st) k") (auto simp: config_of_def)

lemma init_cli_ok: "cli_ok 0 init_cli" "config_of init_cli = Map.empty"
proof -
  have "kh_lookup hash_str (cfkv init_cli) = Map.empty"
    by (simp add: init_cli_def khash.lookup_empty)
  moreover have "kh_ok hash_str 0 (cfkv init_cli)" by (simp add: init_cli_def khash.empty_ok)
  ultimately show "cli_ok 0 init_cli" "config_of init_cli = Map.empty"
    by (simp_all add: cli_ok_def config_of_def fun_eq_iff) (simp add: init_cli_def)
qed

lemma kh_get_cases:
  assumes ok: "kh_ok f p h"
  obtains (absent) "kh_get f h x = Some (n_buckets h)" "kh_lookup f h x = None"
  | (present) k a where "kh_get f h x = Some k" "k < n_buckets h" "live h k" "keys h ! k = Some x"
      "vals h ! k = Some a" "kh_lookup f h x = Some a"
proof -
  have wf: "kh_wf f h" using ok by (simp add: kh_ok_def)
  obtain r where r: "kh_get f h x = Some r"
    "r = n_buckets h \<and> (\<forall>i < n_buckets h. live h i \<longrightarrow> keys h ! i \<noteq> Some x)
     \<or> r < n_buckets h \<and> live h r \<and> keys h ! r = Some x"
    using kh_get_spec [OF wf, of x] by blast
  show thesis
  proof (cases "r = n_buckets h")
    case True
    then show thesis using r(1) by (intro absent) (simp_all add: kh_lookup_def)
  next
    case False
    then have lv: "r < n_buckets h" "live h r" "keys h ! r = Some x" using r(2) by auto
    then obtain a where "vals h ! r = Some a"
      using live_entry [OF wf lv(1,2)] ok by (fastforce simp: kh_ok_def)
    then show thesis using r(1) lv by (intro present) (simp_all add: kh_lookup_def)
  qed
qed

lemma store_is_put:
  assumes "kh_store f h x v = Some h'"
  obtains ret k h1 where "kh_put f all_ok h x = Some (ret, k, h1)" "h' = kh_set_value h1 k v"
  using assms by (auto simp: kh_store_def split: option.splits prod.splits if_splits)

text \<open>A new key is added.\<close>

lemma set_key_new:
  assumes ok: "cli_ok p st" and small: "p < 2 ^ 28" and new: "config_of st key = None"
  shows "\<exists>st'. set_key key val st = Some (0, st') \<and> cli_ok (p + 1) st' \<and> data_dirty st'
    \<and> config_of st' = (config_of st)(key \<mapsto> val)"
proof -
  have kh: "kh_ok hash_str p (cfkv st)" using ok by (simp add: cli_ok_def)
  have none: "kh_lookup hash_str (cfkv st) key = None"
    using new config_none [OF ok] by simp
  then have get: "kh_get hash_str (cfkv st) key = Some (n_buckets (cfkv st))"
    by (rule_tac kh_get_cases [OF kh, of key]) auto
  let ?a = "next_addr st"
  obtain h' where h': "kh_store hash_str (cfkv st) key ?a = Some h'" "kh_ok hash_str (p + 1) h'"
    "kh_lookup hash_str h' = (kh_lookup hash_str (cfkv st))(key \<mapsto> ?a)"
    using khash.update_ok [OF kh small, of key ?a] by blast
  obtain ret k h1 where put: "kh_put hash_str all_ok (cfkv st) key = Some (ret, k, h1)" "h' = kh_set_value h1 k ?a"
    using store_is_put [OF h'(1)] .
  define st' where "st' = st\<lparr>heap := (heap st)(?a \<mapsto> val), next_addr := ?a + 1, cfkv := h', data_dirty := True\<rparr>"
  have run: "set_key key val st = Some (0, st')"
    by (simp add: set_key_def get strdup_def put st'_def)
  have fresh: "kh_lookup hash_str (cfkv st) l \<noteq> Some ?a" for l
    using cli_ok_live [OF ok, of l ?a] ok by (force simp: cli_ok_def)
  have "cli_ok (p + 1) st'"
    using ok h'(2) fresh unfolding cli_ok_def st'_def
    by (auto simp: h'(3) split: if_splits)
  moreover have "config_of st' = (config_of st)(key \<mapsto> val)"
    using fresh by (auto simp: config_of_def st'_def h'(3) fun_eq_iff bind_eq_None_conv split: bind_splits)
  ultimately show ?thesis using run by (simp add: st'_def)
qed

text \<open>\<open>!delete\<close> removes the key, if it is there.\<close>

lemma delete_key_ok:
  assumes ok: "cli_ok p st"
  shows "\<exists>r st'. delete_key key st = Some (r, st') \<and> cli_ok p st' \<and> config_of st' = (config_of st)(key := None)
    \<and> (r = 0 \<longleftrightarrow> config_of st key \<noteq> None)"
proof -
  have kh: "kh_ok hash_str p (cfkv st)" using ok by (simp add: cli_ok_def)
  show ?thesis
  proof (cases rule: kh_get_cases [OF kh, of key])
    case 1
    then show ?thesis using ok by (auto simp: delete_key_def config_of_def fun_eq_iff)
  next
    case (2 k a)
    obtain h' where h': "kh_remove hash_str (cfkv st) key = Some h'" "kh_ok hash_str p h'"
      "kh_lookup hash_str h' = (kh_lookup hash_str (cfkv st))(key := None)"
      using khash.delete_ok [OF kh, of key] by blast
    have del: "kh_del (cfkv st) k = h'" using h'(1) 2(1) by (simp add: kh_remove_def)
    obtain s where s: "heap st a = Some s" using cli_ok_live [OF ok 2(6)] by blast
    define st' where "st' = st\<lparr>heap := (heap st)(a := None), cfkv := h', data_dirty := True\<rparr>"
    have run: "delete_key key st = Some (0, st')"
      using 2 s by (simp add: delete_key_def free_at_def del st'_def)
    have other: "kh_lookup hash_str (cfkv st) l = Some a \<longleftrightarrow> l = key" for l
      using ok 2(6) by (auto simp: cli_ok_def)
    have "cli_ok p st'"
      using ok h'(2) other unfolding cli_ok_def st'_def
      by (auto simp: h'(3) split: if_splits)
    moreover have "config_of st' = (config_of st)(key := None)"
      using other by (auto simp: config_of_def st'_def h'(3) fun_eq_iff split: bind_splits)
    ultimately show ?thesis using run 2(6) s by (auto simp: config_of_def)
  qed
qed

section \<open>Sequences of commands\<close>

fun exec_lines :: "(string \<times> string) list \<Rightarrow> cli \<Rightarrow> cli option" where
  "exec_lines [] st = Some st"
| "exec_lines ((key, val) # ls) st = Option.bind (exec_line key val st) (\<lambda>(_, st). exec_lines ls st)"

text \<open>What the lines ask for; \<open>None\<close> when a key that is present is given a new value.\<close>

definition conf_set :: "string \<times> string \<Rightarrow> (string \<rightharpoonup> string) \<Rightarrow> (string \<rightharpoonup> string) option" where
  "conf_set = (\<lambda>(key, val) m.
     if take 7 val = ''!delete'' then Some (m(key := None))
     else if m key = None then Some (m(key \<mapsto> val)) else None)"

fun conf_run :: "(string \<times> string) list \<Rightarrow> (string \<rightharpoonup> string) \<Rightarrow> (string \<rightharpoonup> string) option" where
  "conf_run [] m = Some m"
| "conf_run (l # ls) m = Option.bind (conf_set l m) (conf_run ls)"

lemma cli_ok_mono: "cli_ok p st \<Longrightarrow> cli_ok (p + 1) st"
  using khash.ok_mono unfolding cli_ok_def by blast

lemma exec_line_ok:
  assumes ok: "cli_ok p st" and small: "p < 2 ^ 28" and m: "conf_set (key, val) (config_of st) = Some m"
  shows "\<exists>r st'. exec_line key val st = Some (r, st') \<and> cli_ok (p + 1) st' \<and> config_of st' = m"
proof (cases "take 7 val = ''!delete''")
  case True
  then show ?thesis
    using delete_key_ok [OF ok, of key] m cli_ok_mono by (auto simp: exec_line_def conf_set_def)
next
  case False
  then have "config_of st key = None" "m = (config_of st)(key \<mapsto> val)"
    using m by (auto simp: conf_set_def split: if_splits)
  then show ?thesis
    using set_key_new [OF ok small, of key val] False by (auto simp: exec_line_def)
qed

lemma exec_lines_ok:
  "cli_ok p st \<Longrightarrow> p + length ls \<le> 2 ^ 28 \<Longrightarrow> conf_run ls (config_of st) = Some m \<Longrightarrow>
    \<exists>st'. exec_lines ls st = Some st' \<and> cli_ok (p + length ls) st' \<and> config_of st' = m"
proof (induction ls arbitrary: p st)
  case (Cons l ls)
  obtain key val where l: "l = (key, val)" by force
  obtain m1 where m1: "conf_set (key, val) (config_of st) = Some m1" "conf_run ls m1 = Some m"
    using Cons.prems(3) by (auto simp: l bind_eq_Some_conv)
  have "p < 2 ^ 28" using Cons.prems(2) by simp
  from exec_line_ok [OF Cons.prems(1) this m1(1)] obtain r st1 where
    st1: "exec_line key val st = Some (r, st1)" "cli_ok (p + 1) st1" "config_of st1 = m1" by blast
  then show ?case using Cons.IH [of "p + 1" st1] Cons.prems(2) m1(2) by (simp add: l)
qed simp

theorem config_refines_commands:
  assumes "length ls \<le> 2 ^ 28" "conf_run ls Map.empty = Some m"
  shows "\<exists>st. exec_lines ls init_cli = Some st \<and> config_of st = m"
  using exec_lines_ok [OF init_cli_ok(1), of ls m] init_cli_ok(2) assms by auto

theorem config_refines_commands_witness:
  "\<exists>st. exec_lines [(''a'', ''1''), (''b'', ''2''), (''a'', ''!delete''), (''a'', ''3'')] init_cli = Some st
     \<and> config_of st ''a'' = Some ''3'' \<and> config_of st ''b'' = Some ''2''"
proof -
  let ?ls = "[(''a'', ''1''), (''b'', ''2''), (''a'', ''!delete''), (''a'', ''3'')]"
  have "\<exists>m. conf_run ?ls Map.empty = Some m \<and> m ''a'' = Some ''3'' \<and> m ''b'' = Some ''2''"
    by (simp add: conf_set_def)
  then obtain m where m: "conf_run ?ls Map.empty = Some m" "m ''a'' = Some ''3''" "m ''b'' = Some ''2''" by blast
  have "length ?ls \<le> 2 ^ 28" by simp
  from config_refines_commands [OF this m(1)] m(2,3) show ?thesis by blast
qed

section \<open>A new value for an old key\<close>

lemma set_key_old:
  assumes ok: "cli_ok p st" and old: "kh_lookup hash_str (cfkv st) key = Some a"
  shows "set_key key val st = Some (0, st\<lparr>heap := (heap st)(a := None, next_addr st \<mapsto> val),
      next_addr := next_addr st + 1, data_dirty := True\<rparr>)"
proof -
  have kh: "kh_ok hash_str p (cfkv st)" using ok by (simp add: cli_ok_def)
  show ?thesis
  proof (cases rule: kh_get_cases [OF kh, of key])
    case (2 k b)
    then show ?thesis
      using old cli_ok_live [OF ok old] by (auto simp: set_key_def free_at_def strdup_def)
  qed (use old in simp)
qed

text \<open>
  The table keeps the released address: the value is lost, writing the table reads
  released memory, and the next value for the key releases it a second time.
\<close>

lemma dump_from_dangling:
  assumes "k \<in> set ks" "kh_exist (cfkv st) k" "vals (cfkv st) ! k = Some a" "heap st a = None"
  shows "dump_from st ks = None"
  using assms by (induction ks) (auto split: option.splits)

lemma overwritten_value_dangles:
  assumes ok: "cli_ok p st" and old: "config_of st key \<noteq> None" and val: "take 7 val \<noteq> ''!delete''"
  shows "\<exists>st'. exec_line key val st = Some (0, st') \<and> config_of st' key = None \<and> dump_htable st' = None
    \<and> (\<forall>val'. exec_line key val' st' = None)"
proof -
  have kh: "kh_ok hash_str p (cfkv st)" using ok by (simp add: cli_ok_def)
  obtain a where a: "kh_lookup hash_str (cfkv st) key = Some a"
    using old config_none [OF ok, of key] by auto
  have fresh: "a \<noteq> next_addr st" using cli_ok_live [OF ok a] ok by (force simp: cli_ok_def)
  define st' where "st' = st\<lparr>heap := (heap st)(a := None, next_addr st \<mapsto> val),
      next_addr := next_addr st + 1, data_dirty := True\<rparr>"
  have run: "exec_line key val st = Some (0, st')"
    using val set_key_old [OF ok a, of val] by (simp add: exec_line_def st'_def)
  have dead: "heap st' a = None" "cfkv st' = cfkv st" using fresh by (simp_all add: st'_def)
  show ?thesis
  proof (cases rule: kh_get_cases [OF kh, of key])
    case 1
    then show ?thesis using a by simp
  next
    case (2 k b)
    then have b: "b = a" using a by simp
    have "dump_htable st' = None"
      unfolding dump_htable_def
      by (rule dump_from_dangling [where k = k and a = a])
        (use 2 b dead in \<open>simp_all add: kh_exist_def iseither_live\<close>)
    moreover have "exec_line key val' st' = None" for val'
      using 2 b dead by (simp add: exec_line_def delete_key_def set_key_def free_at_def)
    ultimately show ?thesis using run 2(6) b dead by (auto simp: config_of_def)
  qed
qed

theorem update_dangles:
  assumes ok: "cli_ok p st" and old: "config_of st key \<noteq> None" and val: "take 7 val \<noteq> ''!delete''"
  shows "\<exists>st'. exec_line key val st = Some (0, st') \<and> config_of st' key = None \<and> dump_htable st' = None
    \<and> (\<forall>val'. exec_line key val' st' = None)"
  using overwritten_value_dangles [OF assms] .

theorem update_dangles_witness:
  "\<exists>st st'. exec_lines [(''a'', ''1'')] init_cli = Some st \<and> exec_line ''a'' ''2'' st = Some (0, st')
     \<and> dump_htable st' = None \<and> exec_line ''a'' ''3'' st' = None"
proof -
  obtain st where st: "exec_lines [(''a'', ''1'')] init_cli = Some st" "cli_ok 1 st"
    "config_of st = Map.empty(''a'' \<mapsto> ''1'')"
    using exec_lines_ok [OF init_cli_ok(1), of "[(''a'', ''1'')]"] init_cli_ok(2) by (auto simp: conf_set_def)
  show ?thesis using update_dangles [OF st(2), of "''a''" "''2''"] st(1,3) by auto
qed

section \<open>The file holds the configuration\<close>

lemma live_bucket:
  assumes ok: "cli_ok p st" and k: "k < n_buckets (cfkv st)" "live (cfkv st) k"
  obtains key a v where "keys (cfkv st) ! k = Some key" "vals (cfkv st) ! k = Some a" "heap st a = Some v"
    "kh_lookup hash_str (cfkv st) key = Some a" "config_of st key = Some v"
proof -
  have kh: "kh_ok hash_str p (cfkv st)" and wf: "kh_wf hash_str (cfkv st)"
    using ok by (simp_all add: cli_ok_def kh_ok_def)
  have e: "(keys (cfkv st) ! k, vals (cfkv st) ! k) \<in> kh_entries (cfkv st)" by (rule live_entry [OF wf k])
  then obtain key where key: "keys (cfkv st) ! k = Some key" using wf_facts(7) [OF wf] by fastforce
  obtain a where a: "vals (cfkv st) ! k = Some a" using e kh by (fastforce simp: kh_ok_def)
  have look: "kh_lookup hash_str (cfkv st) key = Some a" using kh_lookup_spec [OF kh] e key a by simp
  obtain v where "heap st a = Some v" using cli_ok_live [OF ok look] by blast
  then show thesis using that key a look by (simp add: config_of_def)
qed

lemma dump_from_eq:
  assumes ok: "cli_ok p st"
  shows "set ks \<subseteq> {..<n_buckets (cfkv st)} \<Longrightarrow> dump_from st ks = Some (map (\<lambda>k. (the (keys (cfkv st) ! k),
      the (config_of st (the (keys (cfkv st) ! k))))) (filter (live (cfkv st)) ks))"
proof (induction ks)
  case (Cons k ks)
  show ?case
  proof (cases "live (cfkv st) k")
    case True
    have "k < n_buckets (cfkv st)" using Cons.prems by simp
    from live_bucket [OF ok this True] obtain key a v where
      "keys (cfkv st) ! k = Some key" "vals (cfkv st) ! k = Some a" "heap st a = Some v" "config_of st key = Some v"
      by blast
    then show ?thesis using Cons True by (simp add: kh_exist_def iseither_live)
  qed (use Cons in \<open>simp add: kh_exist_def iseither_live\<close>)
qed simp

lemma dump_exact:
  assumes ok: "cli_ok p st"
  shows "\<exists>ls. dump_htable st = Some ls \<and> set ls = {(k, v). config_of st k = Some v} \<and> distinct (map fst ls)"
proof -
  let ?h = "cfkv st" and ?live = "filter (live (cfkv st)) [0..<n_buckets (cfkv st)]"
  have kh: "kh_ok hash_str p ?h" and wf: "kh_wf hash_str ?h" using ok by (simp_all add: cli_ok_def kh_ok_def)
  define g where "g k = (the (keys ?h ! k), the (config_of st (the (keys ?h ! k))))" for k
  have dump: "dump_htable st = Some (map g ?live)"
    unfolding dump_htable_def g_def by (rule dump_from_eq [OF ok]) auto
  have "(key, v) \<in> set (map g ?live) \<longleftrightarrow> config_of st key = Some v" for key v
  proof
    assume "(key, v) \<in> set (map g ?live)"
    then obtain k where k: "k < n_buckets ?h" "live ?h k" "(key, v) = g k" by auto
    show "config_of st key = Some v"
      using live_bucket [OF ok k(1,2)] k(3) by (metis g_def option.sel prod.inject)
  next
    assume v: "config_of st key = Some v"
    show "(key, v) \<in> set (map g ?live)"
    proof (cases rule: kh_get_cases [OF kh, of key])
      case 1
      then show ?thesis using v by (simp add: config_of_def)
    next
      case (2 k a)
      then have "g k = (key, v)" using v by (simp add: g_def)
      then show ?thesis using 2 by (auto simp: image_iff intro!: bexI [of _ k])
    qed
  qed
  moreover have "inj_on (\<lambda>k. the (keys ?h ! k)) (old_live ?h)"
  proof (rule inj_onI)
    fix i j assume ij: "i \<in> old_live ?h" "j \<in> old_live ?h" "the (keys ?h ! i) = the (keys ?h ! j)"
    then have e: "entry ?h i \<in> kh_entries ?h" "entry ?h j \<in> kh_entries ?h" by (simp_all add: kh_entries_def)
    then have "fst (entry ?h i) \<noteq> None" "fst (entry ?h j) \<noteq> None" using wf_facts(7) [OF wf] by blast+
    then have "fst (entry ?h i) = fst (entry ?h j)" using ij(3) by (auto simp: entry_def)
    from entry_fst_unique [OF wf e this] show "i = j" using wf_facts(5) [OF wf] ij(1,2) by (auto dest: inj_onD)
  qed
  then have "distinct (map fst (map g ?live))"
    by (simp add: distinct_map g_def comp_def) (auto simp: old_live_def inj_on_def)
  ultimately show ?thesis using dump by auto
qed

theorem saved_file_is_configuration:
  assumes "length cs \<le> 2 ^ 28" "conf_run cs Map.empty = Some m"
  shows "\<exists>st ls. exec_lines cs init_cli = Some st \<and> dump_htable st = Some ls
    \<and> set ls = {(k, v). m k = Some v} \<and> distinct (map fst ls)"
proof -
  obtain st where st: "exec_lines cs init_cli = Some st" "cli_ok (length cs) st" "config_of st = m"
    using exec_lines_ok [OF init_cli_ok(1), of cs m] init_cli_ok(2) assms by auto
  show ?thesis using dump_exact [OF st(2)] st by auto
qed

theorem saved_file_is_configuration_witness:
  "\<exists>st ls. exec_lines [(''a'', ''1''), (''b'', ''2''), (''a'', ''!delete'')] init_cli = Some st
     \<and> dump_htable st = Some ls \<and> set ls = {(''b'', ''2'')}"
proof -
  have "conf_run [(''a'', ''1''), (''b'', ''2''), (''a'', ''!delete'')] Map.empty = Some [''b'' \<mapsto> ''2'']"
    by (simp add: conf_set_def fun_eq_iff)
  moreover have "{(k, v). [''b'' \<mapsto> ''2''] k = Some v} = {(''b'', ''2'')}" by (auto split: if_splits)
  ultimately show ?thesis
    using saved_file_is_configuration [of "[(''a'', ''1''), (''b'', ''2''), (''a'', ''!delete'')]"] by fastforce
qed

section \<open>The line buffer\<close>

text \<open>The commands neither read nor write the line buffer.\<close>

abbreviation with_buf :: "string \<Rightarrow> nat \<Rightarrow> cli \<Rightarrow> cli" where
  "with_buf b o1 st \<equiv> st\<lparr>global_line_buf := b, cur_line_buf_offset := o1\<rparr>"

lemma exec_line_buf:
  "exec_line key val (with_buf b o1 st) = map_option (\<lambda>(r, st). (r, with_buf b o1 st)) (exec_line key val st)"
proof -
  have "free_at a (with_buf b o1 s) = map_option (with_buf b o1) (free_at a s)" for a s
    by (simp add: free_at_def split: option.split)
  then have "delete_key key (with_buf b o1 st) = map_option (\<lambda>(r, st). (r, with_buf b o1 st)) (delete_key key st)"
    "set_key key val (with_buf b o1 st) = map_option (\<lambda>(r, st). (r, with_buf b o1 st)) (set_key key val st)"
    by (cases "kh_get hash_str (cfkv st) key"; cases "kh_put hash_str all_ok (cfkv st) key";
      cases "free_at (vals (cfkv st) ! the (kh_get hash_str (cfkv st) key)) st";
      simp add: delete_key_def set_key_def strdup_def split_def)+
  then show ?thesis by (simp add: exec_line_def)
qed

text \<open>
  The buffer keeps its length, the offset stays inside it and the last byte is never
  written, so that the scanner always meets a terminator.
\<close>

definition line_inv :: "cli \<Rightarrow> bool" where
  "line_inv st \<longleftrightarrow> length (global_line_buf st) = LINE_BUF \<and> cur_line_buf_offset st \<le> 1023
     \<and> global_line_buf st ! 1023 = NUL"

lemma line_inv_NUL: "line_inv st \<Longrightarrow> NUL \<in> set (global_line_buf st)"
  by (metis LINE_BUF_def line_inv_def nth_mem numeral_less_iff semiring_norm(76) semiring_norm(81) eval_nat_numeral(3) lessI)

lemma exec_line_keeps_buf:
  assumes "exec_line key val st = Some (r, st')"
  shows "global_line_buf st' = global_line_buf st \<and> cur_line_buf_offset st' = cur_line_buf_offset st"
proof -
  have "st = with_buf (global_line_buf st) (cur_line_buf_offset st) st" by simp
  then have "map_option (\<lambda>(r, s). (r, with_buf (global_line_buf st) (cur_line_buf_offset st) s)) (exec_line key val st)
      = Some (r, st')"
    using exec_line_buf [where key = key and val = val and b = "global_line_buf st"
        and ?o1.0 = "cur_line_buf_offset st" and st = st] assms by simp
  then show ?thesis by auto
qed

lemma content_char_inv:
  assumes inv: "line_inv st" and off: "cur_line_buf_offset st < 1023" and st': "content_char c st = Some st'"
  shows "line_inv st'"
proof (cases "c = NL")
  case True
  then have "\<exists>s. st' = with_buf (replicate LINE_BUF NUL) 0 s"
    using st' by (auto simp: content_char_def Let_def)
  then show ?thesis by (auto simp: line_inv_def LINE_BUF_def)
next
  case False
  then show ?thesis using assms by (auto simp: content_char_def line_inv_def LINE_BUF_def)
qed

theorem process_content_keeps_buffer:
  "line_inv st \<Longrightarrow> process_content cs st = Some (r, st') \<Longrightarrow>
    line_inv st' \<and> parse_tokens (global_line_buf st') \<noteq> None"
proof (induction cs arbitrary: st)
  case Nil
  then show ?case using parse_tokens_safe line_inv_NUL by auto
next
  case (Cons c cs)
  show ?case
  proof (cases "cur_line_buf_offset st < 1023")
    case True
    with Cons.prems(2) obtain s where s: "content_char c st = Some s" "process_content cs s = Some (r, st')"
      by (auto simp: bind_eq_Some_conv)
    then show ?thesis using Cons.IH [of s] content_char_inv [OF Cons.prems(1) True s(1)] by simp
  next
    case False
    then have "line_inv st'" using Cons.prems by (auto simp: line_inv_def)
    then show ?thesis using parse_tokens_safe line_inv_NUL by auto
  qed
qed

text \<open>How the stream is cut into reads does not matter, as long as no line is too long.\<close>

theorem process_content_chunks:
  "process_content xs st = Some (0, st') \<Longrightarrow> process_content (xs @ ys) st = process_content ys st'"
proof (induction xs arbitrary: st)
  case (Cons c xs)
  then show ?case by (auto simp: bind_eq_Some_conv split: if_splits)
qed simp

lemma fill_buffer:
  assumes "global_line_buf st = pre @ replicate n NUL" "cur_line_buf_offset st = length pre"
    and "length pre + n = LINE_BUF" "length pre + length xs \<le> 1023" "NL \<notin> set xs"
  shows "process_content xs st = Some (0, with_buf (pre @ xs @ replicate (n - length xs) NUL) (length pre + length xs) st)"
  using assms
proof (induction xs arbitrary: st pre n)
  case Nil
  then show ?case by simp
next
  case (Cons c xs)
  obtain m where m: "n = Suc m" using Cons.prems(3,4) by (cases n) (auto simp: LINE_BUF_def)
  define s where "s = with_buf (pre @ c # replicate m NUL) (length pre + 1) st"
  have "content_char c st = Some s"
    using Cons.prems m by (auto simp: content_char_def Let_def s_def list_update_append)
  moreover have "process_content xs s =
      Some (0, with_buf ((pre @ [c]) @ xs @ replicate (m - length xs) NUL) (length (pre @ [c]) + length xs) s)"
    by (rule Cons.IH) (use Cons.prems m in \<open>simp_all add: s_def\<close>)
  ultimately show ?case using Cons.prems m by (simp add: s_def)
qed

definition line_text :: "string \<times> string \<Rightarrow> string" where
  "line_text = (\<lambda>(key, val). key @ '' '' @ val @ [NL])"

definition line_ok :: "string \<times> string \<Rightarrow> bool" where
  "line_ok = (\<lambda>(key, val). key_ok key \<and> NL \<notin> set key \<and> val_ok val \<and> length key + length val < 1022)"

definition clean :: "cli \<Rightarrow> bool" where
  "clean st \<longleftrightarrow> global_line_buf st = replicate LINE_BUF NUL \<and> cur_line_buf_offset st = 0"

text \<open>The client skips blanks before the key; \<open>padded_text (n, l)\<close> is a line with \<open>n\<close> of them.\<close>

definition padded_text :: "nat \<times> string \<times> string \<Rightarrow> string" where
  "padded_text = (\<lambda>(n, l). replicate n (CHR '' '') @ line_text l)"

definition padded_ok :: "nat \<times> string \<times> string \<Rightarrow> bool" where
  "padded_ok = (\<lambda>(n, key, val). line_ok (key, val) \<and> n + length key + length val < 1022)"

lemma process_padded_line:
  assumes cl: "clean st" and l: "padded_ok (n, key, val)" and ex: "exec_line key val st = Some (r, st')"
  shows "process_content (padded_text (n, key, val)) st = Some (0, st') \<and> clean st'"
proof -
  let ?t = "replicate n (CHR '' '') @ key @ '' '' @ val"
  have len: "length ?t \<le> 1022" and nl: "NL \<notin> set ?t"
    using l by (auto simp: padded_ok_def line_ok_def val_ok_def NL_def)
  define s where "s = with_buf (?t @ replicate (LINE_BUF - length ?t) NUL) (length ?t) st"
  have fill: "process_content ?t st = Some (0, s)"
    using fill_buffer [of st "[]" LINE_BUF ?t] cl len nl by (simp add: clean_def s_def)
  define b where "b = ?t @ NL # replicate (LINE_BUF - length ?t - 1) NUL"
  have upd: "(global_line_buf s)[length ?t := NL] = b"
  proof -
    have "LINE_BUF - length ?t = Suc (LINE_BUF - length ?t - 1)" using len by (simp add: LINE_BUF_def)
    then have "replicate (LINE_BUF - length ?t) NUL = NUL # replicate (LINE_BUF - length ?t - 1) NUL"
      by (metis replicate_Suc)
    then show ?thesis unfolding s_def b_def by (simp add: list_update_append)
  qed
  have tok: "parse_tokens b = Some (Inr (key, val))"
    using parse_tokens_line [of key val NL n 0 "replicate (LINE_BUF - length ?t - 1) NUL"] l
    by (simp add: b_def padded_ok_def line_ok_def)
  have "exec_line key val (with_buf b (length ?t) st) = Some (r, with_buf b (length ?t) st')"
    using ex by (simp add: exec_line_buf)
  moreover have "s\<lparr>global_line_buf := (global_line_buf s)[cur_line_buf_offset s := NL]\<rparr> = with_buf b (length ?t) st"
    using upd by (simp add: s_def)
  ultimately have "content_char NL s = Some (with_buf (replicate LINE_BUF NUL) 0 st')"
    using tok by (simp add: content_char_def parse_single_line_def)
  moreover have "with_buf (replicate LINE_BUF NUL) 0 st' = st'"
    using exec_line_keeps_buf [OF ex] cl by (simp add: clean_def)
  ultimately have "process_content [NL] s = Some (0, st')" using len by (simp add: s_def)
  moreover have "padded_text (n, key, val) = ?t @ [NL]" by (simp add: padded_text_def line_text_def)
  ultimately have "process_content (padded_text (n, key, val)) st = Some (0, st')"
    using process_content_chunks [OF fill, of "[NL]"] by metis
  then show ?thesis using exec_line_keeps_buf [OF ex] cl by (simp add: clean_def)
qed

lemma process_line:
  assumes "clean st" "line_ok (key, val)" "exec_line key val st = Some (r, st')"
  shows "process_content (line_text (key, val)) st = Some (0, st') \<and> clean st'"
  using process_padded_line [OF assms(1) _ assms(3), of 0] assms(2)
  by (simp add: padded_text_def padded_ok_def line_ok_def)

text \<open>The reads of a connection, one after the other.\<close>

fun feed :: "string list \<Rightarrow> cli \<Rightarrow> cli option" where
  "feed [] st = Some st"
| "feed (buf # bufs) st = Option.bind (process_content buf st) (\<lambda>(_, st). feed bufs st)"

lemma process_content_split:
  "process_content (xs @ ys) st = Some (0, st') \<Longrightarrow>
    \<exists>s. process_content xs st = Some (0, s) \<and> process_content ys s = Some (0, st')"
proof (induction xs arbitrary: st)
  case (Cons c xs)
  then show ?case by (auto simp: bind_eq_Some_conv split: if_splits)
qed simp

lemma feed_concat: "process_content (concat bufs) st = Some (0, st') \<Longrightarrow> feed bufs st = Some st'"
proof (induction bufs arbitrary: st)
  case (Cons b bufs)
  then show ?case using process_content_split [of b "concat bufs" st st'] by auto
qed simp

lemma process_padded:
  "clean st \<Longrightarrow> \<forall>l \<in> set ls. padded_ok l \<Longrightarrow> exec_lines (map snd ls) st = Some st' \<Longrightarrow>
    process_content (concat (map padded_text ls)) st = Some (0, st') \<and> clean st'"
proof (induction ls arbitrary: st)
  case (Cons l ls)
  obtain n key val where l: "l = (n, key, val)" by (cases l)
  with Cons.prems(3) obtain r s where s: "exec_line key val st = Some (r, s)" "exec_lines (map snd ls) s = Some st'"
    by (auto simp: bind_eq_Some_conv)
  have line: "process_content (padded_text l) st = Some (0, s)" "clean s"
    using process_padded_line [OF Cons.prems(1) _ s(1)] Cons.prems(2) l by auto
  have "process_content (padded_text l @ concat (map padded_text ls)) st = process_content (concat (map padded_text ls)) s"
  proof -
    have "process_content (xs @ ys) t = process_content ys t'" if "process_content xs t = Some (0, t')" for xs ys t t'
      using that by (induction xs arbitrary: t) (auto simp: bind_eq_Some_conv split: if_splits)
    then show ?thesis using line(1) by blast
  qed
  then show ?case using Cons.IH [OF line(2) _ s(2)] Cons.prems(2) by simp
qed simp

lemma init_clean: "clean init_cli"
  by (simp add: clean_def init_cli_def)

lemma padded_state:
  assumes "concat bufs = concat (map padded_text ls)" "\<forall>l \<in> set ls. padded_ok l" "length ls \<le> 2 ^ 28"
    and "conf_run (map snd ls) Map.empty = Some m"
  obtains st where "feed bufs init_cli = Some st" "config_of st = m" "clean st" "cli_ok (length ls) st"
proof -
  have "\<forall>l \<in> set (map snd ls). line_ok l" using assms(2) by (auto simp: padded_ok_def)
  then obtain st where st: "exec_lines (map snd ls) init_cli = Some st" "config_of st = m" "cli_ok (length ls) st"
    using exec_lines_ok [OF init_cli_ok(1), of "map snd ls" m] init_cli_ok(2) assms by auto
  have "process_content (concat bufs) init_cli = Some (0, st)" "clean st"
    using process_padded [OF init_clean assms(2) st(1)] assms(1) by simp_all
  then show ?thesis using feed_concat st that by blast
qed

lemma stream_state:
  assumes "concat bufs = concat (map line_text ls)" "\<forall>l \<in> set ls. line_ok l" "length ls \<le> 2 ^ 28"
    and "conf_run ls Map.empty = Some m"
  obtains st where "feed bufs init_cli = Some st" "config_of st = m" "clean st" "cli_ok (length ls) st"
proof -
  let ?ls = "map (Pair 0) ls"
  have eq: "map padded_text ?ls = map line_text ls" "map snd ?ls = ls" "length ?ls = length ls"
    by (simp_all add: padded_text_def comp_def)
  have "\<forall>l \<in> set ?ls. padded_ok l" using assms(2) by (auto simp: padded_ok_def line_ok_def)
  from padded_state [OF _ this, unfolded eq, OF assms(1,3,4)] show ?thesis using that by blast
qed



section \<open>The connection loop\<close>

text \<open>
  \<open>uplink_list\<close> has three entries, \<open>HOST_MAX\<close> is five: after three failures the fourth
  attempt reads behind the list.
\<close>

theorem uplink_list_overrun:
  "\<exists>w. Option.bind (worker_step (Connect False) init_worker) (\<lambda>w.
         Option.bind (worker_step (Connect False) w) (worker_step (Connect False))) = Some w
     \<and> cur_uplink_idx w = 2 \<and> worker_step (Connect False) w = None"
  by (simp add: try_conn_def init_worker_def uplink_list_def HOST_MAX_def c_mod_def c_div_def)

text \<open>
  A command that leaves \<open>data_dirty\<close> clear left the table and the strings alone, so a
  clear flag means that the memory file holds the table.
\<close>

lemma exec_line_dirty:
  assumes "exec_line key val st = Some (r, st')" "\<not> data_dirty st'"
  shows "\<not> data_dirty st \<and> cfkv st' = cfkv st \<and> heap st' = heap st \<and> mfile_dirty st' = mfile_dirty st"
  using assms by (auto simp: exec_line_def delete_key_def set_key_def strdup_def bind_eq_Some_conv split: if_splits)

lemma content_char_dirty:
  assumes "content_char c st = Some st'" "\<not> data_dirty st'"
  shows "\<not> data_dirty st \<and> cfkv st' = cfkv st \<and> heap st' = heap st \<and> mfile_dirty st' = mfile_dirty st"
  using assms
  by (auto simp: content_char_def parse_single_line_def Let_def dest!: exec_line_dirty
      split: if_splits option.splits sum.splits)

lemma process_content_dirty:
  "process_content cs st = Some (r, st') \<Longrightarrow> \<not> data_dirty st' \<Longrightarrow>
    \<not> data_dirty st \<and> cfkv st' = cfkv st \<and> heap st' = heap st \<and> mfile_dirty st' = mfile_dirty st"
proof (induction cs arbitrary: st)
  case (Cons c cs)
  then show ?case
    by (auto simp: bind_eq_Some_conv split: if_splits) (metis content_char_dirty)+
qed simp

lemma dump_cong: "cfkv st' = cfkv st \<Longrightarrow> heap st' = heap st \<Longrightarrow> dump_htable st' = dump_htable st"
proof -
  assume eq: "cfkv st' = cfkv st" "heap st' = heap st"
  have "dump_from st' ks = dump_from st ks" for ks
    using eq by (induction ks) (auto split: option.splits)
  then show ?thesis using eq by (simp add: dump_htable_def)
qed

text \<open>
  \<open>client_step\<close> interleaves the two threads turn by turn, \<open>thread_step\<close> also between the
  two halves of a turn of \<open>disk_worker\<close>.
\<close>

inductive client_step :: "worker \<Rightarrow> worker \<Rightarrow> bool" where
  net: "worker_step e w = Some w' \<Longrightarrow> client_step w w'"
| disk: "disk_worker fopen_ok w = Some w' \<Longrightarrow> client_step w w'"

inductive thread_step :: "worker \<Rightarrow> worker \<Rightarrow> bool" where
  net: "worker_step e w = Some w' \<Longrightarrow> thread_step w w'"
| dump: "disk_dump fopen_ok w = Some w' \<Longrightarrow> thread_step w w'"
| clear: "thread_step w (disk_clear w)"

definition mem_saved :: "worker \<Rightarrow> bool" where
  "mem_saved w \<longleftrightarrow> (\<not> data_dirty (wcli w) \<longrightarrow> \<not> m_failed w \<longrightarrow>
     dump_htable (wcli w) = Some (case mfile w of None \<Rightarrow> [] | Some ls \<Rightarrow> ls))"

definition saved_inv :: "worker \<Rightarrow> bool" where
  "saved_inv w \<longleftrightarrow> \<not> dumped w \<and> mem_saved w \<and> (\<not> data_dirty (wcli w) \<longrightarrow> \<not> mfile_dirty (wcli w) \<longrightarrow> \<not> d_failed w \<longrightarrow>
     dump_htable (wcli w) = Some (case dfile w of None \<Rightarrow> [] | Some ls \<Rightarrow> ls))"

lemma init_saved: "saved_inv init_worker" "mem_saved init_worker"
  by (simp_all add: saved_inv_def mem_saved_def init_worker_def init_cli_def dump_htable_def kh_init_def)

lemma saved_frame:
  assumes "wcli w' = wcli w" "mfile w' = mfile w" "dfile w' = dfile w" "dumped w' = dumped w"
    and "m_failed w' = m_failed w" "d_failed w' = d_failed w"
  shows "saved_inv w \<Longrightarrow> saved_inv w'" "mem_saved w \<Longrightarrow> mem_saved w'"
  unfolding saved_inv_def mem_saved_def assms by auto

lemma dump_flags [simp]: "dump_htable (st\<lparr>data_dirty := b\<rparr>) = dump_htable st"
  "dump_htable (st\<lparr>mfile_dirty := c\<rparr>) = dump_htable st"
  by (rule dump_cong; simp)+

lemma flush_saved:
  assumes "flush_dirty ok w = Some w'"
  shows "saved_inv w \<Longrightarrow> saved_inv w'" "mem_saved w \<Longrightarrow> mem_saved w'"
  using assms
  by (auto simp: flush_dirty_def dump_mfile_def saved_inv_def mem_saved_def split: if_splits)

lemma disk_worker_cases:
  assumes "disk_worker ok w = Some w'" "\<not> dumped w"
  obtains "\<not> mfile_dirty (wcli w)" "w' = w"
  | ls where "dump_htable (wcli w) = Some ls"
      "w' = w\<lparr>dfile := Some ls, d_failed := False, dumped := False, wcli := (wcli w)\<lparr>mfile_dirty := False\<rparr>\<rparr>"
  | "w' = w\<lparr>d_failed := True, dumped := False, wcli := (wcli w)\<lparr>mfile_dirty := False\<rparr>\<rparr>"
proof (cases "mfile_dirty (wcli w)")
  case True
  then obtain u where u: "dump_dfile ok w = Some u" "w' = disk_clear (u\<lparr>dumped := True\<rparr>)"
    using assms by (auto simp: disk_worker_def disk_dump_def)
  show ?thesis
  proof (cases ok)
    case True
    then show ?thesis using u that(2) by (auto simp: dump_dfile_def disk_clear_def)
  next
    case False
    then show ?thesis using u that(3) by (auto simp: dump_dfile_def disk_clear_def)
  qed
next
  case False
  then have "w' = w" using assms by (simp add: disk_worker_def disk_dump_def disk_clear_def)
  then show ?thesis using False that(1) by blast
qed

lemma disk_worker_saved:
  assumes step: "disk_worker ok w = Some w'" and inv: "saved_inv w"
  shows "saved_inv w'"
proof -
  from inv have "\<not> dumped w" by (simp add: saved_inv_def)
  with step show ?thesis
  proof (cases rule: disk_worker_cases)
    case (2 ls)
    show ?thesis using inv unfolding 2(2) saved_inv_def mem_saved_def by (simp add: 2(1))
  next
    case 3
    show ?thesis using inv unfolding 3 saved_inv_def mem_saved_def by simp
  qed (use inv in simp)
qed

lemma worker_step_frame:
  assumes step: "worker_step e w = Some w'"
  obtains (frame) "wcli w' = wcli w" "mfile w' = mfile w" "dfile w' = dfile w" "dumped w' = dumped w"
      "m_failed w' = m_failed w" "d_failed w' = d_failed w"
  | (flush) w1 ok where "flush_dirty ok w = Some w1" "wcli w' = wcli w1" "mfile w' = mfile w1" "dfile w' = dfile w1"
      "dumped w' = dumped w1" "m_failed w' = m_failed w1" "d_failed w' = d_failed w1"
  | (read) buf r st where "process_content buf (wcli w) = Some (r, st)" "w' = w\<lparr>wcli := st\<rparr>"
proof (cases "connected w")
  case False
  then show ?thesis using step that(1)
    by (cases e) (auto simp: try_conn_def Let_def split: if_splits)
next
  case True
  show ?thesis
  proof (cases e)
    case (Poll_timeout fok ok)
    then obtain w1 where "flush_dirty fok w = Some w1" "wcli w' = wcli w1" "mfile w' = mfile w1" "dfile w' = dfile w1"
      "dumped w' = dumped w1" "m_failed w' = m_failed w1" "d_failed w' = d_failed w1"
      using step True by (auto simp: bind_eq_Some_conv Let_def split: if_splits)
    then show ?thesis by (rule that(2))
  next
    case (Read_content buf)
    then show ?thesis using step True that(3) by auto
  qed (use step True that(1) in auto)
qed

lemma worker_step_saved:
  assumes "worker_step e w = Some w'"
  shows "saved_inv w \<Longrightarrow> saved_inv w'" "mem_saved w \<Longrightarrow> mem_saved w'"
  using assms
proof (atomize (full), cases rule: worker_step_frame)
  case (flush w1 ok)
  then show "(saved_inv w \<longrightarrow> saved_inv w') \<and> (mem_saved w \<longrightarrow> mem_saved w')"
    using flush_saved [OF flush(1)] saved_frame [of w' w1] by blast
next
  case (read buf r st)
  then show "(saved_inv w \<longrightarrow> saved_inv w') \<and> (mem_saved w \<longrightarrow> mem_saved w')"
    using process_content_dirty [OF read(1)] dump_cong [of st "wcli w"]
    by (auto simp: saved_inv_def mem_saved_def)
qed (use saved_frame in blast)

lemma mem_saved_disk:
  assumes "mem_saved w"
  shows "disk_dump ok w = Some w' \<Longrightarrow> mem_saved w'" "mem_saved (disk_clear w)"
proof -
  show "mem_saved w'" if d: "disk_dump ok w = Some w'"
  proof (cases "mfile_dirty (wcli w) \<and> \<not> dumped w")
    case True
    then have "wcli w' = wcli w \<and> mfile w' = mfile w \<and> m_failed w' = m_failed w"
      using d by (auto simp: disk_dump_def dump_dfile_def split: if_splits)
    then show ?thesis using assms by (simp add: mem_saved_def)
  next
    case False
    then have "w' = w" using d unfolding disk_dump_def by (simp only: if_False option.inject)
    then show ?thesis using assms by simp
  qed
  show "mem_saved (disk_clear w)"
    using assms by (cases "dumped w") (simp_all add: disk_clear_def mem_saved_def)
qed

lemma thread_step_saved: "thread_step w w' \<Longrightarrow> mem_saved w \<Longrightarrow> mem_saved w'"
  by (induction rule: thread_step.induct) (blast intro: worker_step_saved mem_saved_disk)+

interpretation client: invariant_system "\<lambda>w. w = init_worker" client_step saved_inv
proof unfold_locales
  show "saved_inv w" if "w = init_worker" for w using that init_saved by simp
  show "saved_inv w'" if "client_step w w'" "saved_inv w" for w w'
    using that by (induction rule: client_step.induct) (blast intro: worker_step_saved disk_worker_saved)+
qed

theorem clean_flags_mean_saved:
  assumes "client_step\<^sup>*\<^sup>* init_worker w" "\<not> data_dirty (wcli w)" "\<not> mfile_dirty (wcli w)"
    and "\<not> m_failed w" "\<not> d_failed w"
  shows "\<exists>ls. dump_htable (wcli w) = Some ls \<and> (mfile w = Some ls \<or> mfile w = None \<and> ls = [])
    \<and> (dfile w = Some ls \<or> dfile w = None \<and> ls = [])"
proof -
  have "saved_inv w" using client.reachable_inv [OF assms(1)] by simp
  then show ?thesis using assms(2-5) by (auto simp: saved_inv_def mem_saved_def split: option.splits)
qed

interpretation threads: invariant_system "\<lambda>w. w = init_worker" thread_step mem_saved
proof unfold_locales
  show "mem_saved w" if "w = init_worker" for w using that init_saved by simp
qed (rule thread_step_saved)

text \<open>C12. In every interleaving of the network thread with the two halves of a turn of
  disk_worker, a clear data_dirty flag means that the memory file holds the table,
  unless the last fopen of that file failed: dump_htable then returns without a result
  and the flag is cleared all the same (ConfCli.unsaved_change_forgotten).\<close>

theorem memory_file_current:
  assumes "thread_step\<^sup>*\<^sup>* init_worker w" "\<not> data_dirty (wcli w)" "\<not> m_failed w"
  shows "\<exists>ls. dump_htable (wcli w) = Some ls \<and> (mfile w = Some ls \<or> mfile w = None \<and> ls = [])"
proof -
  have "mem_saved w" using threads.reachable_inv [OF assms(1)] by simp
  then show ?thesis using assms(2,3) by (auto simp: mem_saved_def split: option.splits)
qed

text \<open>
  When the memory file cannot be opened, the change is forgotten: the flag is cleared, the
  file keeps its old content, and no later timeout writes it before another command comes.
\<close>

lemma unsaved_change_forgotten:
  assumes "connected w" "data_dirty (wcli w)" "wait_cnt w + 2 < PING_TIMER"
  shows "\<exists>w1 w2. worker_step (Poll_timeout False k) w = Some w1 \<and> \<not> data_dirty (wcli w1) \<and> mfile w1 = mfile w
    \<and> dump_htable (wcli w1) = dump_htable (wcli w)
    \<and> worker_step (Poll_timeout True k) w1 = Some w2 \<and> mfile w2 = mfile w \<and> \<not> data_dirty (wcli w2)"
  using assms by (simp add: flush_dirty_def dump_mfile_def Let_def)

definition served :: "worker option" where
  "served = Option.bind (worker_step (Connect True) init_worker) (\<lambda>w.
     Option.bind (worker_step (Read_content (''k1 v1'' @ [NL])) w) (\<lambda>w.
     Option.bind (worker_step (Poll_timeout True True) w) (disk_worker True)))"

lemma served_steps: "served = Some w \<Longrightarrow> client_step\<^sup>*\<^sup>* init_worker w"
  unfolding served_def bind_eq_Some_conv
  by (meson client_step.intros rtranclp.rtrancl_into_rtrancl rtranclp.rtrancl_refl)

lemma served_exists: "\<exists>w. served = Some w \<and> \<not> data_dirty (wcli w) \<and> \<not> mfile_dirty (wcli w)
  \<and> dump_htable (wcli w) \<noteq> Some [] \<and> \<not> m_failed w \<and> \<not> d_failed w"
proof -
  define w1 where "w1 = init_worker\<lparr>cur_uplink_idx := 0, connected := True\<rparr>"
  have w1: "worker_step (Connect True) init_worker = Some w1" "wcli w1 = init_cli"
    by (simp_all add: try_conn_def init_worker_def uplink_list_def HOST_MAX_def c_mod_def c_div_def w1_def)
  obtain st where st: "exec_line ''k1'' ''v1'' init_cli = Some (0, st)" "cli_ok 1 st" "data_dirty st"
      "config_of st = [''k1'' \<mapsto> ''v1'']"
    using set_key_new [OF init_cli_ok(1), of "''k1''" "''v1''"] init_cli_ok(2) by (auto simp: exec_line_def)
  have ok: "line_ok (''k1'', ''v1'')" by (simp add: line_ok_def key_ok_def val_ok_def NUL_def NL_def)
  have "process_content (line_text (''k1'', ''v1'')) init_cli = Some (0, st)"
    using process_line [OF init_clean ok st(1)] by simp
  then have read: "worker_step (Read_content (''k1 v1'' @ [NL])) w1 = Some (w1\<lparr>wcli := st\<rparr>)"
    using w1(2) by (simp add: line_text_def w1_def)
  obtain ls where ls: "dump_htable st = Some ls" "set ls = {(k, v). config_of st k = Some v}"
    using dump_exact [OF st(2)] by blast
  have "(''k1'', ''v1'') \<in> set ls" using ls(2) st(4) by simp
  then have ne: "ls \<noteq> []" by auto
  have d: "dump_htable (st\<lparr>data_dirty := False, mfile_dirty := b\<rparr>) = Some ls" for b
    using dump_cong [of "st\<lparr>data_dirty := False, mfile_dirty := b\<rparr>" st] ls(1) by simp
  show ?thesis
    unfolding served_def w1(1) Option.bind.bind_lunit read
    using ls(1) st(3) d ne by (simp add: w1_def init_worker_def flush_dirty_def dump_mfile_def disk_worker_def disk_dump_def dump_dfile_def disk_clear_def PING_TIMER_def
        FLUSH_INTERVAL_def Let_def)
qed

theorem clean_flags_mean_saved_witness:
  "\<exists>w ls. client_step\<^sup>*\<^sup>* init_worker w \<and> ls \<noteq> [] \<and> dump_htable (wcli w) = Some ls
     \<and> mfile w = Some ls \<and> dfile w = Some ls"
proof -
  obtain w where w: "served = Some w" "\<not> data_dirty (wcli w)" "\<not> mfile_dirty (wcli w)" "dump_htable (wcli w) \<noteq> Some []"
    "\<not> m_failed w" "\<not> d_failed w"
    using served_exists by blast
  then show ?thesis using clean_flags_mean_saved [OF served_steps [OF w(1)] w(2,3,5,6)] served_steps [OF w(1)] by auto
qed

text \<open>A whole turn of \<open>disk_worker\<close> is two steps of the interleaving.\<close>

lemma client_thread_steps: "client_step\<^sup>*\<^sup>* w w' \<Longrightarrow> thread_step\<^sup>*\<^sup>* w w'"
proof (induction rule: rtranclp_induct)
  case (step v w')
  from step(2) have "thread_step\<^sup>*\<^sup>* v w'"
  proof cases
    case (disk ok)
    then obtain u where "disk_dump ok v = Some u" "w' = disk_clear u" by (auto simp: disk_worker_def)
    then show ?thesis
      using thread_step.dump thread_step.clear by (metis rtranclp.rtrancl_into_rtrancl rtranclp.rtrancl_refl)
  qed (blast intro: thread_step.net)
  with step(3) show ?case by simp
qed simp

theorem memory_file_current_witness:
  "\<exists>w ls. thread_step\<^sup>*\<^sup>* init_worker w \<and> ls \<noteq> [] \<and> dump_htable (wcli w) = Some ls \<and> mfile w = Some ls"
proof -
  obtain w where w: "served = Some w" "\<not> data_dirty (wcli w)" "dump_htable (wcli w) \<noteq> Some []" "\<not> m_failed w"
    using served_exists by blast
  have "thread_step\<^sup>*\<^sup>* init_worker w" using client_thread_steps served_steps [OF w(1)] by blast
  then show ?thesis using memory_file_current [OF _ w(2,4)] w(3) by auto
qed

section \<open>A lost update of the disk file\<close>

lemma key_line:
  assumes "clean st" "cli_ok p st" "p < 2 ^ 28" "config_of st key = None" "line_ok (key, val)"
    and "take 7 val \<noteq> ''!delete''"
  obtains st' where "process_content (line_text (key, val)) st = Some (0, st')" "clean st'" "cli_ok (p + 1) st'"
    "data_dirty st'" "config_of st' = (config_of st)(key \<mapsto> val)"
proof -
  obtain st' where "set_key key val st = Some (0, st')" "cli_ok (p + 1) st'" "data_dirty st'"
      "config_of st' = (config_of st)(key \<mapsto> val)"
    using set_key_new [OF assms(2-4)] by blast
  moreover from this have "exec_line key val st = Some (0, st')" using assms(6) by (simp add: exec_line_def)
  ultimately show ?thesis using that process_line [OF assms(1,5)] by blast
qed

lemma cli_flags:
  "cli_ok p (st\<lparr>data_dirty := b, mfile_dirty := c\<rparr>) = cli_ok p st"
  "config_of (st\<lparr>data_dirty := b, mfile_dirty := c\<rparr>) = config_of st"
  "clean (st\<lparr>data_dirty := b, mfile_dirty := c\<rparr>) = clean st"
  by (simp_all add: cli_ok_def config_of_def fun_eq_iff clean_def)

text \<open>
  The network thread can change the table and write the memory file between the write of
  the disk file and the reset of its flag. Both flags are then clear, and the disk file
  misses the change.
\<close>

theorem disk_update_lost:
  "\<exists>w ls. thread_step\<^sup>*\<^sup>* init_worker w \<and> \<not> data_dirty (wcli w) \<and> \<not> mfile_dirty (wcli w) \<and> \<not> dumped w
     \<and> config_of (wcli w) ''k2'' = Some ''v2'' \<and> dfile w = Some ls \<and> ''k2'' \<notin> fst ` set ls"
proof -
  let ?read = "\<lambda>k v. Read_content (line_text (k, v))"
  define w1 where "w1 = init_worker\<lparr>cur_uplink_idx := 0, connected := True\<rparr>"
  have c: "worker_step (Connect True) init_worker = Some w1" "wcli w1 = init_cli" "connected w1" "\<not> dumped w1"
      "wait_cnt w1 = 0"
    by (simp_all add: try_conn_def init_worker_def uplink_list_def HOST_MAX_def c_mod_def c_div_def w1_def)
  have lines: "line_ok (''k1'', ''v1'')" "line_ok (''k2'', ''v2'')"
    by (simp_all add: line_ok_def key_ok_def val_ok_def NUL_def NL_def)
  obtain s where s: "process_content (line_text (''k1'', ''v1'')) init_cli = Some (0, s)" "clean s" "cli_ok 1 s"
      "data_dirty s" "config_of s = [''k1'' \<mapsto> ''v1'']"
    using key_line [OF init_clean init_cli_ok(1) _ _ lines(1)] init_cli_ok(2) by auto
  obtain l1 where l1: "dump_htable s = Some l1" "set l1 = {(k, v). config_of s k = Some v}"
    using dump_exact [OF s(3)] by blast
  define w2 where "w2 = w1\<lparr>wcli := s\<rparr>"
  define s' where "s' = s\<lparr>data_dirty := False, mfile_dirty := True\<rparr>"
  define w3 where "w3 = w2\<lparr>mfile := Some l1, m_failed := False, wcli := s', wait_cnt := 1\<rparr>"
  define w4 where "w4 = w3\<lparr>dfile := Some l1, d_failed := False, dumped := True\<rparr>"
  have st2: "worker_step (?read ''k1'' ''v1'') w1 = Some w2" using s(1) c by (simp add: w2_def)
  have st3: "worker_step (Poll_timeout True True) w2 = Some w3"
    using l1(1) s(4) c by (simp add: w2_def w3_def s'_def flush_dirty_def dump_mfile_def PING_TIMER_def FLUSH_INTERVAL_def)
  have st4: "disk_dump True w3 = Some w4"
    using l1(1) c by (simp add: disk_dump_def dump_dfile_def w2_def w3_def w4_def s'_def)
  obtain u where u: "process_content (line_text (''k2'', ''v2'')) s' = Some (0, u)" "cli_ok 2 u" "data_dirty u"
      "config_of u = [''k1'' \<mapsto> ''v1'', ''k2'' \<mapsto> ''v2'']"
  proof (rule key_line [of s' 1 "''k2''" "''v2''"])
    show "clean s'" "cli_ok 1 s'" "config_of s' ''k2'' = None" using s by (simp_all add: s'_def cli_flags)
    show "(1 :: nat) < 2 ^ 28" by simp
  qed (use lines(2) s(5) that in \<open>simp_all add: s'_def cli_flags numeral_2_eq_2\<close>)
  obtain l2 where l2: "dump_htable u = Some l2" using dump_exact [OF u(2)] by blast
  define w5 where "w5 = w4\<lparr>wcli := u\<rparr>"
  define w6 where "w6 = w5\<lparr>mfile := Some l2, m_failed := False, wcli := u\<lparr>data_dirty := False, mfile_dirty := True\<rparr>, wait_cnt := 2\<rparr>"
  have st5: "worker_step (?read ''k2'' ''v2'') w4 = Some w5"
    using u(1) c by (simp add: w5_def w4_def w3_def w2_def)
  have st6: "worker_step (Poll_timeout True True) w5 = Some w6"
    using l2 u(3) c by (simp add: w6_def w5_def w4_def w3_def w2_def flush_dirty_def dump_mfile_def PING_TIMER_def FLUSH_INTERVAL_def)
  have "thread_step\<^sup>*\<^sup>* init_worker (disk_clear w6)"
    using c(1) st2 st3 st4 st5 st6
    by (meson thread_step.intros rtranclp.rtrancl_into_rtrancl rtranclp.rtrancl_refl)
  moreover have "\<not> data_dirty (wcli (disk_clear w6))" "\<not> mfile_dirty (wcli (disk_clear w6))"
      "\<not> dumped (disk_clear w6)" "dfile (disk_clear w6) = Some l1"
      "config_of (wcli (disk_clear w6)) ''k2'' = Some ''v2''"
    using u(4) by (simp_all add: disk_clear_def w6_def w5_def w4_def cli_flags)
  moreover have "''k2'' \<notin> fst ` set l1" using l1(2) s(5) by (auto split: if_splits)
  ultimately show ?thesis by blast
qed

end
