(* ===== verification/ConfSrv.thy ===== *)
theory ConfSrv
  imports ConnTable LogDisk
begin

unbundle bit_operations_syntax

text \<open>
  src/ConfSrv.c, the configuration server: it sends each client the configuration file of
  its address when it connects, and again whenever the file's time stamp is newer than
  the one last sent. Network threads handle the events of their clients, one thread scans
  all sessions for changed files and frees closed ones, the main thread accepts clients.

  Files are a map from names to content and time stamp. The results of \<open>accept\<close>, \<open>read\<close>,
  \<open>write\<close>, \<open>calloc\<close> and \<open>epoll_ctl\<close> are arguments. A session is held by value in its slot;
  a freed session is gone from the table.
\<close>

section \<open>Configuration files\<close>

record conf_file =
  content :: string
  st_ctime :: int

type_synonym conf_dir = "string \<Rightarrow> conf_file option"

definition conf_data_dir_prefix :: string where
  "conf_data_dir_prefix = ''/data01/steconf/''"

definition ip_dots :: "nat \<Rightarrow> nat \<Rightarrow> nat \<Rightarrow> nat \<Rightarrow> string" where
  "ip_dots a b c d = dec_pad 3 a @ ''_'' @ dec_pad 3 b @ ''_'' @ dec_pad 3 c @ ''_'' @ dec_pad 3 d"

text \<open>The file of the address, and the one of its /24 network (\<open>d = 0\<close>).\<close>

definition conf_name :: "u32 \<Rightarrow> nat \<Rightarrow> string" where
  "conf_name ipv4 d =
     (let a = ip_byte ipv4 3; b = ip_byte ipv4 2; c = ip_byte ipv4 1 in
      conf_data_dir_prefix @ ''/'' @ ip_dots a b 0 0 @ ''/'' @ ip_dots a b c d @ ''.conf'')"

text \<open>The conversion of a 64-bit \<open>time_t\<close> to \<open>int\<close>.\<close>

definition to_int32 :: "int \<Rightarrow> int" where "to_int32 x = signed_take_bit 31 x"

definition check_ts :: "conf_dir \<Rightarrow> u32 \<Rightarrow> int" where
  "check_ts dir ipv4 =
     (case dir (conf_name ipv4 (ip_byte ipv4 0)) of
        Some fl \<Rightarrow> to_int32 (st_ctime fl)
      | None \<Rightarrow>
          (case dir (conf_name ipv4 0) of
             Some fl \<Rightarrow> to_int32 (st_ctime fl)
           | None \<Rightarrow> -1))"

section \<open>Sending a file\<close>

text \<open>\<open>fgets (buf, 1024, fp)\<close>: the line read and the rest of the file.\<close>

definition fgets :: "string \<Rightarrow> string \<times> string" where
  "fgets s =
     (let n = length (takeWhile (\<lambda>c. c \<noteq> CHR 0x0A) s) + 1; k = min n 1023 in (take k s, drop k s))"

text \<open>What \<open>write\<close> is given: \<open>buf\<close> up to \<open>strlen\<close>, after \<open>buf[1022] = 0\<close>.\<close>

definition reply_line :: "string \<Rightarrow> string" where
  "reply_line buf = takeWhile (\<lambda>c. c \<noteq> CHR 0x00) (take 1022 buf)"

text \<open>
  The loop of \<open>reply_conf\<close>: \<open>rcs\<close> are the results of \<open>write\<close>, of which a positive one
  counts the bytes taken. \<open>None\<close>: the results listed do not reach the end of the loop.
\<close>

fun reply_loop :: "int list \<Rightarrow> string \<Rightarrow> int \<Rightarrow> string \<Rightarrow> (int \<times> string) option" where
  "reply_loop [] s tot sent = (if s = [] then Some (tot, sent) else None)"
| "reply_loop (ret # rcs) s tot sent =
     (if s = [] then Some (tot, sent)
      else
        (let (buf, rest) = fgets s in
         if ret \<le> 0 then Some (-1, sent)
         else reply_loop rcs rest (tot + ret) (sent @ take (nat ret) (reply_line buf))))"

text \<open>
  \<open>reply_conf\<close> gives its result, \<open>*fts\<close> and the bytes sent; \<open>dir\<close> and \<open>dir'\<close> are the files
  when it opens the file and when it calls \<open>stat\<close>.
\<close>

definition reply_conf :: "conf_dir \<Rightarrow> conf_dir \<Rightarrow> int list \<Rightarrow> u32 \<Rightarrow> (int \<times> int \<times> string) option" where
  "reply_conf dir dir' rcs ipv4 =
     (let fname = conf_name ipv4 (ip_byte ipv4 0);
          fname = (if dir fname = None then conf_name ipv4 0 else fname) in
      case dir fname of
        None \<Rightarrow> Some (-1, -1, [])
      | Some fl \<Rightarrow>
          (case reply_loop rcs (content fl) 0 [] of
             None \<Rightarrow> None
           | Some (ret, sent) \<Rightarrow>
               if ret < 0 then Some (-1, -1, sent)
               else Some (ret, case dir' fname of None \<Rightarrow> -1 | Some fl \<Rightarrow> to_int32 (st_ctime fl), sent)))"

section \<open>Sessions\<close>

record conf_session =
  cip :: u32
  to_be_free :: nat
  cevents :: u32
  csocket_fd :: int
  cthreadidx :: nat
  cslot_idx :: int
  conf_ts :: int
  need_reply :: bool
  nr_reply_bytes :: int
  cstart_ticks :: u64
  last_alive_tick :: u64

definition EPOLL_IN :: u32 where "EPOLL_IN = 0x001"
definition EPOLL_OUT :: u32 where "EPOLL_OUT = 0x004"
definition EPOLL_ERR :: u32 where "EPOLL_ERR = 0x008"
definition EPOLL_RDHUP :: u32 where "EPOLL_RDHUP = 0x2000"
definition EPOLL_ET :: u32 where "EPOLL_ET = 0x80000000"

definition cs_get_new_session :: "bool \<Rightarrow> u64 \<Rightarrow> u32 \<Rightarrow> u32 \<Rightarrow> int \<Rightarrow> nat \<Rightarrow> conf_session option" where
  "cs_get_new_session calloc_ok tk addr ev sfd tid =
     (if \<not> calloc_ok then None
      else Some \<lparr>cip = addr, to_be_free = 0, cevents = ev, csocket_fd = sfd, cthreadidx = tid,
        cslot_idx = -1, conf_ts = -1, need_reply = False, nr_reply_bytes = 0,
        cstart_ticks = tk, last_alive_tick = tk\<rparr>)"

text \<open>
  \<open>free_session_step1\<close>, with the table \<open>ip_to_slot_idx\<close>, which is indexed by the low 24
  bits of the address.
\<close>

definition cs_free_session_step1 ::
  "conf_session \<Rightarrow> (u32 \<Rightarrow> int) \<Rightarrow> conf_session \<times> (u32 \<Rightarrow> int)" where
  "cs_free_session_step1 s m =
     (s\<lparr>csocket_fd := -1, to_be_free := 1\<rparr>, m(cip s AND 0x00FFFFFF := -1))"

text \<open>\<open>mod_event_epoll_to_session\<close>: \<open>op\<close> 1 adds events, 0 removes them.\<close>

definition mod_event_epoll_to_session :: "int \<Rightarrow> nat \<Rightarrow> u32 \<Rightarrow> conf_session \<Rightarrow> int \<times> conf_session" where
  "mod_event_epoll_to_session rc op opflag s =
     (let ev = (if op = 1 then cevents s OR opflag else cevents s AND NOT opflag) in
      (rc, if rc = -1 then s else s\<lparr>cevents := ev\<rparr>))"

section \<open>The server\<close>

record cs_gstat =
  cs_date_str :: string
  cs_ticks :: u64
  cs_last_report_tick :: u64
  net_out_bytes :: "nat \<Rightarrow> u64"
  cs_net_in_bytes :: "nat \<Rightarrow> u64"
  last_net_out_bytes :: "nat \<Rightarrow> u64"
  cs_last_net_in_bytes :: "nat \<Rightarrow> u64"
  sessions_busy_loops :: u64
  last_sessions_busy_loops :: u64
  cs_snapshot_session_alive :: int
  cs_period_forced :: int
  cs_period_submit :: int
  cs_period_finished :: int
  cs_period_failed :: int

record cs_config =
  cs_nWorkers :: int
  cs_force_disconnect_seconds :: int

record conf_server =
  ccfg :: cs_config
  cgstats :: cs_gstat
  cslots :: "nat \<Rightarrow> nat \<Rightarrow> conf_session option"
  ccurr_nr_conn :: "nat \<Rightarrow> int"
  ip_to_slot_idx :: "u32 \<Rightarrow> int"

text \<open>\<open>free_session_step2\<close> takes a session that step 1 has marked out of the table.\<close>

definition cs_free_session_step2 :: "conf_session \<Rightarrow> conf_server \<Rightarrow> int \<times> conf_server" where
  "cs_free_session_step2 s S =
     (let pos = cslot_idx s; t = cthreadidx s in
      if to_be_free s \<noteq> 1 then (-1, S)
      else if pos > -1 then
        (0, S\<lparr>ccurr_nr_conn := (ccurr_nr_conn S)(t := ccurr_nr_conn S t - 1),
              cslots := (cslots S)(t := (cslots S t)(nat pos := None))\<rparr>)
      else (0, S))"

text \<open>\<open>del_session (s, 1)\<close>.\<close>

definition cs_del_session_now :: "conf_session \<Rightarrow> conf_server \<Rightarrow> int \<times> conf_server" where
  "cs_del_session_now s S =
     (let (s, m) = cs_free_session_step1 s (ip_to_slot_idx S) in
      cs_free_session_step2 s (S\<lparr>ip_to_slot_idx := m\<rparr>))"

text \<open>
  \<open>accept_client\<close>: the file is sent before the session exists. The last argument but one
  is the result of \<open>calloc\<close>, the last that of \<open>epoll_ctl\<close>.
\<close>

definition cs_accept_client ::
  "int \<Rightarrow> u32 \<Rightarrow> conf_dir \<Rightarrow> conf_dir \<Rightarrow> int list \<Rightarrow> bool \<Rightarrow> int \<Rightarrow> conf_server
     \<Rightarrow> (int \<times> conf_server \<times> string) option" where
  "cs_accept_client sfd addr dir dir' rcs calloc_ok epoll_rc S =
     (if sfd = -1 then Some (-1, S, [])
      else
        (let hash = addr AND 0xFF; t = nat (c_mod (uint hash) (cs_nWorkers (ccfg S))) in
         case reply_conf dir dir' rcs addr of
           None \<Rightarrow> None
         | Some (ret, fts, sent) \<Rightarrow>
             if ret < 0 \<or> fts < 0 then Some (-1, S, sent)
             else
               (case cs_get_new_session calloc_ok (cs_ticks (cgstats S)) addr (EPOLL_IN OR EPOLL_ET) sfd t of
                  None \<Rightarrow> Some (-1, S, sent)
                | Some s \<Rightarrow>
                    (let s = s\<lparr>conf_ts := fts\<rparr>; slot = get_free_conn_slot (cslots S t) in
                     if epoll_rc \<noteq> -1 \<and> \<not> slot < 0 then
                       Some (sfd,
                         S\<lparr>cslots := (cslots S)(t := (cslots S t)(nat slot \<mapsto> s\<lparr>cslot_idx := slot\<rparr>)),
                           ccurr_nr_conn := (ccurr_nr_conn S)(t := ccurr_nr_conn S t + 1),
                           ip_to_slot_idx := (ip_to_slot_idx S)(addr AND 0x00FFFFFF := slot)\<rparr>, sent)
                     else
                       Some (-1, S\<lparr>ip_to_slot_idx := snd (cs_free_session_step1 s (ip_to_slot_idx S))\<rparr>, sent)))))"

section \<open>The network threads\<close>

text \<open>\<open>drain_client\<close>: \<open>rc\<close> is the result of \<open>read\<close>.\<close>

definition cs_drain_client ::
  "u64 \<Rightarrow> int \<Rightarrow> conf_session \<Rightarrow> (u32 \<Rightarrow> int) \<Rightarrow> conf_session \<times> (u32 \<Rightarrow> int)" where
  "cs_drain_client tk rc s m =
     (if cslot_idx s < 0 then (s, m)
      else if rc = 0 \<or> rc = -1 then cs_free_session_step1 s m
      else (s\<lparr>last_alive_tick := tk\<rparr>, m))"

text \<open>The parts of the \<open>EPOLLOUT\<close> branch of \<open>process_thread\<close>: before the file is sent, after, and the end.\<close>

definition reply_begin :: "u64 \<Rightarrow> conf_session \<Rightarrow> conf_session" where
  "reply_begin tk s = s\<lparr>need_reply := False, last_alive_tick := tk\<rparr>"

definition reply_end ::
  "int \<Rightarrow> int \<Rightarrow> conf_session \<Rightarrow> (u32 \<Rightarrow> int) \<Rightarrow> conf_session \<times> (u32 \<Rightarrow> int)" where
  "reply_end ret fts s m =
     (if ret < 0 \<or> fts < 0 then cs_free_session_step1 s m
      else (s\<lparr>nr_reply_bytes := (if nr_reply_bytes s = 0 then ret else nr_reply_bytes s), conf_ts := fts\<rparr>, m))"

definition disarm_out :: "int \<Rightarrow> conf_session \<Rightarrow> conf_session" where
  "disarm_out rc s =
     (if csocket_fd s \<ge> 0 \<and> rc \<noteq> -1 then s\<lparr>cevents := NOT EPOLL_OUT AND cevents s\<rparr> else s)"

record event_env =
  ee_events :: u32
  ee_read :: int
  ee_dir :: conf_dir
  ee_dir' :: conf_dir
  ee_writes :: "int list"
  ee_mod_rc :: int

text \<open>One ready descriptor in the loop of \<open>process_thread\<close>; the last result are the bytes sent.\<close>

definition cs_process_event ::
  "u64 \<Rightarrow> event_env \<Rightarrow> conf_session \<Rightarrow> (u32 \<Rightarrow> int) \<Rightarrow> (conf_session \<times> (u32 \<Rightarrow> int) \<times> string) option" where
  "cs_process_event tk e s m =
     (if ee_events e AND EPOLL_ERR \<noteq> 0 \<or> ee_events e AND EPOLL_RDHUP \<noteq> 0 then
        (let (s, m) = cs_free_session_step1 s m in Some (s, m, []))
      else
        (let (s, m) = (if ee_events e AND EPOLL_IN \<noteq> 0 then cs_drain_client tk (ee_read e) s m else (s, m)) in
         if csocket_fd s \<ge> 0 \<and> ee_events e AND EPOLL_OUT \<noteq> 0 then
           (if need_reply s then
              (case reply_conf (ee_dir e) (ee_dir' e) (ee_writes e) (cip s) of
                 None \<Rightarrow> None
               | Some (ret, fts, sent) \<Rightarrow>
                   (let (s, m) = reply_end ret fts (reply_begin tk s) m in
                    Some (disarm_out (ee_mod_rc e) s, m, sent)))
            else Some (disarm_out (ee_mod_rc e) s, m, []))
         else Some (s, m, [])))"

section \<open>The scan\<close>

text \<open>The part of the scan that looks for a newer file; \<open>rc\<close> is the result of \<open>epoll_ctl\<close>.\<close>

definition scan_check :: "conf_dir \<Rightarrow> int \<Rightarrow> conf_session \<Rightarrow> conf_session" where
  "scan_check dir rc s =
     (if \<not> need_reply s then
        (let ts = check_ts dir (cip s) in
         if ts > conf_ts s then snd (mod_event_epoll_to_session rc 1 EPOLL_OUT (s\<lparr>need_reply := True\<rparr>)) else s)
      else s)"

text \<open>The force disconnect of a silent session, and the scan of a live one.\<close>

definition scan_dead :: "cs_config \<Rightarrow> cs_gstat \<Rightarrow> conf_session \<Rightarrow> bool" where
  "scan_dead c g s \<longleftrightarrow> cs_force_disconnect_seconds c > 0
     \<and> last_alive_tick s + of_int (cs_force_disconnect_seconds c) < cs_ticks g"

definition scan_live ::
  "nat \<Rightarrow> conf_dir \<Rightarrow> int \<Rightarrow> conf_session \<Rightarrow> cs_gstat \<Rightarrow> conf_session \<times> cs_gstat" where
  "scan_live t dir rc s g =
     (let g = g\<lparr>sessions_busy_loops := sessions_busy_loops g + 1\<rparr>;
          s = scan_check dir rc s in
      if nr_reply_bytes s > 0 then
        (s\<lparr>nr_reply_bytes := 0\<rparr>,
         g\<lparr>net_out_bytes := (net_out_bytes g)(t := net_out_bytes g t + of_int (nr_reply_bytes s))\<rparr>)
      else (s, g))"

text \<open>One slot of \<open>scan_for_reply_thread\<close>; the last component counts the live sessions.\<close>

definition cs_scan_slot ::
  "nat \<Rightarrow> nat \<Rightarrow> conf_dir \<Rightarrow> int \<Rightarrow> conf_server \<times> int \<Rightarrow> conf_server \<times> int" where
  "cs_scan_slot t i dir rc = (\<lambda>(S, alive).
     case cslots S t i of
       None \<Rightarrow> (S, alive)
     | Some s \<Rightarrow>
         if scan_dead (ccfg S) (cgstats S) s then (snd (cs_del_session_now s S), alive)
         else if to_be_free s = 1 then (snd (cs_free_session_step2 s S), alive)
         else
           (let (s, g) = scan_live t dir rc s (cgstats S)
            in (S\<lparr>cgstats := g, cslots := (cslots S)(t := (cslots S t)(i \<mapsto> s))\<rparr>, alive + 1)))"

fun cs_scan_slots ::
  "(nat \<times> nat) list \<Rightarrow> (nat \<Rightarrow> nat \<Rightarrow> conf_dir) \<Rightarrow> (nat \<Rightarrow> nat \<Rightarrow> int) \<Rightarrow> conf_server \<times> int \<Rightarrow> conf_server \<times> int" where
  "cs_scan_slots [] dir rc X = X"
| "cs_scan_slots ((t, i) # ps) dir rc X = cs_scan_slots ps dir rc (cs_scan_slot t i (dir t i) (rc t i) X)"

text \<open>
  One round: only the number of live sessions of the last round is published, the other
  counters are never raised.
\<close>

definition cs_scan_round ::
  "(nat \<Rightarrow> nat \<Rightarrow> conf_dir) \<Rightarrow> (nat \<Rightarrow> nat \<Rightarrow> int) \<Rightarrow> conf_server \<times> int \<Rightarrow> conf_server \<times> int" where
  "cs_scan_round dir rc = (\<lambda>(S, alive).
     cs_scan_slots (List.product [0..<nat (cs_nWorkers (ccfg S))] [0..<MAX_CONN_PER_THREAD]) dir rc
       (S\<lparr>cgstats := (cgstats S)\<lparr>cs_snapshot_session_alive := alive\<rparr>\<rparr>, 0))"

section \<open>The tick and the start\<close>

text \<open>
  \<open>periodic\<close>, without its output. \<open>period_succ_finished_disk_io\<close> is reset twice and
  \<open>period_failed_finished_disk_io\<close> never.
\<close>

definition cs_periodic :: "cs_config \<Rightarrow> string \<Rightarrow> cs_gstat \<Rightarrow> cs_gstat" where
  "cs_periodic c date g =
     (let g = g\<lparr>cs_date_str := date, cs_ticks := cs_ticks g + 1\<rparr> in
      if cs_ticks g mod 10 \<noteq> 0 then g
      else
        g\<lparr>cs_last_report_tick := cs_ticks g,
          last_sessions_busy_loops := sessions_busy_loops g,
          cs_period_forced := 0, cs_period_submit := 0, cs_period_finished := 0,
          cs_last_net_in_bytes := (\<lambda>i. if int i < cs_nWorkers c then cs_net_in_bytes g i else cs_last_net_in_bytes g i),
          last_net_out_bytes := (\<lambda>i. if int i < cs_nWorkers c then net_out_bytes g i else last_net_out_bytes g i)\<rparr>)"

definition cs_init_gstat :: "string \<Rightarrow> cs_gstat" where
  "cs_init_gstat date =
     \<lparr>cs_date_str = date, cs_ticks = 0, cs_last_report_tick = 0, net_out_bytes = (\<lambda>_. 0),
      cs_net_in_bytes = (\<lambda>_. 0), last_net_out_bytes = (\<lambda>_. 0), cs_last_net_in_bytes = (\<lambda>_. 0),
      sessions_busy_loops = 0, last_sessions_busy_loops = 0, cs_snapshot_session_alive = 0,
      cs_period_forced = 0, cs_period_submit = 0, cs_period_finished = 0, cs_period_failed = 0\<rparr>"

record cs_main_state =
  cs_mcfg :: cs_config
  cs_port :: int
  cs_verbose :: int
  cs_addr :: string
  loop_thread_delay_scan_ms :: int

definition cs_default_main :: cs_main_state where
  "cs_default_main = \<lparr>cs_mcfg = \<lparr>cs_nWorkers = 1, cs_force_disconnect_seconds = 10800\<rparr>, cs_port = 0,
     cs_verbose = 0, cs_addr = ''0.0.0.0'', loop_thread_delay_scan_ms = 10000\<rparr>"

text \<open>One option; \<open>None\<close> is \<open>usage\<close>, which exits. The options \<open>l\<close> and \<open>q\<close> have no case.\<close>

definition cs_main_option :: "char \<Rightarrow> string \<Rightarrow> cs_main_state \<Rightarrow> cs_main_state option" where
  "cs_main_option opt optarg m =
     (let c = cs_mcfg m; v = atoi optarg in
      if opt = CHR ''v'' then Some (m\<lparr>cs_verbose := cs_verbose m + 1\<rparr>)
      else if opt = CHR ''p'' then Some (m\<lparr>cs_port := v\<rparr>)
      else if opt = CHR ''a'' then Some (m\<lparr>cs_addr := optarg\<rparr>)
      else if opt = CHR ''n'' then
        (let n = v; n = (if n < 1 then 1 else n); n = (if n > 16 then 16 else n)
         in Some (m\<lparr>cs_mcfg := c\<lparr>cs_nWorkers := n\<rparr>\<rparr>))
      else if opt = CHR ''d'' then Some (m\<lparr>loop_thread_delay_scan_ms := v\<rparr>)
      else if opt = CHR ''k'' then Some (m\<lparr>cs_mcfg := c\<lparr>cs_force_disconnect_seconds := v\<rparr>\<rparr>)
      else None)"

fun cs_main_options :: "(char \<times> string) list \<Rightarrow> cs_main_state \<Rightarrow> cs_main_state option" where
  "cs_main_options [] m = Some m"
| "cs_main_options ((opt, optarg) # os) m = Option.bind (cs_main_option opt optarg m) (cs_main_options os)"

text \<open>The checks after the option loop; \<open>addr_ok\<close> tells which addresses \<open>inet_addr\<close> accepts.\<close>

definition cs_main_checks :: "(string \<Rightarrow> bool) \<Rightarrow> cs_main_state \<Rightarrow> cs_main_state option" where
  "cs_main_checks addr_ok m =
     (if \<not> addr_ok (cs_addr m) then None
      else if cs_port m < 1 \<or> cs_port m > 65535 then None
      else
        (let c = cs_mcfg m;
             c = (if cs_force_disconnect_seconds c < 0 then c\<lparr>cs_force_disconnect_seconds := 0\<rparr> else c)
         in Some (m\<lparr>cs_mcfg := c\<rparr>)))"

definition cs_main_config :: "(string \<Rightarrow> bool) \<Rightarrow> (char \<times> string) list \<Rightarrow> cs_main_state option" where
  "cs_main_config addr_ok os = Option.bind (cs_main_options os cs_default_main) (cs_main_checks addr_ok)"

definition cs_init_server :: "cs_config \<Rightarrow> string \<Rightarrow> conf_server" where
  "cs_init_server c date =
     \<lparr>ccfg = c, cgstats = cs_init_gstat date, cslots = (\<lambda>_ _. None), ccurr_nr_conn = (\<lambda>_. 0),
      ip_to_slot_idx = (\<lambda>_. -1)\<rparr>"

text \<open>
  The handlers as steps, each run as a whole; \<open>reply_step\<close> below takes the reply of a network
  thread and the scan apart. \<open>ok\<close> says that every \<open>epoll_ctl\<close> that changes the events of a
  session succeeds.
\<close>

inductive conf_step :: "bool \<Rightarrow> conf_server \<Rightarrow> conf_server \<Rightarrow> bool" for ok where
  accept: "cs_accept_client sfd addr dir dir' rcs b rc S = Some (r, S', sent) \<Longrightarrow> conf_step ok S S'"
| event: "cslots S t i = Some s \<Longrightarrow> (ok \<Longrightarrow> ee_mod_rc e \<noteq> -1) \<Longrightarrow>
    cs_process_event (cs_ticks (cgstats S)) e s (ip_to_slot_idx S) = Some (s', m, sent) \<Longrightarrow>
    conf_step ok S (S\<lparr>cslots := (cslots S)(t := (cslots S t)(i \<mapsto> s')), ip_to_slot_idx := m\<rparr>)"
| scan: "(ok \<Longrightarrow> rc \<noteq> -1) \<Longrightarrow> cs_scan_slot t i dir rc (S, n) = (S', n') \<Longrightarrow> conf_step ok S S'"
| tick: "conf_step ok S (S\<lparr>cgstats := cs_periodic (ccfg S) date (cgstats S)\<rparr>)"

section \<open>The table of the configuration server\<close>

definition cs_place :: "conf_session \<Rightarrow> nat \<times> int" where
  "cs_place s = (cthreadidx s, cslot_idx s)"

abbreviation cs_table_ok :: "conf_server \<Rightarrow> bool" where
  "cs_table_ok S \<equiv> table_ok cs_place (cslots S) (ccurr_nr_conn S)"

lemma cs_step1_fields [simp]:
  "cs_place (fst (cs_free_session_step1 s m)) = cs_place s"
  "to_be_free (fst (cs_free_session_step1 s m)) = 1"
  "csocket_fd (fst (cs_free_session_step1 s m)) = -1"
  "need_reply (fst (cs_free_session_step1 s m)) = need_reply s"
  "cevents (fst (cs_free_session_step1 s m)) = cevents s"
  by (simp_all add: cs_free_session_step1_def cs_place_def)

lemma scan_check_fields [simp]:
  "cs_place (scan_check dir rc s) = cs_place s" "to_be_free (scan_check dir rc s) = to_be_free s"
  by (simp_all add: scan_check_def mod_event_epoll_to_session_def Let_def cs_place_def)

lemma event_place:
  assumes "cs_process_event tk e s m = Some (s', m', sent)"
  shows "cs_place s' = cs_place s"
  using assms
  by (auto simp: cs_process_event_def cs_free_session_step1_def cs_drain_client_def reply_end_def reply_begin_def
      disarm_out_def cs_place_def Let_def split: if_splits option.splits prod.splits)

lemma cs_step2_table:
  assumes "cs_table_ok S" "cslots S t i = Some s" "cs_place s' = cs_place s"
  shows "cs_table_ok (snd (cs_free_session_step2 s' S))"
proof -
  have "cthreadidx s' = t" "cslot_idx s' = int i" using assms by (auto simp: table_ok_def cs_place_def)
  then show ?thesis
    using assms table_ok_remove [of cs_place "cslots S" "ccurr_nr_conn S" t i s]
    by (simp add: cs_free_session_step2_def Let_def)
qed

lemma scan_live_fields [simp]:
  "cs_place (fst (scan_live t dir rc s g)) = cs_place s"
  "to_be_free (fst (scan_live t dir rc s g)) = to_be_free s"
  "need_reply (fst (scan_live t dir rc s g)) = need_reply (scan_check dir rc s)"
  "cevents (fst (scan_live t dir rc s g)) = cevents (scan_check dir rc s)"
  "conf_ts (fst (scan_live t dir rc s g)) = conf_ts (scan_check dir rc s)"
  using scan_check_fields [of dir rc s] by (simp_all add: scan_live_def Let_def cs_place_def)

text \<open>What the scan does to a slot that is in use.\<close>

lemma cs_scan_slot_cases:
  assumes scan: "cs_scan_slot t i dir rc (S, n) = (S', n')" and s: "cslots S t i = Some s"
  obtains (dead) m where "scan_dead (ccfg S) (cgstats S) s"
      "S' = snd (cs_free_session_step2 (fst (cs_free_session_step1 s (ip_to_slot_idx S))) (S\<lparr>ip_to_slot_idx := m\<rparr>))"
  | (free) "to_be_free s = 1" "S' = snd (cs_free_session_step2 s S)"
  | (live) g where "to_be_free s \<noteq> 1"
      "S' = S\<lparr>cgstats := g, cslots := (cslots S)(t := (cslots S t)(i \<mapsto> fst (scan_live t dir rc s (cgstats S))))\<rparr>"
proof (cases "scan_dead (ccfg S) (cgstats S) s")
  case True
  then show ?thesis
    using scan s dead [of "snd (cs_free_session_step1 s (ip_to_slot_idx S))"]
    by (simp add: cs_scan_slot_def cs_del_session_now_def split_beta)
next
  case False
  then show ?thesis
    using scan s free live by (cases "to_be_free s = 1") (auto simp: cs_scan_slot_def split_beta)
qed

lemma cs_scan_table:
  assumes ok: "cs_table_ok S" and scan: "cs_scan_slot t i dir rc (S, n) = (S', n')"
  shows "cs_table_ok S'"
proof (cases "cslots S t i")
  case (Some s)
  from scan Some show ?thesis
  proof (cases rule: cs_scan_slot_cases)
    case (dead m)
    have "cs_table_ok (S\<lparr>ip_to_slot_idx := m\<rparr>)" "cslots (S\<lparr>ip_to_slot_idx := m\<rparr>) t i = Some s"
      using ok Some by simp_all
    then show ?thesis using cs_step2_table cs_step1_fields(1) dead(2) by blast
  next
    case free
    then show ?thesis using cs_step2_table [OF ok Some refl] by simp
  next
    case (live g)
    then show ?thesis using table_ok_update [OF ok Some scan_live_fields(1)] by (simp del: fun_upd_apply)
  qed
qed (use assms in \<open>simp add: cs_scan_slot_def\<close>)

lemma cs_accept_cases:
  assumes acc: "cs_accept_client sfd addr dir dir' rcs b rc S = Some (r, S', sent)"
    and t: "t = nat (c_mod (uint (addr AND 0xFF)) (cs_nWorkers (ccfg S)))"
  obtains (refused) m where "r = -1" "S' = S\<lparr>ip_to_slot_idx := m\<rparr>"
  | (accepted) s fts ret where "reply_conf dir dir' rcs addr = Some (ret, fts, sent)" "0 \<le> ret" "0 \<le> fts" "r = sfd"
      "cs_get_new_session True (cs_ticks (cgstats S)) addr (EPOLL_IN OR EPOLL_ET) sfd t = Some s"
      "0 \<le> get_free_conn_slot (cslots S t)"
      "S' = S\<lparr>cslots := (cslots S)(t := (cslots S t)(nat (get_free_conn_slot (cslots S t))
                  \<mapsto> s\<lparr>conf_ts := fts, cslot_idx := get_free_conn_slot (cslots S t)\<rparr>)),
          ccurr_nr_conn := (ccurr_nr_conn S)(t := ccurr_nr_conn S t + 1),
          ip_to_slot_idx := (ip_to_slot_idx S)(addr AND 0x00FFFFFF := get_free_conn_slot (cslots S t))\<rparr>"
proof -
  let ?m = "ip_to_slot_idx S"
  note def = acc [unfolded cs_accept_client_def Let_def, folded t]
  show ?thesis
  proof (cases "sfd = -1")
    case True
    then have "r = -1" "S' = S\<lparr>ip_to_slot_idx := ?m\<rparr>" using def by simp_all
    then show ?thesis by (rule refused)
  next
    case sfd: False
    then obtain ret fts x where reply: "reply_conf dir dir' rcs addr = Some (ret, fts, x)"
      using def by (auto split: option.splits)
    show ?thesis
    proof (cases "ret < 0 \<or> fts < 0")
      case True
      then have "r = -1" "S' = S\<lparr>ip_to_slot_idx := ?m\<rparr>" using def sfd reply by simp_all
      then show ?thesis by (rule refused)
    next
      case False
      show ?thesis
      proof (cases "b \<and> rc \<noteq> -1 \<and> \<not> get_free_conn_slot (cslots S t) < 0")
        case True
        obtain s where s: "cs_get_new_session True (cs_ticks (cgstats S)) addr (EPOLL_IN OR EPOLL_ET) sfd t = Some s"
          by (simp add: cs_get_new_session_def)
        note res = def [unfolded reply option.case prod.case]
        have "x = sent" using res True False sfd s by simp
        then show ?thesis
          by (intro accepted [OF _ _ _ _ s]) (use res True False sfd reply s in auto)
      next
        case c: False
        then have "r = -1" "\<exists>m. S' = S\<lparr>ip_to_slot_idx := m\<rparr>"
          using def False sfd reply by (auto simp: cs_get_new_session_def split: if_splits intro: exI [of _ ?m])
        then show ?thesis using refused by blast
      qed
    qed
  qed
qed

lemma cs_new_session_fields:
  assumes "cs_get_new_session a tk addr ev sfd t = Some s"
  shows "cthreadidx s = t" "\<not> need_reply s" "cevents s = ev" "to_be_free s = 0" "cip s = addr"
    "nr_reply_bytes s = 0" "csocket_fd s = sfd"
  using assms by (auto simp: cs_get_new_session_def split: if_splits)

lemma cs_accept_table:
  assumes ok: "cs_table_ok S" and acc: "cs_accept_client sfd addr dir dir' rcs b rc S = Some (r, S', sent)"
  shows "cs_table_ok S'"
  using acc refl
proof (cases rule: cs_accept_cases)
  case (accepted s fts ret)
  let ?t = "nat (c_mod (uint (addr AND 0xFF)) (cs_nWorkers (ccfg S)))"
  let ?k = "get_free_conn_slot (cslots S ?t)"
  have free: "cslots S ?t (nat ?k) = None" "nat ?k < MAX_CONN_PER_THREAD"
    using get_free_conn_slot_spec [of "cslots S ?t" ?k] accepted(6) by simp_all
  have "cs_place (s\<lparr>conf_ts := fts, cslot_idx := ?k\<rparr>) = (?t, int (nat ?k))"
    using cs_new_session_fields [OF accepted(5)] accepted(6) by (simp add: cs_place_def)
  from table_ok_insert [OF ok free this] show ?thesis
    using accepted(7) by (simp del: fun_upd_apply)
qed (use ok in simp)

lemma conf_step_table: "conf_step ok S S' \<Longrightarrow> cs_table_ok S \<Longrightarrow> cs_table_ok S'"
proof (induction rule: conf_step.induct)
  case (event S t i s e s' m sent)
  then show ?case using table_ok_update [OF event.prems event.hyps(1) event_place [OF event.hyps(3)]]
    by (simp del: fun_upd_apply)
qed (auto intro: cs_accept_table cs_scan_table)

section \<open>A pending update stays armed\<close>

text \<open>
  While no scan falls between the beginning and the end of a reply, a live session that still
  has to be sent its file waits for \<open>EPOLLOUT\<close>, and only such sessions do.
\<close>

definition armed :: "conf_session \<Rightarrow> bool" where
  "armed s \<longleftrightarrow> to_be_free s = 1 \<or> (need_reply s \<longleftrightarrow> cevents s AND EPOLL_OUT \<noteq> 0)"

lemma out_bits:
  "(w OR EPOLL_OUT) AND EPOLL_OUT \<noteq> 0" "(NOT EPOLL_OUT AND w) AND EPOLL_OUT = 0"
  "(EPOLL_IN OR EPOLL_ET) AND EPOLL_OUT = 0"
proof -
  have e: "EPOLL_OUT = 2 ^ 2" by (simp add: EPOLL_OUT_def)
  show "(w OR EPOLL_OUT) AND EPOLL_OUT \<noteq> 0"
    unfolding e and_exp_eq_0_iff_not_bit by (simp only: bit_or_iff bit_exp_iff) simp
  show "(NOT EPOLL_OUT AND w) AND EPOLL_OUT = 0"
    unfolding e and_exp_eq_0_iff_not_bit by (simp only: bit_and_iff bit_not_iff bit_exp_iff) simp
  show "(EPOLL_IN OR EPOLL_ET) AND EPOLL_OUT = 0" by (simp add: EPOLL_IN_def EPOLL_ET_def EPOLL_OUT_def)
qed

lemma scan_check_armed: "rc \<noteq> -1 \<Longrightarrow> armed s \<Longrightarrow> armed (scan_check dir rc s)"
  using out_bits(1) by (auto simp: scan_check_def armed_def mod_event_epoll_to_session_def Let_def)

lemma step1_armed: "armed (fst (cs_free_session_step1 s m))"
  by (simp add: armed_def)

lemma drain_armed: "armed s \<Longrightarrow> armed (fst (cs_drain_client tk rc s m))"
  using step1_armed by (auto simp: cs_drain_client_def armed_def)

lemma reply_part_armed:
  assumes "rc \<noteq> -1" "0 \<le> csocket_fd s"
  shows "armed (disarm_out rc (fst (reply_end ret fts (reply_begin tk s) m)))"
    "\<not> need_reply s \<Longrightarrow> armed (disarm_out rc s)"
  using assms out_bits(2)
  by (auto simp: reply_end_def reply_begin_def disarm_out_def armed_def cs_free_session_step1_def)

lemma event_armed:
  assumes ev: "cs_process_event tk e s m = Some (s', m', sent)" and rc: "ee_mod_rc e \<noteq> -1" and s: "armed s"
  shows "armed s'"
proof (cases "ee_events e AND EPOLL_ERR \<noteq> 0 \<or> ee_events e AND EPOLL_RDHUP \<noteq> 0")
  case True
  then have "s' = fst (cs_free_session_step1 s m)" using ev by (simp add: cs_process_event_def split_beta)
  then show ?thesis using step1_armed by simp
next
  case no_err: False
  obtain s1 m1 where sm: "(if ee_events e AND EPOLL_IN \<noteq> 0 then cs_drain_client tk (ee_read e) s m else (s, m)) = (s1, m1)"
    by fastforce
  have a: "armed s1" using sm s drain_armed [OF s, of tk "ee_read e" m] by (auto split: if_splits)
  note ev = ev [unfolded cs_process_event_def Let_def sm prod.case if_not_P [OF no_err]]
  show ?thesis
  proof (cases "0 \<le> csocket_fd s1 \<and> ee_events e AND EPOLL_OUT \<noteq> 0")
    case False
    then have "s' = s1" using ev unfolding if_not_P [OF False] by simp
    then show ?thesis using a by simp
  next
    case out: True
    note ev = ev [unfolded if_P [OF out]]
    show ?thesis
    proof (cases "need_reply s1")
      case False
      then have "s' = disarm_out (ee_mod_rc e) s1" using ev by simp
      then show ?thesis using reply_part_armed(2) [OF rc] out False by simp
    next
      case True
      note ev = ev [unfolded if_P [OF True]]
      then obtain ret fts x where "reply_conf (ee_dir e) (ee_dir' e) (ee_writes e) (cip s1) = Some (ret, fts, x)"
        by (auto split: option.splits)
      then have "s' = disarm_out (ee_mod_rc e) (fst (reply_end ret fts (reply_begin tk s1) m1))"
        using ev by (simp add: split_beta)
      then show ?thesis using reply_part_armed(1) [OF rc] out by simp
    qed
  qed
qed

definition conf_inv :: "bool \<Rightarrow> conf_server \<Rightarrow> bool" where
  "conf_inv ok S \<longleftrightarrow> cs_table_ok S \<and> (ok \<longrightarrow> (\<forall>t i s. cslots S t i = Some s \<longrightarrow> armed s))"

lemma step2_slots:
  "cslots (snd (cs_free_session_step2 s S)) t i = Some s' \<Longrightarrow> cslots S t i = Some s'"
  by (auto simp: cs_free_session_step2_def Let_def split: if_splits)

lemma scan_armed:
  assumes "rc \<noteq> -1" "\<forall>t i s. cslots S t i = Some s \<longrightarrow> armed s" "cs_scan_slot t i dir rc (S, n) = (S', n')"
    and s': "cslots S' u j = Some s'"
  shows "armed s'"
proof (cases "cslots S t i")
  case (Some s)
  from assms(3) Some show ?thesis
  proof (cases rule: cs_scan_slot_cases)
    case (dead m)
    then have "cslots (S\<lparr>ip_to_slot_idx := m\<rparr>) u j = Some s'" using step2_slots s' by metis
    then show ?thesis using assms(2) by simp
  next
    case free
    then show ?thesis using step2_slots s' assms(2) by blast
  next
    case (live g)
    have "armed (fst (scan_live t dir rc s (cgstats S)))"
      using scan_check_armed [OF assms(1), of s dir] assms(2) Some by (simp add: armed_def)
    then show ?thesis using live s' assms(2) by (auto split: if_splits)
  qed
qed (use assms in \<open>simp add: cs_scan_slot_def\<close>)

lemma accept_armed:
  assumes acc: "cs_accept_client sfd addr dir dir' rcs b rc S = Some (r, S', sent)"
    and all: "\<forall>t i s. cslots S t i = Some s \<longrightarrow> armed s" and s': "cslots S' u j = Some s'"
  shows "armed s'"
  using acc refl
proof (cases rule: cs_accept_cases)
  case (refused m)
  then show ?thesis using all s' by simp
next
  case (accepted s fts ret)
  note f = cs_new_session_fields [OF accepted(5)]
  have "armed (s\<lparr>conf_ts := x, cslot_idx := y\<rparr>)" for x y
    using f(2,3) out_bits(3) by (simp add: armed_def)
  moreover have "cslots S u j = Some s' \<or> (\<exists>x y. s' = s\<lparr>conf_ts := x, cslot_idx := y\<rparr>)"
    using s' unfolding accepted(7) by (auto split: if_splits)
  ultimately show ?thesis using all by blast
qed

lemma conf_step_inv: "conf_step ok S S' \<Longrightarrow> conf_inv ok S \<Longrightarrow> conf_inv ok S'"
proof -
  assume step: "conf_step ok S S'" and inv: "conf_inv ok S"
  have "armed s'" if ok and "cslots S' u j = Some s'" for u j s'
    using step that inv
  proof (induction rule: conf_step.induct)
    case (event S t i s e s1 m sent)
    then have "armed s1" using event_armed by (auto simp: conf_inv_def)
    then show ?case using event by (auto simp: conf_inv_def split: if_splits)
  next
    case (scan rc t i dir S n S' n')
    then show ?case using scan_armed [of rc S t i dir n S' n' u j s'] by (simp add: conf_inv_def)
  next
    case (accept sfd addr dir dir' rcs b rc S r S' sent)
    then show ?case using accept_armed by (metis conf_inv_def)
  qed (auto simp: conf_inv_def)
  then show ?thesis using conf_step_table [OF step] inv by (simp add: conf_inv_def)
qed

interpretation conf: invariant_system "\<lambda>S. \<exists>c date. S = cs_init_server c date" "conf_step ok" "conf_inv ok"
proof unfold_locales
  show "conf_inv ok S" if "\<exists>c date. S = cs_init_server c date" for S
    using that table_ok_empty [of cs_place] by (auto simp: conf_inv_def cs_init_server_def)
qed (rule conf_step_inv)

theorem pending_update_is_armed:
  assumes "(conf_step True)\<^sup>*\<^sup>* (cs_init_server c date) S" "cslots S t i = Some s" "to_be_free s \<noteq> 1"
  shows "(need_reply s \<longleftrightarrow> cevents s AND EPOLL_OUT \<noteq> 0) \<and> cthreadidx s = t \<and> cslot_idx s = int i"
proof -
  have "conf_inv True S" using assms(1) by (rule conf.reachable_inv) blast
  then have "armed s" "cs_place s = (t, int i)" using assms(2) by (simp_all add: conf_inv_def table_ok_def)
  then show ?thesis using assms(3) by (simp add: armed_def cs_place_def)
qed

section \<open>A lost wake-up\<close>

text \<open>
  The scan may run while a network thread sends the file. \<open>reply_step\<close> has the two threads
  on one session; the flag says that the network thread is between \<open>reply_begin\<close> and
  \<open>disarm_out\<close>. The kernel reports \<open>EPOLLOUT\<close> only while it is among the events.
\<close>

inductive reply_step :: "conf_session \<times> bool \<Rightarrow> conf_session \<times> bool \<Rightarrow> bool" where
  start: "cevents s AND EPOLL_OUT \<noteq> 0 \<Longrightarrow> 0 \<le> csocket_fd s \<Longrightarrow> need_reply s \<Longrightarrow>
    reply_step (s, False) (reply_begin tk s, True)"
| finish: "reply_step (s, True) (disarm_out rc (fst (reply_end ret fts s m)), False)"
| idle: "cevents s AND EPOLL_OUT \<noteq> 0 \<Longrightarrow> 0 \<le> csocket_fd s \<Longrightarrow> \<not> need_reply s \<Longrightarrow>
    reply_step (s, False) (disarm_out rc s, False)"
| scan: "to_be_free s \<noteq> 1 \<Longrightarrow> reply_step (s, b) (scan_check dir rc s, b)"

definition waiting_client :: conf_session where
  "waiting_client = the (cs_get_new_session True 0 0x0a000001 (EPOLL_IN OR EPOLL_ET) 7 0)"

lemma waiting_client_fields:
  "\<not> need_reply waiting_client" "cevents waiting_client = EPOLL_IN OR EPOLL_ET" "to_be_free waiting_client = 0"
  "csocket_fd waiting_client = 7" "cip waiting_client = 0x0a000001" "conf_ts waiting_client = -1"
  "nr_reply_bytes waiting_client = 0"
  by (simp_all add: waiting_client_def cs_get_new_session_def)

definition dir_at :: "int \<Rightarrow> conf_dir" where
  "dir_at ts = [conf_name 0x0a000001 (ip_byte 0x0a000001 0) \<mapsto> \<lparr>content = ''k v'' @ [CHR 0x0A], st_ctime = ts\<rparr>]"

lemma check_ts_dir_at: "check_ts (dir_at ts) 0x0a000001 = to_int32 ts"
  by (simp add: check_ts_def dir_at_def)

lemma to_int32_small: "0 \<le> x \<Longrightarrow> x < 2 ^ 31 \<Longrightarrow> to_int32 x = x"
  by (simp add: to_int32_def signed_take_bit_int_eq_self)

lemma stuck_forever:
  assumes "need_reply s" "cevents s AND EPOLL_OUT = 0" "reply_step\<^sup>*\<^sup>* (s, False) x"
  shows "x = (s, False)"
  using assms(3)
proof (induction rule: rtranclp_induct)
  case (step y z)
  from step(2) show ?case
    unfolding step(3) by cases (use assms(1,2) in \<open>simp_all add: scan_check_def\<close>)
qed simp

text \<open>
  While the network thread is sending, \<open>need_reply\<close> is clear and \<open>conf_ts\<close> is still the
  time stamp of the file sent before, so a scan marks the client and arms \<open>EPOLLOUT\<close>
  again, even for the file being sent. The end of the event takes \<open>EPOLLOUT\<close> away while
  \<open>need_reply\<close> stays, and no later scan looks at the client's file.
\<close>

text \<open>C18. Handlers are not atomic in ConfSrv.c: if the scan thread checks a session while
  a network thread is sending its file, and finds a newer one, the reply then takes
  EPOLLOUT away again. The session is left with need_reply set and EPOLLOUT off, and
  from there no step of either thread, for this or any later file, changes it: the
  client never gets the new file.\<close>

theorem update_wakeup_lost:
  fixes ret fts :: int
  assumes s: "need_reply s" "cevents s AND EPOLL_OUT \<noteq> 0" "0 \<le> csocket_fd s" "to_be_free s \<noteq> 1"
    and newer: "conf_ts s < check_ts dir (cip s)" and sent: "0 \<le> ret" "0 \<le> fts"
  shows "\<exists>s'. reply_step (s, False) (reply_begin tk s, True)
    \<and> reply_step (reply_begin tk s, True) (scan_check dir 0 (reply_begin tk s), True)
    \<and> reply_step (scan_check dir 0 (reply_begin tk s), True) (s', False)
    \<and> conf_ts s' = fts \<and> to_be_free s' = to_be_free s
    \<and> {x. reply_step\<^sup>*\<^sup>* (s', False) x} = {(s', False)}"
proof -
  define s2 where "s2 = scan_check dir 0 (reply_begin tk s)"
  define s3 where "s3 = disarm_out 0 (fst (reply_end ret fts s2 (\<lambda>_. 0)))"
  have s2: "need_reply s2" "csocket_fd s2 = csocket_fd s" "to_be_free s2 = to_be_free s"
    using newer by (simp_all add: s2_def reply_begin_def scan_check_def mod_event_epoll_to_session_def Let_def)
  have s3: "need_reply s3" "cevents s3 AND EPOLL_OUT = 0" "conf_ts s3 = fts" "to_be_free s3 = to_be_free s"
    using s2 s(3) sent out_bits(2) by (simp_all add: s3_def reply_end_def disarm_out_def)
  have "reply_step (s, False) (reply_begin tk s, True)" by (rule reply_step.start) (rule s)+
  moreover have "reply_step (reply_begin tk s, True) (s2, True)" unfolding s2_def
    by (rule reply_step.scan) (use s(4) in \<open>simp add: reply_begin_def\<close>)
  moreover have "reply_step (s2, True) (s3, False)" unfolding s3_def by (rule reply_step.finish)
  moreover have "{x. reply_step\<^sup>*\<^sup>* (s3, False) x} = {(s3, False)}" using stuck_forever [OF s3(1,2)] by auto
  ultimately show ?thesis using s3 by (intro exI [of _ s3]) (simp add: s2_def)
qed

theorem update_wakeup_lost_witness:
  "\<exists>s s'. reply_step\<^sup>*\<^sup>* (waiting_client, False) (s, False) \<and> reply_step\<^sup>*\<^sup>* (s, False) (s', False)
     \<and> need_reply s \<and> conf_ts s' = 1 \<and> {x. reply_step\<^sup>*\<^sup>* (s', False) x} = {(s', False)}"
proof -
  define s where "s = scan_check (dir_at 1) 0 waiting_client"
  have s: "s = waiting_client\<lparr>need_reply := True, cevents := (EPOLL_IN OR EPOLL_ET) OR EPOLL_OUT\<rparr>"
    by (simp add: s_def scan_check_def waiting_client_fields mod_event_epoll_to_session_def check_ts_dir_at to_int32_small)
  have "need_reply s" "cevents s AND EPOLL_OUT \<noteq> 0" "0 \<le> csocket_fd s" "to_be_free s \<noteq> 1"
      "conf_ts s < check_ts (dir_at 1) (cip s)"
    using out_bits(1) by (simp_all add: s waiting_client_fields check_ts_dir_at to_int32_small)
  from update_wakeup_lost [OF this, of 4 1 5] obtain s' where
    s': "reply_step (s, False) (reply_begin 5 s, True)"
      "reply_step (reply_begin 5 s, True) (scan_check (dir_at 1) 0 (reply_begin 5 s), True)"
      "reply_step (scan_check (dir_at 1) 0 (reply_begin 5 s), True) (s', False)"
      "conf_ts s' = 1" "{x. reply_step\<^sup>*\<^sup>* (s', False) x} = {(s', False)}"
    by auto
  have "reply_step (waiting_client, False) (s, False)" unfolding s_def
    by (rule reply_step.scan) (simp add: waiting_client_fields)
  moreover have "reply_step\<^sup>*\<^sup>* (s, False) (s', False)"
    using s'(1-3) by (meson rtranclp.rtrancl_into_rtrancl rtranclp.rtrancl_refl)
  ultimately show ?thesis using s'(4,5) \<open>need_reply s\<close> by blast
qed

section \<open>What a client is sent\<close>

text \<open>A configuration file: lines of at most 1022 bytes with their line feed, and no zero byte.\<close>

definition conf_line_ok :: "string \<Rightarrow> bool" where
  "conf_line_ok l \<longleftrightarrow> length l \<le> 1021 \<and> CHR 0x0A \<notin> set l \<and> CHR 0x00 \<notin> set l"

definition conf_text :: "string list \<Rightarrow> string" where
  "conf_text ls = concat (map (\<lambda>l. l @ [CHR 0x0A]) ls)"

definition full_writes :: "string list \<Rightarrow> int list" where
  "full_writes ls = map (\<lambda>l. int (length l) + 1) ls"

lemma fgets_line:
  assumes "CHR 0x0A \<notin> set l"
  shows "fgets (l @ CHR 0x0A # rest) = (take 1023 (l @ [CHR 0x0A]), drop (min (length l + 1) 1023) (l @ CHR 0x0A # rest))"
proof -
  have "takeWhile (\<lambda>c. c \<noteq> CHR 0x0A) (l @ CHR 0x0A # rest) = l"
    using assms by (induction l) auto
  then show ?thesis by (simp add: fgets_def Let_def min_def take_Cons')
qed

lemma reply_loop_text:
  "\<forall>l \<in> set ls. conf_line_ok l \<Longrightarrow>
    reply_loop (full_writes ls) (conf_text ls) n sent = Some (n + int (length (conf_text ls)), sent @ conf_text ls)"
proof (induction ls arbitrary: n sent)
  case Nil
  then show ?case by (simp add: full_writes_def conf_text_def)
next
  case (Cons l ls)
  then have l: "length l \<le> 1021" "CHR 0x0A \<notin> set l" "CHR 0x00 \<notin> set l" by (simp_all add: conf_line_ok_def)
  have tx: "conf_text (l # ls) = l @ CHR 0x0A # conf_text ls" by (simp add: conf_text_def)
  have get: "fgets (l @ CHR 0x0A # conf_text ls) = (l @ [CHR 0x0A], conf_text ls)"
    using fgets_line [OF l(2)] l(1) by simp
  have line: "reply_line (l @ [CHR 0x0A]) = l @ [CHR 0x0A]"
    using l by (auto simp: reply_line_def takeWhile_eq_all_conv)
  have "nat (int (length l) + 1) = length (l @ [CHR 0x0A])" by simp
  then show ?case
    using Cons.IH [of "n + (int (length l) + 1)" "sent @ l @ [CHR 0x0A]"] Cons.prems get line
    by (simp add: full_writes_def tx)
qed

text \<open>The file that the address selects.\<close>

definition conf_file_of :: "conf_dir \<Rightarrow> u32 \<Rightarrow> conf_file option" where
  "conf_file_of dir a =
     (case dir (conf_name a (ip_byte a 0)) of None \<Rightarrow> dir (conf_name a 0) | Some fl \<Rightarrow> Some fl)"

lemma check_ts_file: "check_ts dir a = (case conf_file_of dir a of None \<Rightarrow> -1 | Some fl \<Rightarrow> to_int32 (st_ctime fl))"
  by (simp add: check_ts_def conf_file_of_def split: option.split)

lemma reply_conf_file:
  assumes fl: "conf_file_of dir a = Some fl" "content fl = conf_text ls" "\<forall>l \<in> set ls. conf_line_ok l"
  shows "reply_conf dir dir (full_writes ls) a = Some (int (length (content fl)), to_int32 (st_ctime fl), content fl)"
proof -
  have loop: "reply_loop (full_writes ls) (content fl) 0 [] = Some (int (length (content fl)), content fl)"
    using reply_loop_text [OF fl(3), of 0 "[]"] fl(2) by simp
  show ?thesis
  proof (cases "dir (conf_name a (ip_byte a 0))")
    case None
    then show ?thesis using fl(1) loop by (simp add: reply_conf_def conf_file_of_def Let_def)
  next
    case (Some fl')
    then have "fl' = fl" using fl(1) by (simp add: conf_file_of_def)
    then show ?thesis using Some loop by (simp add: reply_conf_def Let_def)
  qed
qed

text \<open>
  A line of 1022 bytes or more loses the byte at index 1022 of each piece that \<open>fgets\<close>
  returns: \<open>buf[1022] = 0\<close> overwrites it.
\<close>

theorem reply_drops_byte:
  assumes "1022 \<le> length l" "CHR 0x0A \<notin> set l" "CHR 0x00 \<notin> set l"
  shows "reply_loop (1022 # rcs) (l @ CHR 0x0A # rest) n sent =
    reply_loop rcs (drop 1023 (l @ CHR 0x0A # rest)) (n + 1022) (sent @ take 1022 l)"
proof -
  have get: "fgets (l @ CHR 0x0A # rest) = (take 1023 (l @ [CHR 0x0A]), drop 1023 (l @ CHR 0x0A # rest))"
    using fgets_line [OF assms(2)] assms(1) by (simp add: min_def)
  have "take 1022 (take 1023 (l @ [CHR 0x0A])) = take 1022 l" using assms(1) by (simp add: min_def)
  moreover have "takeWhile (\<lambda>c. c \<noteq> CHR 0x00) (take 1022 l) = take 1022 l"
    using assms(3) by (auto simp: takeWhile_eq_all_conv dest: in_set_takeD)
  ultimately have "reply_line (take 1023 (l @ [CHR 0x0A])) = take 1022 l" by (simp add: reply_line_def)
  then show ?thesis using get assms(1) by simp
qed

theorem reply_drops_byte_witness:
  "reply_loop [1022] (replicate 1022 (CHR ''x'') @ [CHR 0x0A]) 0 [] = Some (1022, replicate 1022 (CHR ''x''))"
  using reply_drops_byte [of "replicate 1022 (CHR ''x'')" "[]" "[]" 0 "[]"] by simp

text \<open>
  What \<open>epoll_wait\<close> reports of a socket that can be written: \<open>EPOLLOUT\<close> when the session
  listens for it, and nothing otherwise.
\<close>

definition out_event :: "conf_dir \<Rightarrow> string list \<Rightarrow> conf_session \<Rightarrow> event_env" where
  "out_event dir ls s = \<lparr>ee_events = cevents s AND EPOLL_OUT, ee_read = 0, ee_dir = dir, ee_dir' = dir,
     ee_writes = full_writes ls, ee_mod_rc = 0\<rparr>"

lemma armed_event:
  "(w OR EPOLL_OUT) AND EPOLL_OUT = EPOLL_OUT" "EPOLL_OUT AND EPOLL_ERR = 0" "EPOLL_OUT AND EPOLL_RDHUP = 0"
  "EPOLL_OUT AND EPOLL_IN = 0" "EPOLL_OUT AND EPOLL_OUT \<noteq> 0"
proof -
  show "(w OR EPOLL_OUT) AND EPOLL_OUT = EPOLL_OUT" by (simp add: bit.conj_disj_distrib2)
qed (simp_all add: EPOLL_OUT_def EPOLL_ERR_def EPOLL_RDHUP_def EPOLL_IN_def)

text \<open>C17. When a newer file exists for a live session that is waiting, the scan arms
  EPOLLOUT, the event that the kernel then reports for the armed descriptor makes
  process_event send the whole file, record its time stamp and stop listening for
  EPOLLOUT, and the next scan leaves the session alone. The conditions: epoll_ctl
  succeeds, each write is complete, the file is the same in the two calls, and each of
  its lines has at most 1021 characters, a line end and no zero byte.\<close>

theorem update_reaches_client:
  assumes slot: "cslots S t i = Some s" "\<not> scan_dead (ccfg S) (cgstats S) s" "to_be_free s \<noteq> 1"
    and live: "\<not> need_reply s" "0 \<le> csocket_fd s" "-1 \<le> conf_ts s"
    and newer: "conf_ts s < check_ts dir (cip s)"
    and fl: "conf_file_of dir (cip s) = Some fl" "content fl = conf_text ls" "\<forall>l \<in> set ls. conf_line_ok l"
  shows "\<exists>S1 n1 s1 s'. cs_scan_slot t i dir 0 (S, n) = (S1, n1) \<and> cslots S1 t i = Some s1
    \<and> cs_process_event tk (out_event dir ls s1) s1 m = Some (s', m, content fl)
    \<and> conf_ts s' = check_ts dir (cip s) \<and> cevents s' AND EPOLL_OUT = 0 \<and> cip s' = cip s
    \<and> scan_check dir rc s' = s'"
proof -
  obtain S1 n1 where scan: "cs_scan_slot t i dir 0 (S, n) = (S1, n1)" by fastforce
  define s1 where "s1 = fst (scan_live t dir 0 s (cgstats S))"
  have slot1: "cslots S1 t i = Some s1"
    using scan slot by (auto simp: cs_scan_slot_def split_beta s1_def)
  have s1: "need_reply s1" "csocket_fd s1 = csocket_fd s" "cip s1 = cip s" "cevents s1 = cevents s OR EPOLL_OUT"
    using live newer
    by (simp_all add: s1_def scan_live_def scan_check_def mod_event_epoll_to_session_def Let_def)
  let ?ts = "to_int32 (st_ctime fl)" and ?n = "int (length (content fl))"
  have ts: "check_ts dir (cip s) = ?ts" "0 \<le> ?ts" using fl(1) newer live(3) by (simp_all add: check_ts_file)
  define s2 where "s2 = disarm_out 0 (fst (reply_end ?n ?ts (reply_begin tk s1) m))"
  have "reply_conf dir dir (full_writes ls) (cip s1) = Some (?n, ?ts, content fl)"
    unfolding s1(3) by (rule reply_conf_file [OF fl])
  moreover have "snd (reply_end ?n ?ts (reply_begin tk s1) m) = m" using ts(2) by (simp add: reply_end_def)
  ultimately have "cs_process_event tk (out_event dir ls s1) s1 m = Some (s2, m, content fl)"
    using armed_event s1 live(2) by (simp add: cs_process_event_def out_event_def s2_def split_beta)
  moreover have s2: "\<not> need_reply s2" "conf_ts s2 = ?ts" "cip s2 = cip s" "cevents s2 AND EPOLL_OUT = 0"
    using ts(2) s1 live(2) out_bits(2) by (simp_all add: s2_def reply_end_def reply_begin_def disarm_out_def)
  moreover have "scan_check dir rc s2 = s2" using s2 ts(1) by (simp add: scan_check_def Let_def)
  ultimately show ?thesis
    using scan slot1 ts(1) by (intro exI [of _ S1] exI [of _ n1] exI [of _ s1] exI [of _ s2]) simp
qed

lemma file_at: "conf_file_of (dir_at ts) 0x0a000001 = Some \<lparr>content = conf_text [''k v''], st_ctime = ts\<rparr>"
  by (simp add: conf_file_of_def dir_at_def conf_text_def)

definition one_waiting :: conf_server where
  "one_waiting = (let S = cs_init_server \<lparr>cs_nWorkers = 1, cs_force_disconnect_seconds = 0\<rparr> ''d'' in
     S\<lparr>cslots := (cslots S)(0 := [0 \<mapsto> waiting_client\<lparr>cslot_idx := 0\<rparr>])\<rparr>)"

theorem update_reaches_client_witness:
  "\<exists>S1 n1 s1 s'. cs_scan_slot 0 0 (dir_at 2) 0 (one_waiting, 0) = (S1, n1) \<and> cslots S1 0 0 = Some s1
     \<and> cs_process_event 5 (out_event (dir_at 2) [''k v''] s1) s1 (\<lambda>_. 0) = Some (s', \<lambda>_. 0, ''k v'' @ [CHR 0x0A])
     \<and> conf_ts s' = 2"
proof -
  let ?s = "waiting_client\<lparr>cslot_idx := 0\<rparr>"
  have "cslots one_waiting 0 0 = Some ?s" "\<not> scan_dead (ccfg one_waiting) (cgstats one_waiting) ?s"
    by (simp_all add: one_waiting_def cs_init_server_def Let_def scan_dead_def)
  moreover have "to_be_free ?s \<noteq> 1" "\<not> need_reply ?s" "0 \<le> csocket_fd ?s" "-1 \<le> conf_ts ?s"
    by (simp_all add: waiting_client_fields)
  moreover have "conf_ts ?s < check_ts (dir_at 2) (cip ?s)"
    by (simp add: waiting_client_fields check_ts_dir_at to_int32_small)
  moreover have "conf_file_of (dir_at 2) (cip ?s) = Some \<lparr>content = conf_text [''k v''], st_ctime = 2\<rparr>"
    by (simp add: waiting_client_fields file_at)
  moreover have "\<forall>l \<in> set [''k v'']. conf_line_ok l" by (simp add: conf_line_ok_def)
  ultimately have "\<exists>S1 n1 s1 s'. cs_scan_slot 0 0 (dir_at 2) 0 (one_waiting, 0) = (S1, n1) \<and> cslots S1 0 0 = Some s1
     \<and> cs_process_event 5 (out_event (dir_at 2) [''k v''] s1) s1 (\<lambda>_. 0)
         = Some (s', \<lambda>_. 0, content \<lparr>content = conf_text [''k v''], st_ctime = 2\<rparr>)
     \<and> conf_ts s' = check_ts (dir_at 2) (cip ?s) \<and> cevents s' AND EPOLL_OUT = 0 \<and> cip s' = cip ?s
     \<and> scan_check (dir_at 2) 0 s' = s'"
    by (intro update_reaches_client) simp_all
  then show ?thesis
    by (simp add: conf_text_def waiting_client_fields check_ts_dir_at to_int32_small) blast
qed

text \<open>A run of the server: a client connects and a newer file is found.\<close>

theorem pending_update_is_armed_witness:
  "\<exists>S s. (conf_step True)\<^sup>*\<^sup>* (cs_init_server \<lparr>cs_nWorkers = 1, cs_force_disconnect_seconds = 0\<rparr> ''d'') S
     \<and> cslots S 0 0 = Some s \<and> need_reply s \<and> cevents s AND EPOLL_OUT \<noteq> 0"
proof -
  let ?c = "\<lparr>cs_nWorkers = 1, cs_force_disconnect_seconds = 0\<rparr>"
  let ?S0 = "cs_init_server ?c ''d''"
  have t: "nat (c_mod (uint (0x0a000001 AND 0xFF :: u32)) 1) = 0" by (simp add: c_mod_def c_div_def)
  have "\<forall>l \<in> set [''k v'']. conf_line_ok l" by (simp add: conf_line_ok_def)
  from reply_conf_file [OF file_at [of 1] _ this]
  have reply: "reply_conf (dir_at 1) (dir_at 1) (full_writes [''k v'']) 0x0a000001 = Some (4, 1, ''k v'' @ [CHR 0x0A])"
    by (simp add: to_int32_small conf_text_def)
  define s1 where "s1 = waiting_client\<lparr>conf_ts := 1, cslot_idx := 0\<rparr>"
  obtain S1 where acc: "cs_accept_client 7 0x0a000001 (dir_at 1) (dir_at 1) (full_writes [''k v'']) True 0 ?S0
      = Some (7, S1, ''k v'' @ [CHR 0x0A])" and S1: "cslots S1 0 0 = Some s1" "ccfg S1 = ?c"
    using reply t
    by (simp add: cs_accept_client_def cs_init_server_def cs_get_new_session_def free_slot_empty s1_def
        waiting_client_def cs_init_gstat_def)
  obtain S2 n where scan: "cs_scan_slot 0 0 (dir_at 2) 0 (S1, 0) = (S2, n)" by fastforce
  define s2 where "s2 = fst (scan_live 0 (dir_at 2) 0 s1 (cgstats S1))"
  have "\<not> scan_dead (ccfg S1) (cgstats S1) s1" "to_be_free s1 \<noteq> 1"
    using S1(2) by (simp_all add: scan_dead_def s1_def waiting_client_fields)
  then have s2: "cslots S2 0 0 = Some s2"
    using scan S1(1) by (auto simp: cs_scan_slot_def split_beta s2_def)
  have "need_reply s2" "to_be_free s2 \<noteq> 1"
    by (simp_all add: s2_def scan_check_def s1_def waiting_client_fields check_ts_dir_at to_int32_small
        mod_event_epoll_to_session_def)
  moreover have "(conf_step True)\<^sup>*\<^sup>* ?S0 S2"
    using conf_step.accept [OF acc, of True] conf_step.scan [OF _ scan, of True]
    by (meson rtranclp.rtrancl_into_rtrancl rtranclp.rtrancl_refl zero_neq_neg_one)
  ultimately show ?thesis using pending_update_is_armed [OF _ s2] s2 by blast
qed

end
