(* ===== verification/ConfServer.thy ===== *)
theory ConfServer
  imports ConfSrv
begin

text \<open>
  src/confServer.c, the configuration server that is fed through a local socket: every line
  "address text" of the input goes to the client of this address. The input thread reads a
  segment into \<open>global_input_buf\<close> and waits; the scan thread cuts the segment into lines in
  place, chains the lines of each client, with the pointers stored over the address text of
  the lines, then sends the chains. Accepting clients, their events and the tables are
  those of ConfSrv.c up to a few fields.

  The buffer is a map from offsets to bytes and pointers are stored in it byte by byte, as
  the code does; \<open>b\<close> is the address of the buffer. An access outside the buffer or the tables,
  and a chain that does not end, is \<open>None\<close>.
\<close>

section \<open>The input buffer\<close>

type_synonym mem = "nat \<Rightarrow> char"

definition INPUT_BUF_SIZE :: nat where "INPUT_BUF_SIZE = 8 * 1024 * 1024"
definition TOTAL_IPV4S :: int where "TOTAL_IPV4S = 4 * 1024 * 1024"

text \<open>\<open>*(void **)p = q\<close> and \<open>*(void **)p\<close> at an offset of the buffer, little-endian.\<close>

definition store_ptr :: "mem \<Rightarrow> nat \<Rightarrow> nat \<Rightarrow> mem" where
  "store_ptr m a q = (\<lambda>x. if a \<le> x \<and> x < a + 8 then char_of (q div 256 ^ (x - a)) else m x)"

definition load_ptr :: "mem \<Rightarrow> nat \<Rightarrow> nat" where
  "load_ptr m a = (\<Sum>k<8. of_char (m (a + k)) * 256 ^ k)"

text \<open>The offset of an address at which a pointer can be read or written.\<close>

definition ptr_off :: "nat \<Rightarrow> nat \<Rightarrow> nat option" where
  "ptr_off b q = (if b \<le> q \<and> q + 8 \<le> b + INPUT_BUF_SIZE then Some (q - b) else None)"

text \<open>The string at an offset, and the end of a word: \<open>while (line[j] && line[j] != ' ') j++\<close>.\<close>

function mem_str :: "mem \<Rightarrow> nat \<Rightarrow> string option" where
  "mem_str m a =
     (if a < INPUT_BUF_SIZE then
        (if m a = CHR 0x00 then Some [] else map_option ((#) (m a)) (mem_str m (a + 1)))
      else None)"
  by pat_completeness auto
termination by (relation "measure (\<lambda>(m, a). INPUT_BUF_SIZE - a)") auto

function skip_word :: "mem \<Rightarrow> nat \<Rightarrow> nat option" where
  "skip_word m a =
     (if a < INPUT_BUF_SIZE then
        (if m a = CHR 0x00 \<or> m a = CHR '' '' then Some a else skip_word m (a + 1))
      else None)"
  by pat_completeness auto
termination by (relation "measure (\<lambda>(m, a). INPUT_BUF_SIZE - a)") auto

text \<open>The end of the line that starts at \<open>i\<close>, \<open>got\<close> when the segment ends first.\<close>

function line_end :: "mem \<Rightarrow> nat \<Rightarrow> nat \<Rightarrow> nat" where
  "line_end m got i =
     (if i < got \<and> m i \<noteq> CHR 0x0A \<and> m i \<noteq> CHR 0x00 then line_end m got (i + 1) else i)"
  by pat_completeness auto
termination by (relation "measure (\<lambda>(m, got, i). got - i)") auto

declare mem_str.simps [simp del] skip_word.simps [simp del] line_end.simps [simp del]

section \<open>Addresses in the input\<close>

definition scan_dot :: "string \<Rightarrow> string option" where
  "scan_dot str = (case str of c # cs \<Rightarrow> if c = CHR ''.'' then Some cs else None | [] \<Rightarrow> None)"

text \<open>\<open>sscanf (line, "%d.%d.%d.%d", ...)\<close>; \<open>None\<close> when it returns less than four.\<close>

definition scan_quad :: "string \<Rightarrow> (int \<times> int \<times> int \<times> int) option" where
  "scan_quad str =
     Option.bind (scan_int str) (\<lambda>(t0, str). Option.bind (scan_dot str) (\<lambda>str.
     Option.bind (scan_int str) (\<lambda>(t1, str). Option.bind (scan_dot str) (\<lambda>str.
     Option.bind (scan_int str) (\<lambda>(t2, str). Option.bind (scan_dot str) (\<lambda>str.
     Option.bind (scan_int str) (\<lambda>(t3, _). Some (t0, t1, t2, t3))))))))"

text \<open>\<open>ipv4\<close> and \<open>global_ip_slot_idx\<close>, with the wrap-around of \<open>int\<close>.\<close>

definition quad_ipv4 :: "int \<times> int \<times> int \<times> int \<Rightarrow> int" where
  "quad_ipv4 = (\<lambda>(t0, t1, t2, t3). to_int32 (t0 * 256 * 256 * 256 + t1 * 256 * 256 + t2 * 256 + t3))"

definition quad_slot_idx :: "int \<times> int \<times> int \<times> int \<Rightarrow> int" where
  "quad_slot_idx = (\<lambda>(t0, t1, t2, t3). to_int32 (t1 * 256 * 256 + t2 * 256 + t3))"

section \<open>Sessions and the server\<close>

record ci_session =
  iip :: u32
  ito_be_free :: nat
  ievents :: u32
  isocket_fd :: int
  ithreadidx :: nat
  islot_idx :: int
  could_write :: int
  reply_len :: int
  reply_data :: nat
  istart_ticks :: u64
  ilast_alive_tick :: u64

definition ci_get_new_session :: "bool \<Rightarrow> u64 \<Rightarrow> u32 \<Rightarrow> u32 \<Rightarrow> int \<Rightarrow> nat \<Rightarrow> ci_session option" where
  "ci_get_new_session calloc_ok tk addr ev sfd tid =
     (if \<not> calloc_ok then None
      else Some \<lparr>iip = addr, ito_be_free = 0, ievents = ev, isocket_fd = sfd, ithreadidx = tid,
        islot_idx = -1, could_write = -1, reply_len = -1, reply_data = 0, istart_ticks = tk,
        ilast_alive_tick = tk\<rparr>)"

text \<open>\<open>ip_to_slot_idx\<close> has \<open>TOTAL_IPV4S\<close> entries and is indexed by 24 bits of the address.\<close>

definition set_slot_idx :: "(int \<Rightarrow> int) \<Rightarrow> u32 \<Rightarrow> int \<Rightarrow> (int \<Rightarrow> int) option" where
  "set_slot_idx tab ipv4 v =
     (let i = uint (ipv4 AND 0x00FFFFFF) in if i < TOTAL_IPV4S then Some (tab(i := v)) else None)"

definition ci_free_session_step1 ::
  "ci_session \<Rightarrow> (int \<Rightarrow> int) \<Rightarrow> (ci_session \<times> (int \<Rightarrow> int)) option" where
  "ci_free_session_step1 s tab =
     map_option (\<lambda>tab. (s\<lparr>isocket_fd := -1, ito_be_free := 1\<rparr>, tab)) (set_slot_idx tab (iip s) (-1))"

record ci_server =
  icfg :: cs_config
  igstats :: cs_gstat
  islots :: "nat \<Rightarrow> nat \<Rightarrow> ci_session option"
  icurr_nr_conn :: "nat \<Rightarrow> int"
  iip_to_slot_idx :: "int \<Rightarrow> int"
  global_input_buf :: mem
  global_input_buf_bytes_got :: nat
  consume_not_done :: int

definition ci_free_session_step2 :: "ci_session \<Rightarrow> ci_server \<Rightarrow> int \<times> ci_server" where
  "ci_free_session_step2 s S =
     (let pos = islot_idx s; t = ithreadidx s in
      if ito_be_free s \<noteq> 1 then (-1, S)
      else if pos > -1 then
        (0, S\<lparr>icurr_nr_conn := (icurr_nr_conn S)(t := icurr_nr_conn S t - 1),
              islots := (islots S)(t := (islots S t)(nat pos := None))\<rparr>)
      else (0, S))"

text \<open>\<open>del_session (s, 1)\<close>.\<close>

definition ci_del_session_now :: "ci_session \<Rightarrow> ci_server \<Rightarrow> (int \<times> ci_server) option" where
  "ci_del_session_now s S =
     map_option (\<lambda>(s, tab). ci_free_session_step2 s (S\<lparr>iip_to_slot_idx := tab\<rparr>))
       (ci_free_session_step1 s (iip_to_slot_idx S))"

text \<open>\<open>accept_client\<close>: the arguments are the results of \<open>accept\<close>, \<open>calloc\<close> and \<open>epoll_ctl\<close>.\<close>

definition ci_accept_client ::
  "int \<Rightarrow> u32 \<Rightarrow> bool \<Rightarrow> int \<Rightarrow> ci_server \<Rightarrow> (int \<times> ci_server) option" where
  "ci_accept_client sfd addr calloc_ok epoll_rc S =
     (if sfd = -1 then Some (-1, S)
      else
        (let hash = addr AND 0xFF; t = nat (c_mod (uint hash) (cs_nWorkers (icfg S))) in
         case ci_get_new_session calloc_ok (cs_ticks (igstats S)) addr (EPOLL_IN OR EPOLL_OUT OR EPOLL_ET) sfd t of
           None \<Rightarrow> Some (-1, S)
         | Some s \<Rightarrow>
             (let slot = get_free_conn_slot (islots S t) in
              if epoll_rc \<noteq> -1 \<and> \<not> slot < 0 then
                map_option (\<lambda>tab. (sfd,
                    S\<lparr>islots := (islots S)(t := (islots S t)(nat slot \<mapsto> s\<lparr>islot_idx := slot\<rparr>)),
                      icurr_nr_conn := (icurr_nr_conn S)(t := icurr_nr_conn S t + 1),
                      iip_to_slot_idx := tab\<rparr>))
                  (set_slot_idx (iip_to_slot_idx S) addr slot)
              else
                map_option (\<lambda>(_, tab). (-1, S\<lparr>iip_to_slot_idx := tab\<rparr>))
                  (ci_free_session_step1 s (iip_to_slot_idx S)))))"

section \<open>Cutting a segment into lines\<close>

record parse_st =
  pj :: nat
  pmem :: mem
  ptab :: "nat \<Rightarrow> nat \<Rightarrow> ci_session option"

text \<open>The traversal of a chain to its last line; it need not end on an arbitrary buffer.\<close>

partial_function (option) chain_last :: "nat \<Rightarrow> mem \<Rightarrow> nat \<Rightarrow> nat option" where
  "chain_last b m q =
     (case ptr_off b q of
        None \<Rightarrow> None
      | Some a \<Rightarrow> if load_ptr m a \<noteq> 0 then chain_last b m (load_ptr m a) else Some a)"

text \<open>\<open>while (j > 8) { line[j - 1] = ' '; j--; }\<close>\<close>

fun blank_word :: "mem \<Rightarrow> nat \<Rightarrow> nat \<Rightarrow> mem" where
  "blank_word m line j = (if j > 8 then blank_word (m(line + j - 1 := CHR '' '')) line (j - 1) else m)"

declare blank_word.simps [simp del]

text \<open>The end of the chain of \<open>s\<close> gets the line.\<close>

definition attach_line :: "nat \<Rightarrow> nat \<Rightarrow> mem \<Rightarrow> ci_session \<Rightarrow> (mem \<times> ci_session) option" where
  "attach_line b line m s =
     (if reply_data s = 0 then Some (m, s\<lparr>reply_data := b + line\<rparr>)
      else map_option (\<lambda>a. (store_ptr m a (b + line), s)) (chain_last b m (reply_data s)))"

text \<open>The rest of the loop, for the session \<open>s\<close> in slot \<open>i\<close> of thread \<open>t\<close> that the line is for.\<close>

definition take_line ::
  "nat \<Rightarrow> nat \<Rightarrow> nat \<Rightarrow> nat \<Rightarrow> ci_session \<Rightarrow> parse_st \<Rightarrow> parse_st option" where
  "take_line b line t i s P =
     (case skip_word (pmem P) (line + pj P) of
        None \<Rightarrow> None
      | Some e \<Rightarrow>
          (let j = e - line in
           if pmem P e \<noteq> CHR '' '' \<or> j < 7 then Some (P\<lparr>pj := j\<rparr>)
           else if INPUT_BUF_SIZE < line + 8 then None
           else
             map_option (\<lambda>(m, s). \<lparr>pj = min j 8, pmem = m, ptab = (ptab P)(t := (ptab P t)(i \<mapsto> s))\<rparr>)
               (attach_line b line (store_ptr (blank_word (pmem P) line j) line 0) s)))"

definition parse_line ::
  "nat \<Rightarrow> int \<Rightarrow> (int \<Rightarrow> int) \<Rightarrow> nat \<Rightarrow> parse_st \<Rightarrow> parse_st option" where
  "parse_line b n idx_tab line P =
     (case mem_str (pmem P) line of
        None \<Rightarrow> None
      | Some txt \<Rightarrow>
          (case scan_quad txt of
             None \<Rightarrow> Some P
           | Some quad \<Rightarrow>
               (let t = c_mod (quad_ipv4 quad) n; idx = quad_slot_idx quad in
                if idx < 0 \<or> TOTAL_IPV4S \<le> idx then None
                else if idx_tab idx < 0 then Some P
                else if t < 0 \<or> int MAX_CONN_PER_THREAD \<le> idx_tab idx then None
                else
                  (case ptab P (nat t) (nat (idx_tab idx)) of
                     None \<Rightarrow> Some P
                   | Some s \<Rightarrow> take_line b line (nat t) (nat (idx_tab idx)) s P))))"

lemma line_end_ge: "i \<le> line_end m got i"
  by (induction m got i rule: line_end.induct) (subst line_end.simps, auto)

function parse_lines ::
  "nat \<Rightarrow> int \<Rightarrow> (int \<Rightarrow> int) \<Rightarrow> nat \<Rightarrow> nat \<Rightarrow> parse_st \<Rightarrow> parse_st option" where
  "parse_lines b n idx_tab got i P =
     (if i < got then
        (let e = line_end (pmem P) got i in
         if e = got then Some P
         else
           (case parse_line b n idx_tab i (P\<lparr>pmem := (pmem P)(e := CHR 0x00)\<rparr>) of
              None \<Rightarrow> None
            | Some P' \<Rightarrow> parse_lines b n idx_tab got (e + 1) P'))
      else Some P)"
  by pat_completeness auto
termination
  by (relation "measure (\<lambda>(b, n, tab, got, i, P). got - i)")
    (auto simp: less_Suc_eq_le line_end_ge intro!: diff_less_mono2)

declare parse_lines.simps [simp del]

lemma parse_lines_next:
  assumes "i < got" "line_end (pmem P) got i = e" "e \<noteq> got"
  shows "parse_lines b n idx_tab got i P =
    Option.bind (parse_line b n idx_tab i (P\<lparr>pmem := (pmem P)(e := CHR 0x00)\<rparr>)) (parse_lines b n idx_tab got (e + 1))"
  using assms by (subst parse_lines.simps) (simp split: option.split)

lemma parse_lines_stop:
  "\<not> (i < got \<and> line_end (pmem P) got i \<noteq> got) \<Longrightarrow> parse_lines b n idx_tab got i P = Some P"
  by (subst parse_lines.simps) (auto simp: Let_def)

definition parse_input_conf :: "nat \<Rightarrow> ci_server \<Rightarrow> (int \<times> ci_server) option" where
  "parse_input_conf b S =
     (if consume_not_done S = 0 then Some (0, S)
      else
        map_option (\<lambda>P. (1, S\<lparr>global_input_buf := pmem P, islots := ptab P\<rparr>))
          (parse_lines b (cs_nWorkers (icfg S)) (iip_to_slot_idx S) (global_input_buf_bytes_got S) 0
             \<lparr>pj = 0, pmem = global_input_buf S, ptab = islots S\<rparr>))"

section \<open>Sending a chain\<close>

text \<open>
  The loop of \<open>scan_for_reply_thread\<close> over the chain at \<open>q\<close>: \<open>rcs\<close> are the results of
  \<open>write\<close>. The result has the buffer, \<open>write_failed\<close>, \<open>nr_bytes_writen\<close> and the bytes that
  were sent. \<open>None\<close> also stands for a list of results that is too short.
\<close>

fun send_chain ::
  "nat \<Rightarrow> int list \<Rightarrow> mem \<Rightarrow> nat \<Rightarrow> int \<Rightarrow> string \<Rightarrow> (mem \<times> bool \<times> int \<times> string) option" where
  "send_chain b rcs m q n sent =
     (if q = 0 then Some (m, False, n, sent)
      else
        (case rcs of
           [] \<Rightarrow> None
         | rc # rcs \<Rightarrow>
             Option.bind (ptr_off b q) (\<lambda>a.
             Option.bind (mem_str m (a + 8)) (\<lambda>txt.
               (let m = m(a + 8 + length txt := CHR 0x0A);
                    sent = sent @ take (nat rc) (txt @ [CHR 0x0A]) in
                if rc < int (length txt) then Some (m, True, n, sent)
                else send_chain b rcs m (load_ptr m a) (n + rc) sent)))))"

declare send_chain.simps [simp del]

definition ci_scan_dead :: "cs_config \<Rightarrow> cs_gstat \<Rightarrow> ci_session \<Rightarrow> bool" where
  "ci_scan_dead c g s \<longleftrightarrow> cs_force_disconnect_seconds c > 0
     \<and> ilast_alive_tick s + of_int (cs_force_disconnect_seconds c) < cs_ticks g"

text \<open>
  The reply to a live session. A failed write deletes the session at once. The counter
  \<open>disk_io_bytes\<close> of this program is the field \<open>net_out_bytes\<close>.
\<close>

definition ci_reply ::
  "nat \<Rightarrow> nat \<Rightarrow> nat \<Rightarrow> int list \<Rightarrow> ci_session \<Rightarrow> ci_server \<Rightarrow> (ci_server \<times> string) option" where
  "ci_reply b t i rcs s S =
     (if reply_data s = 0 then Some (S, [])
      else
        Option.bind (send_chain b rcs (global_input_buf S) (reply_data s) 0 []) (\<lambda>(m, failed, n, sent).
          (let s = s\<lparr>reply_data := 0, could_write := -1, reply_len := 0\<rparr>;
               S = S\<lparr>global_input_buf := m, islots := (islots S)(t := (islots S t)(i \<mapsto> s))\<rparr>;
               g = igstats S in
           if failed then map_option (\<lambda>(_, S). (S, sent)) (ci_del_session_now s S)
           else Some (S\<lparr>igstats := g\<lparr>net_out_bytes := (net_out_bytes g)(t := net_out_bytes g t + of_int n)\<rparr>\<rparr>, sent))))"

text \<open>One slot; the result has the number of live sessions and the bytes sent.\<close>

definition ci_scan_slot ::
  "nat \<Rightarrow> nat \<Rightarrow> nat \<Rightarrow> int list \<Rightarrow> ci_server \<times> int \<Rightarrow> ((ci_server \<times> int) \<times> string) option" where
  "ci_scan_slot b t i rcs = (\<lambda>(S, alive).
     case islots S t i of
       None \<Rightarrow> Some ((S, alive), [])
     | Some s \<Rightarrow>
         if ci_scan_dead (icfg S) (igstats S) s then
           map_option (\<lambda>(_, S). ((S, alive), [])) (ci_del_session_now s S)
         else if ito_be_free s = 1 then Some ((snd (ci_free_session_step2 s S), alive), [])
         else
           (let g = igstats S in
            map_option (\<lambda>(S, sent). ((S, alive + 1), sent))
              (ci_reply b t i rcs s (S\<lparr>igstats := g\<lparr>sessions_busy_loops := sessions_busy_loops g + 1\<rparr>\<rparr>))))"

text \<open>All slots; \<open>out\<close> collects what each slot was sent.\<close>

fun ci_scan_slots ::
  "nat \<Rightarrow> (nat \<times> nat) list \<Rightarrow> (nat \<Rightarrow> nat \<Rightarrow> int list) \<Rightarrow> ci_server \<times> int \<Rightarrow> (nat \<times> nat \<Rightarrow> string)
     \<Rightarrow> ((ci_server \<times> int) \<times> (nat \<times> nat \<Rightarrow> string)) option" where
  "ci_scan_slots b [] ws X out = Some (X, out)"
| "ci_scan_slots b ((t, i) # ps) ws X out =
     Option.bind (ci_scan_slot b t i (ws t i) X)
       (\<lambda>(X, sent). ci_scan_slots b ps ws X (out((t, i) := out (t, i) @ sent)))"

definition all_slots :: "int \<Rightarrow> (nat \<times> nat) list" where
  "all_slots n = List.product [0..<nat n] [0..<MAX_CONN_PER_THREAD]"

text \<open>One turn of \<open>scan_for_reply_thread\<close>; \<open>alive\<close> counts the sessions of the last one.\<close>

definition ci_scan_round ::
  "nat \<Rightarrow> (nat \<Rightarrow> nat \<Rightarrow> int list) \<Rightarrow> ci_server \<times> int
     \<Rightarrow> ((ci_server \<times> int) \<times> (nat \<times> nat \<Rightarrow> string)) option" where
  "ci_scan_round b ws = (\<lambda>(S, alive).
     Option.bind (parse_input_conf b (S\<lparr>igstats := (igstats S)\<lparr>cs_snapshot_session_alive := alive\<rparr>\<rparr>)) (\<lambda>(ack, S).
       map_option (\<lambda>((S, alive), out). ((if ack = 1 then S\<lparr>consume_not_done := 0\<rparr> else S, alive), out))
         (ci_scan_slots b (all_slots (cs_nWorkers (icfg S))) ws (S, 0) (\<lambda>_. []))))"

section \<open>The other threads\<close>

text \<open>
  The input thread between two turns of its loop: a positive \<open>read\<close> stores the bytes at the
  start of the buffer. The thread goes on when the scan thread has set \<open>consume_not_done\<close> to 0.
\<close>

definition input_read :: "string \<Rightarrow> ci_server \<Rightarrow> ci_server" where
  "input_read data S =
     S\<lparr>global_input_buf := (\<lambda>x. if x < length data then data ! x else global_input_buf S x),
       global_input_buf_bytes_got := length data, consume_not_done := cs_nWorkers (icfg S)\<rparr>"

definition ci_drain_client ::
  "u64 \<Rightarrow> int \<Rightarrow> ci_session \<Rightarrow> (int \<Rightarrow> int) \<Rightarrow> (ci_session \<times> (int \<Rightarrow> int)) option" where
  "ci_drain_client tk rc s tab =
     (if islot_idx s < 0 then Some (s, tab)
      else if rc = 0 \<or> rc = -1 then ci_free_session_step1 s tab
      else Some (s\<lparr>ilast_alive_tick := tk\<rparr>, tab))"

text \<open>One event in the loop of \<open>process_thread\<close>: \<open>ev\<close> are its bits, \<open>rc\<close> is the result of \<open>read\<close>.\<close>

definition ci_process_event ::
  "u64 \<Rightarrow> u32 \<Rightarrow> int \<Rightarrow> ci_session \<Rightarrow> (int \<Rightarrow> int) \<Rightarrow> (ci_session \<times> (int \<Rightarrow> int)) option" where
  "ci_process_event tk ev rc s tab =
     (if ev AND EPOLL_ERR \<noteq> 0 \<or> ev AND EPOLL_RDHUP \<noteq> 0 then ci_free_session_step1 s tab
      else
        (let s = (if ev AND EPOLL_OUT \<noteq> 0 then s\<lparr>could_write := 1\<rparr> else s) in
         if ev AND EPOLL_IN \<noteq> 0 then ci_drain_client tk rc s tab else Some (s, tab)))"

text \<open>The tick and its counters are those of ConfSrv.c, with \<open>disk_io_bytes\<close> for \<open>net_out_bytes\<close>.\<close>

definition ci_init_gstat :: "string \<Rightarrow> cs_gstat" where
  "ci_init_gstat = cs_init_gstat"

definition ci_periodic :: "cs_config \<Rightarrow> string \<Rightarrow> cs_gstat \<Rightarrow> cs_gstat" where
  "ci_periodic = cs_periodic"

text \<open>The options and their checks are those of ConfSrv.c, with other defaults.\<close>

definition ci_main_options :: "(char \<times> string) list \<Rightarrow> cs_main_state \<Rightarrow> cs_main_state option" where
  "ci_main_options = cs_main_options"

definition ci_main_checks :: "(string \<Rightarrow> bool) \<Rightarrow> cs_main_state \<Rightarrow> cs_main_state option" where
  "ci_main_checks = cs_main_checks"

definition ci_default_main :: cs_main_state where
  "ci_default_main = \<lparr>cs_mcfg = \<lparr>cs_nWorkers = 1, cs_force_disconnect_seconds = 10\<rparr>, cs_port = 0,
     cs_verbose = 0, cs_addr = ''0.0.0.0'', loop_thread_delay_scan_ms = 1\<rparr>"

definition ci_main_config :: "(string \<Rightarrow> bool) \<Rightarrow> (char \<times> string) list \<Rightarrow> cs_main_state option" where
  "ci_main_config addr_ok os = Option.bind (ci_main_options os ci_default_main) (ci_main_checks addr_ok)"

definition ci_init_server :: "cs_config \<Rightarrow> string \<Rightarrow> ci_server" where
  "ci_init_server c date =
     \<lparr>icfg = c, igstats = ci_init_gstat date, islots = (\<lambda>_ _. None), icurr_nr_conn = (\<lambda>_. 0),
      iip_to_slot_idx = (\<lambda>_. -1), global_input_buf = (\<lambda>_. CHR 0x00), global_input_buf_bytes_got = 0,
      consume_not_done = 0\<rparr>"

inductive ci_step :: "nat \<Rightarrow> ci_server \<Rightarrow> ci_server \<Rightarrow> bool" for b where
  accept: "ci_accept_client sfd addr c rc S = Some (r, S') \<Longrightarrow> ci_step b S S'"
| event: "islots S t i = Some s \<Longrightarrow>
    ci_process_event (cs_ticks (igstats S)) ev rc s (iip_to_slot_idx S) = Some (s', tab) \<Longrightarrow>
    ci_step b S (S\<lparr>islots := (islots S)(t := (islots S t)(i \<mapsto> s')), iip_to_slot_idx := tab\<rparr>)"
| input: "consume_not_done S = 0 \<Longrightarrow> data \<noteq> [] \<Longrightarrow> length data \<le> INPUT_BUF_SIZE \<Longrightarrow>
    ci_step b S (input_read data S)"
| scan: "ci_scan_round b ws (S, n) = Some ((S', n'), out) \<Longrightarrow> ci_step b S S'"
| tick: "ci_step b S (S\<lparr>igstats := ci_periodic (icfg S) date (igstats S)\<rparr>)"

section \<open>The table, and no chain between two rounds\<close>

text \<open>
  The buffer is used again for the next segment, so no session may keep a pointer into it
  when a round has ended. The source asks for this in a comment at \<open>parse_input_conf\<close>.
\<close>

definition ci_place :: "ci_session \<Rightarrow> nat \<times> int" where
  "ci_place s = (ithreadidx s, islot_idx s)"

definition ci_table_ok :: "ci_server \<Rightarrow> bool" where
  "ci_table_ok S \<longleftrightarrow> table_ok ci_place (islots S) (icurr_nr_conn S)
     \<and> (\<forall>t i s. islots S t i = Some s \<longrightarrow> int t < cs_nWorkers (icfg S)) \<and> 0 < cs_nWorkers (icfg S)"

definition idle_slot :: "ci_server \<Rightarrow> nat \<Rightarrow> nat \<Rightarrow> bool" where
  "idle_slot S t i \<longleftrightarrow> (\<forall>s. islots S t i = Some s \<longrightarrow> reply_data s = 0)"

lemma ci_table_okD:
  "ci_table_ok S \<Longrightarrow> islots S t i = Some s \<Longrightarrow>
    i < MAX_CONN_PER_THREAD \<and> ci_place s = (t, int i) \<and> int t < cs_nWorkers (icfg S)"
  unfolding ci_table_ok_def table_ok_def by blast

lemma ci_table_update:
  assumes "ci_table_ok S" "islots S t i = Some s" "ci_place s' = ci_place s"
    "islots S' = (islots S)(t := (islots S t)(i \<mapsto> s'))" "icurr_nr_conn S' = icurr_nr_conn S" "icfg S' = icfg S"
  shows "ci_table_ok S'"
  using assms table_ok_update [of ci_place "islots S" "icurr_nr_conn S" t i s s']
  by (auto simp: ci_table_ok_def split: if_splits)

lemma ci_table_cong:
  "ci_table_ok S \<Longrightarrow> islots S' = islots S \<Longrightarrow> icurr_nr_conn S' = icurr_nr_conn S \<Longrightarrow> icfg S' = icfg S \<Longrightarrow>
    ci_table_ok S'"
  by (simp add: ci_table_ok_def)

lemma step1_session:
  "ci_free_session_step1 s tab = Some (s', tab') \<Longrightarrow>
    ci_place s' = ci_place s \<and> ito_be_free s' = 1 \<and> reply_data s' = reply_data s"
  by (auto simp: ci_free_session_step1_def ci_place_def)

lemma step2_effect:
  assumes ok: "ci_table_ok S" and s: "islots S t i = Some s" "ci_place s' = ci_place s" "ito_be_free s' = 1"
  defines "S' \<equiv> snd (ci_free_session_step2 s' S)"
  shows "ci_table_ok S'" "islots S' = (islots S)(t := (islots S t)(i := None))" "icfg S' = icfg S"
    "global_input_buf S' = global_input_buf S"
proof -
  have "ithreadidx s' = t" "islot_idx s' = int i"
    using ok s by (auto simp: ci_table_ok_def table_ok_def ci_place_def)
  then have S': "S' = S\<lparr>icurr_nr_conn := (icurr_nr_conn S)(t := icurr_nr_conn S t - 1),
      islots := (islots S)(t := (islots S t)(i := None))\<rparr>"
    using s(3) by (simp add: S'_def ci_free_session_step2_def)
  then show "islots S' = (islots S)(t := (islots S t)(i := None))" "icfg S' = icfg S"
    "global_input_buf S' = global_input_buf S" by simp_all
  show "ci_table_ok S'"
    using ok s(1) table_ok_remove [of ci_place "islots S" "icurr_nr_conn S" t i s]
    by (auto simp: ci_table_ok_def S' split: if_splits)
qed

lemma del_effect:
  assumes ok: "ci_table_ok S" and s: "islots S t i = Some s'" "ci_place s = ci_place s'"
    and del: "ci_del_session_now s S = Some (r, S')"
  shows "ci_table_ok S'" "islots S' = (islots S)(t := (islots S t)(i := None))" "icfg S' = icfg S"
    "global_input_buf S' = global_input_buf S"
proof -
  obtain s1 tab where s1: "ci_free_session_step1 s (iip_to_slot_idx S) = Some (s1, tab)"
    "S' = snd (ci_free_session_step2 s1 (S\<lparr>iip_to_slot_idx := tab\<rparr>))"
    using del by (auto simp: ci_del_session_now_def)
  have "ci_table_ok (S\<lparr>iip_to_slot_idx := tab\<rparr>)" by (rule ci_table_cong [OF ok]) simp_all
  from step2_effect [OF this, of t i s' s1] s step1_session [OF s1(1)] s1(2)
  show "ci_table_ok S'" "islots S' = (islots S)(t := (islots S t)(i := None))" "icfg S' = icfg S"
    "global_input_buf S' = global_input_buf S" by simp_all
qed

lemma reply_effect:
  assumes ok: "ci_table_ok S" and s: "islots S t i = Some s"
    and reply: "ci_reply b t i rcs s S = Some (S', sent)"
  shows "ci_table_ok S' \<and> icfg S' = icfg S \<and> ((u, j) \<noteq> (t, i) \<longrightarrow> islots S' u j = islots S u j) \<and> idle_slot S' t i"
proof (cases "reply_data s = 0")
  case True
  then show ?thesis using reply ok s by (simp add: ci_reply_def idle_slot_def)
next
  case False
  then obtain m fl n where send: "send_chain b rcs (global_input_buf S) (reply_data s) 0 [] = Some (m, fl, n, sent)"
    using reply by (auto simp: ci_reply_def Let_def bind_eq_Some_conv split: if_splits)
  define s1 where "s1 = s\<lparr>reply_data := 0, could_write := -1, reply_len := 0\<rparr>"
  define S1 where "S1 = S\<lparr>global_input_buf := m, islots := (islots S)(t := (islots S t)(i \<mapsto> s1))\<rparr>"
  have p: "ci_place s1 = ci_place s" by (simp add: s1_def ci_place_def)
  have ok1: "ci_table_ok S1" by (rule ci_table_update [OF ok s p]) (simp_all add: S1_def)
  have slot: "islots S1 t i = Some s1" by (simp add: S1_def)
  show ?thesis
  proof (cases fl)
    case True
    then obtain r where del: "ci_del_session_now s1 S1 = Some (r, S')"
      using reply send False by (auto simp: ci_reply_def Let_def s1_def S1_def)
    from del_effect [OF ok1 slot refl del] show ?thesis by (auto simp: idle_slot_def S1_def)
  next
    case fl: False
    define g where "g = igstats S\<lparr>net_out_bytes := (net_out_bytes (igstats S))(t := net_out_bytes (igstats S) t + of_int n)\<rparr>"
    have S': "S' = S1\<lparr>igstats := g\<rparr>"
      using reply send False fl by (auto simp: ci_reply_def Let_def s1_def S1_def g_def)
    have "ci_table_ok S'" unfolding S' by (rule ci_table_cong [OF ok1]) simp_all
    then show ?thesis by (auto simp: S' S1_def idle_slot_def s1_def)
  qed
qed

lemma scan_slot_effect:
  assumes ok: "ci_table_ok S" and scan: "ci_scan_slot b t i rcs (S, n) = Some ((S', n'), sent)"
  shows "ci_table_ok S' \<and> icfg S' = icfg S \<and> ((u, j) \<noteq> (t, i) \<longrightarrow> islots S' u j = islots S u j) \<and> idle_slot S' t i"
proof (cases "islots S t i")
  case None
  then show ?thesis using scan ok by (simp add: ci_scan_slot_def idle_slot_def)
next
  case (Some s)
  note scan = scan [unfolded ci_scan_slot_def prod.case Some option.case]
  show ?thesis
  proof (cases "ci_scan_dead (icfg S) (igstats S) s")
    case True
    then obtain r where "ci_del_session_now s S = Some (r, S')" using scan by auto
    from del_effect [OF ok Some refl this] show ?thesis by (auto simp: idle_slot_def)
  next
    case live: False
    show ?thesis
    proof (cases "ito_be_free s = 1")
      case True
      then have "S' = snd (ci_free_session_step2 s S)" using scan live by simp
      with step2_effect [OF ok Some refl True] show ?thesis by (auto simp: idle_slot_def)
    next
      case False
      define S1 where "S1 = S\<lparr>igstats := (igstats S)\<lparr>sessions_busy_loops := sessions_busy_loops (igstats S) + 1\<rparr>\<rparr>"
      have ok1: "ci_table_ok S1" unfolding S1_def by (rule ci_table_cong [OF ok]) simp_all
      have s1: "islots S1 t i = Some s" using Some by (simp add: S1_def)
      have "ci_reply b t i rcs s S1 = Some (S', sent)" using scan live False by (auto simp: S1_def Let_def)
      from reply_effect [OF ok1 s1 this, of u j] show ?thesis by (auto simp: S1_def)
    qed
  qed
qed

lemma scan_slots_effect:
  "ci_scan_slots b ps ws (S, n) out = Some ((S', n'), out') \<Longrightarrow> ci_table_ok S \<Longrightarrow>
    ci_table_ok S' \<and> icfg S' = icfg S \<and> (idle_slot S u j \<or> (u, j) \<in> set ps \<longrightarrow> idle_slot S' u j)"
proof (induction ps arbitrary: S n out)
  case (Cons p ps)
  obtain t i where p: "p = (t, i)" by fastforce
  obtain S1 n1 sent where s1: "ci_scan_slot b t i (ws t i) (S, n) = Some ((S1, n1), sent)"
    and rest: "ci_scan_slots b ps ws (S1, n1) (out((t, i) := out (t, i) @ sent)) = Some ((S', n'), out')"
    using Cons.prems(1) by (auto simp: p bind_eq_Some_conv simp del: fun_upd_apply)
  note e = scan_slot_effect [OF Cons.prems(2) s1, of u j]
  have "idle_slot S u j \<or> (u, j) \<in> set (p # ps) \<Longrightarrow> idle_slot S1 u j \<or> (u, j) \<in> set ps"
    using e by (auto simp: p idle_slot_def)
  then show ?case using Cons.IH [OF rest] e by auto
qed simp

text \<open>Parsing changes nothing of a session but its chain.\<close>

definition tab_like :: "(nat \<Rightarrow> nat \<Rightarrow> ci_session option) \<Rightarrow> (nat \<Rightarrow> nat \<Rightarrow> ci_session option) \<Rightarrow> bool" where
  "tab_like tab tab' \<longleftrightarrow>
     (\<forall>t i. map_option (\<lambda>s. s\<lparr>reply_data := 0\<rparr>) (tab' t i) = map_option (\<lambda>s. s\<lparr>reply_data := 0\<rparr>) (tab t i))"

lemma tab_like_refl: "tab_like tab tab"
  by (simp add: tab_like_def)

lemma tab_like_trans: "tab_like tab tab' \<Longrightarrow> tab_like tab' tab'' \<Longrightarrow> tab_like tab tab''"
  by (simp add: tab_like_def)

lemma attach_session:
  "attach_line b line m s = Some (m', s') \<Longrightarrow> s'\<lparr>reply_data := 0\<rparr> = s\<lparr>reply_data := 0\<rparr>"
  by (auto simp: attach_line_def split: if_splits)

lemma take_line_tab:
  assumes "take_line b line t i s P = Some P'" "ptab P t i = Some s"
  shows "tab_like (ptab P) (ptab P')"
  using assms attach_session
  by (fastforce simp: take_line_def Let_def tab_like_def split: option.splits if_splits)

lemma parse_line_tab: "parse_line b n idx_tab line P = Some P' \<Longrightarrow> tab_like (ptab P) (ptab P')"
  using take_line_tab [of b line]
  by (fastforce simp: parse_line_def Let_def tab_like_refl split: option.splits if_splits)

lemma parse_lines_tab: "parse_lines b n idx_tab got i P = Some P' \<Longrightarrow> tab_like (ptab P) (ptab P')"
proof (induction b n idx_tab got i P arbitrary: P' rule: parse_lines.induct)
  case (1 b n idx_tab got i P)
  let ?e = "line_end (pmem P) got i" and ?Q = "P\<lparr>pmem := (pmem P)(line_end (pmem P) got i := CHR 0x00)\<rparr>"
  show ?case
  proof (cases "i < got \<and> ?e \<noteq> got")
    case True
    then obtain P1 where P1: "parse_line b n idx_tab i ?Q = Some P1" "parse_lines b n idx_tab got (?e + 1) P1 = Some P'"
      using "1.prems" parse_lines_next [of i got P ?e b n idx_tab] by (auto simp: bind_eq_Some_conv)
    from parse_line_tab [OF P1(1)] have "tab_like (ptab P) (ptab P1)" by simp
    moreover have "tab_like (ptab P1) (ptab P')" using "1.IH" True P1 by blast
    ultimately show ?thesis by (rule tab_like_trans)
  next
    case False
    then have "P' = P" using "1.prems" parse_lines_stop by simp
    then show ?thesis by (simp add: tab_like_refl)
  qed
qed

lemma tab_like_Some:
  assumes "tab_like tab tab'" "tab' t i = Some s'"
  obtains s where "tab t i = Some s" "s'\<lparr>reply_data := 0\<rparr> = s\<lparr>reply_data := 0\<rparr>"
proof -
  have "map_option (\<lambda>s. s\<lparr>reply_data := 0\<rparr>) (tab t i) = Some (s'\<lparr>reply_data := 0\<rparr>)"
    using assms by (metis option.simps(9) tab_like_def)
  then show ?thesis using that by auto
qed

lemma tab_like_table:
  assumes ok: "ci_table_ok S" and like: "tab_like (islots S) (islots S')"
    and same: "icurr_nr_conn S' = icurr_nr_conn S" "icfg S' = icfg S"
  shows "ci_table_ok S'"
proof -
  have p: "ci_place s' = ci_place s" if "s'\<lparr>reply_data := 0\<rparr> = s\<lparr>reply_data := 0\<rparr>" for s s'
    using that by (metis ci_place_def ci_session.select_convs(5,6) ci_session.surjective ci_session.update_convs(9))
  have dom: "islots S' t i \<noteq> None \<longleftrightarrow> islots S t i \<noteq> None" for t i
    using like by (metis map_option_is_None tab_like_def)
  show ?thesis
    unfolding ci_table_ok_def table_ok_def
  proof (intro conjI allI impI)
    fix t i s' assume "islots S' t i = Some s'"
    with like obtain s where "islots S t i = Some s" "s'\<lparr>reply_data := 0\<rparr> = s\<lparr>reply_data := 0\<rparr>" by (rule tab_like_Some)
    then show "i < MAX_CONN_PER_THREAD" "ci_place s' = (t, int i)" "int t < cs_nWorkers (icfg S')"
      using ci_table_okD [OF ok, of t i s] p [of s' s] same(2) by simp_all
  next
    fix t
    show "icurr_nr_conn S' t = int (card {i. islots S' t i \<noteq> None})"
      unfolding dom same(1) using ok by (simp add: ci_table_ok_def table_ok_def)
  qed (use ok same in \<open>simp add: ci_table_ok_def\<close>)
qed

lemma scan_round_effect:
  assumes ok: "ci_table_ok S" and scan: "ci_scan_round b ws (S, n) = Some ((S', n'), out)"
  shows "ci_table_ok S'" "\<forall>t i. idle_slot S' t i"
proof -
  let ?S = "S\<lparr>igstats := (igstats S)\<lparr>cs_snapshot_session_alive := n\<rparr>\<rparr>"
  obtain ack S1 where S1: "parse_input_conf b ?S = Some (ack, S1)"
    using scan by (auto simp: ci_scan_round_def bind_eq_Some_conv)
  then obtain S2 where S2: "ci_scan_slots b (all_slots (cs_nWorkers (icfg S1))) ws (S1, 0) (\<lambda>_. []) = Some ((S2, n'), out)"
    and S': "S' = (if ack = 1 then S2\<lparr>consume_not_done := 0\<rparr> else S2)"
    using scan by (auto simp: ci_scan_round_def)
  have "tab_like (islots S) (islots S1)" "icurr_nr_conn S1 = icurr_nr_conn S" "icfg S1 = icfg S"
    using S1 parse_lines_tab by (fastforce simp: parse_input_conf_def tab_like_refl split: if_splits)+
  then have ok1: "ci_table_ok S1" using ok tab_like_table by blast
  note e = scan_slots_effect [OF S2 ok1]
  have slots: "islots S' = islots S2" by (simp add: S')
  show "ci_table_ok S'" using e ci_table_cong [of S2 S'] by (simp add: S')
  show "\<forall>t i. idle_slot S' t i"
  proof (intro allI)
    fix t i
    show "idle_slot S' t i"
    proof (cases "islots S1 t i")
      case None
      then have "idle_slot S1 t i" by (simp add: idle_slot_def)
      then show ?thesis using e slots by (simp add: idle_slot_def)
    next
      case (Some s)
      then have "int t < cs_nWorkers (icfg S1)" "i < MAX_CONN_PER_THREAD"
        using ci_table_okD [OF ok1] by simp_all
      then have "(t, i) \<in> set (all_slots (cs_nWorkers (icfg S1)))" by (simp add: all_slots_def)
      then show ?thesis using e slots by (simp add: idle_slot_def)
    qed
  qed
qed

text \<open>The entries of \<open>ip_to_slot_idx\<close> are slots or negative.\<close>

definition idx_tab_ok :: "(int \<Rightarrow> int) \<Rightarrow> bool" where
  "idx_tab_ok tab \<longleftrightarrow> (\<forall>i. tab i < int MAX_CONN_PER_THREAD)"

lemma step1_idx: "ci_free_session_step1 s tab = Some (s', tab') \<Longrightarrow> idx_tab_ok tab \<Longrightarrow> idx_tab_ok tab'"
  by (auto simp: ci_free_session_step1_def set_slot_idx_def idx_tab_ok_def MAX_CONN_PER_THREAD_def Let_def split: if_splits)

lemma ci_accept_cases:
  assumes acc: "ci_accept_client sfd addr c rc S = Some (r, S')"
    and t: "t = nat (c_mod (uint (addr AND 0xFF)) (cs_nWorkers (icfg S)))"
  obtains (refused) tab where "S' = S\<lparr>iip_to_slot_idx := tab\<rparr>" "idx_tab_ok (iip_to_slot_idx S) \<Longrightarrow> idx_tab_ok tab"
  | (accepted) s k tab where "islots S t k = None" "k < MAX_CONN_PER_THREAD" "ci_place s = (t, int k)"
      "reply_data s = 0" "set_slot_idx (iip_to_slot_idx S) addr (int k) = Some tab" "r = sfd"
      "S' = S\<lparr>islots := (islots S)(t := (islots S t)(k \<mapsto> s)),
          icurr_nr_conn := (icurr_nr_conn S)(t := icurr_nr_conn S t + 1), iip_to_slot_idx := tab\<rparr>"
proof (cases "sfd = -1 \<or> \<not> c")
  case True
  have "S' = S\<lparr>iip_to_slot_idx := iip_to_slot_idx S\<rparr>"
    using True acc by (cases "sfd = -1") (auto simp: ci_accept_client_def ci_get_new_session_def Let_def)
  then show ?thesis by (rule refused) simp
next
  case False
  define s where "s = \<lparr>iip = addr, ito_be_free = 0, ievents = EPOLL_IN OR EPOLL_OUT OR EPOLL_ET, isocket_fd = sfd,
    ithreadidx = t, islot_idx = -1, could_write = -1, reply_len = -1, reply_data = 0,
    istart_ticks = cs_ticks (igstats S), ilast_alive_tick = cs_ticks (igstats S)\<rparr>"
  let ?k = "get_free_conn_slot (islots S t)"
  have s: "ci_get_new_session c (cs_ticks (igstats S)) addr (EPOLL_IN OR EPOLL_OUT OR EPOLL_ET) sfd t = Some s"
    using False by (simp add: ci_get_new_session_def s_def)
  note acc = acc [unfolded ci_accept_client_def Let_def, folded t, unfolded s option.case]
  show ?thesis
  proof (cases "rc \<noteq> -1 \<and> \<not> ?k < 0")
    case True
    then obtain tab where tab: "set_slot_idx (iip_to_slot_idx S) addr ?k = Some tab" "r = sfd"
      "S' = S\<lparr>islots := (islots S)(t := (islots S t)(nat ?k \<mapsto> s\<lparr>islot_idx := ?k\<rparr>)),
          icurr_nr_conn := (icurr_nr_conn S)(t := icurr_nr_conn S t + 1), iip_to_slot_idx := tab\<rparr>"
      using acc False by auto
    have "islots S t (nat ?k) = None" "nat ?k < MAX_CONN_PER_THREAD"
      using get_free_conn_slot_spec [of "islots S t" ?k] True by simp_all
    then show ?thesis
      using accepted [of "nat ?k" "s\<lparr>islot_idx := ?k\<rparr>" tab] True tab by (simp add: ci_place_def s_def)
  next
    case no: False
    then obtain tab s' where "S' = S\<lparr>iip_to_slot_idx := tab\<rparr>" "ci_free_session_step1 s (iip_to_slot_idx S) = Some (s', tab)"
      using acc False by auto
    then show ?thesis using refused step1_idx by blast
  qed
qed

lemma ci_accept_inv:
  assumes ok: "ci_table_ok S" and acc: "ci_accept_client sfd addr c rc S = Some (r, S')"
  shows "ci_table_ok S' \<and> (idle_slot S u j \<longrightarrow> idle_slot S' u j)"
  using acc refl
proof (cases rule: ci_accept_cases)
  case (refused tab)
  have "ci_table_ok S'" unfolding refused(1) by (rule ci_table_cong [OF ok]) simp_all
  then show ?thesis by (simp add: refused(1) idle_slot_def)
next
  case (accepted s k tab)
  let ?t = "nat (c_mod (uint (addr AND 0xFF)) (cs_nWorkers (icfg S)))"
  have n: "0 < cs_nWorkers (icfg S)" using ok by (simp add: ci_table_ok_def)
  have "int ?t < cs_nWorkers (icfg S)" using c_mod_bounds [OF n] n by simp
  moreover have tok: "table_ok ci_place (islots S) (icurr_nr_conn S)" using ok by (simp add: ci_table_ok_def)
  have "table_ok ci_place (islots S') (icurr_nr_conn S')"
    using table_ok_insert [OF tok accepted(1-3)] unfolding accepted(7) by simp
  ultimately have "ci_table_ok S'"
    using ok unfolding accepted(7) ci_table_ok_def by (auto split: if_splits)
  then show ?thesis using accepted(4) by (auto simp: accepted(7) idle_slot_def)
qed

lemma ci_event_session:
  assumes "ci_process_event tk ev rc s tab = Some (s', tab')"
  shows "ci_place s' = ci_place s \<and> reply_data s' = reply_data s"
  using assms
  by (auto simp: ci_process_event_def ci_drain_client_def ci_free_session_step1_def ci_place_def Let_def split: if_splits)

lemma step2_idx: "iip_to_slot_idx (snd (ci_free_session_step2 s S)) = iip_to_slot_idx S"
  by (simp add: ci_free_session_step2_def Let_def)

lemma del_idx:
  "ci_del_session_now s S = Some (r, S') \<Longrightarrow> idx_tab_ok (iip_to_slot_idx S) \<Longrightarrow> idx_tab_ok (iip_to_slot_idx S')"
  using step1_idx step2_idx by (auto simp: ci_del_session_now_def) (metis ci_server.select_convs(5) ci_server.surjective ci_server.update_convs(5) snd_conv)

lemma scan_slot_idx:
  assumes "ci_scan_slot b t i rcs (S, n) = Some ((S', n'), sent)" "idx_tab_ok (iip_to_slot_idx S)"
  shows "idx_tab_ok (iip_to_slot_idx S')"
  using assms del_idx
  by (fastforce simp: ci_scan_slot_def ci_reply_def step2_idx Let_def bind_eq_Some_conv split: option.splits if_splits)

lemma scan_slots_idx:
  "ci_scan_slots b ps ws (S, n) out = Some ((S', n'), out') \<Longrightarrow> idx_tab_ok (iip_to_slot_idx S) \<Longrightarrow>
    idx_tab_ok (iip_to_slot_idx S')"
proof (induction ps arbitrary: S n out)
  case (Cons p ps)
  obtain t i where p: "p = (t, i)" by fastforce
  obtain S1 n1 sent where s1: "ci_scan_slot b t i (ws t i) (S, n) = Some ((S1, n1), sent)"
    and rest: "ci_scan_slots b ps ws (S1, n1) (out((t, i) := out (t, i) @ sent)) = Some ((S', n'), out')"
    using Cons.prems(1) by (auto simp: p bind_eq_Some_conv simp del: fun_upd_apply)
  show ?case using Cons.IH [OF rest] scan_slot_idx [OF s1 Cons.prems(2)] by blast
qed simp

lemma scan_round_idx:
  assumes "ci_scan_round b ws (S, n) = Some ((S', n'), out)" "idx_tab_ok (iip_to_slot_idx S)"
  shows "idx_tab_ok (iip_to_slot_idx S')"
proof -
  let ?S = "S\<lparr>igstats := (igstats S)\<lparr>cs_snapshot_session_alive := n\<rparr>\<rparr>"
  obtain ack S1 S2 where S1: "parse_input_conf b ?S = Some (ack, S1)"
    and S2: "ci_scan_slots b (all_slots (cs_nWorkers (icfg S1))) ws (S1, 0) (\<lambda>_. []) = Some ((S2, n'), out)"
    and S': "S' = (if ack = 1 then S2\<lparr>consume_not_done := 0\<rparr> else S2)"
    using assms(1) by (auto simp: ci_scan_round_def bind_eq_Some_conv)
  have "iip_to_slot_idx S1 = iip_to_slot_idx S" using S1 by (auto simp: parse_input_conf_def split: if_splits)
  then show ?thesis using scan_slots_idx [OF S2] assms(2) by (simp add: S')
qed

definition ci_inv :: "ci_server \<Rightarrow> bool" where
  "ci_inv S \<longleftrightarrow> ci_table_ok S \<and> idx_tab_ok (iip_to_slot_idx S) \<and> (\<forall>t i. idle_slot S t i)"

lemma ci_step_idx: "ci_step b S S' \<Longrightarrow> idx_tab_ok (iip_to_slot_idx S) \<Longrightarrow> idx_tab_ok (iip_to_slot_idx S')"
proof (induction rule: ci_step.induct)
  case (accept sfd addr c rc S r S')
  from accept.hyps refl show ?case
  proof (cases rule: ci_accept_cases)
    case (refused tab)
    then show ?thesis using accept.prems by simp
  next
    case (accepted s k tab)
    then show ?thesis using accept.prems by (auto simp: set_slot_idx_def idx_tab_ok_def Let_def split: if_splits)
  qed
next
  case (event S t i s ev rc s' tab)
  then show ?case
    using step1_idx by (auto simp: ci_process_event_def ci_drain_client_def Let_def split: if_splits)
qed (auto simp: input_read_def scan_round_idx)

lemma ci_step_table: "ci_step b S S' \<Longrightarrow> ci_inv S \<Longrightarrow> ci_table_ok S' \<and> (\<forall>t i. idle_slot S' t i)"
proof (induction rule: ci_step.induct)
  case (accept sfd addr c rc S r S')
  then show ?case using ci_accept_inv by (auto simp: ci_inv_def)
next
  case (event S t i s ev rc s' tab)
  note e = ci_event_session [OF event.hyps(2)]
  have "ci_table_ok S" using event.prems by (simp add: ci_inv_def)
  then have "ci_table_ok (S\<lparr>islots := (islots S)(t := (islots S t)(i \<mapsto> s')), iip_to_slot_idx := tab\<rparr>)"
    by (rule ci_table_update [OF _ event.hyps(1)]) (use e in simp_all)
  moreover have "reply_data s' = 0" using e event.prems event.hyps(1) by (simp add: ci_inv_def idle_slot_def)
  ultimately show ?case using event.prems by (simp add: ci_inv_def idle_slot_def)
next
  case (input S data)
  have "ci_table_ok (input_read data S)"
    by (rule ci_table_cong [of S]) (use input.prems in \<open>simp_all add: ci_inv_def input_read_def\<close>)
  then show ?case using input.prems by (simp add: ci_inv_def idle_slot_def input_read_def)
next
  case (scan ws S n S' n' out)
  then show ?case using scan_round_effect by (auto simp: ci_inv_def)
next
  case (tick S date)
  have "ci_table_ok (S\<lparr>igstats := ci_periodic (icfg S) date (igstats S)\<rparr>)"
    by (rule ci_table_cong [of S]) (use tick in \<open>simp_all add: ci_inv_def\<close>)
  then show ?case using tick.prems by (simp add: ci_inv_def idle_slot_def)
qed

lemma ci_step_inv: "ci_step b S S' \<Longrightarrow> ci_inv S \<Longrightarrow> ci_inv S'"
proof -
  assume step: "ci_step b S S'" and inv: "ci_inv S"
  then have "idx_tab_ok (iip_to_slot_idx S')" using ci_step_idx by (auto simp: ci_inv_def)
  moreover have "ci_table_ok S' \<and> (\<forall>t i. idle_slot S' t i)" using step inv by (rule ci_step_table)
  ultimately show ?thesis by (simp add: ci_inv_def)
qed

interpretation input_server: invariant_system
  "\<lambda>S. \<exists>c date. 0 < cs_nWorkers c \<and> S = ci_init_server c date" "ci_step b" ci_inv
proof unfold_locales
  show "ci_inv S" if "\<exists>c date. 0 < cs_nWorkers c \<and> S = ci_init_server c date" for S
    using that table_ok_empty [of ci_place]
    by (auto simp: ci_inv_def ci_table_ok_def idle_slot_def ci_init_server_def idx_tab_ok_def)
qed (rule ci_step_inv)

text \<open>C20. In every reachable state no session keeps a pointer into the input buffer, and
  each session is in the slot and thread that it names: the requirement in the comment
  at parse_input_conf is met.\<close>

theorem no_chain_between_rounds:
  assumes "0 < cs_nWorkers c" "(ci_step b)\<^sup>*\<^sup>* (ci_init_server c date) S" "islots S t i = Some s"
  shows "reply_data s = 0 \<and> ithreadidx s = t \<and> islot_idx s = int i \<and> int t < cs_nWorkers (icfg S)"
proof -
  have "ci_inv S" using assms(2) by (rule input_server.reachable_inv) (use assms(1) in blast)
  then show ?thesis
    using ci_table_okD [of S t i s] assms(3) by (auto simp: ci_inv_def idle_slot_def ci_place_def)
qed

end
