(* ===== verification/ConfInput.thy ===== *)
theory ConfInput
  imports ConfServer
begin

text \<open>
  The way of a segment through src/confServer.c: the lines of a segment end up on chains,
  one for each client, and the scan sends the chains. This theory has the lemmas on the
  byte memory and its chains, and the theorems on what each client receives.
\<close>

section \<open>Pointers and strings in the buffer\<close>

lemma digits_base:
  fixes q :: nat
  assumes "0 < B"
  shows "(\<Sum>k<n. (q div B ^ k mod B) * B ^ k) = q mod B ^ n"
proof (induction n)
  case (Suc n)
  have "q mod (B ^ n * B) = B ^ n * (q div B ^ n mod B) + q mod B ^ n"
    by (rule mod_mult2_eq)
  then show ?case using Suc by (simp add: mult.commute)
qed simp

lemma load_store_same [simp]:
  assumes "q < 2 ^ 64"
  shows "load_ptr (store_ptr m a q) a = q"
proof -
  have "load_ptr (store_ptr m a q) a = (\<Sum>k<8. (q div 256 ^ k mod 256) * 256 ^ k)"
    unfolding load_ptr_def store_ptr_def by (rule sum.cong) (simp_all add: of_char_of)
  also have "\<dots> = q mod 256 ^ 8" by (rule digits_base) simp
  also have "\<dots> = q" using assms by simp
  finally show ?thesis .
qed

lemma load_cong: "(\<And>x. a \<le> x \<Longrightarrow> x < a + 8 \<Longrightarrow> m' x = m x) \<Longrightarrow> load_ptr m' a = load_ptr m a"
  unfolding load_ptr_def by (rule sum.cong) simp_all

lemma store_apply: "x < a \<or> a + 8 \<le> x \<Longrightarrow> store_ptr m a q x = m x"
  by (auto simp: store_ptr_def)

lemma blank_apply: "blank_word m line j x = (if line + 8 \<le> x \<and> x < line + j then CHR '' '' else m x)"
proof (induction m line j rule: blank_word.induct)
  case (1 m line j)
  show ?case
  proof (cases "8 < j")
    case True
    then have "blank_word m line j x = blank_word (m(line + j - 1 := CHR '' '')) line (j - 1) x"
      by (simp add: blank_word.simps [of m line j])
    then show ?thesis using 1 True by (auto simp: fun_upd_def)
  next
    case False
    then show ?thesis by (subst blank_word.simps) auto
  qed
qed

definition text_at :: "mem \<Rightarrow> nat \<Rightarrow> string \<Rightarrow> bool" where
  "text_at m a s \<longleftrightarrow> (\<forall>k < length s. m (a + k) = s ! k)"

lemma text_at_Nil [simp]: "text_at m a []"
  by (simp add: text_at_def)

lemma text_at_Cons [simp]: "text_at m a (c # s) \<longleftrightarrow> m a = c \<and> text_at m (a + 1) s"
  by (simp add: text_at_def All_less_Suc2)

lemma text_at_append [simp]: "text_at m a (s @ s') \<longleftrightarrow> text_at m a s \<and> text_at m (a + length s) s'"
  by (induction s arbitrary: a) (auto simp: algebra_simps)

lemma text_at_cong:
  "(\<And>x. a \<le> x \<Longrightarrow> x < a + length s \<Longrightarrow> m' x = m x) \<Longrightarrow> text_at m' a s = text_at m a s"
  by (simp add: text_at_def)

lemma mem_str_text:
  "text_at m a s \<Longrightarrow> m (a + length s) = CHR 0x00 \<Longrightarrow> CHR 0x00 \<notin> set s \<Longrightarrow> a + length s < INPUT_BUF_SIZE \<Longrightarrow>
    mem_str m a = Some s"
  by (induction s arbitrary: a) (subst mem_str.simps, auto)+

lemma skip_word_text:
  "text_at m a s \<Longrightarrow> m (a + length s) = CHR '' '' \<Longrightarrow> CHR 0x00 \<notin> set s \<Longrightarrow> CHR '' '' \<notin> set s \<Longrightarrow>
    a + length s < INPUT_BUF_SIZE \<Longrightarrow> skip_word m a = Some (a + length s)"
  by (induction s arbitrary: a) (subst skip_word.simps, auto)+

lemma line_end_text:
  "text_at m i s \<Longrightarrow> CHR 0x0A \<notin> set s \<Longrightarrow> CHR 0x00 \<notin> set s \<Longrightarrow> i + length s \<le> got \<Longrightarrow>
    (i + length s < got \<Longrightarrow> m (i + length s) = CHR 0x0A) \<Longrightarrow> line_end m got i = i + length s"
  by (induction s arbitrary: i) (subst line_end.simps, auto)+

section \<open>Chains\<close>

fun chain :: "nat \<Rightarrow> mem \<Rightarrow> nat \<Rightarrow> nat list \<Rightarrow> bool" where
  "chain b m q [] \<longleftrightarrow> q = 0"
| "chain b m q (a # as) \<longleftrightarrow> q = b + a \<and> a + 8 \<le> INPUT_BUF_SIZE \<and> chain b m (load_ptr m a) as"

lemma chain_cong: "(\<And>a. a \<in> set as \<Longrightarrow> load_ptr m' a = load_ptr m a) \<Longrightarrow> chain b m' q as = chain b m q as"
  by (induction as arbitrary: q) auto

lemma ptr_off_chain: "a + 8 \<le> INPUT_BUF_SIZE \<Longrightarrow> ptr_off b (b + a) = Some a"
  by (simp add: ptr_off_def)

lemma chain_last_chain:
  "0 < b \<Longrightarrow> chain b m q (as @ [a]) \<Longrightarrow> chain_last b m q = Some a"
proof (induction as arbitrary: q)
  case Nil
  then show ?case by (subst chain_last.simps) (simp add: ptr_off_chain)
next
  case (Cons a' as)
  then have "load_ptr m a' \<noteq> 0" by (cases as) auto
  then show ?case using Cons by (subst chain_last.simps) (simp add: ptr_off_chain)
qed

lemma chain_snoc:
  assumes "b + l < 2 ^ 64" "l + 8 \<le> INPUT_BUF_SIZE"
  shows "chain b m q (as @ [a]) \<Longrightarrow> load_ptr m l = 0 \<Longrightarrow> a + 8 \<le> l \<or> l + 8 \<le> a \<Longrightarrow>
    (\<And>a'. a' \<in> set as \<Longrightarrow> a' + 8 \<le> a \<or> a + 8 \<le> a') \<Longrightarrow> chain b (store_ptr m a (b + l)) q (as @ [a, l])"
proof (induction as arbitrary: q)
  case Nil
  have "load_ptr (store_ptr m a (b + l)) l = load_ptr m l"
    using Nil.prems(3) by (intro load_cong store_apply) auto
  then show ?case using Nil assms by simp
next
  case (Cons a' as)
  have "load_ptr (store_ptr m a (b + l)) a' = load_ptr m a'"
    using Cons.prems(4) [of a'] by (intro load_cong store_apply) auto
  then show ?case using Cons by simp
qed

text \<open>
  \<open>held b m q L\<close>: the chain at \<open>q\<close> has a line for each entry of \<open>L\<close>, with the pointer at its
  offset and its text behind. \<open>cells\<close> are the bytes that a chain uses.
\<close>

definition cells :: "(nat \<times> string) list \<Rightarrow> nat set" where
  "cells L = (\<Union>(a, w) \<in> set L. {a..a + 8 + length w})"

definition held :: "nat \<Rightarrow> mem \<Rightarrow> nat \<Rightarrow> (nat \<times> string) list \<Rightarrow> bool" where
  "held b m q L \<longleftrightarrow> chain b m q (map fst L)
     \<and> (\<forall>(a, w) \<in> set L. text_at m (a + 8) (w @ [CHR 0x00]) \<and> CHR 0x00 \<notin> set w \<and> a + 8 + length w < INPUT_BUF_SIZE)"

definition spaced :: "(nat \<times> string) list \<Rightarrow> bool" where
  "spaced L \<longleftrightarrow> sorted_wrt (\<lambda>(a, w) (a', _). a + 8 + length w < a') L"

lemma cells_simps [simp]:
  "cells [] = {}" "cells ((a, w) # L) = {a..a + 8 + length w} \<union> cells L" "cells (L @ L') = cells L \<union> cells L'"
  by (auto simp: cells_def)

lemma cells_mem: "(a, w) \<in> set L \<Longrightarrow> a \<le> x \<Longrightarrow> x \<le> a + 8 + length w \<Longrightarrow> x \<in> cells L"
  by (force simp: cells_def)

lemma held_cong:
  assumes "\<And>x. x \<in> cells L \<Longrightarrow> m' x = m x"
  shows "held b m' q L = held b m q L"
proof -
  have c: "m' x = m x" if "(a, w) \<in> set L" "a \<le> x" "x \<le> a + 8 + length w" for a w x
    using that by (intro assms cells_mem)
  have "load_ptr m' a = load_ptr m a" if "a \<in> set (map fst L)" for a
    using that c by (intro load_cong) fastforce
  then have "chain b m' q (map fst L) = chain b m q (map fst L)" by (rule chain_cong)
  moreover have "text_at m' (a + 8) (w @ [CHR 0x00]) = text_at m (a + 8) (w @ [CHR 0x00])" if "(a, w) \<in> set L" for a w
    by (rule text_at_cong) (use c [OF that] in auto)
  ultimately show ?thesis unfolding held_def by fastforce
qed

section \<open>Lines of the input\<close>

definition ip_text :: "nat \<times> nat \<times> nat \<times> nat \<Rightarrow> string" where
  "ip_text = (\<lambda>(t0, t1, t2, t3). dec t0 @ ''.'' @ dec t1 @ ''.'' @ dec t2 @ ''.'' @ dec t3)"

definition quad_ints :: "nat \<times> nat \<times> nat \<times> nat \<Rightarrow> int \<times> int \<times> int \<times> int" where
  "quad_ints = (\<lambda>(t0, t1, t2, t3). (int t0, int t1, int t2, int t3))"

definition quad_ok :: "nat \<times> nat \<times> nat \<times> nat \<Rightarrow> bool" where
  "quad_ok = (\<lambda>(t0, t1, t2, t3). t0 < 128 \<and> t1 < 64 \<and> t2 < 256 \<and> t3 < 256)"

lemma scan_quad_ip:
  assumes "s = [] \<or> \<not> is_digit (hd s)" "quad_ok q"
  shows "scan_quad (ip_text q @ s) = Some (quad_ints q)"
proof -
  obtain t0 t1 t2 t3 where q: "q = (t0, t1, t2, t3)" by (cases q)
  have lim: "t0 < 2 ^ 31" "t1 < 2 ^ 31" "t2 < 2 ^ 31" "t3 < 2 ^ 31" using assms(2) by (simp_all add: quad_ok_def q)
  have d: "scan_int (dec n @ CHR ''.'' # r) = Some (int n, CHR ''.'' # r)" if "n < 2 ^ 31" for n r
    using that by (intro scan_int_dec) (simp_all add: is_digit_def)
  show ?thesis
    using scan_int_dec [OF assms(1) lim(4)] d lim by (simp add: scan_quad_def q ip_text_def quad_ints_def scan_dot_def)
qed

lemma ip_text_chars:
  "CHR '' '' \<notin> set (ip_text q)" "CHR 0x00 \<notin> set (ip_text q)" "CHR 0x0A \<notin> set (ip_text q)"
  using dec_digits by (fastforce simp: ip_text_def is_digit_def split: prod.splits)+

lemma ip_text_length: "7 \<le> length (ip_text q)"
proof -
  have d: "1 \<le> length (dec n)" for n using dec_nonempty [of n] by (cases "dec n") auto
  obtain t0 t1 t2 t3 where q: "q = (t0, t1, t2, t3)" by (cases q)
  show ?thesis using d [of t0] d [of t1] d [of t2] d [of t3] by (simp add: q ip_text_def)
qed

text \<open>
  The addresses for which the index tables are read inside their bounds: the second
  byte below 64, and the first below 128, where \<open>ipv4\<close> does not wrap around.
\<close>

lemma to_int32_id: "0 \<le> x \<Longrightarrow> x < 2 ^ 31 \<Longrightarrow> to_int32 x = x"
  by (simp add: to_int32_def signed_take_bit_int_eq_self)

lemma quad_values:
  assumes "quad_ok (t0, t1, t2, t3)"
  shows "quad_ipv4 (quad_ints (t0, t1, t2, t3)) = int (t0 * 2 ^ 24 + t1 * 2 ^ 16 + t2 * 256 + t3)"
    "quad_slot_idx (quad_ints (t0, t1, t2, t3)) = int (t1 * 2 ^ 16 + t2 * 256 + t3)"
    "t1 * 2 ^ 16 + t2 * 256 + t3 < 2 ^ 22"
  using assms by (simp_all add: quad_ok_def quad_ipv4_def quad_slot_idx_def quad_ints_def to_int32_id)

text \<open>
  The slot in which \<open>parse_input_conf\<close> looks a line up, with its own choice of the thread,
  and the text that it leaves of the line.
\<close>

definition target ::
  "int \<Rightarrow> (int \<Rightarrow> int) \<Rightarrow> (nat \<Rightarrow> nat \<Rightarrow> 'a option) \<Rightarrow> nat \<times> nat \<times> nat \<times> nat \<Rightarrow> (nat \<times> nat) option" where
  "target n idx_tab tab q =
     (let t = nat (c_mod (quad_ipv4 (quad_ints q)) n); slot = idx_tab (quad_slot_idx (quad_ints q)) in
      if slot < 0 \<or> tab t (nat slot) = None then None else Some (t, nat slot))"

definition pushed :: "(nat \<times> nat \<times> nat \<times> nat) \<times> string \<Rightarrow> string" where
  "pushed = (\<lambda>(q, w). replicate (length (ip_text q) - 7) (CHR '' '') @ w)"

definition input_line :: "(nat \<times> nat \<times> nat \<times> nat) \<times> string \<Rightarrow> string" where
  "input_line = (\<lambda>(q, w). ip_text q @ CHR '' '' # w)"

definition input_line_ok :: "(nat \<times> nat \<times> nat \<times> nat) \<times> string \<Rightarrow> bool" where
  "input_line_ok = (\<lambda>(q, w). quad_ok q \<and> CHR 0x00 \<notin> set w \<and> CHR 0x0A \<notin> set w)"

section \<open>One line\<close>

text \<open>
  \<open>fam k\<close> lists what the chain of slot \<open>k\<close> holds: every chain uses its own cells, below
  the position \<open>i\<close> that the scan of the segment has reached.
\<close>

definition families :: "nat \<Rightarrow> mem \<Rightarrow> (nat \<Rightarrow> nat \<Rightarrow> ci_session option) \<Rightarrow> (nat \<times> nat \<Rightarrow> (nat \<times> string) list) \<Rightarrow> nat \<Rightarrow> bool" where
  "families b m tab fam i \<longleftrightarrow>
     (\<forall>t k s. tab t k = Some s \<longrightarrow> held b m (reply_data s) (fam (t, k)))
     \<and> (\<forall>k. spaced (fam k) \<and> cells (fam k) \<subseteq> {..<i}) \<and> (\<forall>k k'. k \<noteq> k' \<longrightarrow> cells (fam k) \<inter> cells (fam k') = {})"

lemma familiesD:
  assumes "families b m tab fam i"
  shows "tab t k = Some s \<Longrightarrow> held b m (reply_data s) (fam (t, k))" "spaced (fam x)" "cells (fam x) \<subseteq> {..<i}"
    "x \<noteq> y \<Longrightarrow> cells (fam x) \<inter> cells (fam y) = {}"
  using assms unfolding families_def by blast+

lemma families_cong:
  assumes "families b m tab fam i" "\<And>x. x < i \<Longrightarrow> m' x = m x" "i \<le> i'"
  shows "families b m' tab fam i'"
proof -
  have "held b m' q (fam k) = held b m q (fam k)" for q k
    by (rule held_cong) (use familiesD(3) [OF assms(1)] assms(2) in blast)
  then show ?thesis using assms(1,3) unfolding families_def by (meson lessThan_subset_iff subset_trans)
qed

text \<open>The new line of a session goes to the end of its chain.\<close>

lemma attach_families:
  assumes fam: "families b m tab fam l" and s: "tab t k = Some s" and b: "0 < b" "b + INPUT_BUF_SIZE \<le> 2 ^ 64"
    and new: "load_ptr m l = 0" "text_at m (l + 8) (w @ [CHR 0x00])" "CHR 0x00 \<notin> set w"
      "l + 8 + length w < INPUT_BUF_SIZE" "l + 8 + length w < i'"
  obtains m' s' where "attach_line b l m s = Some (m', s')"
    "families b m' (tab(t := (tab t)(k \<mapsto> s'))) (fam((t, k) := fam (t, k) @ [(l, w)])) i'" "\<And>x. l \<le> x \<Longrightarrow> m' x = m x"
proof -
  let ?L = "fam (t, k)" and ?fam = "fam((t, k) := fam (t, k) @ [(l, w)])"
  have held: "held b m (reply_data s) ?L" and below: "cells (fam k') \<subseteq> {..<l}" and sp: "spaced (fam k')"
    and disj: "k1 \<noteq> k2 \<Longrightarrow> cells (fam k1) \<inter> cells (fam k2) = {}" for k' k1 k2
    using familiesD [OF fam] s by blast+
  have before: "a + 8 + length v < l" if "(a, v) \<in> set (fam k')" for a v k'
    using below [of k'] cells_mem [OF that, of "a + 8 + length v"] by auto
  have cells': "cells (?fam k') \<subseteq> {..<i'}" for k'
  proof -
    have "cells (fam k') \<subseteq> {..<i'}" using below [of k'] new(5) by fastforce
    then show ?thesis using new(5) by (cases "k' = (t, k)") auto
  qed
  have spaced': "spaced (?fam k')" for k'
    using sp [of k'] before [of _ _ "(t, k)"] by (auto simp: spaced_def sorted_wrt_append)
  have "cells (?fam k1) \<inter> cells (?fam k2) = {}" if "k1 \<noteq> k2" for k1 k2
    using disj [OF that] below [of k1] below [of k2] that by auto
  note geo = cells' spaced' this
  have upd: "families b m' (tab(t := (tab t)(k \<mapsto> s'))) ?fam i'"
    if "held b m' (reply_data s') (?L @ [(l, w)])" "\<And>x k'. k' \<noteq> (t, k) \<Longrightarrow> x \<in> cells (fam k') \<Longrightarrow> m' x = m x" for m' s'
  proof -
    have "held b m' q (fam k') = held b m q (fam k')" if "k' \<noteq> (t, k)" for q k'
      by (rule held_cong) (use that \<open>\<And>x k'. k' \<noteq> (t, k) \<Longrightarrow> x \<in> cells (fam k') \<Longrightarrow> m' x = m x\<close> in blast)
    then have "held b m' (reply_data x) (?fam (u, j))" if "(tab(t := (tab t)(k \<mapsto> s'))) u j = Some x" for u j x
      using that \<open>held b m' (reply_data s') (?L @ [(l, w)])\<close> familiesD(1) [OF fam]
      by (cases "(u, j) = (t, k)") (auto split: if_splits)
    then show ?thesis unfolding families_def using geo by blast
  qed
  show ?thesis
  proof (cases ?L rule: rev_cases)
    case Nil
    then have z: "reply_data s = 0" using held by (simp add: held_def)
    have "held b m (reply_data (s\<lparr>reply_data := b + l\<rparr>)) (?L @ [(l, w)])"
      using new Nil by (simp add: held_def)
    from upd [OF this] show ?thesis using that [of m "s\<lparr>reply_data := b + l\<rparr>"] z by (simp add: attach_line_def)
  next
    case (snoc L aw)
    obtain a v where aw: "aw = (a, v)" by (cases aw)
    let ?m = "store_ptr m a (b + l)"
    have ch: "chain b m (reply_data s) (map fst L @ [a])" using held by (simp add: held_def snoc aw)
    have av: "(a, v) \<in> set ?L" by (simp add: snoc aw)
    have gap: "a' + 8 + length v' < a" if "(a', v') \<in> set L" for a' v'
      using sp [of "(t, k)"] that by (fastforce simp: snoc aw spaced_def sorted_wrt_append)
    have same: "?m x = m x" if "x < a \<or> a + 8 \<le> x" for x using that by (rule store_apply)
    have "chain b ?m (reply_data s) (map fst L @ [a, l])"
      by (rule chain_snoc [OF _ _ ch new(1)]) (use b new(4) before [OF av] gap in fastforce)+
    moreover have "text_at ?m (a' + 8) (v' @ [CHR 0x00]) \<and> CHR 0x00 \<notin> set v' \<and> a' + 8 + length v' < INPUT_BUF_SIZE"
      if "(a', v') \<in> set (?L @ [(l, w)])" for a' v'
    proof -
      have "text_at m (a' + 8) (v' @ [CHR 0x00]) \<and> CHR 0x00 \<notin> set v' \<and> a' + 8 + length v' < INPUT_BUF_SIZE"
        using that held new by (auto simp: held_def)
      moreover have "text_at ?m (a' + 8) (v' @ [CHR 0x00]) = text_at m (a' + 8) (v' @ [CHR 0x00])"
      proof (rule text_at_cong, rule same)
        fix x assume x: "a' + 8 \<le> x" "x < a' + 8 + length (v' @ [CHR 0x00])"
        show "x < a \<or> a + 8 \<le> x"
          using that x gap [of a' v'] before [OF av] by (auto simp: snoc aw)
      qed
      ultimately show ?thesis by simp
    qed
    ultimately have "held b ?m (reply_data s) (?L @ [(l, w)])" by (auto simp: held_def snoc aw)
    moreover have "?m x = m x" if "k' \<noteq> (t, k)" "x \<in> cells (fam k')" for x k'
    proof -
      have "x \<notin> {a..a + 8 + length v}" using disj [OF that(1)] that(2) cells_mem [OF av, of x] by auto
      then show ?thesis by (intro same) auto
    qed
    ultimately have "families b ?m (tab(t := (tab t)(k \<mapsto> s))) ?fam i'" by (rule upd)
    moreover have "reply_data s \<noteq> 0" using ch b by (cases L) auto
    moreover have "chain_last b m (reply_data s) = Some a" by (rule chain_last_chain [OF b(1) ch])
    moreover have "?m x = m x" if "l \<le> x" for x using that before [OF av] by (intro same) auto
    ultimately show ?thesis using that [of ?m s] by (simp add: attach_line_def)
  qed
qed

lemma replicate_text: "text_at m a (replicate n c) \<longleftrightarrow> (\<forall>x. a \<le> x \<and> x < a + n \<longrightarrow> m x = c)"
proof -
  have "(\<forall>k < n. m (a + k) = c) \<longleftrightarrow> (\<forall>x. a \<le> x \<and> x < a + n \<longrightarrow> m x = c)"
    by (metis add_less_cancel_left le_add1 le_Suc_ex)
  then show ?thesis by (simp add: text_at_def)
qed

text \<open>The session that a line is for takes it.\<close>

lemma take_line_ok:
  assumes src: "text_at (pmem P) l (input_line (q, w) @ [CHR 0x00])" and ok: "input_line_ok (q, w)"
    and e: "e = l + length (input_line (q, w))" "e < INPUT_BUF_SIZE"
    and fam: "families b (pmem P) (ptab P) fam l" and b: "0 < b" "b + INPUT_BUF_SIZE \<le> 2 ^ 64"
    and j: "pj P \<le> length (ip_text q)" and s: "ptab P t k = Some s"
  obtains P' where "take_line b l t k s P = Some P'"
    "families b (pmem P') (ptab P') (fam((t, k) := fam (t, k) @ [(l, pushed (q, w))])) (e + 1)"
    "\<And>x. e < x \<Longrightarrow> pmem P' x = pmem P x" "pj P' = min (length (ip_text q)) 8"
proof -
  let ?A = "length (ip_text q)" and ?m = "pmem P"
  have A: "7 \<le> ?A" by (rule ip_text_length)
  have e': "e = l + ?A + 1 + length w" by (simp add: e input_line_def)
  have t: "text_at ?m l (ip_text q)" "?m (l + ?A) = CHR '' ''" "text_at ?m (l + ?A + 1) (w @ [CHR 0x00])"
    using src by (simp_all add: input_line_def algebra_simps)
  have drop: "text_at ?m (l + pj P) (drop (pj P) (ip_text q))" using t(1) by (auto simp: text_at_def add.assoc)
  have skip: "skip_word ?m (l + pj P) = Some (l + ?A)"
    using skip_word_text [OF drop] t(2) j e e' ip_text_chars [of q]
      in_set_dropD [of "CHR 0x00" "pj P" "ip_text q"] in_set_dropD [of "CHR '' ''" "pj P" "ip_text q"] by auto
  define m1 where "m1 = store_ptr (blank_word ?m l ?A) l 0"
  have m1: "m1 x = (if l + 8 \<le> x \<and> x < l + ?A then CHR '' '' else ?m x)" if "x < l \<or> l + 8 \<le> x" for x
    using that by (simp add: m1_def store_apply blank_apply)
  have above: "m1 x = ?m x" if "l + 8 \<le> x" "l + ?A \<le> x" for x using that m1 [of x] by simp
  have tail: "text_at m1 (l + ?A + 1) (w @ [CHR 0x00])"
  proof -
    have "text_at m1 (l + ?A + 1) (w @ [CHR 0x00]) = text_at ?m (l + ?A + 1) (w @ [CHR 0x00])"
      by (rule text_at_cong) (use A above in simp)
    then show ?thesis using t(3) by simp
  qed
  have "text_at m1 (l + 8) (pushed (q, w) @ [CHR 0x00])"
  proof (cases "?A = 7")
    case True
    then have "l + ?A + 1 = l + 8" by simp
    with True tail show ?thesis unfolding pushed_def prod.case by (simp only: diff_self_eq_0 replicate_0 append_Nil)
  next
    case False
    then have "text_at m1 (l + 8) (replicate (?A - 7) (CHR '' ''))"
      using A t(2) m1 above [of "l + ?A"] by (auto simp: replicate_text le_less_Suc_eq)
    moreover have "l + 8 + (?A - 7) = l + ?A + 1" using A by simp
    ultimately show ?thesis using tail by (simp add: pushed_def)
  qed
  moreover have fam1: "families b m1 (ptab P) fam l" by (rule families_cong [OF fam]) (simp_all add: m1)
  moreover have "load_ptr m1 l = 0" by (simp add: m1_def)
  moreover have "CHR 0x00 \<notin> set (pushed (q, w))" using ok by (auto simp: pushed_def input_line_ok_def)
  moreover have "l + 8 + length (pushed (q, w)) < INPUT_BUF_SIZE" "l + 8 + length (pushed (q, w)) < e + 1"
    using A e(2) e' by (simp_all add: pushed_def)
  ultimately obtain m' s' where m': "attach_line b l m1 s = Some (m', s')"
    "families b m' ((ptab P)(t := (ptab P t)(k \<mapsto> s'))) (fam((t, k) := fam (t, k) @ [(l, pushed (q, w))])) (e + 1)"
    "\<And>x. l \<le> x \<Longrightarrow> m' x = m1 x"
    using attach_families [OF fam1 s b] by blast
  have "take_line b l t k s P
      = Some \<lparr>pj = min ?A 8, pmem = m', ptab = (ptab P)(t := (ptab P t)(k \<mapsto> s'))\<rparr>"
    using skip t(2) A e m'(1) e' by (simp add: take_line_def m1_def)
  moreover have "m' x = ?m x" if "e < x" for x using that e' A above [of x] m'(3) [of x] by simp
  ultimately show ?thesis using that m'(2) by fastforce
qed

lemma parse_line_ok:
  assumes src: "text_at (pmem P) l (input_line (q, w) @ [CHR 0x00])" and ok: "input_line_ok (q, w)"
    and e: "e = l + length (input_line (q, w))" "e < INPUT_BUF_SIZE"
    and fam: "families b (pmem P) (ptab P) fam l" and b: "0 < b" "b + INPUT_BUF_SIZE \<le> 2 ^ 64"
    and j: "pj P \<le> length (ip_text q)" and n: "0 < n" and idx: "\<And>i. idx_tab i < int MAX_CONN_PER_THREAD"
  obtains P' where "parse_line b n idx_tab l P = Some P'"
    "families b (pmem P') (ptab P') (case target n idx_tab (ptab P) q of
       None \<Rightarrow> fam | Some k \<Rightarrow> fam(k := fam k @ [(l, pushed (q, w))])) (e + 1)"
    "\<And>x. e < x \<Longrightarrow> pmem P' x = pmem P x"
    "pj P' = (case target n idx_tab (ptab P) q of None \<Rightarrow> pj P | Some _ \<Rightarrow> min (length (ip_text q)) 8)"
proof -
  let ?q = "quad_ints q"
  let ?t = "c_mod (quad_ipv4 ?q) n" and ?slot = "idx_tab (quad_slot_idx ?q)"
  have s: "CHR 0x00 \<notin> set (input_line (q, w))"
    using ok ip_text_chars by (auto simp: input_line_def input_line_ok_def)
  have c: "mem_str (pmem P) l = Some (input_line (q, w))"
    using mem_str_text [of "pmem P" l "input_line (q, w)"] src s e by simp
  have quad: "scan_quad (input_line (q, w)) = Some ?q"
    unfolding input_line_def prod.case by (rule scan_quad_ip) (use ok in \<open>simp_all add: is_digit_def input_line_ok_def\<close>)
  obtain t0 t1 t2 t3 where q: "q = (t0, t1, t2, t3)" by (cases q)
  have qok: "quad_ok (t0, t1, t2, t3)" using ok by (simp add: input_line_ok_def q)
  have bounds: "0 \<le> quad_slot_idx ?q" "quad_slot_idx ?q < TOTAL_IPV4S" "0 \<le> quad_ipv4 ?q"
    using quad_values [OF qok] by (simp_all add: q TOTAL_IPV4S_def)
  then have t: "\<not> ?t < 0" using n c_mod_nonneg [of "quad_ipv4 ?q" n] by (simp add: not_less)
  have line: "parse_line b n idx_tab l P = (if ?slot < 0 then Some P
      else case ptab P (nat ?t) (nat ?slot) of None \<Rightarrow> Some P | Some s \<Rightarrow> take_line b l (nat ?t) (nat ?slot) s P)"
    using bounds t idx [of "quad_slot_idx ?q"] by (simp add: parse_line_def c quad Let_def)
  show ?thesis
  proof (cases "?slot < 0 \<or> ptab P (nat ?t) (nat ?slot) = None")
    case True
    then have "target n idx_tab (ptab P) q = None" by (simp add: target_def)
    moreover have "parse_line b n idx_tab l P = Some P" using True line by (auto split: option.split)
    moreover have "families b (pmem P) (ptab P) fam (e + 1)" by (rule families_cong [OF fam]) (simp_all add: e)
    ultimately show ?thesis using that [of P] by simp
  next
    case False
    then obtain s where s: "ptab P (nat ?t) (nat ?slot) = Some s" by auto
    have tg: "target n idx_tab (ptab P) q = Some (nat ?t, nat ?slot)" using False by (simp add: target_def Let_def)
    from take_line_ok [OF src ok e fam b j s] obtain P' where "take_line b l (nat ?t) (nat ?slot) s P = Some P'"
      "families b (pmem P') (ptab P') (fam((nat ?t, nat ?slot) := fam (nat ?t, nat ?slot) @ [(l, pushed (q, w))])) (e + 1)"
      "\<And>x. e < x \<Longrightarrow> pmem P' x = pmem P x" "pj P' = min (length (ip_text q)) 8" by blast
    then show ?thesis using that [of P'] tg line s False by simp
  qed
qed

section \<open>A segment\<close>

definition segment :: "((nat \<times> nat \<times> nat \<times> nat) \<times> string) list \<Rightarrow> string" where
  "segment ls = concat (map (\<lambda>l. input_line l @ [CHR 0x0A]) ls)"

text \<open>
  \<open>j\<close> is not reset between lines: a line with a 7-character address is only read
  correctly when no line with a longer address came before it.
\<close>

definition short_first :: "((nat \<times> nat \<times> nat \<times> nat) \<times> string) list \<Rightarrow> bool" where
  "short_first ls \<longleftrightarrow>
     sorted_wrt (\<lambda>l l'. length (ip_text (fst l)) = 7 \<or> length (ip_text (fst l')) \<noteq> 7) ls"

lemma tab_like_dom: "tab_like tab tab' \<Longrightarrow> tab' t i = None \<longleftrightarrow> tab t i = None"
  by (metis map_option_is_None tab_like_def)

lemma target_cong:
  "tab_like tab tab' \<Longrightarrow> target n idx_tab tab' q = target n idx_tab tab q"
  by (simp add: target_def Let_def tab_like_dom)

lemma parse_lines_ok:
  assumes b: "0 < b" "b + INPUT_BUF_SIZE \<le> 2 ^ 64" and n: "0 < n" and idx: "\<And>i. idx_tab i < int MAX_CONN_PER_THREAD"
    and tail: "CHR 0x0A \<notin> set tail" "CHR 0x00 \<notin> set tail" and got: "got \<le> INPUT_BUF_SIZE"
  shows "text_at (pmem P) i (segment ls @ tail) \<Longrightarrow> i + length (segment ls @ tail) = got \<Longrightarrow> \<forall>l \<in> set ls. input_line_ok l \<Longrightarrow>
    families b (pmem P) (ptab P) fam i \<Longrightarrow> short_first ls \<Longrightarrow> \<forall>l \<in> set ls. pj P \<le> length (ip_text (fst l)) \<Longrightarrow>
    \<exists>P' fam'. parse_lines b n idx_tab got i P = Some P' \<and> families b (pmem P') (ptab P') fam' got
      \<and> (\<forall>k. map snd (fam' k) = map snd (fam k)
          @ map pushed (filter (\<lambda>l. target n idx_tab (ptab P) (fst l) = Some k) ls))"
proof (induction ls arbitrary: i P fam)
  case Nil
  then have t: "text_at (pmem P) i tail" "i + length tail = got" by (simp_all add: segment_def)
  then have "line_end (pmem P) got i = got" using line_end_text [OF t(1) tail, of got] by simp
  then have "parse_lines b n idx_tab got i P = Some P" by (intro parse_lines_stop) simp
  moreover have "families b (pmem P) (ptab P) fam got" by (rule families_cong [OF Nil.prems(4)]) (use t in auto)
  ultimately show ?case by auto
next
  case (Cons l ls)
  obtain q w where l: "l = (q, w)" by fastforce
  let ?s = "input_line (q, w)" and ?e = "i + length (input_line (q, w))"
  have ok: "input_line_ok (q, w)" using Cons.prems(3) by (simp add: l)
  then have clean: "CHR 0x0A \<notin> set ?s" "CHR 0x00 \<notin> set ?s"
    using ip_text_chars [of q] by (auto simp: input_line_def input_line_ok_def)
  have seg: "segment (l # ls) @ tail = ?s @ CHR 0x0A # segment ls @ tail" by (simp add: segment_def l)
  have t: "text_at (pmem P) i ?s" "pmem P ?e = CHR 0x0A" "text_at (pmem P) (?e + 1) (segment ls @ tail)"
    using Cons.prems(1) unfolding seg by (simp_all add: add.assoc)
  have len: "?e + 1 + length (segment ls @ tail) = got" using Cons.prems(2) unfolding seg by simp
  then have e: "i < got" "?e < got" "?e < INPUT_BUF_SIZE" using got by (auto simp: input_line_def)
  have le: "line_end (pmem P) got i = ?e" by (rule line_end_text [OF t(1) clean]) (use t(2) e in auto)
  let ?P = "P\<lparr>pmem := (pmem P)(?e := CHR 0x00)\<rparr>"
  have "text_at (pmem ?P) i ?s = text_at (pmem P) i ?s" by (rule text_at_cong) simp
  then have src: "text_at (pmem ?P) i (?s @ [CHR 0x00])" using t(1) by simp
  have fam: "families b (pmem ?P) (ptab ?P) fam i" by (rule families_cong [of b "pmem P"]) (use Cons.prems(4) in auto)
  have j: "pj ?P \<le> length (ip_text q)" using Cons.prems(6) by (simp add: l)
  let ?tg = "target n idx_tab (ptab ?P) q"
  obtain P1 where P1: "parse_line b n idx_tab i ?P = Some P1"
    "families b (pmem P1) (ptab P1) (case ?tg of None \<Rightarrow> fam | Some k \<Rightarrow> fam(k := fam k @ [(i, pushed (q, w))])) (?e + 1)"
    "\<And>x. ?e < x \<Longrightarrow> pmem P1 x = pmem ?P x" "pj P1 = (case ?tg of None \<Rightarrow> pj ?P | Some _ \<Rightarrow> min (length (ip_text q)) 8)"
    by (rule parse_line_ok [where idx_tab = idx_tab, OF src ok refl e(3) fam b j n idx]) (rule that)
  let ?fam = "case ?tg of None \<Rightarrow> fam | Some k \<Rightarrow> fam(k := fam k @ [(i, pushed (q, w))])"
  have "text_at (pmem P1) (?e + 1) (segment ls @ tail) = text_at (pmem P) (?e + 1) (segment ls @ tail)"
    by (rule text_at_cong) (use P1(3) in simp)
  then have t1: "text_at (pmem P1) (?e + 1) (segment ls @ tail)" using t(3) by simp
  have "length (ip_text q) = 7 \<or> length (ip_text (fst l')) \<noteq> 7" if "l' \<in> set ls" for l'
    using Cons.prems(5) that by (auto simp: short_first_def l)
  then have j1: "\<forall>l' \<in> set ls. pj P1 \<le> length (ip_text (fst l'))"
    using P1(4) Cons.prems(6) ip_text_length by (fastforce split: option.splits)
  have sf: "short_first ls" using Cons.prems(5) by (simp add: short_first_def)
  have tg: "target n idx_tab (ptab P1) q' = target n idx_tab (ptab P) q'" for q'
    using target_cong [OF parse_line_tab [OF P1(1)]] by simp
  from Cons.IH [OF t1 len _ P1(2) sf j1] Cons.prems(3) obtain P' fam' where
    P': "parse_lines b n idx_tab got (?e + 1) P1 = Some P'" "families b (pmem P') (ptab P') fam' got"
    and texts: "\<And>k. map snd (fam' k) = map snd (?fam k) @ map pushed (filter (\<lambda>l. target n idx_tab (ptab P1) (fst l) = Some k) ls)"
    by auto
  have "parse_lines b n idx_tab got i P = Some P'" using parse_lines_next [OF e(1) le] e(2) P1(1) P'(1) by simp
  moreover have "map snd (fam' k) = map snd (fam k)
      @ map pushed (filter (\<lambda>l. target n idx_tab (ptab P) (fst l) = Some k) (l # ls))" for k
    using texts [of k] by (auto simp: tg l split: option.split)
  ultimately show ?case using P'(2) by blast
qed

section \<open>Sending the chains\<close>

definition full_replies :: "string list \<Rightarrow> int list" where
  "full_replies ws = map (\<lambda>w. int (length w) + 1) ws"

definition reply_text :: "string list \<Rightarrow> string" where
  "reply_text ws = concat (map (\<lambda>w. w @ [CHR 0x0A]) ws)"

lemma spaced_Cons:
  "spaced ((a, w) # L) \<longleftrightarrow> spaced L \<and> (\<forall>(a', w') \<in> set L. a + 8 + length w < a')"
  by (auto simp: spaced_def)

lemma send_held:
  assumes b: "0 < b"
  shows "held b m q L \<Longrightarrow> spaced L \<Longrightarrow>
    \<exists>m' n'. send_chain b (full_replies (map snd L)) m q n sent
        = Some (m', False, n', sent @ reply_text (map snd L)) \<and> (\<forall>x. x \<notin> cells L \<longrightarrow> m' x = m x)"
proof (induction L arbitrary: m q n sent)
  case Nil
  then show ?case by (simp add: held_def send_chain.simps reply_text_def full_replies_def)
next
  case (Cons aw L)
  obtain a w where aw: "aw = (a, w)" by (cases aw)
  let ?m = "m(a + 8 + length w := CHR 0x0A)"
  have h: "q = b + a" "a + 8 \<le> INPUT_BUF_SIZE" "chain b m (load_ptr m a) (map fst L)"
    "text_at m (a + 8) (w @ [CHR 0x00])" "CHR 0x00 \<notin> set w" "a + 8 + length w < INPUT_BUF_SIZE"
    using Cons.prems(1) by (simp_all add: held_def aw)
  have str: "mem_str m (a + 8) = Some w" by (rule mem_str_text) (use h in simp_all)
  have "held b m (load_ptr m a) L" using Cons.prems(1) by (simp add: held_def aw)
  moreover have "?m x = m x" if "x \<in> cells L" for x
    using that Cons.prems(2) by (fastforce simp: aw spaced_Cons cells_def)
  ultimately have "held b ?m (load_ptr m a) L" using held_cong [of L ?m m] by simp
  moreover have "spaced L" using Cons.prems(2) by (simp add: aw spaced_Cons)
  ultimately obtain m' n' where IH:
    "send_chain b (full_replies (map snd L)) ?m (load_ptr m a) (n + (int (length w) + 1)) (sent @ w @ [CHR 0x0A])
      = Some (m', False, n', (sent @ w @ [CHR 0x0A]) @ reply_text (map snd L))" "\<forall>x. x \<notin> cells L \<longrightarrow> m' x = ?m x"
    using Cons.IH by blast
  have ld: "load_ptr ?m a = load_ptr m a" by (rule load_cong) simp
  have tk: "take (nat (int (length w) + 1)) (w @ [CHR 0x0A]) = w @ [CHR 0x0A]" by simp
  have "send_chain b (full_replies (map snd (aw # L))) m q n sent
      = Some (m', False, n', sent @ reply_text (map snd (aw # L)))"
    using IH(1) b h(1) ld tk
    by (subst send_chain.simps) (simp add: full_replies_def reply_text_def aw ptr_off_chain [OF h(2)] str Let_def del: fun_upd_apply)
  moreover have "\<forall>x. x \<notin> cells (aw # L) \<longrightarrow> m' x = m x" using IH(2) by (simp add: aw)
  ultimately show ?case by blast
qed

definition all_live :: "ci_server \<Rightarrow> bool" where
  "all_live S \<longleftrightarrow> (\<forall>t i s. islots S t i = Some s \<longrightarrow> \<not> ci_scan_dead (icfg S) (igstats S) s \<and> ito_be_free s \<noteq> 1)"

lemma scan_slot_send:
  assumes fam: "families b (global_input_buf S) (islots S) fam i" and live: "all_live S" and b: "0 < b"
    and s: "islots S t k = Some s" and rcs: "rcs = full_replies (map snd (fam (t, k)))"
  obtains S' where "ci_scan_slot b t k rcs (S, n) = Some ((S', n + 1), reply_text (map snd (fam (t, k))))"
    "families b (global_input_buf S') (islots S') (fam((t, k) := [])) i" "all_live S'"
    "\<And>u j. islots S' u j = None \<longleftrightarrow> islots S u j = None"
proof -
  note D = familiesD [OF fam]
  let ?g = "igstats S\<lparr>sessions_busy_loops := sessions_busy_loops (igstats S) + 1\<rparr>"
  have alive: "\<not> ci_scan_dead (icfg S) (igstats S) s" "ito_be_free s \<noteq> 1" using live s by (auto simp: all_live_def)
  have held: "held b (global_input_buf S) (reply_data s) (fam (t, k))" by (rule D(1) [OF s])
  have geo: "spaced ((fam((t, k) := [])) x)" "cells ((fam((t, k) := [])) x) \<subseteq> {..<i}"
    "x \<noteq> y \<Longrightarrow> cells ((fam((t, k) := [])) x) \<inter> cells ((fam((t, k) := [])) y) = {}" for x y
    using D(2,3) D(4) [of x y] by (auto simp: spaced_def)
  show ?thesis
  proof (cases "reply_data s = 0")
    case True
    then have none: "fam (t, k) = []" using held b by (cases "fam (t, k)") (auto simp: held_def)
    then have "fam((t, k) := []) = fam" by (metis fun_upd_triv)
    then show ?thesis
      using that [of "S\<lparr>igstats := ?g\<rparr>"] fam live alive True s none
      by (simp add: ci_scan_slot_def ci_reply_def reply_text_def all_live_def ci_scan_dead_def Let_def)
  next
    case False
    from send_held [OF b held D(2), of 0 "[]"] rcs obtain m' n' where send:
      "send_chain b rcs (global_input_buf S) (reply_data s) 0 [] = Some (m', False, n', reply_text (map snd (fam (t, k))))"
      "\<forall>x. x \<notin> cells (fam (t, k)) \<longrightarrow> m' x = global_input_buf S x" by auto
    let ?s = "s\<lparr>reply_data := 0, could_write := -1, reply_len := 0\<rparr>"
    let ?g' = "?g\<lparr>net_out_bytes := (net_out_bytes ?g)(t := net_out_bytes ?g t + of_int n')\<rparr>"
    let ?S = "S\<lparr>igstats := ?g', islots := (islots S)(t := (islots S t)(k \<mapsto> ?s)), global_input_buf := m'\<rparr>"
    have "ci_scan_slot b t k rcs (S, n) = Some ((?S, n + 1), reply_text (map snd (fam (t, k))))"
      using alive s send(1) False by (simp add: ci_scan_slot_def ci_reply_def Let_def)
    moreover have "families b (global_input_buf ?S) (islots ?S) (fam((t, k) := [])) i"
      unfolding families_def
    proof (intro conjI allI impI)
      fix u j x assume x: "islots ?S u j = Some x"
      show "held b (global_input_buf ?S) (reply_data x) ((fam((t, k) := [])) (u, j))"
      proof (cases "(u, j) = (t, k)")
        case True
        then show ?thesis using x by (auto simp: held_def)
      next
        case False
        then have "held b (global_input_buf S) (reply_data x) (fam (u, j))" using x D(1) by (auto split: if_splits)
        moreover have "held b m' (reply_data x) (fam (u, j)) = held b (global_input_buf S) (reply_data x) (fam (u, j))"
          by (rule held_cong) (use send(2) D(4) [OF False] in blast)
        ultimately show ?thesis using False by auto
      qed
    qed (use geo in auto)
    moreover have "all_live ?S" using live s by (auto simp: all_live_def ci_scan_dead_def)
    ultimately show ?thesis using that [of ?S] s by simp
  qed
qed

lemma scan_slots_send:
  assumes b: "0 < b"
  shows "families b (global_input_buf S) (islots S) fam i \<Longrightarrow> all_live S \<Longrightarrow> distinct ps \<Longrightarrow>
    (\<And>t k. (t, k) \<in> set ps \<Longrightarrow> ws t k = full_replies (map snd (fam (t, k)))) \<Longrightarrow>
    \<exists>S' n' out'. ci_scan_slots b ps ws (S, n) out = Some ((S', n'), out')
      \<and> (\<forall>t k. out' (t, k) = out (t, k) @
          (if (t, k) \<in> set ps \<and> islots S t k \<noteq> None then reply_text (map snd (fam (t, k))) else []))"
proof (induction ps arbitrary: S n out fam)
  case (Cons p ps)
  obtain t k where p: "p = (t, k)" by fastforce
  have notin: "(t, k) \<notin> set ps" using Cons.prems(3) by (simp add: p)
  show ?case
  proof (cases "islots S t k")
    case None
    have "ci_scan_slot b t k (ws t k) (S, n) = Some ((S, n), [])" using None by (simp add: ci_scan_slot_def)
    moreover obtain S' n' out' where "ci_scan_slots b ps ws (S, n) out = Some ((S', n'), out')"
      "\<forall>u j. out' (u, j) = out (u, j) @
          (if (u, j) \<in> set ps \<and> islots S u j \<noteq> None then reply_text (map snd (fam (u, j))) else [])"
      using Cons.IH [OF Cons.prems(1,2), of n out] Cons.prems(3,4) by (auto simp: p)
    ultimately show ?thesis using None notin by (auto simp: p)
  next
    case (Some s)
    have "ws t k = full_replies (map snd (fam (t, k)))" using Cons.prems(4) by (simp add: p)
    from scan_slot_send [OF Cons.prems(1,2) b Some this] obtain S1 where
      S1: "ci_scan_slot b t k (ws t k) (S, n) = Some ((S1, n + 1), reply_text (map snd (fam (t, k))))"
        "families b (global_input_buf S1) (islots S1) (fam((t, k) := [])) i" "all_live S1"
        "\<And>u j. islots S1 u j = None \<longleftrightarrow> islots S u j = None" by blast
    let ?out = "out((t, k) := out (t, k) @ reply_text (map snd (fam (t, k))))"
    have ws: "ws u j = full_replies (map snd ((fam((t, k) := [])) (u, j)))" if "(u, j) \<in> set ps" for u j
      using Cons.prems(4) [of u j] notin that by (auto simp: p)
    have d: "distinct ps" using Cons.prems(3) by simp
    from Cons.IH [OF S1(2,3) d ws, of "n + 1" ?out] obtain S' n' out' where R: "ci_scan_slots b ps ws (S1, n + 1) ?out = Some ((S', n'), out')"
      "\<forall>u j. out' (u, j) = ?out (u, j) @
          (if (u, j) \<in> set ps \<and> islots S1 u j \<noteq> None then reply_text (map snd ((fam((t, k) := [])) (u, j))) else [])"
      by blast
    have "out' (u, j) = out (u, j) @
        (if (u, j) \<in> set (p # ps) \<and> islots S u j \<noteq> None then reply_text (map snd (fam (u, j))) else [])" for u j
      using R(2) S1(4) [of u j] notin Some by (cases "(u, j) = (t, k)") (auto simp: p)
    then show ?thesis using S1(1) R(1) by (auto simp: p)
  qed
qed simp

lemma distinct_all_slots: "distinct (all_slots n)"
  by (simp add: all_slots_def distinct_product)

lemma table_slot_scanned: "ci_table_ok S \<Longrightarrow> islots S t k \<noteq> None \<Longrightarrow> (t, k) \<in> set (all_slots (cs_nWorkers (icfg S)))"
  using ci_table_okD by (fastforce simp: all_slots_def zless_nat_eq_int_zless)

text \<open>The lines of a segment that the code looks up in one slot.\<close>

definition lines_for ::
  "ci_server \<Rightarrow> ((nat \<times> nat \<times> nat \<times> nat) \<times> string) list \<Rightarrow> nat \<Rightarrow> nat \<Rightarrow> string list" where
  "lines_for S ls t k =
     map pushed (filter (\<lambda>l. target (cs_nWorkers (icfg S)) (iip_to_slot_idx S) (islots S) (fst l) = Some (t, k)) ls)"

lemma segment_delivered:
  assumes b: "0 < b" "b + INPUT_BUF_SIZE \<le> 2 ^ 64"
    and S: "(ci_step b)\<^sup>*\<^sup>* (ci_init_server c date) S" "0 < cs_nWorkers c" "all_live S"
    and ls: "\<forall>l \<in> set ls. input_line_ok l" "short_first ls"
    and tail: "CHR 0x0A \<notin> set tail" "CHR 0x00 \<notin> set tail" "length (segment ls @ tail) \<le> INPUT_BUF_SIZE"
    and ws: "\<And>t k. ws t k = full_replies (lines_for S ls t k)"
  shows "\<exists>S' n' out. ci_scan_round b ws (input_read (segment ls @ tail) S, n) = Some ((S', n'), out)
    \<and> consume_not_done S' = 0
    \<and> (\<forall>t k. islots S t k \<noteq> None \<longrightarrow> out (t, k) = reply_text (lines_for S ls t k))"
proof -
  have inv: "ci_inv S" using S(1) by (rule input_server.reachable_inv) (use S(2) in blast)
  let ?data = "segment ls @ tail" and ?n = "cs_nWorkers (icfg S)"
  define R where "R = (input_read ?data S)\<lparr>igstats := (igstats S)\<lparr>cs_snapshot_session_alive := n\<rparr>\<rparr>"
  have R: "islots R = islots S" "icfg R = icfg S" "iip_to_slot_idx R = iip_to_slot_idx S" "consume_not_done R = ?n"
    "global_input_buf_bytes_got R = length ?data" "text_at (global_input_buf R) 0 ?data"
    by (simp_all add: R_def input_read_def text_at_def)
  have n: "0 < ?n" using inv by (simp add: ci_inv_def ci_table_ok_def)
  let ?P = "\<lparr>pj = 0, pmem = global_input_buf R, ptab = islots R\<rparr>"
  have "families b (pmem ?P) (ptab ?P) (\<lambda>_. []) 0"
    using inv by (auto simp: families_def held_def spaced_def ci_inv_def idle_slot_def R)
  from parse_lines_ok [OF b n _ tail(1,2) tail(3), of "iip_to_slot_idx R" ?P 0 ls "\<lambda>_. []"] this inv ls R(6)
  obtain P' fam where P': "parse_lines b ?n (iip_to_slot_idx R) (length ?data) 0 ?P = Some P'"
    "families b (pmem P') (ptab P') fam (length ?data)" "\<And>t k. map snd (fam (t, k)) = lines_for S ls t k"
    by (auto simp: ci_inv_def idx_tab_ok_def lines_for_def R)
  define R1 where "R1 = R\<lparr>global_input_buf := pmem P', islots := ptab P'\<rparr>"
  have parse: "parse_input_conf b R = Some (1, R1)"
    using P'(1) n by (simp add: parse_input_conf_def R R1_def)
  have like: "tab_like (islots S) (islots R1)" using parse_lines_tab [OF P'(1)] by (simp add: R R1_def)
  have live: "all_live R1"
    unfolding all_live_def
  proof (intro allI impI)
    fix t k s' assume "islots R1 t k = Some s'"
    with like obtain s where s: "islots S t k = Some s" "s'\<lparr>reply_data := 0\<rparr> = s\<lparr>reply_data := 0\<rparr>" by (rule tab_like_Some)
    then have "ito_be_free s' = ito_be_free s" "ilast_alive_tick s' = ilast_alive_tick s"
      by (metis ci_session.ext_inject ci_session.surjective ci_session.update_convs(9))+
    then show "\<not> ci_scan_dead (icfg R1) (igstats R1) s' \<and> ito_be_free s' \<noteq> 1"
      using S(3) s(1) by (simp add: all_live_def ci_scan_dead_def R1_def R) (simp add: R_def)
  qed
  have F: "families b (global_input_buf R1) (islots R1) fam (length ?data)" using P'(2) by (simp add: R1_def)
  have W: "ws t k = full_replies (map snd (fam (t, k)))" for t k by (simp add: ws P'(3))
  from scan_slots_send [OF b(1) F live distinct_all_slots W, of ?n 0 "\<lambda>_. []"]
  obtain S2 n2 out where scan: "ci_scan_slots b (all_slots ?n) ws (R1, 0) (\<lambda>_. []) = Some ((S2, n2), out)"
    "\<And>t k. out (t, k) = (if (t, k) \<in> set (all_slots ?n) \<and> islots R1 t k \<noteq> None then reply_text (lines_for S ls t k) else [])"
    unfolding P'(3) append_Nil by blast
  have "ci_scan_round b ws (input_read ?data S, n) = Some ((S2\<lparr>consume_not_done := 0\<rparr>, n2), out)"
  proof -
    have "(input_read ?data S)\<lparr>igstats := (igstats (input_read ?data S))\<lparr>cs_snapshot_session_alive := n\<rparr>\<rparr> = R"
      by (simp add: R_def input_read_def)
    moreover have "icfg R1 = icfg S" by (simp add: R1_def R)
    ultimately show ?thesis by (simp add: ci_scan_round_def parse scan(1))
  qed
  moreover have "out (t, k) = reply_text (lines_for S ls t k)" if "islots S t k \<noteq> None" for t k
    using scan(2) [of t k] that table_slot_scanned [of S t k] tab_like_dom [OF like, of t k] inv by (simp add: ci_inv_def)
  ultimately show ?thesis by (intro exI [of _ "S2\<lparr>consume_not_done := 0\<rparr>"] exI [of _ n2] exI [of _ out]) simp
qed

section \<open>Which client a line is for\<close>

definition quad_addr :: "nat \<times> nat \<times> nat \<times> nat \<Rightarrow> u32" where
  "quad_addr = (\<lambda>(t0, t1, t2, t3). of_nat (t0 * 2 ^ 24 + t1 * 2 ^ 16 + t2 * 256 + t3))"

lemma quad_addr_bits:
  assumes "t0 < 256" "t1 < 256" "t2 < 256" "t3 < 256"
  shows "uint (quad_addr (t0, t1, t2, t3) AND 0xFF) = int t3"
    "uint (quad_addr (t0, t1, t2, t3) AND 0x00FFFFFF) = int (t1 * 2 ^ 16 + t2 * 256 + t3)"
proof -
  let ?x = "t0 * 2 ^ 24 + t1 * 2 ^ 16 + t2 * 256 + t3"
  have u: "uint (quad_addr (t0, t1, t2, t3)) = int ?x"
  proof -
    have "?x < 2 ^ 32" using assms by simp
    moreover have "unat (of_nat x :: u32) = x" if "x < 2 ^ 32" for x
      using that by (subst unat_of_nat) simp
    ultimately have "unat (of_nat ?x :: u32) = ?x" by blast
    then show ?thesis by (simp only: quad_addr_def prod.case uint_nat)
  qed
  have m: "uint (w AND 0xFF) = uint w mod 256" "uint (w AND 0x00FFFFFF) = uint w mod 2 ^ 24" for w :: u32
  proof -
    have "uint w AND mask k = uint w mod 2 ^ k" for k
      by (simp only: take_bit_eq_mask [symmetric] take_bit_eq_mod)
    from this [of 8] this [of 24]
    show "uint (w AND 0xFF) = uint w mod 256" "uint (w AND 0x00FFFFFF) = uint w mod 2 ^ 24"
      by (simp_all add: uint_and mask_eq_exp_minus_1)
  qed
  show "uint (quad_addr (t0, t1, t2, t3) AND 0xFF) = int t3"
  proof -
    have "?x = t3 + 256 * (t0 * 2 ^ 16 + t1 * 256 + t2)" by simp
    then have "?x mod 256 = t3" using assms(4) by (simp only: mod_mult_self2 mod_less)
    then show ?thesis unfolding m u using zmod_int [of ?x 256] by simp
  qed
  show "uint (quad_addr (t0, t1, t2, t3) AND 0x00FFFFFF) = int (t1 * 2 ^ 16 + t2 * 256 + t3)"
  proof -
    let ?y = "t1 * 2 ^ 16 + t2 * 256 + t3"
    have "?x = ?y + 2 ^ 24 * t0" "?y < 2 ^ 24" using assms by simp_all
    then have "?x mod 2 ^ 24 = ?y" by (simp only: mod_mult_self2 mod_less)
    moreover have "int ?x mod 2 ^ 24 = int (?x mod 2 ^ 24)" by (simp only: zmod_int of_nat_power of_nat_numeral)
    ultimately show ?thesis unfolding m u by (simp only:)
  qed
qed

text \<open>
  An accepted client is found again by its address when the number of threads divides
  256: \<open>accept_client\<close> takes the last byte modulo \<open>nWorkers\<close>, the parser all of \<open>ipv4\<close>.
\<close>

lemma accepted_slot:
  assumes S: "ci_table_ok S" and q: "quad_ok (t0, t1, t2, t3)"
    and acc: "ci_accept_client sfd (quad_addr (t0, t1, t2, t3)) c rc S = Some (r, S')" "r \<noteq> -1"
  obtains k s where "S' = S\<lparr>islots := (islots S)(t3 mod nat (cs_nWorkers (icfg S)) :=
      (islots S (t3 mod nat (cs_nWorkers (icfg S))))(k \<mapsto> s)),
      icurr_nr_conn := (icurr_nr_conn S)(t3 mod nat (cs_nWorkers (icfg S)) :=
        icurr_nr_conn S (t3 mod nat (cs_nWorkers (icfg S))) + 1),
      iip_to_slot_idx := (iip_to_slot_idx S)(int (t1 * 2 ^ 16 + t2 * 256 + t3) := int k)\<rparr>"
    "iip s = quad_addr (t0, t1, t2, t3)" "reply_data s = 0" "k < MAX_CONN_PER_THREAD"
    "islots S (t3 mod nat (cs_nWorkers (icfg S))) k = None"
proof -
  let ?q = "(t0, t1, t2, t3)" and ?n = "cs_nWorkers (icfg S)"
  have lt: "t0 < 256" "t1 < 256" "t2 < 256" "t3 < 256" using q by (simp_all add: quad_ok_def)
  note bits = quad_addr_bits [OF lt]
  have n: "0 < ?n" using S by (simp add: ci_table_ok_def)
  have t: "nat (c_mod (uint (quad_addr ?q AND 0xFF)) ?n) = t3 mod nat ?n"
    using n by (simp add: bits(1) c_mod_nonneg nat_mod_distrib)
  have c: "c" "sfd \<noteq> -1" using acc by (auto simp: ci_accept_client_def ci_get_new_session_def Let_def split: if_splits)
  define s where "s = \<lparr>iip = quad_addr ?q, ito_be_free = 0, ievents = EPOLL_IN OR EPOLL_OUT OR EPOLL_ET, isocket_fd = sfd,
    ithreadidx = t3 mod nat ?n, islot_idx = -1, could_write = -1, reply_len = -1, reply_data = 0,
    istart_ticks = cs_ticks (igstats S), ilast_alive_tick = cs_ticks (igstats S)\<rparr>"
  let ?k = "get_free_conn_slot (islots S (t3 mod nat ?n))"
  have s: "ci_get_new_session c (cs_ticks (igstats S)) (quad_addr ?q) (EPOLL_IN OR EPOLL_OUT OR EPOLL_ET) sfd
      (t3 mod nat ?n) = Some s"
    using c by (simp add: ci_get_new_session_def s_def)
  note acc' = acc(1) [unfolded ci_accept_client_def Let_def t s option.case if_not_P [OF c(2)]]
  have k: "rc \<noteq> -1 \<and> \<not> ?k < 0"
    using acc' acc(2) by (cases "rc \<noteq> -1 \<and> \<not> ?k < 0") auto
  then have S': "S' = S\<lparr>islots := (islots S)(t3 mod nat ?n := (islots S (t3 mod nat ?n))(nat ?k \<mapsto> s\<lparr>islot_idx := ?k\<rparr>)),
      icurr_nr_conn := (icurr_nr_conn S)(t3 mod nat ?n := icurr_nr_conn S (t3 mod nat ?n) + 1),
      iip_to_slot_idx := (iip_to_slot_idx S)(int (t1 * 2 ^ 16 + t2 * 256 + t3) := int (nat ?k))\<rparr>"
    using acc' by (auto simp: set_slot_idx_def bits(2) Let_def split: if_splits simp del: fun_upd_apply)
  have "nat ?k < MAX_CONN_PER_THREAD" "islots S (t3 mod nat ?n) (nat ?k) = None"
    using get_free_conn_slot_spec [OF refl, of "islots S (t3 mod nat ?n)"] k by auto
  then show ?thesis using that [OF S'] by (simp add: s_def)
qed

theorem accepted_client_is_target:
  assumes "ci_table_ok S" "cs_nWorkers (icfg S) dvd 256" "quad_ok q"
    and "ci_accept_client sfd (quad_addr q) c rc S = Some (r, S')" "r \<noteq> -1"
  shows "\<exists>t k s. target (cs_nWorkers (icfg S)) (iip_to_slot_idx S') (islots S') q = Some (t, k)
    \<and> islots S' t k = Some s \<and> iip s = quad_addr q"
proof -
  obtain t0 t1 t2 t3 where q: "q = (t0, t1, t2, t3)" by (cases q)
  let ?n = "cs_nWorkers (icfg S)"
  have n: "0 < ?n" using assms(1) by (simp add: ci_table_ok_def)
  have quad: "quad_ok (t0, t1, t2, t3)" using assms(3) by (simp add: q)
  obtain k s where S': "S' = S\<lparr>islots := (islots S)(t3 mod nat ?n := (islots S (t3 mod nat ?n))(k \<mapsto> s)),
      icurr_nr_conn := (icurr_nr_conn S)(t3 mod nat ?n := icurr_nr_conn S (t3 mod nat ?n) + 1),
      iip_to_slot_idx := (iip_to_slot_idx S)(int (t1 * 2 ^ 16 + t2 * 256 + t3) := int k)\<rparr>"
    "iip s = quad_addr (t0, t1, t2, t3)"
    by (rule accepted_slot [OF assms(1) quad assms(4) [unfolded q] assms(5)]) blast
  obtain m where m: "256 = ?n * m" using assms(2) unfolding dvd_def by auto
  have "int (t0 * 2 ^ 24 + t1 * 2 ^ 16 + t2 * 256 + t3) = ?n * (m * int (t0 * 2 ^ 16 + t1 * 256 + t2)) + int t3"
    unfolding mult.assoc [symmetric] m [symmetric] by simp
  then have "int (t0 * 2 ^ 24 + t1 * 2 ^ 16 + t2 * 256 + t3) mod ?n = int t3 mod ?n" by simp
  then have "nat (c_mod (quad_ipv4 (quad_ints q)) ?n) = t3 mod nat ?n"
    using n by (simp only: q quad_values [OF quad] c_mod_nonneg of_nat_0_le_iff) (simp add: nat_mod_distrib)
  then have "target ?n (iip_to_slot_idx S') (islots S') q = Some (t3 mod nat ?n, k)"
    by (simp add: target_def S'(1) Let_def q quad_values(2) [OF quad])
  then show ?thesis using S'(2) by (simp add: S'(1) q)
qed

section \<open>Clients get the lines with their address\<close>

text \<open>
  The texts of the lines with the address \<open>a\<close>, and what a client is therefore to receive:
  its own address alone decides.
\<close>

definition lines_to :: "u32 \<Rightarrow> ((nat \<times> nat \<times> nat \<times> nat) \<times> string) list \<Rightarrow> string list" where
  "lines_to a ls = map pushed (filter (\<lambda>l. quad_addr (fst l) = a) ls)"

definition client_lines ::
  "ci_server \<Rightarrow> ((nat \<times> nat \<times> nat \<times> nat) \<times> string) list \<Rightarrow> nat \<Rightarrow> nat \<Rightarrow> string list" where
  "client_lines S ls t k = (case islots S t k of None \<Rightarrow> [] | Some s \<Rightarrow> lines_to (iip s) ls)"

text \<open>
  The tables for which the lookup agrees: the number of threads divides 256 (the parser
  takes the whole address modulo \<open>nWorkers\<close>, \<open>accept_client\<close> its last byte), every client
  sits in the thread of its last byte, and \<open>ip_to_slot_idx\<close>, which is indexed without the
  first byte, leads to its slot. \<open>addressed\<close>: each line is for a connected client, or its
  index has no slot.
\<close>

definition routed :: "ci_server \<Rightarrow> bool" where
  "routed S \<longleftrightarrow> cs_nWorkers (icfg S) dvd 256 \<and> (\<forall>t k s. islots S t k = Some s \<longrightarrow>
     int t = uint (iip s AND 0xFF) mod cs_nWorkers (icfg S)
     \<and> iip_to_slot_idx S (uint (iip s AND 0x00FFFFFF)) = int k)"

definition addressed :: "ci_server \<Rightarrow> ((nat \<times> nat \<times> nat \<times> nat) \<times> string) list \<Rightarrow> bool" where
  "addressed S ls \<longleftrightarrow> (\<forall>l \<in> set ls. (\<exists>t k s. islots S t k = Some s \<and> iip s = quad_addr (fst l))
     \<or> iip_to_slot_idx S (uint (quad_addr (fst l) AND 0x00FFFFFF)) < 0)"

lemma routedD:
  "routed S \<Longrightarrow> islots S t k = Some s \<Longrightarrow> int t = uint (iip s AND 0xFF) mod cs_nWorkers (icfg S)"
  "routed S \<Longrightarrow> islots S t k = Some s \<Longrightarrow> iip_to_slot_idx S (uint (iip s AND 0x00FFFFFF)) = int k"
  unfolding routed_def by blast+

lemma quad_thread:
  assumes "n dvd 256" "0 < n" "quad_ok q"
  shows "int (nat (c_mod (quad_ipv4 (quad_ints q)) n)) = uint (quad_addr q AND 0xFF) mod n"
    "quad_slot_idx (quad_ints q) = uint (quad_addr q AND 0x00FFFFFF)"
proof -
  obtain t0 t1 t2 t3 where q: "q = (t0, t1, t2, t3)" by (cases q)
  have quad: "quad_ok (t0, t1, t2, t3)" using assms(3) by (simp add: q)
  then have lt: "t0 < 256" "t1 < 256" "t2 < 256" "t3 < 256" by (simp_all add: quad_ok_def)
  note bits = quad_addr_bits [OF lt]
  show "quad_slot_idx (quad_ints q) = uint (quad_addr q AND 0x00FFFFFF)"
    unfolding q bits(2) by (rule quad_values(2) [OF quad])
  obtain m where m: "256 = n * m" using assms(1) unfolding dvd_def by auto
  have "int (t0 * 2 ^ 24 + t1 * 2 ^ 16 + t2 * 256 + t3) = n * (m * int (t0 * 2 ^ 16 + t1 * 256 + t2)) + int t3"
    unfolding mult.assoc [symmetric] m [symmetric] by simp
  then have e: "int (t0 * 2 ^ 24 + t1 * 2 ^ 16 + t2 * 256 + t3) mod n = int t3 mod n" by simp
  have "c_mod (quad_ipv4 (quad_ints q)) n = int t3 mod n"
    using assms(2) e by (simp only: q quad_values [OF quad] c_mod_nonneg of_nat_0_le_iff)
  then show "int (nat (c_mod (quad_ipv4 (quad_ints q)) n)) = uint (quad_addr q AND 0xFF) mod n"
    unfolding q bits(1) using assms(2) by simp
qed

lemma target_routed:
  assumes R: "routed S" "0 < cs_nWorkers (icfg S)" and q: "quad_ok q" and s: "islots S t k = Some s"
    and a: "(\<exists>t k s. islots S t k = Some s \<and> iip s = quad_addr q)
      \<or> iip_to_slot_idx S (uint (quad_addr q AND 0x00FFFFFF)) < 0"
  shows "target (cs_nWorkers (icfg S)) (iip_to_slot_idx S) (islots S) q = Some (t, k) \<longleftrightarrow> quad_addr q = iip s"
proof -
  let ?n = "cs_nWorkers (icfg S)"
  let ?u = "nat (c_mod (quad_ipv4 (quad_ints q)) ?n)" and ?i = "iip_to_slot_idx S (uint (quad_addr q AND 0x00FFFFFF))"
  have n: "?n dvd 256" using R(1) by (simp add: routed_def)
  note qt = quad_thread [OF n R(2) q]
  have found: "?u = u \<and> ?i = int j" if "islots S u j = Some v" "iip v = quad_addr q" for u j v
    using routedD [OF R(1) that(1)] qt(1) that(2) by (metis of_nat_eq_iff)
  have tg: "target ?n (iip_to_slot_idx S) (islots S) q
      = (if ?i < 0 \<or> islots S ?u (nat ?i) = None then None else Some (?u, nat ?i))"
    by (simp add: target_def qt(2) Let_def)
  show ?thesis
  proof
    assume "target ?n (iip_to_slot_idx S) (islots S) q = Some (t, k)"
    then have at: "?u = t" "nat ?i = k" "\<not> ?i < 0" using tg by (simp_all split: if_splits)
    then obtain u j v where v: "islots S u j = Some v" "iip v = quad_addr q" using a by blast
    then have "u = t" "j = k" using found [OF v] at by auto
    then show "quad_addr q = iip s" using v s by simp
  next
    assume "quad_addr q = iip s"
    then have "?u = t" "?i = int k" using found [OF s] by simp_all
    then show "target ?n (iip_to_slot_idx S) (islots S) q = Some (t, k)" using tg s by simp
  qed
qed

lemma lines_routed:
  assumes R: "routed S" "0 < cs_nWorkers (icfg S)" and ls: "\<forall>l \<in> set ls. quad_ok (fst l)" "addressed S ls"
  shows "lines_for S ls t k = client_lines S ls t k"
proof (cases "islots S t k")
  case None
  then have "target n idx (islots S) q \<noteq> Some (t, k)" for n idx q by (auto simp: target_def Let_def)
  then show ?thesis by (simp add: lines_for_def client_lines_def None)
next
  case (Some s)
  have "filter (\<lambda>l. target (cs_nWorkers (icfg S)) (iip_to_slot_idx S) (islots S) (fst l) = Some (t, k)) ls
      = filter (\<lambda>l. quad_addr (fst l) = iip s) ls"
    using target_routed [OF R _ Some] ls by (intro filter_cong) (auto simp: addressed_def)
  then show ?thesis by (simp add: lines_for_def client_lines_def lines_to_def Some)
qed

text \<open>
  A client that connects keeps the tables routed when no other client shares the last
  three bytes of its address.
\<close>

lemma accept_routed:
  assumes S: "ci_table_ok S" "routed S" and q: "quad_ok q"
    and acc: "ci_accept_client sfd (quad_addr q) c rc S = Some (r, S')" "r \<noteq> -1"
    and other: "\<And>t k s. islots S t k = Some s \<Longrightarrow> iip s AND 0x00FFFFFF \<noteq> quad_addr q AND 0x00FFFFFF"
  shows "routed S'"
proof -
  obtain t0 t1 t2 t3 where qe: "q = (t0, t1, t2, t3)" by (cases q)
  let ?n = "cs_nWorkers (icfg S)"
  have n: "0 < ?n" using S(1) by (simp add: ci_table_ok_def)
  have quad: "quad_ok (t0, t1, t2, t3)" using q by (simp add: qe)
  then have lt: "t0 < 256" "t1 < 256" "t2 < 256" "t3 < 256" by (simp_all add: quad_ok_def)
  note bits = quad_addr_bits [OF lt]
  obtain k s where S': "S' = S\<lparr>islots := (islots S)(t3 mod nat ?n := (islots S (t3 mod nat ?n))(k \<mapsto> s)),
      icurr_nr_conn := (icurr_nr_conn S)(t3 mod nat ?n := icurr_nr_conn S (t3 mod nat ?n) + 1),
      iip_to_slot_idx := (iip_to_slot_idx S)(int (t1 * 2 ^ 16 + t2 * 256 + t3) := int k)\<rparr>"
    "iip s = quad_addr (t0, t1, t2, t3)"
    by (rule accepted_slot [OF S(1) quad acc(1) [unfolded qe] acc(2)]) blast
  have "int (t3 mod nat ?n) = int t3 mod ?n" using n by (simp add: zmod_int)
  moreover have "uint (v AND 0x00FFFFFF) \<noteq> int (t1 * 2 ^ 16 + t2 * 256 + t3)"
    if "islots S t j = Some u" "v = iip u" for t j u v
    using other [OF that(1)] that(2) unfolding qe bits(2) [symmetric] that(2) by (simp only: word_uint_eq_iff not_False_eq_True)
  ultimately show ?thesis
    using routedD [OF S(2)] S(2) bits S'(2) unfolding routed_def S'(1) by (auto split: if_splits)
qed

text \<open>C19. After a segment of complete lines "address text" and an unfinished one has been
  read, one turn of the scan thread sends each connected client exactly the texts of
  the lines with its address, in order, each with as many blanks in front as the
  address has characters beyond 7, drops the unfinished line and lets the input thread
  go on. The conditions: nWorkers divides 256, every client sits in the thread of its
  last byte and ip_to_slot_idx leads from its address to its slot (routed; otherwise
  lines go to wrong clients, ConfInput.line_goes_to_wrong_client), every line is for a
  connected client or an address without slot, addresses have a first byte below 128
  and a second below 64, those of 7 characters come first, all sessions are live, each
  write is complete, there is no zero byte, and the segment fits the buffer of 8 MiB.\<close>

theorem segment_reaches_clients:
  assumes "0 < b" "b + INPUT_BUF_SIZE \<le> 2 ^ 64"
    and "(ci_step b)\<^sup>*\<^sup>* (ci_init_server c date) S" "0 < cs_nWorkers c" "all_live S" "routed S"
    and "\<forall>l \<in> set ls. input_line_ok l" "short_first ls" "addressed S ls"
    and "CHR 0x0A \<notin> set tail" "CHR 0x00 \<notin> set tail" "length (segment ls @ tail) \<le> INPUT_BUF_SIZE"
    and "\<And>t k. ws t k = full_replies (client_lines S ls t k)"
  shows "\<exists>S' n' out. ci_scan_round b ws (input_read (segment ls @ tail) S, n) = Some ((S', n'), out)
    \<and> consume_not_done S' = 0
    \<and> (\<forall>t k s. islots S t k = Some s \<longrightarrow> out (t, k) = reply_text (lines_to (iip s) ls))"
proof -
  have "ci_inv S" using assms(3) by (rule input_server.reachable_inv) (use assms(4) in blast)
  then have n: "0 < cs_nWorkers (icfg S)" by (simp add: ci_inv_def ci_table_ok_def)
  have "\<forall>l \<in> set ls. quad_ok (fst l)" using assms(7) by (auto simp: input_line_ok_def)
  note lines = lines_routed [OF assms(6) n this assms(9)]
  have ws: "ws t k = full_replies (lines_for S ls t k)" for t k using assms(13) lines by simp
  have cl: "client_lines S ls t k = lines_to (iip s) ls" if "islots S t k = Some s" for t k s
    using that by (simp add: client_lines_def)
  from segment_delivered [OF assms(1-5,7,8,10-12) ws, of n] show ?thesis
    unfolding lines using cl by (metis option.distinct(1))
qed

text \<open>The session of the first client of a thread.\<close>

definition first_client :: "int \<Rightarrow> nat \<Rightarrow> u32 \<Rightarrow> u64 \<Rightarrow> ci_session" where
  "first_client sfd t addr tk = \<lparr>iip = addr, ito_be_free = 0, ievents = EPOLL_IN OR EPOLL_OUT OR EPOLL_ET,
     isocket_fd = sfd, ithreadidx = t, islot_idx = 0, could_write = -1, reply_len = -1, reply_data = 0,
     istart_ticks = tk, ilast_alive_tick = tk\<rparr>"

lemma accept_first:
  assumes n: "0 < cs_nWorkers (icfg S)" and q: "quad_ok (t0, t1, t2, t3)" and t: "t = t3 mod nat (cs_nWorkers (icfg S))"
    and empty: "islots S t = (\<lambda>_. None)" and sfd: "sfd \<noteq> -1"
  shows "ci_accept_client sfd (quad_addr (t0, t1, t2, t3)) True 0 S = Some (sfd,
    S\<lparr>islots := (islots S)(t := (\<lambda>_. None)(0 \<mapsto> first_client sfd t (quad_addr (t0, t1, t2, t3)) (cs_ticks (igstats S)))),
      icurr_nr_conn := (icurr_nr_conn S)(t := icurr_nr_conn S t + 1),
      iip_to_slot_idx := (iip_to_slot_idx S)(int (t1 * 2 ^ 16 + t2 * 256 + t3) := 0)\<rparr>)"
proof -
  have lt: "t0 < 256" "t1 < 256" "t2 < 256" "t3 < 256" using q by (simp_all add: quad_ok_def)
  note bits = quad_addr_bits [OF lt]
  have t': "nat (c_mod (uint (quad_addr (t0, t1, t2, t3) AND 0xFF)) (cs_nWorkers (icfg S))) = t"
    using n by (simp add: bits(1) c_mod_nonneg nat_mod_distrib t)
  have "int (t1 * 2 ^ 16 + t2 * 256 + t3) < TOTAL_IPV4S" using quad_values(3) [OF q] by (simp add: TOTAL_IPV4S_def)
  then show ?thesis
    using sfd by (simp add: ci_accept_client_def t' Let_def ci_get_new_session_def empty free_slot_empty set_slot_idx_def
        bits(2) first_client_def)
qed

definition one_client :: "ci_server" where
  "one_client = (let S = ci_init_server \<lparr>cs_nWorkers = 1, cs_force_disconnect_seconds = 0\<rparr> ''d'' in
     S\<lparr>islots := (\<lambda>_ _. None)(0 := (\<lambda>_. None)(0 \<mapsto> first_client 7 0 (quad_addr (1, 2, 3, 4)) 0)),
       icurr_nr_conn := (\<lambda>_. 0)(0 := 1), iip_to_slot_idx := (\<lambda>_. -1)(0x020304 := 0)\<rparr>)"

lemma one_client_reached:
  "(ci_step b)\<^sup>*\<^sup>* (ci_init_server \<lparr>cs_nWorkers = 1, cs_force_disconnect_seconds = 0\<rparr> ''d'') one_client"
proof -
  let ?S = "ci_init_server \<lparr>cs_nWorkers = 1, cs_force_disconnect_seconds = 0\<rparr> ''d''"
  have "ci_accept_client 7 (quad_addr (1, 2, 3, 4)) True 0 ?S = Some (7, one_client)"
    using accept_first [of ?S 1 2 3 4 0 7]
    by (simp add: quad_ok_def ci_init_server_def one_client_def ci_init_gstat_def cs_init_gstat_def Let_def)
  then show ?thesis using ci_step.accept by (meson r_into_rtranclp)
qed

lemma one_client_live: "all_live one_client"
  by (simp add: all_live_def one_client_def ci_scan_dead_def first_client_def ci_init_server_def Let_def)

lemma dec_digit:
  "dec 0 = ''0''" "dec 1 = ''1''" "dec 2 = ''2''" "dec 3 = ''3''" "dec 4 = ''4''" "dec 5 = ''5''" "dec (Suc 0) = ''1''"
proof -
  have "char_of (48 :: nat) = CHR ''0''" "char_of (49 :: nat) = CHR ''1''" "char_of (50 :: nat) = CHR ''2''"
    "char_of (51 :: nat) = CHR ''3''" "char_of (52 :: nat) = CHR ''4''" "char_of (53 :: nat) = CHR ''5''"
    by code_simp+
  then show "dec 0 = ''0''" "dec 1 = ''1''" "dec 2 = ''2''" "dec 3 = ''3''" "dec 4 = ''4''" "dec 5 = ''5''" "dec (Suc 0) = ''1''"
    by (simp_all add: dec.simps)
qed

text \<open>The input "1.2.3.4 k v", and the start of a line that the read has cut off.\<close>

lemma one_client_facts:
  "islots one_client t k = (if (t, k) = (0, 0) then Some (first_client 7 0 (quad_addr (1, 2, 3, 4)) 0) else None)"
  "iip (first_client 7 0 (quad_addr (1, 2, 3, 4)) 0) = quad_addr (1, 2, 3, 4)" "icfg one_client = \<lparr>cs_nWorkers = 1, cs_force_disconnect_seconds = 0\<rparr>"
  "iip_to_slot_idx one_client (uint (quad_addr (1, 2, 3, 4) AND 0x00FFFFFF)) = 0"
proof -
  have "uint (quad_addr (1, 2, 3, 4) AND 0x00FFFFFF) = int (2 * 2 ^ 16 + 3 * 256 + 4)"
    by (rule quad_addr_bits(2)) simp_all
  then show "iip_to_slot_idx one_client (uint (quad_addr (1, 2, 3, 4) AND 0x00FFFFFF)) = 0"
    by (simp add: one_client_def Let_def)
qed (auto simp: one_client_def first_client_def ci_init_server_def Let_def)

lemma one_client_routed: "routed one_client" "addressed one_client [((1, 2, 3, 4), w)]"
  using one_client_facts by (auto simp: routed_def addressed_def split: if_splits simp del: One_nat_def)

lemma one_client_lines:
  "client_lines one_client [((1, 2, 3, 4), w)] t k = (if (t, k) = (0, 0) then [pushed ((1, 2, 3, 4), w)] else [])"
  by (simp add: client_lines_def one_client_facts lines_to_def del: One_nat_def)

theorem segment_reaches_clients_witness:
  "\<exists>S' n' out. ci_scan_round 1 (\<lambda>t k. if (t, k) = (0, 0) then [4] else []) (input_read (''1.2.3.4 k v'' @ [CHR 0x0A] @ ''1.2'') one_client, 0) = Some ((S', n'), out)
    \<and> out (0, 0) = ''k v'' @ [CHR 0x0A]"
proof -
  let ?ls = "[((1, 2, 3, 4), ''k v'')]"
  have seg: "segment ?ls = ''1.2.3.4 k v'' @ [CHR 0x0A]" by (simp add: segment_def input_line_def ip_text_def dec_digit)
  have p: "pushed ((1, 2, 3, 4), ''k v'') = ''k v''" by (simp add: pushed_def ip_text_def dec_digit)
  let ?ws = "\<lambda>t k. if (t, k) = (0, 0) then [4] else []"
  have ws: "?ws t k = full_replies (client_lines one_client ?ls t k)" for t k
    by (simp add: one_client_lines p full_replies_def del: One_nat_def)
  have "input_line_ok ((1, 2, 3, 4), ''k v'')" by (simp add: input_line_ok_def quad_ok_def)
  then have ok: "\<forall>l \<in> set ?ls. input_line_ok l" "short_first ?ls" by (simp_all add: short_first_def)
  have len: "length (segment ?ls @ ''1.2'') \<le> INPUT_BUF_SIZE" unfolding seg by (simp add: INPUT_BUF_SIZE_def)
  have b: "0 < (1 :: nat)" "1 + INPUT_BUF_SIZE \<le> 2 ^ 64" by (simp_all add: INPUT_BUF_SIZE_def)
  have cut: "CHR 0x0A \<notin> set ''1.2''" "CHR 0x00 \<notin> set ''1.2''" by simp_all
  from segment_reaches_clients [OF b one_client_reached _ one_client_live one_client_routed(1) ok one_client_routed(2) cut len ws, of 0]
  obtain S' n' out where R: "ci_scan_round 1 ?ws (input_read (segment ?ls @ ''1.2'') one_client, 0) = Some ((S', n'), out)"
    "\<forall>t k s. islots one_client t k = Some s \<longrightarrow> out (t, k) = reply_text (lines_to (iip s) ?ls)"
    by auto
  have "out (0, 0) = ''k v'' @ [CHR 0x0A]"
    using R(2) one_client_facts(1) [of 0 0] one_client_facts(2) p by (simp add: reply_text_def lines_to_def del: One_nat_def)
  then show ?thesis using R(1) unfolding seg append_assoc by blast
qed

section \<open>What goes wrong\<close>

text \<open>
  With three threads the line for 1.0.0.4 is looked up in thread 2, where slot 0 belongs
  to another client.
\<close>

definition two_clients :: "ci_server" where
  "two_clients = (let S = ci_init_server \<lparr>cs_nWorkers = 3, cs_force_disconnect_seconds = 0\<rparr> ''d'' in
     S\<lparr>islots := (\<lambda>_ _. None)(1 := (\<lambda>_. None)(0 \<mapsto> first_client 7 1 (quad_addr (1, 0, 0, 4)) 0),
         2 := (\<lambda>_. None)(0 \<mapsto> first_client 8 2 (quad_addr (1, 0, 0, 5)) 0)),
       icurr_nr_conn := (\<lambda>_. 0)(1 := 1, 2 := 1), iip_to_slot_idx := (\<lambda>_. -1)(4 := 0, 5 := 0)\<rparr>)"

lemma two_clients_reached:
  "(ci_step b)\<^sup>*\<^sup>* (ci_init_server \<lparr>cs_nWorkers = 3, cs_force_disconnect_seconds = 0\<rparr> ''d'') two_clients"
proof -
  let ?S = "ci_init_server \<lparr>cs_nWorkers = 3, cs_force_disconnect_seconds = 0\<rparr> ''d''"
  let ?S1 = "?S\<lparr>islots := (\<lambda>_ _. None)(1 := (\<lambda>_. None)(0 \<mapsto> first_client 7 1 (quad_addr (1, 0, 0, 4)) 0)),
    icurr_nr_conn := (\<lambda>_. 0)(1 := 1), iip_to_slot_idx := (\<lambda>_. -1)(4 := 0)\<rparr>"
  have "ci_accept_client 7 (quad_addr (1, 0, 0, 4)) True 0 ?S = Some (7, ?S1)"
    using accept_first [of ?S 1 0 0 4 1 7] by (simp add: quad_ok_def ci_init_server_def ci_init_gstat_def cs_init_gstat_def)
  moreover have "ci_accept_client 8 (quad_addr (1, 0, 0, 5)) True 0 ?S1 = Some (8, two_clients)"
    using accept_first [of ?S1 1 0 0 5 2 8]
    by (simp add: quad_ok_def ci_init_server_def ci_init_gstat_def cs_init_gstat_def two_clients_def Let_def)
  ultimately have "ci_step b ?S ?S1" "ci_step b ?S1 two_clients" using ci_step.accept by blast+
  then show ?thesis by (rule converse_rtranclp_into_rtranclp [OF _ r_into_rtranclp])
qed

theorem line_goes_to_wrong_client:
  "\<exists>S S' n' out s s'. (ci_step 1)\<^sup>*\<^sup>* (ci_init_server \<lparr>cs_nWorkers = 3, cs_force_disconnect_seconds = 0\<rparr> ''d'') S
    \<and> islots S 1 0 = Some s \<and> iip s = quad_addr (1, 0, 0, 4) \<and> islots S 2 0 = Some s' \<and> iip s' = quad_addr (1, 0, 0, 5)
    \<and> ci_scan_round 1 (\<lambda>t k. if (t, k) = (2, 0) then [4] else []) (input_read (''1.0.0.4 k v'' @ [CHR 0x0A]) S, 0)
        = Some ((S', n'), out)
    \<and> out (1, 0) = '''' \<and> out (2, 0) = ''k v'' @ [CHR 0x0A]"
proof -
  let ?ls = "[((1, 0, 0, 4), ''k v'')]"
  have seg: "segment ?ls @ '''' = ''1.0.0.4 k v'' @ [CHR 0x0A]" by (simp add: segment_def input_line_def ip_text_def dec_digit)
  have p: "pushed ((1, 0, 0, 4), ''k v'') = ''k v''" by (simp add: pushed_def ip_text_def dec_digit)
  have q: "quad_ok (1, 0, 0, 4)" by (simp add: quad_ok_def)
  have "target 3 (iip_to_slot_idx two_clients) (islots two_clients) (1, 0, 0, 4) = Some (2, 0)"
    using quad_values [OF q] by (simp add: target_def two_clients_def Let_def c_mod_nonneg)
  then have lines: "lines_for two_clients ?ls t k = (if (t, k) = (2, 0) then [''k v''] else [])" for t k
    using p by (auto simp: lines_for_def two_clients_def ci_init_server_def Let_def)
  let ?ws = "\<lambda>t k. if (t, k) = (2, 0) then [4] else []"
  have ws: "?ws t k = full_replies (lines_for two_clients ?ls t k)" for t k
    using lines [of t k] by (simp add: full_replies_def)
  have "input_line_ok ((1, 0, 0, 4), ''k v'')" by (simp add: input_line_ok_def quad_ok_def)
  then have ok: "\<forall>l \<in> set ?ls. input_line_ok l" "short_first ?ls" by (simp_all add: short_first_def)
  have len: "length (segment ?ls @ '''') \<le> INPUT_BUF_SIZE" unfolding seg by (simp add: INPUT_BUF_SIZE_def)
  have b: "0 < (1 :: nat)" "1 + INPUT_BUF_SIZE \<le> 2 ^ 64" by (simp_all add: INPUT_BUF_SIZE_def)
  have live: "all_live two_clients"
    by (auto simp: all_live_def two_clients_def ci_scan_dead_def first_client_def ci_init_server_def Let_def split: if_splits)
  have cut: "CHR 0x0A \<notin> set ''''" "CHR 0x00 \<notin> set ''''" by simp_all
  from segment_delivered [OF b two_clients_reached _ live ok cut len ws, of 0]
  obtain S' n' out where R: "ci_scan_round 1 ?ws (input_read (''1.0.0.4 k v'' @ [CHR 0x0A]) two_clients, 0) = Some ((S', n'), out)"
    "\<forall>t k. islots two_clients t k \<noteq> None \<longrightarrow> out (t, k) = reply_text (lines_for two_clients ?ls t k)"
    unfolding seg by auto
  define s where "s = first_client 7 1 (quad_addr (1, 0, 0, 4)) 0"
  define s' where "s' = first_client 8 2 (quad_addr (1, 0, 0, 5)) 0"
  have sl: "islots two_clients 1 0 = Some s" "islots two_clients 2 0 = Some s'"
    by (simp_all add: two_clients_def Let_def s_def s'_def)
  then have "out (1, 0) = ''''" "out (2, 0) = ''k v'' @ [CHR 0x0A]" using R(2) lines [of 1 0] lines [of 2 0]
    by (simp_all add: reply_text_def)
  moreover have "iip s = quad_addr (1, 0, 0, 4)" "iip s' = quad_addr (1, 0, 0, 5)" by (simp_all add: s_def s'_def first_client_def)
  ultimately show ?thesis using two_clients_reached sl R(1) by blast
qed

text \<open>The table of slots has a quarter of the entries that addresses can select.\<close>

theorem slot_table_overrun:
  assumes "sfd \<noteq> -1" "t0 < 256" "64 \<le> t1" "t1 < 256" "t2 < 256" "t3 < 256"
  shows "ci_accept_client sfd (quad_addr (t0, t1, t2, t3)) True rc S = None"
proof -
  have "TOTAL_IPV4S \<le> int (t1 * 2 ^ 16 + t2 * 256 + t3)" using assms(3) by (simp add: TOTAL_IPV4S_def)
  then have "set_slot_idx tab (quad_addr (t0, t1, t2, t3)) v = None" for tab v
    using quad_addr_bits(2) [of t0 t1 t2 t3] assms by (simp add: set_slot_idx_def)
  then show ?thesis
    using assms(1) by (simp add: ci_accept_client_def ci_get_new_session_def ci_free_session_step1_def Let_def)
qed

theorem slot_table_overrun_witness: "ci_accept_client 7 (quad_addr (10, 64, 0, 1)) True 0 one_client = None"
  by (rule slot_table_overrun) simp_all

text \<open>
  \<open>j\<close> keeps its value 8 after a line with a longer address, so the search for the end of
  a 7-character address starts behind it and finds the end of the first word.
\<close>

theorem short_address_loses_word:
  assumes src: "text_at (pmem P) l (ip_text q @ '' '' @ w1 @ '' '' @ w2 @ [CHR 0x00])" and q: "length (ip_text q) = 7"
    and w: "CHR '' '' \<notin> set w1" "CHR 0x00 \<notin> set w1" "CHR 0x00 \<notin> set w2"
    and size: "l + 9 + length w1 + length w2 < INPUT_BUF_SIZE" and s: "pj P = 8" "reply_data s = 0"
  shows "\<exists>P'. take_line b l t k s P = Some P' \<and> ptab P' t k = Some (s\<lparr>reply_data := b + l\<rparr>)
    \<and> mem_str (pmem P') (l + 8) = Some (replicate (length w1 + 1) (CHR '' '') @ w2)"
proof -
  let ?m = "pmem P" and ?j = "8 + length w1"
  have t: "text_at ?m (l + 8) w1" "?m (l + ?j) = CHR '' ''" "text_at ?m (l + ?j + 1) (w2 @ [CHR 0x00])"
    using src q by (simp_all add: algebra_simps)
  have skip: "skip_word ?m (l + pj P) = Some (l + ?j)"
    using skip_word_text [of ?m "l + 8" w1] t(1,2) w s(1) size by (simp add: add.assoc)
  define m1 where "m1 = store_ptr (blank_word ?m l ?j) l 0"
  have m1: "m1 x = (if l + 8 \<le> x \<and> x < l + ?j then CHR '' '' else ?m x)" if "l + 8 \<le> x" for x
    using that by (simp add: m1_def store_apply blank_apply)
  have blanks: "text_at m1 (l + 8) (replicate (length w1 + 1) (CHR '' ''))"
    unfolding replicate_text
  proof (intro allI impI)
    fix x assume "l + 8 \<le> x \<and> x < l + 8 + (length w1 + 1)"
    then show "m1 x = CHR '' ''" using m1 [of x] t(2) by (cases "x = l + ?j") auto
  qed
  have rest: "text_at m1 (l + ?j + 1) (w2 @ [CHR 0x00])"
  proof -
    have "text_at m1 (l + ?j + 1) (w2 @ [CHR 0x00]) = text_at ?m (l + ?j + 1) (w2 @ [CHR 0x00])"
      by (rule text_at_cong) (use m1 in simp)
    then show ?thesis using t(3) by simp
  qed
  have "mem_str m1 (l + 8) = Some (replicate (length w1 + 1) (CHR '' '') @ w2)"
  proof (rule mem_str_text)
    show "text_at m1 (l + 8) (replicate (length w1 + 1) (CHR '' '') @ w2)"
      using blanks rest by (simp add: algebra_simps del: replicate.simps)
    show "m1 (l + 8 + length (replicate (length w1 + 1) (CHR '' '') @ w2)) = CHR 0x00"
      using rest by (simp add: algebra_simps)
  qed (use w size in auto)
  moreover have "take_line b l t k s P
      = Some \<lparr>pj = 8, pmem = m1, ptab = (ptab P)(t := (ptab P t)(k \<mapsto> s\<lparr>reply_data := b + l\<rparr>))\<rparr>"
    using skip t(2) size s(2) by (simp add: take_line_def attach_line_def m1_def)
  ultimately show ?thesis by simp
qed

theorem short_address_loses_word_witness:
  "\<exists>P'. take_line 1 0 0 0 (first_client 7 0 0 0)
      \<lparr>pj = 8, pmem = (\<lambda>x. if x < 14 then (''1.2.3.4 key v'' @ [CHR 0x00]) ! x else CHR 0x00), ptab = (\<lambda>_ _. None)\<rparr> = Some P'
    \<and> mem_str (pmem P') 8 = Some ''    v''"
proof -
  let ?P = "\<lparr>pj = 8, pmem = (\<lambda>x. if x < 14 then (''1.2.3.4 key v'' @ [CHR 0x00]) ! x else CHR 0x00), ptab = (\<lambda>_ _. None :: ci_session option)\<rparr>"
  have "ip_text (1, 2, 3, 4) @ '' '' @ ''key'' @ '' '' @ ''v'' @ [CHR 0x00] = ''1.2.3.4 key v'' @ [CHR 0x00]"
    "length (ip_text (1, 2, 3, 4)) = 7" by (simp_all add: ip_text_def dec_digit)
  moreover have "text_at (pmem ?P) 0 (''1.2.3.4 key v'' @ [CHR 0x00])" by (simp add: text_at_def)
  ultimately have src: "text_at (pmem ?P) 0 (ip_text (1, 2, 3, 4) @ '' '' @ ''key'' @ '' '' @ ''v'' @ [CHR 0x00])"
    and q: "length (ip_text (1, 2, 3, 4)) = 7" by (simp_all only:)
  have "CHR '' '' \<notin> set ''key''" "CHR 0x00 \<notin> set ''key''" "CHR 0x00 \<notin> set ''v''" by simp_all
  from short_address_loses_word [OF src q this, of "first_client 7 0 0 0" 1 0 0]
  have "\<exists>P'. take_line 1 0 0 0 (first_client 7 0 0 0) ?P = Some P'
      \<and> mem_str (pmem P') (0 + 8) = Some (replicate (length ''key'' + 1) (CHR '' '') @ ''v'')"
    by (auto simp: INPUT_BUF_SIZE_def first_client_def)
  moreover have "replicate (length ''key'' + 1) (CHR '' '') @ ''v'' = ''    v''" by (simp add: numeral_eq_Suc)
  ultimately show ?thesis by (simp only: add_0)
qed

theorem accepted_client_is_target_witness:
  "\<exists>t k s. target 1 (iip_to_slot_idx one_client) (islots one_client) (1, 2, 3, 4) = Some (t, k)
    \<and> islots one_client t k = Some s \<and> iip s = quad_addr (1, 2, 3, 4)"
proof -
  let ?S = "ci_init_server \<lparr>cs_nWorkers = 1, cs_force_disconnect_seconds = 0\<rparr> ''d''"
  have acc: "ci_accept_client 7 (quad_addr (1, 2, 3, 4)) True 0 ?S = Some (7, one_client)"
    using accept_first [of ?S 1 2 3 4 0 7]
    by (simp add: quad_ok_def ci_init_server_def one_client_def ci_init_gstat_def cs_init_gstat_def Let_def)
  have "\<exists>c date. 0 < cs_nWorkers c \<and> ?S = ci_init_server c date"
    by (intro exI [of _ "\<lparr>cs_nWorkers = 1, cs_force_disconnect_seconds = 0\<rparr>"] exI [of _ "''d''"]) simp
  then have "ci_table_ok ?S" using input_server.start_inv by (auto simp: ci_inv_def)
  from accepted_client_is_target [OF this _ _ acc] show ?thesis by (simp add: ci_init_server_def quad_ok_def)
qed

theorem no_chain_between_rounds_witness:
  "\<exists>s. islots one_client 0 0 = Some s \<and> reply_data s = 0 \<and> ithreadidx s = 0 \<and> islot_idx s = 0"
proof -
  let ?s = "first_client 7 0 (quad_addr (1, 2, 3, 4)) 0"
  have "islots one_client 0 0 = Some ?s" by (simp add: one_client_def Let_def)
  with no_chain_between_rounds [OF _ one_client_reached this] show ?thesis by simp
qed

end
