(* ===== verification/Ping.thy ===== *)
theory Ping
  imports Prelude
begin

text \<open>
  src/batchping.c, src/liveping.c and src/sbping.c: three versions of a program that pings
  the hosts of a list. The checksum, the packets, the work list and the options have the
  same text in all three; they differ in how a reply finds its host (by its socket in
  batchping.c, by a number in the packet in the others) and in the main loop.

  A packet is a list of bytes and a read outside a buffer is \<open>None\<close>. What the network does
  with a packet, the results of \<open>send\<close> and the times are arguments.
\<close>

section \<open>The checksum\<close>

text \<open>Little-endian and network order of the machine's integers.\<close>

primrec le_bytes :: "nat \<Rightarrow> 'a::len word \<Rightarrow> bytes" where
  "le_bytes 0 w = []"
| "le_bytes (Suc n) w = ucast w # le_bytes n (drop_bit 8 w)"

primrec le_word :: "bytes \<Rightarrow> 'a::len word" where
  "le_word [] = 0"
| "le_word (b # bs) = ucast b + push_bit 8 (le_word bs)"

definition be16 :: "u16 \<Rightarrow> bytes" where
  "be16 w = [ucast (drop_bit 8 w), ucast w]"

text \<open>One turn of the loop of \<open>calc_csum\<close>.\<close>

definition csum_add :: "u32 \<Rightarrow> u32 \<Rightarrow> u32" where
  "csum_add csum w =
     (let csum = csum + w in
      if csum AND 0x10000 \<noteq> 0 then (csum AND 0xFFFF) + drop_bit 16 csum else csum)"

text \<open>The counter \<open>i\<close> is a \<open>uint16_t\<close>.\<close>

partial_function (option) csum_loop :: "bytes \<Rightarrow> nat \<Rightarrow> nat \<Rightarrow> u32 \<Rightarrow> u32 option" where
  "csum_loop buf buflen i csum =
     (if i < buflen then
        (case read_at i 2 buf of
           None \<Rightarrow> None
         | Some bs \<Rightarrow> csum_loop buf buflen ((i + 2) mod 65536) (csum_add csum (le_word bs)))
      else Some csum)"

lemma unat_halves:
  fixes c :: u32
  shows "unat (c AND 0xFFFF) = unat c mod 65536" "unat (drop_bit 16 c) = unat c div 65536"
proof -
  have "c AND 0xFFFF = take_bit 16 c" by (simp add: take_bit_eq_mask mask_eq_exp_minus_1)
  then have "unat (c AND 0xFFFF) = take_bit 16 (unat c)" by (simp only: unsigned_take_bit_eq)
  then show "unat (c AND 0xFFFF) = unat c mod 65536" by (simp add: take_bit_eq_mod)
  show "unat (drop_bit 16 c) = unat c div 65536"
    unfolding unat_drop_bit_eq by (simp only: drop_bit_eq_div) simp
qed

lemma unat_folded: "unat ((c AND 0xFFFF) + drop_bit 16 c) = unat c mod 65536 + unat c div 65536" for c :: u32
proof -
  have "unat c < 2 ^ 32" using unsigned_less [of c] by simp
  then have "unat c mod 65536 + unat c div 65536 < 2 ^ 32" by linarith
  then show ?thesis by (simp add: unat_halves unat_word_ariths)
qed

text \<open>\<open>while (csum >> 16) csum = (csum & 0xFFFF) + (csum >> 16)\<close>\<close>

function fold_carry :: "u32 \<Rightarrow> u32" where
  "fold_carry csum =
     (if drop_bit 16 csum \<noteq> 0 then fold_carry ((csum AND 0xFFFF) + drop_bit 16 csum) else csum)"
  by pat_completeness auto
termination
proof (relation "measure unat")
  fix c :: u32 assume "drop_bit 16 c \<noteq> 0"
  then have "unat (drop_bit 16 c) \<noteq> 0" using unat_eq_zero by blast
  then have "0 < unat c div 65536" by (simp only: unat_halves neq0_conv)
  then have "unat c mod 65536 + unat c div 65536 < unat c"
    using div_mult_mod_eq [of "unat c" 65536] by linarith
  then show "((c AND 0xFFFF) + drop_bit 16 c, c) \<in> measure unat" by (simp only: in_measure unat_folded)
qed simp

declare fold_carry.simps [simp del]

definition calc_csum :: "bytes \<Rightarrow> nat \<Rightarrow> u16 option" where
  "calc_csum buf buflen = map_option (\<lambda>csum. ucast (NOT (fold_carry csum))) (csum_loop buf buflen 0 0)"

section \<open>The checksum is the ones' complement sum\<close>

fun words16 :: "bytes \<Rightarrow> nat list" where
  "words16 (a # b # bs) = (unat a + 256 * unat b) # words16 bs"
| "words16 _ = []"

text \<open>The representative of a sum modulo 65535 that is zero only for zero.\<close>

definition ones_rep :: "nat \<Rightarrow> nat" where
  "ones_rep s = (if s = 0 then 0 else (s - 1) mod 65535 + 1)"

lemma ones_rep_bounds: "ones_rep s \<le> 65535"
proof -
  have "(s - 1) mod 65535 < 65535" by (rule mod_less_divisor) simp
  then show ?thesis unfolding ones_rep_def by (simp only: split: if_split) linarith
qed

lemma ones_rep_add:
  "ones_rep (s + w) = (if ones_rep s + w > 65535 then ones_rep s + w - 65535 else ones_rep s + w)" if "w \<le> 65535"
proof (cases "s = 0")
  case True
  then show ?thesis using that by (cases "w = 0"; cases "w = 65535") (auto simp: ones_rep_def)
next
  case False
  define r where "r = (s - Suc 0) mod 65535"
  have r: "r < 65535" by (simp add: r_def)
  have "(s + w - 1) mod 65535 = (r + w) mod 65535"
    using False by (simp add: r_def mod_add_left_eq)
  also have "\<dots> = (if r + w < 65535 then r + w else r + w - 65535)"
  proof (cases "r + w < 65535")
    case False
    then have "(r + w) mod 65535 = (r + w - 65535) mod 65535" by (simp add: le_mod_geq)
    moreover have "r + w - 65535 < 65535" using r that by linarith
    ultimately show ?thesis using False by simp
  qed simp
  finally show ?thesis using False r that by (auto simp: ones_rep_def r_def [symmetric])
qed

lemma csum_add_ones:
  assumes "unat c = ones_rep s" "unat w \<le> 65535"
  shows "unat (csum_add c w) = ones_rep (s + unat w)"
proof -
  let ?n = "ones_rep s + unat w"
  have n: "?n \<le> 131070" using ones_rep_bounds [of s] assms(2) by linarith
  then have u: "unat (c + w) = ?n" by (simp add: unat_word_ariths assms(1))
  have "(c + w) AND 0x10000 \<noteq> 0 \<longleftrightarrow> bit (c + w) 16"
  proof -
    have "(0x10000 :: u32) = 2 ^ 16" by simp
    then show ?thesis using and_exp_eq_0_iff_not_bit [of "c + w" 16] by simp
  qed
  also have "\<dots> \<longleftrightarrow> odd (unat (c + w) div 65536)"
    using bit_unsigned_iff [where 'a = nat, of "c + w" 16] by (simp add: bit_iff_odd [of "unat (c + w)"])
  also have "\<dots> \<longleftrightarrow> 65535 < ?n"
  proof -
    have "?n div 65536 = (if 65535 < ?n then 1 else 0)" using n by auto
    then show ?thesis unfolding u by simp
  qed
  finally have test: "(c + w) AND 0x10000 \<noteq> 0 \<longleftrightarrow> 65535 < ?n" .
  show ?thesis
  proof (cases "65535 < ?n")
    case True
    then have "unat (csum_add c w) = ?n mod 65536 + ?n div 65536"
      using test by (simp only: csum_add_def Let_def if_True unat_folded u)
    moreover have "?n div 65536 = 1" "?n mod 65536 = ?n - 65536" using True n by (auto simp: le_mod_geq)
    ultimately show ?thesis using True assms(2) by (simp add: ones_rep_add)
  next
    case False
    then have "unat (csum_add c w) = ?n" using test u by (simp add: csum_add_def)
    then show ?thesis using False assms(2) by (simp add: ones_rep_add)
  qed
qed

lemma le_word_2: "unat (le_word [a, b] :: u32) = unat a + 256 * unat b"
proof -
  have "unat a < 2 ^ 8" "unat b < 2 ^ 8" using unsigned_less [of a] unsigned_less [of b] by simp_all
  then have lt: "unat a < 256" "unat b < 256" by simp_all
  have u: "unat (ucast a :: u32) = unat a" "unat (ucast b :: u32) = unat b"
    by (simp_all add: unsigned_ucast_eq take_bit_nat_eq_self [OF less_trans [OF unsigned_less]])
  have "le_word [a, b] = (ucast a + 256 * ucast b :: u32)" by (simp add: push_bit_eq_mult)
  then show ?thesis using lt by (simp add: unat_word_ariths u)
qed

lemma words16_le: "w \<in> set (words16 bs) \<Longrightarrow> w \<le> 65535"
proof (induction bs rule: words16.induct)
  case (1 a b bs)
  have "unat a < 256" "unat b < 256" using unsigned_less [of a] unsigned_less [of b] by simp_all
  then show ?case using 1 by auto
qed simp_all

lemma csum_loop_sum:
  assumes "buflen \<le> length buf" "buflen < 65536" "even buflen"
  shows "even i \<Longrightarrow> i \<le> buflen \<Longrightarrow> unat c = ones_rep s \<Longrightarrow>
    \<exists>c'. csum_loop buf buflen i c = Some c' \<and> unat c' = ones_rep (s + sum_list (words16 (drop i (take buflen buf))))"
proof (induction "buflen - i" arbitrary: i c s rule: less_induct)
  case less
  show ?case
  proof (cases "i < buflen")
    case False
    then show ?thesis using less.prems by (subst csum_loop.simps) simp
  next
    case True
    then have i: "i + 2 \<le> buflen" using less.prems(1) assms(3) by presburger
    obtain a b where ab: "slice_at i 2 buf = [a, b]"
    proof -
      have "length (slice_at i 2 buf) = 2" using i assms(1) by simp
      then show ?thesis using that by (cases "slice_at i 2 buf"; cases "tl (slice_at i 2 buf)") auto
    qed
    have "drop i (take buflen buf) = take 2 (drop i (take buflen buf)) @ drop 2 (drop i (take buflen buf))"
      by (rule append_take_drop_id [symmetric])
    also have "take 2 (drop i (take buflen buf)) = slice_at i 2 buf"
      using i by (simp add: slice_at_def drop_take min_def)
    finally have d: "drop i (take buflen buf) = a # b # drop (i + 2) (take buflen buf)" by (simp add: ab)
    have w: "unat (le_word [a, b] :: u32) = unat a + 256 * unat b" by (rule le_word_2)
    moreover have "unat a + 256 * unat b \<le> 65535" using words16_le [of _ "[a, b]"] by simp
    ultimately have "unat (csum_add c (le_word [a, b])) = ones_rep (s + (unat a + 256 * unat b))"
      using csum_add_ones [of c s "le_word [a, b]"] less.prems(3) by simp
    then obtain c' where c': "csum_loop buf buflen (i + 2) (csum_add c (le_word [a, b])) = Some c'"
      "unat c' = ones_rep (s + (unat a + 256 * unat b) + sum_list (words16 (drop (i + 2) (take buflen buf))))"
      using less.hyps [of "i + 2", OF _ _ i] less.prems(1) i by fastforce
    have "(i + 2) mod 65536 = i + 2" using i assms(2) by simp
    then have "csum_loop buf buflen i c = csum_loop buf buflen (i + 2) (csum_add c (le_word [a, b]))"
      using True i assms(1) ab by (subst csum_loop.simps) (simp add: read_at_def)
    then show ?thesis using c' d by (auto simp: add.assoc)
  qed
qed

lemma fold_carry_id: "unat c \<le> 65535 \<Longrightarrow> fold_carry c = c"
proof -
  assume "unat c \<le> 65535"
  then have "unat (drop_bit 16 c) = 0" by (simp only: unat_halves)
  then have "drop_bit 16 c = 0" using unat_eq_zero by blast
  then show ?thesis by (simp add: fold_carry.simps)
qed

lemma calc_csum_sum:
  assumes "buflen \<le> length buf" "buflen < 65536" "even buflen"
  shows "calc_csum buf buflen = Some (NOT (of_nat (ones_rep (sum_list (words16 (take buflen buf))))))"
proof -
  obtain c where c: "csum_loop buf buflen 0 0 = Some c" "unat c = ones_rep (sum_list (words16 (take buflen buf)))"
    using csum_loop_sum [OF assms, of 0 0 0] by (auto simp: ones_rep_def)
  have "unat c \<le> 65535" using c(2) ones_rep_bounds by simp
  moreover have "(ucast (NOT c) :: u16) = NOT (ucast c)"
    by (rule bit_word_eqI) (simp add: bit_simps)
  moreover have "(ucast c :: u16) = of_nat (unat c)" by simp
  ultimately show ?thesis using c by (simp add: calc_csum_def fold_carry_id)
qed

theorem calc_csum_is_ones_complement:
  assumes "buflen \<le> length buf" "buflen < 65536" "even buflen"
  shows "calc_csum buf buflen = Some (NOT (of_nat (ones_rep (sum_list (words16 (take buflen buf))))))"
  by (rule calc_csum_sum [OF assms])

theorem calc_csum_is_ones_complement_witness: "calc_csum [0xFF, 0xFF, 0x02, 0x00] 4 = Some 0xFFFD"
  using calc_csum_is_ones_complement [of 4 "[0xFF, 0xFF, 0x02, 0x00]"] by (simp add: ones_rep_def)

section \<open>Hosts and packets\<close>

definition BUF_SIZE :: nat where "BUF_SIZE = 200"
definition NORMAL_REQUEST_SIZE :: int where "NORMAL_REQUEST_SIZE = 64"
definition MAX_SIZE_IP_HEADER :: nat where "MAX_SIZE_IP_HEADER = 60"
definition BASEPRD :: int where "BASEPRD = 9000"

text \<open>\<open>struct record\<close> without descriptors and the buffer; batchping.c has no \<open>hid\<close>.\<close>

record host =
  hname :: string
  hid :: int
  hseq :: int
  hlatency :: int
  hlast_send :: int
  hlost_start :: int
  hlost :: int

text \<open>A time is \<open>struct timeval\<close>, in seconds and microseconds.\<close>

type_synonym timeval = "u64 \<times> u64"

definition time_ms :: "timeval \<Rightarrow> int" where
  "time_ms = (\<lambda>(sec, usec). sint sec * 1000 + c_div (sint usec) 1000)"

text \<open>
  The ICMP message in \<open>snd_buf\<close>, which is cleared first: type, code, checksum 0, the
  process id, the sequence number and the time; \<open>extra\<close> is empty in batchping.c and the
  number of the host in the others.
\<close>

definition ping_msg :: "u8 \<Rightarrow> u16 \<Rightarrow> u16 \<Rightarrow> timeval \<Rightarrow> bytes \<Rightarrow> bytes" where
  "ping_msg ty pid seq tm extra =
     [ty, 0, 0, 0] @ be16 pid @ be16 seq @ le_bytes 8 (fst tm) @ le_bytes 8 (snd tm) @ extra"

definition ping_buf :: "u8 \<Rightarrow> u16 \<Rightarrow> u16 \<Rightarrow> timeval \<Rightarrow> bytes \<Rightarrow> bytes" where
  "ping_buf ty pid seq tm extra =
     (let msg = ping_msg ty pid seq tm extra in msg @ replicate (BUF_SIZE - length msg) 0)"

text \<open>The packet of \<open>send_ping\<close>, and that of \<open>send_ping6\<close>, for which the kernel adds the checksum.\<close>

definition ping_packet :: "u16 \<Rightarrow> u16 \<Rightarrow> timeval \<Rightarrow> bytes \<Rightarrow> nat \<Rightarrow> bytes option" where
  "ping_packet pid seq tm extra sndlen =
     (let buf = ping_buf 8 pid seq tm extra in
      map_option (\<lambda>csum. take sndlen (overwrite 2 (le16 csum) buf)) (calc_csum buf sndlen))"

definition ping6_packet :: "u16 \<Rightarrow> u16 \<Rightarrow> timeval \<Rightarrow> bytes \<Rightarrow> nat \<Rightarrow> bytes option" where
  "ping6_packet pid seq tm extra sndlen = Some (take sndlen (ping_buf 128 pid seq tm extra))"

text \<open>
  In liveping.c and sbping.c the checksum is the same text, and the packets have the number
  of the host behind the time.
\<close>

definition lp_calc_csum :: "bytes \<Rightarrow> nat \<Rightarrow> u16 option" where "lp_calc_csum = calc_csum"
definition sb_calc_csum :: "bytes \<Rightarrow> nat \<Rightarrow> u16 option" where "sb_calc_csum = calc_csum"

definition host_number :: "host \<Rightarrow> bytes" where
  "host_number e = le_bytes 4 (of_int (hid e) :: u32)"

definition lp_send_ping :: "u16 \<Rightarrow> u16 \<Rightarrow> timeval \<Rightarrow> host \<Rightarrow> nat \<Rightarrow> bytes option" where
  "lp_send_ping pid seq tm e = ping_packet pid seq tm (host_number e)"

definition lp_send_ping6 :: "u16 \<Rightarrow> u16 \<Rightarrow> timeval \<Rightarrow> host \<Rightarrow> nat \<Rightarrow> bytes option" where
  "lp_send_ping6 pid seq tm e = ping6_packet pid seq tm (host_number e)"

definition sb_send_ping :: "u16 \<Rightarrow> u16 \<Rightarrow> timeval \<Rightarrow> host \<Rightarrow> nat \<Rightarrow> bytes option" where
  "sb_send_ping pid seq tm e = ping_packet pid seq tm (host_number e)"

definition sb_send_ping6 :: "u16 \<Rightarrow> u16 \<Rightarrow> timeval \<Rightarrow> host \<Rightarrow> nat \<Rightarrow> bytes option" where
  "sb_send_ping6 pid seq tm e = ping6_packet pid seq tm (host_number e)"

lemmas send_defs = lp_send_ping_def lp_send_ping6_def sb_send_ping_def sb_send_ping6_def host_number_def

text \<open>
  \<open>send_ping_wrapper\<close> of batchping.c: \<open>ret\<close> is the result of \<open>send\<close>. The sequence number
  is 0 for every packet. What happens before and after \<open>send\<close> is given apart, because a
  reply can be handled in between.
\<close>

definition bp_send_begin :: "timeval \<Rightarrow> host \<Rightarrow> host" where
  "bp_send_begin tm e = e\<lparr>hseq := 0, hlast_send := time_ms tm\<rparr>"

definition bp_send_end :: "int \<Rightarrow> host \<Rightarrow> host" where
  "bp_send_end ret e = (if ret < 0 then e else e\<lparr>hseq := hseq e + 1, hlatency := -1\<rparr>)"

definition bp_send_ping_wrapper ::
  "bool \<Rightarrow> u16 \<Rightarrow> nat \<Rightarrow> timeval \<Rightarrow> int \<Rightarrow> host \<Rightarrow> (host \<times> bytes) option" where
  "bp_send_ping_wrapper is6 pid bufsize tm ret e =
     map_option (\<lambda>pkt. (bp_send_end ret (bp_send_begin tm e), pkt))
       ((if is6 then ping6_packet else ping_packet) pid 0 tm [] bufsize)"

text \<open>\<open>send_ping_wrapper\<close> of liveping.c: \<open>last_send\<close> is set after a successful \<open>sendto\<close>.\<close>

definition lp_send_ping_wrapper ::
  "bool \<Rightarrow> u16 \<Rightarrow> nat \<Rightarrow> timeval \<Rightarrow> int \<Rightarrow> host \<Rightarrow> (host \<times> bytes) option" where
  "lp_send_ping_wrapper is6 pid bufsize tm ret e =
     map_option (\<lambda>pkt.
         (let e = e\<lparr>hlatency := -1\<rparr> in
          (if ret < 0 then e else e\<lparr>hlast_send := time_ms tm, hseq := hseq e + 1\<rparr>, pkt)))
       ((if is6 then lp_send_ping6 else lp_send_ping) pid (of_int (hseq e)) tm e bufsize)"

text \<open>\<open>send_ping_wrapper\<close> of sbping.c: its \<open>send_ping6\<close> sets \<open>last_send\<close> before \<open>sendto\<close>, too.\<close>

definition sb_send_ping_wrapper ::
  "bool \<Rightarrow> u16 \<Rightarrow> nat \<Rightarrow> timeval \<Rightarrow> int \<Rightarrow> host \<Rightarrow> (host \<times> bytes) option" where
  "sb_send_ping_wrapper is6 pid bufsize tm ret e =
     map_option (\<lambda>pkt.
         (let e = e\<lparr>hseq := 0\<rparr>; e = (if is6 \<or> \<not> ret < 0 then e\<lparr>hlast_send := time_ms tm\<rparr> else e) in
          (if ret < 0 then e else e\<lparr>hseq := 1, hlatency := -1\<rparr>, pkt)))
       ((if is6 then sb_send_ping6 else sb_send_ping) pid 0 tm e bufsize)"

section \<open>Replies\<close>

text \<open>
  \<open>handle_ping_reply\<close> up to the time stamps: \<open>data\<close> is what \<open>recvmsg\<close> gives, with the IP
  header in IPv4. \<open>Inl\<close> is an early return, \<open>Inr\<close> the buffer and the offset of the ICMP
  header.
\<close>

definition rcv_buffer :: "nat \<Rightarrow> bytes \<Rightarrow> bytes" where
  "rcv_buffer bufsize data =
     (let n = bufsize + MAX_SIZE_IP_HEADER in take n data @ replicate (n - length data) 0)"

definition reply_check :: "bool \<Rightarrow> nat \<Rightarrow> bytes \<Rightarrow> (int + bytes \<times> nat) option" where
  "reply_check is6 bufsize data =
     (let buf = rcv_buffer bufsize data in
      if data = [] then Some (Inl 0)
      else if is6 then Some (Inr (buf, 0))
      else
        (let ihl = unat (buf ! 0 AND 0x0F); tot_len = unat (buf ! 2) * 256 + unat (buf ! 3);
             len = nat ((int tot_len - int ihl * 4) mod 65536) in
         case calc_csum (drop (ihl * 4) buf) len of
           None \<Rightarrow> None
         | Some csum \<Rightarrow> if csum \<noteq> 0 then Some (Inl (-1)) else Some (Inr (buf, ihl * 4))))"

text \<open>The time in the packet behind the ICMP header.\<close>

definition packet_time :: "bytes \<Rightarrow> nat \<Rightarrow> timeval option" where
  "packet_time buf off =
     map_option (\<lambda>bs. (le_word (take 8 bs), le_word (drop 8 bs))) (read_at (off + 8) 16 buf)"

definition rtt_of :: "timeval \<Rightarrow> timeval \<Rightarrow> int" where
  "rtt_of now snt = (sint (fst now) - sint (fst snt)) * 1000000 + (sint (snd now) - sint (snd snt))"

text \<open>
  The round trip time is a \<open>double\<close> that is stored in an \<open>int\<close>: exact in the range of \<open>int\<close>;
  outside, where C leaves the result open, the conversion of x86 gives the smallest \<open>int\<close>.
\<close>

definition int_of_double :: "int \<Rightarrow> int" where
  "int_of_double x = (if - (2 ^ 31) \<le> x \<and> x < 2 ^ 31 then x else - (2 ^ 31))"

definition got_reply :: "int \<Rightarrow> host \<Rightarrow> host" where
  "got_reply rtt e = e\<lparr>hlatency := int_of_double rtt, hlost := 0, hlost_start := -1\<rparr>"

text \<open>\<open>handle_ping_reply\<close> of batchping.c for the host of the socket.\<close>

definition bp_handle_ping_reply ::
  "bool \<Rightarrow> nat \<Rightarrow> bytes \<Rightarrow> timeval \<Rightarrow> host \<Rightarrow> (int \<times> host) option" where
  "bp_handle_ping_reply is6 bufsize data now e =
     (case reply_check is6 bufsize data of
        None \<Rightarrow> None
      | Some (Inl r) \<Rightarrow> Some (r, e)
      | Some (Inr (buf, off)) \<Rightarrow>
          map_option (\<lambda>snt. (int (min (length data) (bufsize + MAX_SIZE_IP_HEADER)), got_reply (rtt_of now snt) e))
            (packet_time buf off))"

text \<open>
  \<open>handle_ping_reply\<close> of liveping.c and sbping.c: the number behind the time selects the
  host. The entries of \<open>iplist\<close> from \<open>nLine\<close> on are null pointers.
\<close>

definition lp_handle_ping_reply ::
  "bool \<Rightarrow> nat \<Rightarrow> bytes \<Rightarrow> timeval \<Rightarrow> host list \<Rightarrow> (int \<times> host list) option" where
  "lp_handle_ping_reply is6 bufsize data now iplist =
     (case reply_check is6 bufsize data of
        None \<Rightarrow> None
      | Some (Inl r) \<Rightarrow> Some (r, iplist)
      | Some (Inr (buf, off)) \<Rightarrow>
          (case (packet_time buf off, read_at (off + 24) 4 buf) of
             (Some snt, Some bs) \<Rightarrow>
               (let idx = sint (le_word bs :: u32) in
                if idx < 0 \<or> int (length iplist) < idx then Some (-1, iplist)
                else if int (length iplist) \<le> idx then None
                else
                  (let e = iplist ! nat idx in
                   if hid e \<noteq> idx then Some (-1, iplist)
                   else Some (int (min (length data) (bufsize + MAX_SIZE_IP_HEADER)),
                          iplist[nat idx := got_reply (rtt_of now snt) e])))
           | _ \<Rightarrow> None))"

definition sb_handle_ping_reply ::
  "bool \<Rightarrow> nat \<Rightarrow> bytes \<Rightarrow> timeval \<Rightarrow> host list \<Rightarrow> (int \<times> host list) option" where
  "sb_handle_ping_reply = lp_handle_ping_reply"

section \<open>The list of hosts and its distribution\<close>

text \<open>\<open>fgets (buf, n, fp)\<close>: the line read and the rest of the file.\<close>

definition fgets_n :: "nat \<Rightarrow> string \<Rightarrow> string \<times> string" where
  "fgets_n n s = (let k = min (length (takeWhile (\<lambda>c. c \<noteq> CHR 0x0A) s) + 1) (n - 1) in (take k s, drop k s))"

text \<open>
  The names that \<open>genList\<close> reads: the last character of each line is cut. \<open>None\<close> is the
  store before the buffer for a line that starts with a zero byte.
\<close>

function gen_names :: "string \<Rightarrow> string list option" where
  "gen_names s =
     (if s = [] then Some []
      else
        (let (buf, rest) = fgets_n 32 s; buf = strlen_cut buf in
         if buf = [] then None else map_option ((#) (butlast buf)) (gen_names rest)))"
  by pat_completeness auto
termination by (relation "measure length") (auto simp: fgets_n_def Let_def)

declare gen_names.simps [simp del]

definition new_host :: "int \<Rightarrow> int \<Rightarrow> string \<Rightarrow> host" where
  "new_host i seq name = \<lparr>hname = name, hid = i, hseq = seq, hlatency = -1, hlast_send = -1, hlost_start = -1, hlost = 0\<rparr>"

text \<open>Room for \<open>MAX_ITEMS\<close> hosts; the lines are added behind the hosts of an earlier file.\<close>

definition MAX_ITEMS :: nat where "MAX_ITEMS = 2 * 1000 * 1000"

definition gen_list :: "int \<Rightarrow> string \<Rightarrow> host list \<Rightarrow> host list option" where
  "gen_list seq s iplist =
     Option.bind (gen_names s) (\<lambda>ns.
       if length iplist + length ns > MAX_ITEMS then None
       else Some (iplist @ map (\<lambda>(i, nm). new_host (int i) seq nm) (enumerate (length iplist) ns)))"

definition bp_genList :: "string \<Rightarrow> host list \<Rightarrow> host list option" where "bp_genList = gen_list (-1)"
definition lp_genList :: "string \<Rightarrow> host list \<Rightarrow> host list option" where "lp_genList = gen_list 0"
definition sb_genList :: "string \<Rightarrow> host list \<Rightarrow> host list option" where "sb_genList = gen_list (-1)"

text \<open>The first host of each thread and the number of its hosts, which can be negative.\<close>

definition thread_range :: "int \<Rightarrow> int \<Rightarrow> int \<Rightarrow> int \<times> int" where
  "thread_range nLine n_workers i =
     (let nelems = c_div (nLine + n_workers - 1) n_workers in
      (i * nelems, if i * nelems + nelems > nLine then nLine - i * nelems else nelems))"

text \<open>The start of \<open>do_work\<close>: what the \<open>k\<close>th host of a thread is set to.\<close>

definition bp_start :: "int \<Rightarrow> nat \<Rightarrow> host \<Rightarrow> host" where
  "bp_start ts1 k e = e\<lparr>hlatency := 1, hlast_send := ts1 - c_mod (int k) (BASEPRD - 999), hlost := 0\<rparr>"

definition lp_start :: "host \<Rightarrow> host" where
  "lp_start e = e\<lparr>hlatency := -1, hlast_send := -1, hlost := 0\<rparr>"

definition sb_start :: "int \<Rightarrow> nat \<Rightarrow> host \<Rightarrow> host" where
  "sb_start ts1 k e = e\<lparr>hlatency := 1, hlast_send := ts1 - c_mod (int k) (BASEPRD - 999), hlost := 0\<rparr>"

section \<open>A packet and its reply\<close>

lemma length_le_bytes [simp]: "length (le_bytes n w) = n"
  by (induction n arbitrary: w) simp_all

lemma le_word_le_bytes: "le_word (le_bytes n w) = take_bit (8 * n) w"
proof (induction n arbitrary: w)
  case (Suc n)
  have "take_bit 8 w AND push_bit 8 (take_bit (8 * n) (drop_bit 8 w)) = 0"
    by (rule bit_word_eqI) (auto simp: bit_simps)
  then have "take_bit 8 w + push_bit 8 (take_bit (8 * n) (drop_bit 8 w))
      = take_bit 8 w OR push_bit 8 (take_bit (8 * n) (drop_bit 8 w))"
    by (rule disjunctive_add_eq_or)
  also have "\<dots> = take_bit (8 * Suc n) w"
    by (rule bit_word_eqI) (auto simp: bit_simps)
  finally have "take_bit 8 w + push_bit 8 (take_bit (8 * n) (drop_bit 8 w)) = take_bit (8 * Suc n) w" .
  moreover have "ucast (ucast w :: u8) = take_bit 8 w" by (rule bit_word_eqI) (auto simp: bit_simps)
  ultimately show ?case using Suc by simp
qed simp

lemma le_word_le_bytes_full:
  fixes w :: "'a::len word"
  shows "LENGTH('a) \<le> 8 * n \<Longrightarrow> le_word (le_bytes n w) = w"
  by (simp add: le_word_le_bytes take_bit_word_eq_self)

text \<open>The checksum only depends on the bytes that it covers.\<close>

lemma words16_4: "4 \<le> n \<Longrightarrow> words16 (take n (a # b # c # d # xs)) =
    (unat a + 256 * unat b) # (unat c + 256 * unat d) # words16 (take (n - 4) xs)"
  by (auto simp: take_Cons numeral_eq_Suc split: nat.split)

lemma unat_halves16: "unat (ucast c :: u8) + 256 * unat (ucast (drop_bit 8 c) :: u8) = unat c" for c :: u16
proof -
  have "unat c < 2 ^ 16" using unsigned_less [of c] by simp
  then have "unat c div 256 < 256" by simp
  moreover have "unat (drop_bit 8 c) = unat c div 256"
    unfolding unat_drop_bit_eq by (simp add: drop_bit_eq_div)
  ultimately show ?thesis by (simp add: unsigned_ucast_eq take_bit_eq_mod)
qed

lemma calc_csum_filled:
  assumes buf: "buf = a # b # 0 # 0 # xs"
    and n: "even n" "4 \<le> n" "n \<le> length buf" "n < 65536"
    and c: "calc_csum buf n = Some c"
  shows "calc_csum (take n (overwrite 2 (le16 c) buf)) n = Some 0"
proof -
  define r where "r = (unat a + 256 * unat b) + sum_list (words16 (take (n - 4) xs))"
  have s: "sum_list (words16 (take n buf)) = r"
    using n(2) by (simp add: buf words16_4 r_def)
  have c': "c = NOT (of_nat (ones_rep r))" using c calc_csum_sum [OF n(3,4,1)] s by simp
  have le: "ones_rep r \<le> 65535" by (rule ones_rep_bounds)
  then have "unat (of_nat (ones_rep r) :: u16) = ones_rep r" by (simp add: unat_of_nat take_bit_nat_eq_self)
  have "(of_nat 65535 :: u16) = -1" by simp
  then have "c = of_nat (65535 - ones_rep r)" using le by (simp add: c' not_eq_complement of_nat_diff)
  then have uc: "unat c = 65535 - ones_rep r" by (simp add: unat_of_nat take_bit_nat_eq_self)
  have ow: "overwrite 2 (le16 c) buf = a # b # ucast c # ucast (drop_bit 8 c) # xs"
    by (simp add: overwrite_def buf le16_def numeral_eq_Suc)
  let ?p = "take n (overwrite 2 (le16 c) buf)"
  have "sum_list (words16 (take n ?p)) = r + unat c"
    using n(2) unat_halves16 [of c] by (simp add: ow words16_4 r_def)
  moreover have "ones_rep (r + unat c) = 65535"
    using ones_rep_add [of "unat c" r] uc le by simp
  moreover have "n \<le> length ?p" using n(3) by (simp add: ow buf)
  ultimately have "calc_csum ?p n = Some (NOT (of_nat 65535))"
    using calc_csum_sum [of n ?p] n by simp
  then show ?thesis by simp
qed

definition ip_header :: "bytes \<Rightarrow> nat \<Rightarrow> bool" where
  "ip_header hdr n \<longleftrightarrow> 20 \<le> length hdr \<and> length hdr = 4 * unat (hdr ! 0 AND 0x0F) \<and>
     unat (hdr ! 2) * 256 + unat (hdr ! 3) = length hdr + n"

text \<open>An answer to a packet repeats what follows its checksum and has a correct checksum.\<close>

definition echo_reply :: "bytes \<Rightarrow> bytes \<Rightarrow> bool" where
  "echo_reply pkt r \<longleftrightarrow> length r = length pkt \<and> drop 4 r = drop 4 pkt \<and> calc_csum r (length r) = Some 0"

lemma length_ping_msg [simp]: "length (ping_msg ty pid seq tm extra) = 24 + length extra"
  by (simp add: ping_msg_def be16_def)

lemma length_ping_buf [simp]: "24 + length extra \<le> BUF_SIZE \<Longrightarrow> length (ping_buf ty pid seq tm extra) = BUF_SIZE"
  by (simp add: ping_buf_def Let_def)

lemma drop4_ping_packet:
  assumes "ping_packet pid seq tm extra n = Some pkt" "4 \<le> n"
  shows "drop 4 pkt = drop 4 (take n (ping_buf 8 pid seq tm extra))"
proof -
  have "drop 4 (overwrite 2 (le16 c) b) = drop 4 b" for c and b :: bytes
    by (cases "length b < 2") (auto simp: overwrite_def le16_def numeral_eq_Suc)
  then show ?thesis using assms by (auto simp: ping_packet_def Let_def drop_take)
qed

lemma ping_packet_ok:
  assumes "even n" "4 \<le> n" "n \<le> BUF_SIZE" "24 + length extra \<le> BUF_SIZE"
  obtains pkt where "ping_packet pid seq tm extra n = Some pkt" "length pkt = n" "calc_csum pkt n = Some 0"
proof -
  let ?b = "ping_buf 8 pid seq tm extra"
  have n: "n \<le> length ?b" "n < 65536" using assms(3,4) by (simp_all add: BUF_SIZE_def)
  obtain xs where b: "?b = 8 # 0 # 0 # 0 # xs" by (simp add: ping_buf_def ping_msg_def)
  obtain c where c: "calc_csum ?b n = Some c" using calc_csum_sum [OF n assms(1)] by blast
  have "length (take n (overwrite 2 (le16 c) ?b)) = n" using n by (simp add: b overwrite_def le16_def)
  then show thesis using that calc_csum_filled [OF b assms(1,2) n c] c by (simp add: ping_packet_def Let_def)
qed

lemma ping_packet_slices:
  assumes p: "ping_packet pid seq tm extra n = Some pkt" and n: "24 + length extra \<le> n" "n \<le> BUF_SIZE"
    and r: "drop 4 r = drop 4 pkt"
  shows "slice_at 8 16 r = le_bytes 8 (fst tm) @ le_bytes 8 (snd tm)" "slice_at 24 (length extra) r = extra"
proof -
  have *: "slice_at (4 + k) l r = slice_at (4 + k) l (ping_buf 8 pid seq tm extra)" if "4 + k + l \<le> n" for k l
  proof -
    have "slice_at (4 + k) l r = take l (drop k (drop 4 r))" by (simp add: slice_at_def add.commute)
    also have "\<dots> = take l (drop (4 + k) (take n (ping_buf 8 pid seq tm extra)))"
      using drop4_ping_packet [OF p] n r by (simp add: add.commute)
    finally show ?thesis using that by (simp add: slice_at_def drop_take min_def)
  qed
  show "slice_at 8 16 r = le_bytes 8 (fst tm) @ le_bytes 8 (snd tm)"
    using * [of 4 16] n by (simp add: slice_at_def ping_buf_def ping_msg_def be16_def numeral_eq_Suc)
  show "slice_at 24 (length extra) r = extra"
    using * [of 20 "length extra"] n by (simp add: slice_at_def ping_buf_def ping_msg_def be16_def)
qed

lemma rcv_buffer_fits:
  "length hdr \<le> MAX_SIZE_IP_HEADER \<Longrightarrow> length r = n \<Longrightarrow>
    rcv_buffer n (hdr @ r) = hdr @ r @ replicate (MAX_SIZE_IP_HEADER - length hdr) 0"
  by (simp add: rcv_buffer_def Let_def)

lemma ip_header_length: "ip_header hdr n \<Longrightarrow> length hdr \<le> MAX_SIZE_IP_HEADER"
proof -
  assume h: "ip_header hdr n"
  have "hdr ! 0 AND 0x0F = take_bit 4 (hdr ! 0)" by (simp add: take_bit_eq_mask mask_eq_exp_minus_1)
  then have "unat (hdr ! 0 AND 0x0F) = unat (hdr ! 0) mod 16"
    by (simp only: unsigned_take_bit_eq) (simp add: take_bit_eq_mod)
  then have "unat (hdr ! 0 AND 0x0F) < 16" by simp
  then show ?thesis using h by (simp add: ip_header_def MAX_SIZE_IP_HEADER_def)
qed

lemma reply_check_v4:
  assumes "data \<noteq> []" "rcv_buffer n data = buf" "unat (buf ! 0 AND 0x0F) = ihl"
    "(int (unat (buf ! 2) * 256 + unat (buf ! 3)) - int ihl * 4) mod 65536 = int len"
  shows "reply_check False n data =
    (case calc_csum (drop (ihl * 4) buf) len of
       None \<Rightarrow> None
     | Some csum \<Rightarrow> if csum \<noteq> 0 then Some (Inl (-1)) else Some (Inr (buf, ihl * 4)))"
  by (simp only: reply_check_def Let_def assms if_False nat_int)

lemma reply_check_accepts:
  assumes h: "ip_header hdr n" and r: "length r = n" "calc_csum r n = Some 0" and n: "even n" "n \<le> BUF_SIZE"
  shows "reply_check False n (hdr @ r) =
    Some (Inr (hdr @ r @ replicate (MAX_SIZE_IP_HEADER - length hdr) 0, length hdr))"
proof -
  let ?z = "replicate (MAX_SIZE_IP_HEADER - length hdr) 0"
  have b: "rcv_buffer n (hdr @ r) = hdr @ r @ ?z" by (rule rcv_buffer_fits [OF ip_header_length [OF h] r(1)])
  have n': "n < 65536" using n(2) by (simp add: BUF_SIZE_def)
  have "calc_csum (r @ ?z) n = calc_csum r n"
    using calc_csum_sum [of n "r @ ?z"] calc_csum_sum [of n r] r(1) n(1) n' by simp
  moreover have l: "20 \<le> length hdr" "unat (hdr ! 0 AND 0x0F) * 4 = length hdr"
    "unat (hdr ! 2) * 256 + unat (hdr ! 3) = length hdr + n" using h by (simp_all add: ip_header_def)
  moreover have nth: "(hdr @ r @ ?z) ! 0 = hdr ! 0" "(hdr @ r @ ?z) ! 2 = hdr ! 2" "(hdr @ r @ ?z) ! 3 = hdr ! 3"
    using l(1) by (cases hdr; auto simp: nth_append)+
  moreover have "(int (length hdr + n) - int (unat (hdr ! 0 AND 0x0F)) * 4) mod 65536 = int n"
    using l(2) n' by (metis add_diff_cancel_left' mod_pos_pos_trivial of_nat_0_le_iff of_nat_add of_nat_less_iff of_nat_mult of_nat_numeral)
  moreover have "hdr @ r \<noteq> []" using l(1) by auto
  ultimately show ?thesis
    using reply_check_v4 [of "hdr @ r" n "hdr @ r @ ?z" "unat (hdr ! 0 AND 0x0F)" n] r(2) by (simp only: b nth) simp
qed

lemma packet_time_of:
  assumes "slice_at 8 16 r = le_bytes 8 (fst tm) @ le_bytes 8 (snd tm)" "24 \<le> length r"
  shows "packet_time (hdr @ r @ z) (length hdr) = Some tm"
proof -
  have "slice_at (length hdr + 8) 16 (hdr @ r @ z) = slice_at 8 16 r" using assms(2) by (simp add: slice_at_def)
  then show ?thesis using assms by (simp add: packet_time_def read_at_def le_word_le_bytes_full)
qed

lemma bp_credits:
  assumes p: "ping_packet pid 0 tm [] n = Some pkt"
    and "even n" "24 \<le> n" "n \<le> BUF_SIZE" and "ip_header hdr n" "echo_reply pkt r"
  shows "bp_handle_ping_reply False n (hdr @ r) now e = Some (int (length hdr + n), got_reply (rtt_of now tm) e)"
proof -
  have "length pkt = n" using ping_packet_ok [of n "[]" pid 0 tm] p assms(2-4) by force
  then have r: "length r = n" "calc_csum r n = Some 0" "drop 4 r = drop 4 pkt"
    using assms(6) unfolding echo_reply_def by metis+
  have "slice_at 8 16 r = le_bytes 8 (fst tm) @ le_bytes 8 (snd tm)"
    using ping_packet_slices(1) [OF p _ assms(4) r(3)] assms(3) by simp
  then show ?thesis
    using reply_check_accepts [OF assms(5) r(1,2) assms(2,4)] packet_time_of [of r tm hdr] assms(3) r(1)
      ip_header_length [OF assms(5)]
    by (simp add: bp_handle_ping_reply_def)
qed

theorem echo_reply_is_credited:
  assumes "bp_send_ping_wrapper False pid n tm ret e = Some (e', pkt)"
    and "even n" "24 \<le> n" "n \<le> BUF_SIZE" and "ip_header hdr n" "echo_reply pkt r"
  shows "bp_handle_ping_reply False n (hdr @ r) now e' = Some (int (length hdr + n), got_reply (rtt_of now tm) e')"
  using assms by (intro bp_credits) (auto simp: bp_send_ping_wrapper_def)

text \<open>The packets of liveping.c and sbping.c carry the number of the host.\<close>

lemma lp_credits:
  assumes p: "ping_packet pid seq tm (le_bytes 4 (of_nat i :: u32)) n = Some pkt"
    and n: "even n" "28 \<le> n" "n \<le> BUF_SIZE" and h: "ip_header hdr n" and e: "echo_reply pkt r"
    and i: "i < length iplist" "i < 2 ^ 31" "hid (iplist ! i) = int i"
  shows "lp_handle_ping_reply False n (hdr @ r) now iplist =
    Some (int (length hdr + n), iplist[i := got_reply (rtt_of now tm) (iplist ! i)])"
proof -
  have "length pkt = n" using ping_packet_ok [of n "le_bytes 4 (of_nat i :: u32)" pid seq tm] p n by force
  then have r: "length r = n" "calc_csum r n = Some 0" "drop 4 r = drop 4 pkt"
    using e unfolding echo_reply_def by metis+
  have "slice_at 8 16 r = le_bytes 8 (fst tm) @ le_bytes 8 (snd tm)" "slice_at 24 4 r = le_bytes 4 (of_nat i :: u32)"
    using ping_packet_slices [OF p _ n(3) r(3)] n(2) by simp_all
  moreover have "read_at (length hdr + 24) 4 (hdr @ r @ z) = Some (slice_at 24 4 r)" for z
    using n(2) r(1) by (simp add: read_at_def slice_at_def)
  moreover have "sint (of_nat i :: u32) = int i"
    using i(2) by (simp add: signed_of_nat signed_take_bit_int_eq_self)
  ultimately show ?thesis
    using reply_check_accepts [OF h r(1,2) n(1,3)] packet_time_of [of r tm hdr] i n(2) r(1) ip_header_length [OF h]
    by (simp add: lp_handle_ping_reply_def le_word_le_bytes_full Let_def)
qed

text \<open>C23. An answer to an IPv4 packet of liveping.c with an even size from 28 to 200,
  whatever its IP header, passes the checksum test and is credited, with its round
  trip time if that is in the range of int, to exactly the host that the packet was
  sent to; the losses of the host are cleared. With the sizes 8 to 24 that the options
  allow the reply goes to host 0 (Ping.short_packets_credit_first_host).\<close>

theorem echo_reply_finds_its_host:
  assumes "lp_send_ping_wrapper False pid n tm ret e = Some (iplist ! i, pkt)"
    and "hid e = int i" "i < length iplist" "i < 2 ^ 31"
    and "even n" "28 \<le> n" "n \<le> BUF_SIZE" and "ip_header hdr n" "echo_reply pkt r"
    and "- (2 ^ 31) \<le> rtt_of now tm" "rtt_of now tm < 2 ^ 31"
  shows "lp_handle_ping_reply False n (hdr @ r) now iplist =
    Some (int (length hdr + n), iplist[i := (iplist ! i)\<lparr>hlatency := rtt_of now tm, hlost := 0, hlost_start := -1\<rparr>])"
proof -
  have "int_of_double (rtt_of now tm) = rtt_of now tm" using assms(10,11) by (simp add: int_of_double_def)
  then have e: "got_reply (rtt_of now tm) x = x\<lparr>hlatency := rtt_of now tm, hlost := 0, hlost_start := -1\<rparr>" for x
    by (simp add: got_reply_def)
  have "ping_packet pid (of_int (hseq e)) tm (le_bytes 4 (of_nat i :: u32)) n = Some pkt" "hid (iplist ! i) = int i"
    using assms(1,2) by (auto simp: lp_send_ping_wrapper_def send_defs Let_def dest: sym split: if_splits)
  then have "lp_handle_ping_reply False n (hdr @ r) now iplist =
      Some (int (length hdr + n), iplist[i := got_reply (rtt_of now tm) (iplist ! i)])"
    using assms(3-9) by (intro lp_credits) auto
  then show ?thesis unfolding e .
qed

lemma lp_reply_v6:
  assumes "length h = 24" "28 \<le> n" "h \<noteq> []"
  shows "lp_handle_ping_reply True n (h @ le_bytes 4 w @ t) now iplist =
    (let idx = sint (w :: u32); snt = (le_word (slice_at 8 8 h), le_word (slice_at 16 8 h)) in
     if idx < 0 \<or> int (length iplist) < idx then Some (-1, iplist)
     else if int (length iplist) \<le> idx then None
     else if hid (iplist ! nat idx) \<noteq> idx then Some (-1, iplist)
     else Some (int (min (28 + length t) (n + 60)), iplist[nat idx := got_reply (rtt_of now snt) (iplist ! nat idx)]))"
proof -
  have "rcv_buffer n (h @ le_bytes 4 w @ t) = h @ le_bytes 4 w @ take (n + 32) t @ replicate (n + 60 - (28 + length t)) 0"
    using assms by (simp add: rcv_buffer_def Let_def MAX_SIZE_IP_HEADER_def add.commute)
  then obtain z where b: "rcv_buffer n (h @ le_bytes 4 w @ t) = h @ le_bytes 4 w @ z" by blast
  have "reply_check True n (h @ le_bytes 4 w @ t) = Some (Inr (h @ le_bytes 4 w @ z, 0))"
    using assms(3) by (simp add: reply_check_def b)
  moreover have "packet_time (h @ le_bytes 4 w @ z) 0 = Some (le_word (slice_at 8 8 h), le_word (slice_at 16 8 h))"
    using assms(1) by (simp add: packet_time_def read_at_def slice_at_def)
  moreover have "read_at 24 4 (h @ le_bytes 4 w @ z) = Some (le_bytes 4 w)"
    using assms(1) by (simp add: read_at_def slice_at_def)
  moreover have "le_word (le_bytes 4 w) = w" by (simp add: le_word_le_bytes_full)
  moreover have "length (h @ le_bytes 4 w @ t) = 28 + length t" using assms(1) by simp
  ultimately show ?thesis
    by (simp only: lp_handle_ping_reply_def Let_def MAX_SIZE_IP_HEADER_def option.case sum.case prod.case add_0)
qed

theorem lp_reply_index_off_by_one:
  assumes "length h = 24" "28 \<le> n" "length iplist < 2 ^ 31"
  shows "lp_handle_ping_reply True n (h @ le_bytes 4 (of_nat (length iplist) :: u32) @ t) now iplist = None"
proof -
  have "sint (of_nat (length iplist) :: u32) = int (length iplist)"
    using assms(3) by (simp add: signed_of_nat signed_take_bit_int_eq_self)
  moreover have "h \<noteq> []" using assms(1) by auto
  ultimately show ?thesis using lp_reply_v6 [OF assms(1,2)] by (simp add: Let_def)
qed

text \<open>A read behind the buffer.\<close>

lemma csum_loop_overread:
  assumes "length buf < buflen" "length buf < 65534"
  shows "i \<le> length buf \<Longrightarrow> csum_loop buf buflen i c = None"
proof (induction "length buf + 2 - i" arbitrary: i c rule: less_induct)
  case less
  show ?case
  proof (cases "i + 2 \<le> length buf")
    case True
    have "(i + 2) mod 65536 = i + 2" using True assms(2) by simp
    moreover have "csum_loop buf buflen (i + 2) c' = None" for c' using less.hyps [of "i + 2"] True by simp
    ultimately show ?thesis using True assms(1) by (subst csum_loop.simps) (simp add: read_at_def)
  next
    case False
    then show ?thesis using less.prems assms(1) by (subst csum_loop.simps) (simp add: read_at_def)
  qed
qed

theorem long_reply_overreads:
  assumes "20 \<le> length data" "n \<le> BUF_SIZE" "ihl = unat (data ! 0 AND 0x0F)"
    and "unat (data ! 2) * 256 + unat (data ! 3) = ihl * 4 + len" "n + MAX_SIZE_IP_HEADER < len" "len < 65536"
  shows "bp_handle_ping_reply False n data now e = None \<and> lp_handle_ping_reply False n data now iplist = None"
proof -
  let ?b = "rcv_buffer n data"
  have len: "length ?b = n + MAX_SIZE_IP_HEADER" by (simp add: rcv_buffer_def Let_def)
  have nth: "?b ! 0 = data ! 0" "?b ! 2 = data ! 2" "?b ! 3 = data ! 3"
    using assms(1) by (cases data; simp add: rcv_buffer_def Let_def nth_append MAX_SIZE_IP_HEADER_def)+
  have "(int (ihl * 4 + len) - int ihl * 4) mod 65536 = int len" using assms(6) by simp
  moreover have "calc_csum (drop (ihl * 4) ?b) len = None"
    using csum_loop_overread [of "drop (ihl * 4) ?b" len 0 0] len assms(2,5)
    by (simp add: calc_csum_def BUF_SIZE_def MAX_SIZE_IP_HEADER_def)
  moreover have "data \<noteq> []" using assms(1) by auto
  ultimately have "reply_check False n data = None"
    using reply_check_v4 [of data n ?b ihl len] assms(3,4) by (simp add: nth)
  then show ?thesis
    by (simp_all add: bp_handle_ping_reply_def lp_handle_ping_reply_def)
qed

theorem short_packets_credit_first_host:
  assumes "lp_send_ping_wrapper False pid n tm ret e = Some (e', pkt)"
    and "even n" "8 \<le> n" "n \<le> 24" and "ip_header hdr n" "length hdr = 20" "echo_reply pkt r"
    and "iplist \<noteq> []" "hid (iplist ! 0) = 0"
  shows "\<exists>rtt. lp_handle_ping_reply False n (hdr @ r) now iplist =
    Some (int (20 + n), iplist[0 := got_reply rtt (iplist ! 0)])"
proof -
  have p: "ping_packet pid (of_int (hseq e)) tm (le_bytes 4 (of_int (hid e) :: u32)) n = Some pkt"
    using assms(1) by (auto simp: lp_send_ping_wrapper_def send_defs Let_def)
  have "n \<le> BUF_SIZE" using assms(4) by (simp add: BUF_SIZE_def)
  moreover then have "length pkt = n"
    using ping_packet_ok [of n "le_bytes 4 (of_int (hid e) :: u32)" pid "of_int (hseq e)" tm] p assms(2,3)
    by (force simp: BUF_SIZE_def)
  then have r: "length r = n" "calc_csum r n = Some 0" using assms(7) unfolding echo_reply_def by metis+
  ultimately have chk: "reply_check False n (hdr @ r) = Some (Inr (hdr @ r @ replicate 40 0, 20))"
    using reply_check_accepts [OF assms(5) r assms(2)] assms(6) by (simp add: MAX_SIZE_IP_HEADER_def)
  have "min (40 + n - 24) 4 = 4" using assms(3) by simp
  then have "slice_at 44 4 (hdr @ r @ replicate 40 0) = replicate 4 (0 :: u8)"
    using assms(3,4,6) r(1) by (simp add: slice_at_def)
  then have "slice_at 44 4 (hdr @ r @ replicate 40 0) = [0, 0, 0, 0 :: u8]" by (simp add: numeral_eq_Suc)
  then have "read_at 44 4 (hdr @ r @ replicate 40 0) = Some [0, 0, 0, 0 :: u8]"
    using assms(3,6) r(1) by (simp add: read_at_def)
  moreover obtain snt where "packet_time (hdr @ r @ replicate 40 0) 20 = Some snt"
    using assms(6) by (simp add: packet_time_def read_at_def)
  ultimately show ?thesis
    using chk assms(4,6,8,9) r(1) by (auto simp: lp_handle_ping_reply_def MAX_SIZE_IP_HEADER_def Let_def)
qed

section \<open>A host, its packet and its answer\<close>

text \<open>The answer of a host: type 0 with its own checksum.\<close>

definition answer :: "bytes \<Rightarrow> bytes" where
  "answer pkt =
     (let buf = [0, 0, 0, 0] @ drop 4 pkt in
      case calc_csum buf (length pkt) of Some c \<Rightarrow> take (length pkt) (overwrite 2 (le16 c) buf) | None \<Rightarrow> [])"

lemma echo_reply_answer:
  assumes "even (length pkt)" "4 \<le> length pkt" "length pkt < 65536"
  shows "echo_reply pkt (answer pkt)"
proof -
  let ?b = "[0, 0, 0, 0] @ drop 4 pkt"
  have l: "length pkt \<le> length ?b" using assms(2) by simp
  obtain c where c: "calc_csum ?b (length pkt) = Some c" using calc_csum_sum [OF l assms(3,1)] by blast
  have len: "Suc (Suc (Suc (Suc (length pkt - 4)))) = length pkt" using assms(2) by linarith
  have "drop 4 (overwrite 2 (le16 c) ?b) = drop 4 pkt" by (simp add: overwrite_def le16_def numeral_eq_Suc)
  then show ?thesis
    using calc_csum_filled [of ?b 0 0 "drop 4 pkt", OF _ assms(1,2) l assms(3) c] c len
    by (simp add: echo_reply_def answer_def Let_def drop_take)
qed

definition sample_host :: host where
  "sample_host = new_host 0 0 ''10.0.0.1''"

definition sample_header :: "nat \<Rightarrow> bytes" where
  "sample_header n = [0x45, 0, 0, of_nat (20 + n)] @ replicate 16 0"

lemma sample_header_ok: "n \<le> BUF_SIZE \<Longrightarrow> ip_header (sample_header n) n" "length (sample_header n) = 20"
proof -
  assume "n \<le> BUF_SIZE"
  then have "unat (of_nat (20 + n) :: u8) = 20 + n"
    by (simp only: unat_of_nat BUF_SIZE_def) (simp add: take_bit_nat_eq_self)
  then show "ip_header (sample_header n) n" by (simp add: ip_header_def sample_header_def)
qed (simp add: sample_header_def)

theorem echo_reply_is_credited_witness:
  "\<exists>e' pkt. bp_send_ping_wrapper False 7 64 (1, 2) 64 sample_host = Some (e', pkt) \<and>
     bp_handle_ping_reply False 64 (sample_header 64 @ answer pkt) (1, 5) e' = Some (84, got_reply 3 e')"
proof -
  obtain pkt where p: "ping_packet 7 0 (1, 2) [] 64 = Some pkt" "length pkt = 64"
    using ping_packet_ok [of 64 "[]" 7 0 "(1, 2)"] by (auto simp: BUF_SIZE_def)
  then obtain e' where "bp_send_ping_wrapper False 7 64 (1, 2) 64 sample_host = Some (e', pkt)"
    by (simp add: bp_send_ping_wrapper_def)
  moreover have "rtt_of (1, 5) (1, 2) = 3" by (simp add: rtt_of_def)
  ultimately show ?thesis
    using echo_reply_is_credited [of 7 64 "(1, 2)" 64 sample_host e' pkt "sample_header 64" "answer pkt" "(1, 5)"]
      sample_header_ok [of 64] echo_reply_answer [of pkt] p(2) by (simp add: BUF_SIZE_def)
qed

theorem echo_reply_finds_its_host_witness:
  "\<exists>e' pkt. lp_send_ping_wrapper False 7 64 (1, 2) 64 sample_host = Some (e', pkt) \<and>
     lp_handle_ping_reply False 64 (sample_header 64 @ answer pkt) (1, 5) [e'] = Some (84, [e'\<lparr>hlatency := 3, hlost := 0, hlost_start := -1\<rparr>])"
proof -
  obtain pkt where p: "ping_packet 7 0 (1, 2) (le_bytes 4 (0 :: u32)) 64 = Some pkt" "length pkt = 64"
    using ping_packet_ok [of 64 "le_bytes 4 (0 :: u32)" 7 0 "(1, 2)"] by (auto simp: BUF_SIZE_def)
  then obtain e' where "lp_send_ping_wrapper False 7 64 (1, 2) 64 sample_host = Some (e', pkt)"
    by (simp add: lp_send_ping_wrapper_def send_defs sample_host_def new_host_def)
  moreover have "rtt_of (1, 5) (1, 2) = 3" by (simp add: rtt_of_def)
  ultimately show ?thesis
    using echo_reply_finds_its_host [of 7 64 "(1, 2)" 64 sample_host "[e']" 0 pkt "sample_header 64" "answer pkt" "(1, 5)"]
      sample_header_ok [of 64] echo_reply_answer [of pkt] p(2) by (simp add: BUF_SIZE_def sample_host_def new_host_def)
qed

theorem lp_reply_index_off_by_one_witness:
  "lp_handle_ping_reply True 64 (replicate 24 1 @ le_bytes 4 (of_nat 1 :: u32)) (1, 5) [sample_host] = None"
  using lp_reply_index_off_by_one [of "replicate 24 1" 64 "[sample_host]" "[]" "(1, 5)"] by simp

theorem long_reply_overreads_witness:
  "bp_handle_ping_reply False 64 ([0x45, 0, 4, 0] @ replicate 16 0) (1, 5) sample_host = None"
  using long_reply_overreads [of "[0x45, 0, 4, 0] @ replicate 16 0" 64 5 1004 "(1, 5)" sample_host]
  by (simp add: BUF_SIZE_def MAX_SIZE_IP_HEADER_def)

theorem short_packets_credit_first_host_witness:
  "\<exists>e' pkt rtt. lp_send_ping_wrapper False 7 16 (1, 2) 16 (sample_host\<lparr>hid := 1\<rparr>) = Some (e', pkt) \<and>
     lp_handle_ping_reply False 16 (sample_header 16 @ answer pkt) (1, 5) [sample_host, e'] =
       Some (36, [got_reply rtt sample_host, e'])"
proof -
  obtain pkt where p: "ping_packet 7 0 (1, 2) (le_bytes 4 (1 :: u32)) 16 = Some pkt" "length pkt = 16"
    using ping_packet_ok [of 16 "le_bytes 4 (1 :: u32)" 7 0 "(1, 2)"] by (auto simp: BUF_SIZE_def)
  then obtain e' where s: "lp_send_ping_wrapper False 7 16 (1, 2) 16 (sample_host\<lparr>hid := 1\<rparr>) = Some (e', pkt)"
    by (simp add: lp_send_ping_wrapper_def send_defs sample_host_def new_host_def)
  have "ip_header (sample_header 16) 16" by (rule sample_header_ok) (simp add: BUF_SIZE_def)
  moreover have "echo_reply pkt (answer pkt)" by (rule echo_reply_answer) (simp_all add: p(2))
  ultimately show ?thesis
    using short_packets_credit_first_host [OF s, of "sample_header 16" "answer pkt" "[sample_host, e']" "(1, 5)"] s
    by (simp add: sample_header_ok(2)) (simp add: sample_host_def new_host_def)
qed

end
