(* ===== verification/PingRun.thy ===== *)
theory PingRun
  imports Ping
begin

text \<open>
  The options and the main loops of src/batchping.c, src/liveping.c and src/sbping.c, and
  the interleaving of the main thread with the threads that receive the replies.
\<close>

section \<open>Options\<close>

record ping_config =
  p_iface :: "string option"
  p_local :: "string option"
  p_six :: bool
  p_bufsize :: int
  p_normal_bufsize :: int
  p_workers :: int
  p_count :: int
  p_normal_sleep :: int
  p_hosts :: "host list"

definition ping_default :: ping_config where
  "ping_default = \<lparr>p_iface = None, p_local = None, p_six = False, p_bufsize = int BUF_SIZE,
     p_normal_bufsize = NORMAL_REQUEST_SIZE, p_workers = 1, p_count = 0, p_normal_sleep = 1, p_hosts = []\<rparr>"

text \<open>
  One option; \<open>disk\<close> gives the text of a file and \<open>gen\<close> is \<open>genList\<close> of the program.
  \<open>None\<close> is an exit or a crash.
\<close>

definition ping_option ::
  "(string \<Rightarrow> host list \<Rightarrow> host list option) \<Rightarrow> (string \<rightharpoonup> string) \<Rightarrow> char \<Rightarrow> string \<Rightarrow> ping_config \<Rightarrow> ping_config option"
where
  "ping_option gen disk opt optarg c =
     (let v = atoi optarg in
      if opt = CHR ''6'' then Some (c\<lparr>p_six := True\<rparr>)
      else if opt = CHR ''i'' then Some (c\<lparr>p_iface := Some optarg\<rparr>)
      else if opt = CHR ''n'' then (if v < 1 \<or> v > 512 then None else Some (c\<lparr>p_workers := v\<rparr>))
      else if opt = CHR ''c'' then Some (c\<lparr>p_count := v\<rparr>)
      else if opt = CHR ''l'' then Some (c\<lparr>p_local := Some optarg\<rparr>)
      else if opt = CHR ''f'' then
        Option.bind (disk optarg) (\<lambda>s. map_option (\<lambda>hs.
          c\<lparr>p_hosts := hs, p_workers := (if p_workers c > int (length hs) then int (length hs) else p_workers c)\<rparr>)
          (gen s (p_hosts c)))
      else if opt = CHR ''t'' then (if v < 0 \<or> v > 255 then None else Some (c\<lparr>p_normal_sleep := v\<rparr>))
      else if opt = CHR ''s'' then (if v < 8 \<or> v > int BUF_SIZE then None else Some (c\<lparr>p_bufsize := v\<rparr>))
      else if opt = CHR ''p'' then (if v < 8 \<or> v > NORMAL_REQUEST_SIZE then None else Some (c\<lparr>p_normal_bufsize := v\<rparr>))
      else None)"

fun ping_options ::
  "(string \<Rightarrow> host list \<Rightarrow> host list option) \<Rightarrow> (string \<rightharpoonup> string) \<Rightarrow> (char \<times> string) list \<Rightarrow> ping_config \<Rightarrow> ping_config option"
where
  "ping_options gen disk [] c = Some c"
| "ping_options gen disk ((opt, optarg) # os) c =
     Option.bind (ping_option gen disk opt optarg c) (ping_options gen disk os)"

definition ping_checks :: "ping_config \<Rightarrow> ping_config option" where
  "ping_checks c =
     (case p_iface c of
        None \<Rightarrow> None
      | Some iface \<Rightarrow>
          if length (p_hosts c) < 1 then None
          else if (p_bufsize c \<noteq> int BUF_SIZE \<or> p_normal_bufsize c \<noteq> NORMAL_REQUEST_SIZE) \<and>
                  p_normal_bufsize c > p_bufsize c then None
          else if length iface \<ge> 16 then None
          else Some c)"

text \<open>The number of hosts of a thread is a division by \<open>n_workers\<close>.\<close>

definition ping_threads :: "ping_config \<Rightarrow> (int \<times> int) list option" where
  "ping_threads c =
     (if p_workers c = 0 then None
      else Some (map (thread_range (int (length (p_hosts c))) (p_workers c)) [0..p_workers c - 1]))"

definition ping_config_of ::
  "(string \<Rightarrow> host list \<Rightarrow> host list option) \<Rightarrow> (string \<rightharpoonup> string) \<Rightarrow> (char \<times> string) list \<Rightarrow> ping_config option"
where
  "ping_config_of gen disk os = Option.bind (ping_options gen disk os ping_default) ping_checks"

definition bp_config_of :: "(string \<rightharpoonup> string) \<Rightarrow> (char \<times> string) list \<Rightarrow> ping_config option" where
  "bp_config_of = ping_config_of bp_genList"

definition lp_config_of :: "(string \<rightharpoonup> string) \<Rightarrow> (char \<times> string) list \<Rightarrow> ping_config option" where
  "lp_config_of = ping_config_of lp_genList"

definition sb_config_of :: "(string \<rightharpoonup> string) \<Rightarrow> (char \<times> string) list \<Rightarrow> ping_config option" where
  "sb_config_of = ping_config_of sb_genList"

text \<open>The threads of liveping.c and sbping.c, whose text is the same.\<close>

definition lp_threads :: "ping_config \<Rightarrow> (int \<times> int) list option" where
  "lp_threads = ping_threads"

definition sb_threads :: "ping_config \<Rightarrow> (int \<times> int) list option" where
  "sb_threads = ping_threads"

section \<open>The loop of batchping.c\<close>

text \<open>A host whose period is over: it is counted as lost when no reply came.\<close>

definition expired :: "int \<Rightarrow> host \<Rightarrow> bool" where
  "expired ts e \<longleftrightarrow> hlast_send e + BASEPRD < ts"

definition bp_account :: "int \<Rightarrow> host \<Rightarrow> host" where
  "bp_account ts e =
     (if hlatency e < 0 then
        (let e = (if hlost e < 1 then e\<lparr>hlost_start := ts\<rparr> else e) in e\<lparr>hlost := hlost e + 1\<rparr>)
      else e)"

definition sb_account :: "int \<Rightarrow> host \<Rightarrow> host" where
  "sb_account ts e =
     (if hlatency e = -1 then
        (let e = (if hlost e = 0 then e\<lparr>hlost_start := ts\<rparr> else e) in e\<lparr>hlost := hlost e + 1\<rparr>)
      else e)"

text \<open>
  One turn over the hosts: \<open>net i\<close> gives the time and the result of \<open>send\<close> for host \<open>i\<close>. The
  result has the packets that were sent and the number of lost hosts of the report.
\<close>

fun bp_scan ::
  "bool \<Rightarrow> u16 \<Rightarrow> nat \<Rightarrow> int \<Rightarrow> (nat \<Rightarrow> timeval \<times> int) \<Rightarrow> nat \<Rightarrow> host list \<Rightarrow> (host list \<times> (nat \<times> bytes) list \<times> int) option"
where
  "bp_scan is6 pid bufsize ts net i [] = Some ([], [], 0)"
| "bp_scan is6 pid bufsize ts net i (e # es) =
     Option.bind
       (if expired ts e then
          map_option (\<lambda>(e, pkt). (e, [(i, pkt)]))
            (bp_send_ping_wrapper is6 pid bufsize (fst (net i)) (snd (net i)) (bp_account ts e))
        else Some (e, []))
       (\<lambda>(e, pkts). map_option (\<lambda>(es, pkts', nlost). (e # es, pkts @ pkts', (if hlost e > 0 then 1 else 0) + nlost))
          (bp_scan is6 pid bufsize ts net (i + 1) es))"

record ping_loop =
  l_hosts :: "host list"
  l_nloop :: int
  l_sent :: int
  l_report :: int

text \<open>One turn of the endless loop, with the numbers of the report when there is one.\<close>

definition bp_turn ::
  "bool \<Rightarrow> u16 \<Rightarrow> nat \<Rightarrow> int \<Rightarrow> (nat \<Rightarrow> timeval \<times> int) \<Rightarrow> ping_loop \<Rightarrow> (ping_loop \<times> (nat \<times> bytes) list \<times> int list) option"
where
  "bp_turn is6 pid bufsize ts net l =
     map_option (\<lambda>(es, pkts, nlost).
         (let l = l\<lparr>l_nloop := l_nloop l + 1, l_hosts := es, l_sent := l_sent l + int (length pkts)\<rparr> in
          if ts > l_report l + 10000 then
            (l\<lparr>l_nloop := 0, l_sent := 0, l_report := ts\<rparr>, pkts, [ts, nlost, int (length es), l_sent l, l_nloop l])
          else (l, pkts, [])))
       (bp_scan is6 pid bufsize ts net 0 (l_hosts l))"

section \<open>The loop of sbping.c\<close>

definition lost_line :: "int \<Rightarrow> host \<Rightarrow> string \<times> int \<times> int" where
  "lost_line ts e = (hname e, c_div (ts - hlost_start e) 1000, c_div (hlost_start e) 1000)"

text \<open>The four counters of the report and, in a turn with \<open>dump\<close>, the lines of the file.\<close>

fun sb_scan ::
  "bool \<Rightarrow> u16 \<Rightarrow> nat \<Rightarrow> int \<Rightarrow> (nat \<Rightarrow> timeval \<times> int) \<Rightarrow> bool \<Rightarrow> nat \<Rightarrow> host list \<Rightarrow>
    (host list \<times> (nat \<times> bytes) list \<times> (int \<times> int \<times> int \<times> int) \<times> (string \<times> int \<times> int) list) option"
where
  "sb_scan is6 pid bufsize ts net dump i [] = Some ([], [], (0, 0, 0, 0), [])"
| "sb_scan is6 pid bufsize ts net dump i (e # es) =
     Option.bind
       (if expired ts e then
          map_option (\<lambda>(e, pkt). (e, [(i, pkt)]))
            (sb_send_ping_wrapper is6 pid bufsize (fst (net i)) (snd (net i)) (sb_account ts e))
        else Some (e, []))
       (\<lambda>(e, pkts). map_option (\<lambda>(es, pkts', (n1, n2, n3, n4), ls).
            (e # es, pkts @ pkts',
             ((if hlost e > 0 then 1 else 0) + n1, (if hlost e > 5 then 1 else 0) + n2,
              (if hlost e > 29 then 1 else 0) + n3, (if hlost e > 89 then 1 else 0) + n4),
             (if hlost e > 29 \<and> dump then [lost_line ts e] else []) @ ls))
          (sb_scan is6 pid bufsize ts net dump (i + 1) es))"

text \<open>
  A turn with a dump opens the file first; \<open>fp\<close> tells whether \<open>fopen\<close> succeeds, and the
  header is written in either case. The file is given by its lines of lost hosts.
\<close>

definition sb_turn ::
  "bool \<Rightarrow> u16 \<Rightarrow> nat \<Rightarrow> int \<Rightarrow> (nat \<Rightarrow> timeval \<times> int) \<Rightarrow> bool \<Rightarrow> ping_loop \<Rightarrow>
    (ping_loop \<times> (nat \<times> bytes) list \<times> ((int \<times> int \<times> int \<times> int) \<times> (string \<times> int \<times> int) list) option) option"
where
  "sb_turn is6 pid bufsize ts net fp l =
     (let dump = (ts > l_report l + 10000) in
      if dump \<and> \<not> fp then None
      else
        map_option (\<lambda>(es, pkts, ns, ls).
           (let l = l\<lparr>l_nloop := l_nloop l + 1, l_hosts := es, l_sent := l_sent l + int (length pkts)\<rparr> in
            if dump then (l\<lparr>l_nloop := 0, l_sent := 0, l_report := l_report l + 10000\<rparr>, pkts, Some (ns, ls))
            else (l, pkts, None)))
         (sb_scan is6 pid bufsize ts net dump 0 (l_hosts l)))"

section \<open>The loop of liveping.c\<close>

fun lp_scan ::
  "bool \<Rightarrow> u16 \<Rightarrow> nat \<Rightarrow> (nat \<Rightarrow> timeval \<times> int) \<Rightarrow> nat \<Rightarrow> host list \<Rightarrow> (host list \<times> (nat \<times> bytes) list) option"
where
  "lp_scan is6 pid bufsize net i [] = Some ([], [])"
| "lp_scan is6 pid bufsize net i (e # es) =
     Option.bind
       (if hlatency e = -1 then
          map_option (\<lambda>(e, pkt). (e, [(i, pkt)]))
            (lp_send_ping_wrapper is6 pid bufsize (fst (net i)) (snd (net i)) e)
        else Some (e, []))
       (\<lambda>(e, pkts). map_option (\<lambda>(es, pkts'). (e # es, pkts @ pkts')) (lp_scan is6 pid bufsize net (i + 1) es))"

text \<open>
  The loop ends after a turn that sent nothing, or after 100 turns: \<open>n\<close> is 100 minus
  \<open>nloop\<close>. \<open>net k\<close> has the times and results of the sends of turn \<open>k\<close>, \<open>replies k\<close> what arrives
  in the pause after it. The result has the number of turns, too.
\<close>

fun lp_replies :: "bool \<Rightarrow> nat \<Rightarrow> (bytes \<times> timeval) list \<Rightarrow> host list \<Rightarrow> host list option" where
  "lp_replies is6 bufsize [] es = Some es"
| "lp_replies is6 bufsize ((data, now) # rs) es =
     Option.bind (lp_handle_ping_reply is6 bufsize data now es) (\<lambda>(r, es). lp_replies is6 bufsize rs es)"

fun lp_loop ::
  "bool \<Rightarrow> u16 \<Rightarrow> nat \<Rightarrow> (nat \<Rightarrow> nat \<Rightarrow> timeval \<times> int) \<Rightarrow> (nat \<Rightarrow> (bytes \<times> timeval) list) \<Rightarrow> nat \<Rightarrow> nat \<Rightarrow>
    host list \<Rightarrow> (host list \<times> nat) option"
where
  "lp_loop is6 pid bufsize net replies k 0 es = Some (es, k)"
| "lp_loop is6 pid bufsize net replies k (Suc n) es =
     Option.bind (lp_scan is6 pid bufsize (net k) 0 es) (\<lambda>(es, pkts).
       if pkts = [] then Some (es, k + 1)
       else Option.bind (lp_replies is6 bufsize (replies k) es)
              (lp_loop is6 pid bufsize net replies (k + 1) n))"

text \<open>The disk of the results, by the fields of their lines: hosts with a reply, and the others.\<close>

definition lp_line :: "host \<Rightarrow> string \<times> int \<times> int" where
  "lp_line e = (hname e, hseq e, hlatency e)"

definition lp_results :: "host list \<Rightarrow> (string \<times> int \<times> int) list \<times> (string \<times> int \<times> int) list" where
  "lp_results es =
     (map lp_line (filter (\<lambda>e. hlatency e \<noteq> -1) es), map lp_line (filter (\<lambda>e. hlatency e = -1) es))"

definition lp_main ::
  "bool \<Rightarrow> u16 \<Rightarrow> nat \<Rightarrow> (nat \<Rightarrow> nat \<Rightarrow> timeval \<times> int) \<Rightarrow> (nat \<Rightarrow> (bytes \<times> timeval) list) \<Rightarrow>
    host list \<Rightarrow> ((string \<times> int \<times> int) list \<times> (string \<times> int \<times> int) list) option"
where
  "lp_main is6 pid bufsize net replies es =
     map_option (\<lambda>(es, k). lp_results es) (lp_loop is6 pid bufsize net replies 0 100 es)"

section \<open>The list of hosts\<close>

lemma gen_names_line:
  assumes "length nm \<le> 30" "CHR 0x0A \<notin> set nm" "CHR 0x00 \<notin> set nm"
  shows "gen_names (nm @ CHR 0x0A # rest) = map_option ((#) nm) (gen_names rest)"
proof -
  have "takeWhile (\<lambda>c. c \<noteq> CHR 0x0A) (nm @ CHR 0x0A # rest) = nm"
    using assms(2) by (induction nm) auto
  then have "fgets_n 32 (nm @ CHR 0x0A # rest) = (nm @ [CHR 0x0A], rest)"
    using assms(1) by (simp add: fgets_n_def Let_def min_def)
  moreover have "strlen_cut (nm @ [CHR 0x0A]) = nm @ [CHR 0x0A]"
    using assms(3) by (auto simp: strlen_cut_def takeWhile_eq_all_conv)
  ultimately show ?thesis by (subst gen_names.simps) simp
qed

definition host_names_ok :: "string list \<Rightarrow> bool" where
  "host_names_ok ns \<longleftrightarrow> (\<forall>nm \<in> set ns. length nm \<le> 30 \<and> CHR 0x0A \<notin> set nm \<and> CHR 0x00 \<notin> set nm)"

definition host_file :: "string list \<Rightarrow> string" where
  "host_file ns = concat (map (\<lambda>nm. nm @ [CHR 0x0A]) ns)"

lemma gen_names_file:
  "host_names_ok ns \<Longrightarrow> gen_names (host_file ns @ rest) = map_option ((@) ns) (gen_names rest)"
proof (induction ns)
  case (Cons nm ns)
  then show ?case by (simp add: host_names_ok_def host_file_def gen_names_line option.map_comp o_def)
qed (simp add: host_file_def host_names_ok_def id_def [symmetric] option.map_id append_Nil [abs_def])

lemma gen_names_Nil [simp]: "gen_names [] = Some []"
  by (simp add: gen_names.simps)

theorem host_list_roundtrip:
  assumes "host_names_ok ns" "length ns \<le> MAX_ITEMS"
  shows "lp_genList (host_file ns) [] = Some (map (\<lambda>(i, nm). new_host (int i) 0 nm) (enumerate 0 ns)) \<and>
    bp_genList (host_file ns) [] = Some (map (\<lambda>(i, nm). new_host (int i) (-1) nm) (enumerate 0 ns))"
  using assms gen_names_file [of ns "[]"] by (simp add: lp_genList_def bp_genList_def gen_list_def)

theorem unterminated_name_is_cut:
  assumes "host_names_ok ns" "host_names_ok [nm]" "nm \<noteq> []"
  shows "gen_names (host_file ns @ nm) = Some (ns @ [butlast nm])"
proof -
  have nm: "length nm \<le> 30" "CHR 0x0A \<notin> set nm" "CHR 0x00 \<notin> set nm" using assms(2) by (simp_all add: host_names_ok_def)
  then have "takeWhile (\<lambda>c. c \<noteq> CHR 0x0A) nm = nm" "strlen_cut nm = nm"
    by (auto simp: takeWhile_eq_all_conv strlen_cut_def)
  moreover from this(1) have "fgets_n 32 nm = (nm, [])" using nm(1) by (simp add: fgets_n_def Let_def min_def del: takeWhile_eq_all_conv)
  ultimately have "gen_names nm = Some [butlast nm]" using assms(3) by (subst gen_names.simps) simp
  then show ?thesis using gen_names_file [OF assms(1)] by simp
qed

theorem host_list_roundtrip_witness:
  "lp_genList (host_file [''10.0.0.1'', ''h2'']) [] = Some [new_host 0 0 ''10.0.0.1'', new_host 1 0 ''h2'']"
  using host_list_roundtrip [of "[''10.0.0.1'', ''h2'']"] by (simp add: host_names_ok_def MAX_ITEMS_def)

theorem unterminated_name_is_cut_witness:
  "gen_names (host_file [''h1''] @ ''10.0.0.12'') = Some [''h1'', ''10.0.0.1'']"
  using unterminated_name_is_cut [of "[''h1'']" "''10.0.0.12''"] by (simp add: host_names_ok_def)

section \<open>The distribution over the threads\<close>

lemma thread_range_owner:
  assumes n: "0 < n" and k: "0 \<le> k" "k < m"
  shows "\<exists>!i. 0 \<le> i \<and> i < n \<and> fst (thread_range m n i) \<le> k \<and> k < fst (thread_range m n i) + snd (thread_range m n i)"
proof -
  define q where "q = (m + n - 1) div n"
  have q: "c_div (m + n - 1) n = q" using n k by (simp add: c_div_nonneg q_def)
  have mq: "m \<le> n * q"
  proof -
    have "m + n - 1 < n * q + n" unfolding q_def using n by (metis add.commute mult.commute mult_div_mod_eq add_strict_right_mono add_less_cancel_left pos_mod_bound)
    then show ?thesis by simp
  qed
  have "0 < q"
  proof (rule ccontr)
    assume "\<not> 0 < q"
    then have "n * q \<le> 0" using n by (simp add: mult_le_0_iff)
    then show False using mq k by simp
  qed
  have own: "fst (thread_range m n i) \<le> k \<and> k < fst (thread_range m n i) + snd (thread_range m n i) \<longleftrightarrow> k div q = i" for i
  proof -
    have "fst (thread_range m n i) \<le> k \<and> k < fst (thread_range m n i) + snd (thread_range m n i)
        \<longleftrightarrow> i * q \<le> k \<and> k < i * q + q"
      using k by (auto simp: thread_range_def Let_def q)
    also have "\<dots> \<longleftrightarrow> k div q = i"
    proof
      assume "i * q \<le> k \<and> k < i * q + q"
      then show "k div q = i" using \<open>0 < q\<close> by (intro int_div_pos_eq [of k q i "k - i * q"]) (auto simp: algebra_simps)
    next
      assume "k div q = i"
      then show "i * q \<le> k \<and> k < i * q + q"
        using pos_mod_bound [OF \<open>0 < q\<close>, of k] pos_mod_sign [OF \<open>0 < q\<close>, of k] div_mult_mod_eq [of k q]
        unfolding \<open>k div q = i\<close>
        by (intro conjI) linarith+
    qed
    finally show ?thesis .
  qed
  moreover have "0 \<le> k div q" using k \<open>0 < q\<close> by (simp add: pos_imp_zdiv_nonneg_iff)
  moreover have "k div q < n" 
  proof (rule ccontr)
    assume "\<not> k div q < n"
    then have "n * q \<le> k div q * q" using \<open>0 < q\<close> by (intro mult_right_mono) auto
    then show False using pos_mod_sign [OF \<open>0 < q\<close>, of k] div_mult_mod_eq [of k q] k mq by linarith
  qed
  ultimately show ?thesis by (intro ex1I [of _ "k div q"]) auto
qed

text \<open>The threads of a configuration have each host exactly once.\<close>

theorem hosts_are_distributed:
  assumes "0 < p_workers c" "k < length (p_hosts c)"
  shows "\<exists>rs. ping_threads c = Some rs \<and>
    (\<exists>!i. i < length rs \<and> fst (rs ! i) \<le> int k \<and> int k < fst (rs ! i) + snd (rs ! i))"
proof -
  let ?m = "int (length (p_hosts c))" and ?n = "p_workers c"
  let ?rs = "map (thread_range ?m ?n) [0..?n - 1]"
  have nth: "?rs ! i = thread_range ?m ?n (int i)" if "i < length ?rs" for i using that by simp
  have "\<exists>!i. 0 \<le> i \<and> i < ?n \<and> fst (thread_range ?m ?n i) \<le> int k \<and>
      int k < fst (thread_range ?m ?n i) + snd (thread_range ?m ?n i)"
    using assms by (intro thread_range_owner) auto
  then obtain i where i: "0 \<le> i" "i < ?n" "fst (thread_range ?m ?n i) \<le> int k"
      "int k < fst (thread_range ?m ?n i) + snd (thread_range ?m ?n i)"
    and u: "\<And>j. 0 \<le> j \<Longrightarrow> j < ?n \<Longrightarrow> fst (thread_range ?m ?n j) \<le> int k \<Longrightarrow>
      int k < fst (thread_range ?m ?n j) + snd (thread_range ?m ?n j) \<Longrightarrow> j = i" by blast
  have "\<exists>!i. i < length ?rs \<and> fst (?rs ! i) \<le> int k \<and> int k < fst (?rs ! i) + snd (?rs ! i)"
  proof (rule ex1I [of _ "nat i"])
    show "nat i < length ?rs \<and> fst (?rs ! nat i) \<le> int k \<and> int k < fst (?rs ! nat i) + snd (?rs ! nat i)"
      using i by simp
  next
    fix j assume j: "j < length ?rs \<and> fst (?rs ! j) \<le> int k \<and> int k < fst (?rs ! j) + snd (?rs ! j)"
    then have "int j = i" using nth [of j] by (intro u) auto
    then show "j = nat i" by simp
  qed
  then show ?thesis using assms(1) by (auto simp: ping_threads_def)
qed

theorem hosts_are_distributed_witness:
  "\<exists>rs. ping_threads (ping_default\<lparr>p_workers := 4, p_hosts := replicate 5 sample_host\<rparr>) = Some rs \<and>
    (\<exists>!i. i < length rs \<and> fst (rs ! i) \<le> int 4 \<and> int 4 < fst (rs ! i) + snd (rs ! i))"
  using hosts_are_distributed [of "ping_default\<lparr>p_workers := 4, p_hosts := replicate 5 sample_host\<rparr>" 4] by simp

text \<open>An empty file before the real one makes the number of threads zero: a division by zero.\<close>

theorem empty_list_first_divides_by_zero:
  assumes "disk ''a'' = Some []" "disk ''b'' = Some (host_file [nm])" "host_names_ok [nm]"
  shows "\<exists>c. bp_config_of disk [(CHR ''i'', ''eth0''), (CHR ''f'', ''a''), (CHR ''f'', ''b'')] = Some c \<and>
    length (p_hosts c) = 1 \<and> ping_threads c = None"
  using assms gen_names_file [of "[nm]" "[]"]
  by (simp add: bp_config_of_def ping_config_of_def ping_checks_def ping_option_def ping_default_def bp_genList_def gen_list_def
      ping_threads_def MAX_ITEMS_def BUF_SIZE_def Let_def)

theorem empty_list_first_divides_by_zero_witness:
  "\<exists>c. bp_config_of [''a'' \<mapsto> [], ''b'' \<mapsto> host_file [''10.0.0.1'']]
      [(CHR ''i'', ''eth0''), (CHR ''f'', ''a''), (CHR ''f'', ''b'')] = Some c \<and>
    length (p_hosts c) = 1 \<and> ping_threads c = None"
  by (rule empty_list_first_divides_by_zero [where nm = "''10.0.0.1''"]) (simp_all add: host_names_ok_def)

section \<open>Lost hosts\<close>

text \<open>
  The two halves of \<open>send_ping_wrapper\<close> in the main thread, and a reply in the thread of the
  socket, as steps: \<open>Some i\<close> says that the main thread is in \<open>send\<close> for host \<open>i\<close>.
\<close>

inductive bp_step :: "host list \<times> nat option \<Rightarrow> host list \<times> nat option \<Rightarrow> bool" where
  expire: "i < length es \<Longrightarrow> expired ts (es ! i) \<Longrightarrow>
    bp_step (es, None) (es[i := bp_send_begin tm (bp_account ts (es ! i))], Some i)"
| returns: "bp_step (es, Some i) (es[i := bp_send_end ret (es ! i)], None)"
| reply: "i < length es \<Longrightarrow> bp_handle_ping_reply is6 bufsize data now (es ! i) = Some (r, e) \<Longrightarrow>
    bp_step (es, m) (es[i := e], m)"

text \<open>
  What happens to one host, in any order that the two threads allow: its period is over and
  the main thread calls \<open>send\<close>, \<open>send\<close> returns, or a reply is handled with its round trip
  time.
\<close>

datatype host_event = Begin int timeval | Returned int | Answered int

fun on_host :: "host_event \<Rightarrow> host \<Rightarrow> host" where
  "on_host (Begin ts tm) e = bp_send_begin tm (bp_account ts e)"
| "on_host (Returned ret) e = bp_send_end ret e"
| "on_host (Answered rtt) e = got_reply rtt e"

fun is_answer :: "host_event \<Rightarrow> bool" where
  "is_answer (Answered rtt) = True"
| "is_answer _ = False"

fun is_sent :: "host_event \<Rightarrow> bool" where
  "is_sent (Returned ret) \<longleftrightarrow> 0 \<le> ret"
| "is_sent _ = False"

fun period_end :: "host_event \<Rightarrow> int option" where
  "period_end (Begin ts tm) = Some ts"
| "period_end _ = None"

text \<open>Each step of the interleaving is an event of one host, or a reply that is refused.\<close>

lemma bp_step_events:
  assumes "bp_step (es, m) (es', m')"
  shows "es' = es \<or> (\<exists>i ev. es' = es[i := on_host ev (es ! i)])"
  using assms
proof cases
  case (expire i ts tm)
  then show ?thesis by (metis on_host.simps(1))
next
  case (returns i ret)
  then show ?thesis by (metis on_host.simps(2))
next
  case (reply i is6 bufsize data now r e)
  have "e = es ! i \<or> (\<exists>rtt. e = got_reply rtt (es ! i))"
    using reply by (auto simp: bp_handle_ping_reply_def Let_def split: option.splits sum.splits if_splits)
  then show ?thesis using reply(1) by (metis list_update_id on_host.simps(3))
qed

text \<open>
  The events since the last reply, and the ends of the periods among them that follow a
  \<open>send\<close> that has returned since then.
\<close>

definition silent :: "host_event list \<Rightarrow> host_event list" where
  "silent evs = rev (takeWhile (\<lambda>ev. \<not> is_answer ev) (rev evs))"

definition missed :: "host_event list \<Rightarrow> int list" where
  "missed evs = List.map_filter period_end (dropWhile (\<lambda>ev. \<not> is_sent ev) (silent evs))"

lemma silent_snoc: "silent (evs @ [ev]) = (if is_answer ev then [] else silent evs @ [ev])"
  by (simp add: silent_def)

lemma missed_snoc:
  "missed (evs @ [ev]) =
     (if is_answer ev then []
      else missed evs @ (if \<exists>ev \<in> set (silent evs). is_sent ev then List.map_filter period_end [ev] else []))"
proof -
  have f: "List.map_filter period_end (xs @ ys) = List.map_filter period_end xs @ List.map_filter period_end ys" for xs ys
    by (simp add: map_filter_def)
  have e: "is_sent ev \<Longrightarrow> period_end ev = None" by (cases ev) simp_all
  show ?thesis
  proof (cases "\<exists>ev \<in> set (silent evs). is_sent ev")
    case True
    then show ?thesis by (auto simp: missed_def silent_snoc dropWhile_append1 f map_filter_def)
  next
    case False
    then have d: "dropWhile (\<lambda>ev. \<not> is_sent ev) (silent evs) = []" by (simp add: dropWhile_eq_Nil_conv)
    show ?thesis using False e
      by (auto simp: missed_def silent_snoc dropWhile_append d map_filter_def)
  qed
qed

lemma lost_counts:
  assumes "\<And>rtt. Answered rtt \<in> set evs \<Longrightarrow> 0 \<le> rtt \<and> rtt < 2 ^ 31" and "0 \<le> hlatency e" "hlost e = 0"
  shows "(hlatency (fold on_host evs e) < 0 \<longleftrightarrow> (\<exists>ev \<in> set (silent evs). is_sent ev)) \<and>
    hlost (fold on_host evs e) = int (length (missed evs)) \<and>
    (missed evs \<noteq> [] \<longrightarrow> hlost_start (fold on_host evs e) = hd (missed evs))"
  using assms(1)
proof (induction evs rule: rev_induct)
  case Nil
  then show ?case using assms(2,3) by (simp add: silent_def missed_def map_filter_def)
next
  case (snoc ev evs)
  have IH: "hlatency (fold on_host evs e) < 0 \<longleftrightarrow> (\<exists>ev \<in> set (silent evs). is_sent ev)"
    "hlost (fold on_host evs e) = int (length (missed evs))"
    "missed evs \<noteq> [] \<Longrightarrow> hlost_start (fold on_host evs e) = hd (missed evs)"
    using snoc by auto
  show ?case
  proof (cases ev)
    case (Answered rtt)
    then show ?thesis using snoc.prems [of rtt]
      by (simp add: got_reply_def int_of_double_def silent_snoc missed_snoc)
  next
    case (Begin ts tm)
    then show ?thesis using IH
      by (auto simp: silent_snoc missed_snoc map_filter_def bp_account_def bp_send_begin_def Let_def hd_append)
  next
    case (Returned ret)
    then show ?thesis using IH
      by (auto simp: silent_snoc missed_snoc map_filter_def bp_send_end_def)
  qed
qed

text \<open>C24. For one host of batchping.c and every order of its events (the end of a period
  with the call of send, the return of send, a reply), its counter of losses is the
  number of periods that have ended since its last reply, counted from the first
  return of a successful send after that reply, and lost_start is the end of the first
  of them. A reply that is handled before send has returned does not count for that
  packet (PingRun.early_reply_counts_as_lost). Round trip times are between 0 and 2^31
  microseconds.\<close>

theorem lost_counts_silence:
  assumes "\<And>rtt. Answered rtt \<in> set evs \<Longrightarrow> 0 \<le> rtt \<and> rtt < 2 ^ 31"
  shows "hlost (fold on_host evs (bp_start ts k e)) = int (length (missed evs)) \<and>
    (missed evs \<noteq> [] \<longrightarrow> hlost_start (fold on_host evs (bp_start ts k e)) = hd (missed evs))"
  using lost_counts [where e = "bp_start ts k e", OF assms] by (simp add: bp_start_def)

text \<open>The second packet is answered before its \<open>send\<close> returns, so its period counts, too.\<close>

theorem lost_counts_silence_witness:
  "hlost (fold on_host [Begin 1 (0, 0), Returned 8, Answered 5, Begin 2 (0, 0), Answered 6, Returned 8,
      Begin 3 (0, 0), Returned 8, Begin 4 (0, 0), Returned 8] (bp_start 0 0 sample_host)) = 2" (is "hlost (fold on_host ?evs _) = 2")
proof -
  have r: "\<And>rtt. Answered rtt \<in> set ?evs \<Longrightarrow> 0 \<le> rtt \<and> rtt < 2 ^ 31" by auto
  have "missed ?evs = [3, 4]" by (simp add: missed_def silent_def map_filter_def)
  then show ?thesis using lost_counts_silence [of ?evs 0 0 sample_host, OF r] by (simp del: fold_simps fold.simps)
qed

text \<open>A turn gives each host whose period is over the two events, and reports those with a loss.\<close>

lemma bp_scan_hosts:
  "bp_scan is6 pid bufsize ts net i es = Some (es', pkts, nlost) \<Longrightarrow>
    length es' = length es \<and> nlost = int (length (filter (\<lambda>e. 0 < hlost e) es')) \<and>
    (\<forall>j < length es. es' ! j = (if expired ts (es ! j)
       then on_host (Returned (snd (net (i + j)))) (on_host (Begin ts (fst (net (i + j)))) (es ! j)) else es ! j))"
proof (induction es arbitrary: i es' pkts nlost)
  case (Cons e es)
  from Cons.prems obtain e1 p1 es2 p2 n2 where
    e1: "e1 = (if expired ts e then on_host (Returned (snd (net i))) (on_host (Begin ts (fst (net i))) e) else e)"
    and r: "bp_scan is6 pid bufsize ts net (i + 1) es = Some (es2, p2, n2)"
    and eq: "es' = e1 # es2" "nlost = (if hlost e1 > 0 then 1 else 0) + n2"
    by (auto simp: bind_eq_Some_conv bp_send_ping_wrapper_def split: if_splits)
  show ?case
  proof (intro conjI allI impI)
    fix j assume "j < length (e # es)"
    then show "es' ! j = (if expired ts ((e # es) ! j)
        then on_host (Returned (snd (net (i + j)))) (on_host (Begin ts (fst (net (i + j)))) ((e # es) ! j)) else (e # es) ! j)"
      using Cons.IH [OF r] e1 eq(1) by (cases j) (auto simp del: on_host.simps)
  qed (use Cons.IH [OF r] eq in auto)
qed simp

text \<open>
  A reply that is handled before \<open>send\<close> has returned is overwritten: the host answered its
  only packet and is counted as lost at the end of the period.
\<close>

theorem early_reply_counts_as_lost:
  assumes "i < length es" "expired ts (es ! i)" "e1 = bp_send_begin tm (bp_account ts (es ! i))"
    and "bp_handle_ping_reply is6 n data now e1 = Some (r, got_reply rtt e1)" "0 \<le> (ret :: int)"
    and "time_ms tm + BASEPRD < ts'"
  shows "\<exists>e3 e4. bp_step (es, None) (es[i := e1], Some i) \<and>
    bp_step (es[i := e1], Some i) (es[i := got_reply rtt e1], Some i) \<and>
    bp_step (es[i := got_reply rtt e1], Some i) (es[i := e3], None) \<and>
    bp_step (es[i := e3], None) (es[i := e4], Some i) \<and> hlost e4 = 1 \<and> hlost_start e4 = ts'"
proof -
  define e3 where "e3 = bp_send_end ret (got_reply rtt e1)"
  define e4 where "e4 = bp_send_begin tm (bp_account ts' e3)"
  have "bp_step (es, None) (es[i := e1], Some i)"
    using bp_step.expire [OF assms(1,2), of tm] assms(3) by simp
  moreover have "bp_step (es[i := e1], Some i) (es[i := got_reply rtt e1], Some i)"
    using bp_step.reply [of i "es[i := e1]" is6 n data now r "got_reply rtt e1" "Some i"] assms(1,4) by simp
  moreover have "bp_step (es[i := got_reply rtt e1], Some i) (es[i := e3], None)"
    using bp_step.returns [of "es[i := got_reply rtt e1]" i ret] assms(1) by (simp add: e3_def)
  moreover have "bp_step (es[i := e3], None) (es[i := e4], Some i)"
    using bp_step.expire [of i "es[i := e3]" ts' tm] assms
    by (simp add: e4_def e3_def expired_def bp_send_end_def got_reply_def bp_send_begin_def)
  moreover have "hlost e4 = 1 \<and> hlost_start e4 = ts'"
    using assms(5) by (simp add: e4_def e3_def bp_send_end_def bp_account_def got_reply_def bp_send_begin_def Let_def)
  ultimately show ?thesis by blast
qed

theorem early_reply_counts_as_lost_witness:
  "\<exists>e1 e2 e3 e4. bp_step ([sample_host], None) ([e1], Some 0) \<and> bp_step ([e1], Some 0) ([e2], Some 0) \<and>
    bp_step ([e2], Some 0) ([e3], None) \<and> bp_step ([e3], None) ([e4], Some 0) \<and>
    hlatency e2 = 3 \<and> hlost e4 = 1"
proof -
  obtain pkt where p: "ping_packet 7 0 (10, 2) [] 64 = Some pkt" "length pkt = 64"
    using ping_packet_ok [of 64 "[]" 7 0 "(10, 2)"] by (auto simp: BUF_SIZE_def)
  define e1 where "e1 = bp_send_begin (10, 2) (bp_account 10000 sample_host)"
  have "rtt_of (10, 5) (10, 2) = 3" by (simp add: rtt_of_def)
  then have "bp_handle_ping_reply False 64 (sample_header 64 @ answer pkt) (10, 5) e1 = Some (84, got_reply 3 e1)"
    using bp_credits [OF p(1), of "sample_header 64" "answer pkt" "(10, 5)" e1] sample_header_ok [of 64]
      echo_reply_answer [of pkt] p(2) by (simp add: BUF_SIZE_def)
  then have "\<exists>e3 e4. bp_step ([sample_host], None) ([sample_host][0 := e1], Some 0) \<and>
    bp_step ([sample_host][0 := e1], Some 0) ([sample_host][0 := got_reply 3 e1], Some 0) \<and>
    bp_step ([sample_host][0 := got_reply 3 e1], Some 0) ([sample_host][0 := e3], None) \<and>
    bp_step ([sample_host][0 := e3], None) ([sample_host][0 := e4], Some 0) \<and> hlost e4 = 1 \<and> hlost_start e4 = 20000"
    by (intro early_reply_counts_as_lost [where ret = 64 and ts = 10000 and tm = "(10, 2)"])
      (simp_all add: e1_def expired_def sample_host_def new_host_def BASEPRD_def time_ms_def c_div_def)
  moreover have "hlatency (got_reply 3 e1) = 3" by (simp add: got_reply_def int_of_double_def)
  ultimately show ?thesis by auto
qed

section \<open>The result of liveping.c\<close>

definition ids_ok :: "host list \<Rightarrow> bool" where
  "ids_ok es \<longleftrightarrow> (\<forall>j < length es. hid (es ! j) = int j)"

lemma got_reply_fields [simp]:
  "hname (got_reply rtt e) = hname e" "hid (got_reply rtt e) = hid e"
  "hlatency (got_reply rtt e) = -1 \<longleftrightarrow> rtt = -1"
  by (auto simp: got_reply_def int_of_double_def)

lemma ids_ok_upd: "ids_ok es \<Longrightarrow> ids_ok (es[i := got_reply rtt (es ! i)])"
  by (cases "i < length es") (auto simp: ids_ok_def nth_list_update)

lemma names_upd: "map hname (es[i := got_reply rtt (es ! i)]) = map hname es"
  by (cases "i < length es") (auto intro!: nth_equalityI simp: nth_list_update)

lemma lp_scan_hosts:
  "lp_scan is6 pid n net i es = Some (es', pkts) \<Longrightarrow>
    map hname es' = map hname es \<and> map hid es' = map hid es \<and>
    (\<forall>j < length es. hlatency (es ! j) \<noteq> -1 \<longrightarrow> es' ! j = es ! j) \<and>
    (\<forall>j < length es. hlatency (es ! j) = -1 \<longrightarrow> (\<exists>pkt. (i + j, pkt) \<in> set pkts)) \<and>
    (\<forall>(k, pkt) \<in> set pkts. i \<le> k \<and> k < i + length es \<and>
       (\<exists>e'. lp_send_ping_wrapper is6 pid n (fst (net k)) (snd (net k)) (es ! (k - i)) = Some (e', pkt)))"
proof (induction es arbitrary: i es' pkts)
  case (Cons e es)
  from Cons.prems obtain e1 p1 es2 p2 where
    e1: "if hlatency e = -1 then \<exists>pkt. p1 = [(i, pkt)] \<and>
          lp_send_ping_wrapper is6 pid n (fst (net i)) (snd (net i)) e = Some (e1, pkt) else e1 = e \<and> p1 = []"
    and r: "lp_scan is6 pid n net (i + 1) es = Some (es2, p2)" and eq: "es' = e1 # es2" "pkts = p1 @ p2"
    by (auto simp: bind_eq_Some_conv split: if_splits)
  note IH = Cons.IH [OF r]
  have "hname e1 = hname e \<and> hid e1 = hid e"
    using e1 by (auto simp: lp_send_ping_wrapper_def send_defs Let_def split: if_splits)
  moreover have "es' ! j = (e # es) ! j" if "j < length (e # es)" "hlatency ((e # es) ! j) \<noteq> -1" for j
    using that IH e1 eq by (cases j) auto
  moreover have "\<exists>pkt. (i + j, pkt) \<in> set pkts" if "j < length (e # es)" "hlatency ((e # es) ! j) = -1" for j
    using that IH e1 eq by (cases j) auto
  moreover have "i \<le> k \<and> k < i + length (e # es) \<and>
      (\<exists>e'. lp_send_ping_wrapper is6 pid n (fst (net k)) (snd (net k)) ((e # es) ! (k - i)) = Some (e', pkt))"
    if "(k, pkt) \<in> set pkts" for k pkt
  proof (cases "(k, pkt) \<in> set p1")
    case True
    then show ?thesis using e1 by (auto split: if_splits)
  next
    case False
    then have "(k, pkt) \<in> set p2" using that eq by simp
    then have "i + 1 \<le> k \<and> k < i + 1 + length es \<and>
      (\<exists>e'. lp_send_ping_wrapper is6 pid n (fst (net k)) (snd (net k)) (es ! (k - (i + 1))) = Some (e', pkt))"
      using IH by blast
    moreover then have "(e # es) ! (k - i) = es ! (k - (i + 1))" by (simp add: nth_Cons')
    ultimately show ?thesis by auto
  qed
  ultimately show ?case using IH eq(1) by auto
qed simp

text \<open>
  \<open>answers n net pkts rs\<close>: every received packet is the answer of a host to its packet, and
  every host has answered. An answer after exactly \<open>-1\<close> microseconds would count as none.
\<close>

definition answer_for :: "nat \<Rightarrow> (nat \<Rightarrow> timeval \<times> int) \<Rightarrow> nat \<times> bytes \<Rightarrow> bytes \<times> timeval \<Rightarrow> bool" where
  "answer_for n net p d \<longleftrightarrow>
     (\<exists>hdr r. fst d = hdr @ r \<and> ip_header hdr n \<and> echo_reply (snd p) r \<and> rtt_of (snd d) (fst (net (fst p))) \<noteq> -1)"

definition answers :: "nat \<Rightarrow> (nat \<Rightarrow> timeval \<times> int) \<Rightarrow> (nat \<times> bytes) list \<Rightarrow> (bytes \<times> timeval) list \<Rightarrow> bool" where
  "answers n net pkts rs \<longleftrightarrow>
     (\<forall>d \<in> set rs. \<exists>p \<in> set pkts. answer_for n net p d) \<and> (\<forall>p \<in> set pkts. \<exists>d \<in> set rs. answer_for n net p d)"

lemma lp_replies_answers:
  assumes n: "even n" "28 \<le> n" "n \<le> BUF_SIZE"
    and pkts: "\<And>k pkt. (k, pkt) \<in> set pkts \<Longrightarrow> k < l \<and> k < 2 ^ 31 \<and>
      (\<exists>seq. ping_packet pid seq (fst (net k)) (le_bytes 4 (of_nat k :: u32)) n = Some pkt)"
  shows "(\<And>d. d \<in> set rs \<Longrightarrow> \<exists>p \<in> set pkts. answer_for n net p d) \<Longrightarrow> ids_ok es \<Longrightarrow> length es = l \<Longrightarrow>
    \<exists>es'. lp_replies False n rs es = Some es' \<and> map hname es' = map hname es \<and>
      (\<forall>j < l. hlatency (es ! j) \<noteq> -1 \<or> (\<exists>pkt d. (j, pkt) \<in> set pkts \<and> d \<in> set rs \<and> answer_for n net (j, pkt) d)
        \<longrightarrow> hlatency (es' ! j) \<noteq> -1)"
proof (induction rs arbitrary: es)
  case (Cons d rs)
  obtain data now where d: "d = (data, now)" by (cases d)
  have step: "\<exists>rtt. rtt \<noteq> -1 \<and> lp_handle_ping_reply False n data now es = Some (int (length data), es[k := got_reply rtt (es ! k)])"
    if pk: "(k, pkt) \<in> set pkts" and ans: "answer_for n net (k, pkt) d" for k pkt
  proof -
    obtain hdr r where r: "data = hdr @ r" "ip_header hdr n" "echo_reply pkt r" "rtt_of now (fst (net k)) \<noteq> -1"
      using ans by (auto simp: answer_for_def d)
    obtain seq where p: "ping_packet pid seq (fst (net k)) (le_bytes 4 (of_nat k :: u32)) n = Some pkt" "k < l" "k < 2 ^ 31"
      using pkts [OF pk] by blast
    have "length pkt = n"
      using ping_packet_ok [of n "le_bytes 4 (of_nat k :: u32)" pid seq "fst (net k)"] p(1) n by force
    then have "length data = length hdr + n" using r(1,3) by (simp add: echo_reply_def)
    moreover have "hid (es ! k) = int k" using Cons.prems(2,3) p(2) by (simp add: ids_ok_def)
    ultimately show ?thesis using lp_credits [OF p(1) n r(2,3) _ p(3), of es now] p(2) Cons.prems(3) r(1,4) by auto
  qed
  obtain k pkt where k: "(k, pkt) \<in> set pkts" "answer_for n net (k, pkt) d"
    using Cons.prems(1) [of d] by (metis list.set_intros(1) surj_pair)
  then obtain rtt where rtt: "rtt \<noteq> -1"
    "lp_handle_ping_reply False n data now es = Some (int (length data), es[k := got_reply rtt (es ! k)])"
    using step by blast
  let ?es = "es[k := got_reply rtt (es ! k)]"
  have live: "hlatency (?es ! j) \<noteq> -1" if "j < l" "hlatency (es ! j) \<noteq> -1 \<or> (\<exists>pkt. (j, pkt) \<in> set pkts \<and> answer_for n net (j, pkt) d)" for j
    using that(2)
  proof
    assume "hlatency (es ! j) \<noteq> -1"
    then show ?thesis using rtt(1) that(1) Cons.prems(3) by (cases "k = j") auto
  next
    assume "\<exists>pkt. (j, pkt) \<in> set pkts \<and> answer_for n net (j, pkt) d"
    then obtain rtt' where "rtt' \<noteq> -1" "?es = es[j := got_reply rtt' (es ! j)]" using step rtt(2) by auto
    then show ?thesis using that(1) Cons.prems(3) by simp
  qed
  obtain es' where es': "lp_replies False n rs ?es = Some es'" "map hname es' = map hname ?es"
    "\<forall>j < l. hlatency (?es ! j) \<noteq> -1 \<or> (\<exists>pkt d. (j, pkt) \<in> set pkts \<and> d \<in> set rs \<and> answer_for n net (j, pkt) d)
        \<longrightarrow> hlatency (es' ! j) \<noteq> -1"
    using Cons.IH [OF _ ids_ok_upd [OF Cons.prems(2)], of k rtt] Cons.prems(1,3) by auto
  have "lp_replies False n (d # rs) es = Some es'" using rtt(2) es'(1) by (simp add: d)
  moreover have "map hname es' = map hname es" using es'(2) names_upd by simp
  moreover have "hlatency (es' ! j) \<noteq> -1" if "j < l"
    "hlatency (es ! j) \<noteq> -1 \<or> (\<exists>pkt d'. (j, pkt) \<in> set pkts \<and> d' \<in> set (d # rs) \<and> answer_for n net (j, pkt) d')" for j
    using that live [OF that(1)] es'(3) by (auto simp del: split_paired_Ex split_paired_All)
  ultimately show ?case by blast
qed auto

lemma lp_scan_done: "(\<And>e. e \<in> set es \<Longrightarrow> hlatency e \<noteq> -1) \<Longrightarrow> lp_scan is6 pid n net i es = Some (es, [])"
  by (induction es arbitrary: i) auto

lemma lp_results_done: "(\<And>e. e \<in> set es \<Longrightarrow> hlatency e \<noteq> -1) \<Longrightarrow> lp_results es = (map lp_line es, [])"
  by (simp add: lp_results_def)

text \<open>C22. When every host answers its first packet in the pause after the first turn, in
  any order and with repetitions, liveping ends after the second turn (after the first
  if there are no hosts) with all names in the file of live hosts and no host in the
  other. The conditions: IPv4, an even packet size from 28 to 200, hosts numbered by
  their positions, and no round trip time that is computed as -1, the value of a
  missing reply.\<close>

theorem all_answered_all_live:
  assumes n: "even n" "28 \<le> n" "n \<le> BUF_SIZE" and es: "ids_ok es" "length es < 2 ^ 31"
    and scan: "lp_scan False pid n (net 0) 0 es = Some (es1, pkts)" and "answers n (net 0) pkts (replies 0)"
  shows "\<exists>ok es' k. lp_loop False pid n net replies 0 100 es = Some (es', k) \<and> k = (if pkts = [] then 1 else 2)
    \<and> lp_main False pid n net replies es = Some (ok, []) \<and> map fst ok = map hname es"
proof -
  note h = lp_scan_hosts [OF scan]
  have len: "length es1 = length es" using h by (metis length_map)
  have ids: "ids_ok es1" using es(1) h len unfolding ids_ok_def by (metis nth_map)
  have done_now: "lp_loop False pid n net replies k (Suc m) es' = Some (es', k + 1)"
    if "\<And>e. e \<in> set es' \<Longrightarrow> hlatency e \<noteq> -1" for k m es'
    using lp_scan_done [OF that] by simp
  have hundred: "(100 :: nat) = Suc 99" "(100 :: nat) = Suc (Suc 98)" by simp_all
  obtain es' k where es': "lp_loop False pid n net replies 0 100 es = Some (es', k)"
    "map hname es' = map hname es" "\<And>e. e \<in> set es' \<Longrightarrow> hlatency e \<noteq> -1" "k = (if pkts = [] then 1 else 2)"
  proof (cases "pkts = []")
    case True
    then have live: "\<And>e. e \<in> set es \<Longrightarrow> hlatency e \<noteq> -1" using h by (fastforce simp: in_set_conv_nth)
    then have "lp_loop False pid n net replies 0 100 es = Some (es, 0 + 1)"
      unfolding hundred(1) by (intro done_now)
    then show thesis by (rule that) (use live True in auto)
  next
    case False
    have p: "k < length es \<and> k < 2 ^ 31 \<and>
      (\<exists>seq. ping_packet pid seq (fst (net 0 k)) (le_bytes 4 (of_nat k :: u32)) n = Some pkt)" if pk: "(k, pkt) \<in> set pkts" for k pkt
    proof -
      obtain e' where "k < length es" "lp_send_ping_wrapper False pid n (fst (net 0 k)) (snd (net 0 k)) (es ! k) = Some (e', pkt)"
        using h pk by auto
      then show ?thesis using es unfolding ids_ok_def by (auto simp: lp_send_ping_wrapper_def send_defs Let_def)
    qed
    obtain es2 where es2: "lp_replies False n (replies 0) es1 = Some es2" "map hname es2 = map hname es1"
      "\<forall>j < length es. hlatency (es1 ! j) \<noteq> -1 \<or>
        (\<exists>pkt d. (j, pkt) \<in> set pkts \<and> d \<in> set (replies 0) \<and> answer_for n (net 0) (j, pkt) d) \<longrightarrow> hlatency (es2 ! j) \<noteq> -1"
      using lp_replies_answers [OF n p _ ids len, where rs = "replies 0"] assms(7) unfolding answers_def by blast
    have "hlatency (es2 ! j) \<noteq> -1" if j: "j < length es" for j
    proof (cases "hlatency (es ! j) = -1")
      case True
      then obtain pkt where "(j, pkt) \<in> set pkts" using h j by auto
      then show ?thesis using es2(3) j assms(7) unfolding answers_def by blast
    next
      case False
      then show ?thesis using es2(3) j h by auto
    qed
    then have live: "\<And>e. e \<in> set es2 \<Longrightarrow> hlatency e \<noteq> -1"
      using es2(2) len by (metis in_set_conv_nth length_map)
    have "lp_loop False pid n net replies (0 + 1) (Suc 98) es2 = Some (es2, 0 + 1 + 1)" by (rule done_now [OF live])
    then have "lp_loop False pid n net replies 0 (Suc (Suc 98)) es = Some (es2, 0 + 1 + 1)"
      unfolding lp_loop.simps(2) [of _ _ _ _ _ 0 "Suc 98"] using False scan es2(1) by (simp del: lp_loop.simps)
    then have "lp_loop False pid n net replies 0 100 es = Some (es2, 0 + 1 + 1)" unfolding hundred(2) .
    then show thesis by (rule that) (use es2(2) h live False in auto)
  qed
  have "map fst (map lp_line es') = map hname es" using es'(2) by (simp add: lp_line_def o_def)
  moreover have "lp_main False pid n net replies es = Some (map lp_line es', [])"
    using es'(1) lp_results_done [OF es'(3)] by (simp add: lp_main_def)
  ultimately show ?thesis using es'(1,4) by blast
qed

text \<open>The loop makes at most 100 turns, and it only stops earlier when every host has replied.\<close>

lemma lp_loop_turns:
  "lp_loop is6 pid n net replies k m es = Some (es', k') \<Longrightarrow>
    k' \<le> k + m \<and> (k' < k + m \<longrightarrow> (\<forall>e \<in> set es'. hlatency e \<noteq> -1))"
proof (induction m arbitrary: k es)
  case (Suc m)
  from Suc.prems obtain es1 pkts where s: "lp_scan is6 pid n (net k) 0 es = Some (es1, pkts)"
    and r: "if pkts = [] then es' = es1 \<and> k' = k + 1
      else \<exists>es2. lp_loop is6 pid n net replies (k + 1) m es2 = Some (es', k')"
    by (auto simp: bind_eq_Some_conv split: if_splits) metis+
  show ?case
  proof (cases "pkts = []")
    case True
    note h = lp_scan_hosts [OF s]
    then have "\<And>j. j < length es \<Longrightarrow> hlatency (es ! j) \<noteq> -1" using True by force
    then have "es1 = es" using lp_scan_done [of es is6 pid n "net k" 0] s by (auto simp: in_set_conv_nth)
    then show ?thesis using True r \<open>\<And>j. j < length es \<Longrightarrow> hlatency (es ! j) \<noteq> -1\<close> by (auto simp: in_set_conv_nth)
  next
    case False
    then show ?thesis using r Suc.IH [of "k + 1"] by auto
  qed
qed simp

theorem liveping_ends:
  assumes "lp_loop is6 pid n net replies 0 100 es = Some (es', k)"
  shows "k \<le> 100 \<and> (k < 100 \<longrightarrow> snd (lp_results es') = [])"
  using lp_loop_turns [OF assms] by (simp add: lp_results_def filter_empty_conv)

theorem all_answered_all_live_witness:
  "\<exists>d ok es'. lp_loop False 7 64 (\<lambda>k i. ((1, 2), 64)) (\<lambda>k. [d]) 0 100 [sample_host] = Some (es', 2)
     \<and> lp_main False 7 64 (\<lambda>k i. ((1, 2), 64)) (\<lambda>k. [d]) [sample_host] = Some (ok, []) \<and> map fst ok = [''10.0.0.1'']"
proof -
  obtain pkt where p: "ping_packet 7 0 (1, 2) (le_bytes 4 (0 :: u32)) 64 = Some pkt" "length pkt = 64"
    using ping_packet_ok [of 64 "le_bytes 4 (0 :: u32)" 7 0 "(1, 2)"] by (auto simp: BUF_SIZE_def)
  let ?d = "(sample_header 64 @ answer pkt, (1, 5) :: timeval)"
  obtain es1 where scan: "lp_scan False 7 64 (\<lambda>i. ((1, 2), 64)) 0 [sample_host] = Some (es1, [(0, pkt)])"
    using p(1) by (simp add: lp_send_ping_wrapper_def send_defs sample_host_def new_host_def)
  have "answer_for 64 (\<lambda>i. ((1, 2), 64)) (0, pkt) ?d"
    using sample_header_ok [of 64] echo_reply_answer [of pkt] p(2)
    by (auto simp: answer_for_def BUF_SIZE_def rtt_of_def)
  then have "answers 64 (\<lambda>i. ((1, 2), 64)) [(0, pkt)] [?d]" by (simp add: answers_def)
  then show ?thesis
    using all_answered_all_live [where net = "\<lambda>k i. ((1, 2), 64)" and replies = "\<lambda>k. [?d]", OF _ _ _ _ _ scan]
    by (fastforce simp: BUF_SIZE_def ids_ok_def sample_host_def new_host_def)
qed

theorem liveping_ends_witness:
  "snd (lp_results [sample_host\<lparr>hlatency := 3\<rparr>]) = []"
  using liveping_ends [of False 7 64 "\<lambda>k i. ((1, 2), 64)" "\<lambda>k. []" "[sample_host\<lparr>hlatency := 3\<rparr>]"
      "[sample_host\<lparr>hlatency := 3\<rparr>]" 1]
  by (simp add: numeral_eq_Suc)

end
