(* ===== verification/UdpFwd.thy ===== *)
theory UdpFwd
  imports LogServer
begin

text \<open>
  The builds of the log server and the collector with \<open>UDP_FORWARD_RT\<close>, which send every
  segment that they read to a local UDP port, and the programs that listen there and send
  the lines on: src/udps_fwd.c, src/udps_enhanced_fwd.c and src/udps_ipmi.c.

  A datagram is a string. A result \<open>None\<close> is an access outside an array or the use of bytes
  that were never written.
\<close>

section \<open>The sender\<close>

definition chars_of :: "bytes \<Rightarrow> string" where
  "chars_of bs = map (\<lambda>b. char_of (unat b)) bs"

text \<open>\<open>%08x\<close> and \<open>%08X\<close>.\<close>

definition hex_digit :: "nat \<Rightarrow> nat \<Rightarrow> char" where
  "hex_digit base n = char_of (if n < 10 then 48 + n else base + (n - 10))"

definition hex8 :: "nat \<Rightarrow> u32 \<Rightarrow> string" where
  "hex8 base w = map (\<lambda>i. hex_digit base (unat w div 16 ^ i mod 16)) [7, 6, 5, 4, 3, 2, 1, 0]"

definition raw_datagram :: "u32 \<Rightarrow> bytes \<Rightarrow> string" where
  "raw_datagram a buf = hex8 97 a @ '' '' @ chars_of buf"

text \<open>
  A peer is the time of the last attempt and the descriptor. \<open>connect_udp_peer\<close> of the log
  server waits ten seconds between two attempts; \<open>rc\<close> is the result of \<open>socket\<close>.
\<close>

definition connect_udp_peer :: "int \<Rightarrow> int \<Rightarrow> int \<times> int \<Rightarrow> int \<times> (int \<times> int)" where
  "connect_udp_peer now rc peer =
     (if now < fst peer + 10 then (1, peer)
      else if rc < 0 then (1, (now, -1))
      else (0, (now, rc)))"

definition send_to_udp_peer :: "int \<Rightarrow> int \<Rightarrow> string \<Rightarrow> int \<times> int \<Rightarrow> string option \<times> (int \<times> int)" where
  "send_to_udp_peer now rc msg peer =
     (if snd peer < 1 then
        (case connect_udp_peer now rc peer of (r, peer) \<Rightarrow> if r \<noteq> 0 then (None, peer) else (Some msg, peer))
      else (Some msg, peer))"

text \<open>\<open>drain_client\<close> of this build, with the datagram that it sends.\<close>

definition drain_client_udp ::
  "(nat \<Rightarrow> bool) \<Rightarrow> int \<Rightarrow> int \<Rightarrow> int \<Rightarrow> read_result \<Rightarrow> session \<Rightarrow> gstatistic \<Rightarrow> int \<times> int \<Rightarrow>
    (session outcome \<times> gstatistic) \<times> string option \<times> (int \<times> int)" where
  "drain_client_udp calloc_ok epoll_rc now rc r s g peer =
     (drain_client calloc_ok epoll_rc r s g,
      (if slot_idx s < 0 \<or> buf_full_stuck s then (None, peer)
       else case r of
         Read_data buf \<Rightarrow> send_to_udp_peer now rc (raw_datagram (ip s) buf) peer
       | _ \<Rightarrow> (None, peer)))"

definition lc_connect_udp_peer :: "int \<Rightarrow> int \<Rightarrow> int \<times> int \<Rightarrow> int \<times> (int \<times> int)" where
  "lc_connect_udp_peer = connect_udp_peer"

definition lc_send_to_udp_peer :: "int \<Rightarrow> int \<Rightarrow> string \<Rightarrow> int \<times> int \<Rightarrow> string option \<times> (int \<times> int)" where
  "lc_send_to_udp_peer = send_to_udp_peer"

section \<open>The forwarder\<close>

definition MAX_LINE_LEN :: nat where "MAX_LINE_LEN = 4096"
definition BUFSIZE :: nat where "BUFSIZE = 8192"

definition hex_val :: "char \<Rightarrow> nat option" where
  "hex_val c =
     (let n = of_char c in
      if 48 \<le> n \<and> n \<le> 57 then Some (n - 48)
      else if 97 \<le> n \<and> n \<le> 102 then Some (n - 87)
      else if 65 \<le> n \<and> n \<le> 70 then Some (n - 55)
      else None)"

text \<open>\<open>strtol (s, NULL, 16)\<close>, for strings too short to leave the range of \<open>long\<close>.\<close>

definition strip_0x :: "string \<Rightarrow> string" where
  "strip_0x s =
     (case s of
        z # x # c # cs \<Rightarrow>
          if z = CHR ''0'' \<and> (x = CHR ''x'' \<or> x = CHR ''X'') \<and> hex_val c \<noteq> None then c # cs else s
      | _ \<Rightarrow> s)"

definition strtol16 :: "string \<Rightarrow> int" where
  "strtol16 s =
     (let s = dropWhile is_space s;
          (neg, s) = (case s of
             c # cs \<Rightarrow> if c = CHR ''-'' then (True, cs) else if c = CHR ''+'' then (False, cs) else (False, s)
           | [] \<Rightarrow> (False, []));
          n = fold (\<lambda>c acc. acc * 16 + int (the (hex_val c))) (takeWhile (\<lambda>c. hex_val c \<noteq> None) (strip_0x s)) 0
      in if neg then - n else n)"

definition addr_text :: "u32 \<Rightarrow> string" where
  "addr_text a = dec (ip_byte a 3) @ ''.'' @ dec (ip_byte a 2) @ ''.'' @ dec (ip_byte a 1) @ ''.'' @ dec (ip_byte a 0)"

text \<open>
  \<open>snprintf (buf, MAX_LINE_LEN - 1, ...)\<close> and the following \<open>sendto\<close>, whose length is the one that
  \<open>snprintf\<close> returns: that of the whole text, also when it was cut.
\<close>

definition buf_text :: "string \<Rightarrow> string" where
  "buf_text out = take (MAX_LINE_LEN - 2) out"

definition sent_text :: "string \<Rightarrow> string option" where
  "sent_text out =
     (if length out \<le> MAX_LINE_LEN - 2 then Some out
      else if length out = MAX_LINE_LEN - 1 then Some (buf_text out @ [CHR 0x00])
      else None)"

definition fwd_message :: "u32 \<Rightarrow> string \<Rightarrow> string option" where
  "fwd_message a p1 = sent_text (addr_text a @ '' '' @ strlen_cut p1 @ [CHR 0x0A])"

text \<open>
  The loop of \<open>split_and_send\<close>: \<open>cur\<close> is the text from \<open>p1\<close> to \<open>p2\<close>, the second argument the
  rest of the datagram from \<open>p2\<close> on.
\<close>

fun fwd_loop :: "u32 \<Rightarrow> string \<Rightarrow> string \<Rightarrow> string list option" where
  "fwd_loop a cur [] = Some []"
| "fwd_loop a cur (c # cs) =
     (if c \<noteq> CHR 0x0A then fwd_loop a (cur @ [c]) cs
      else if length cur < 20 then fwd_loop a [] cs
      else if cur ! 4 \<noteq> CHR ''-'' \<or> cur ! 7 \<noteq> CHR ''-'' then fwd_loop a [] cs
      else Option.bind (fwd_message a cur) (\<lambda>m. map_option ((#) m) (fwd_loop a [] cs)))"

definition datagram_ip :: "string \<Rightarrow> u32" where
  "datagram_ip msg = of_int (strtol16 (strlen_cut (take 8 msg)))"

text \<open>The messages that each channel gets; their number is the result.\<close>

definition split_and_send :: "string \<Rightarrow> string list option" where
  "split_and_send msg =
     (if length msg < 10 \<or> msg ! 8 \<noteq> CHR '' '' then Some []
      else
        (let a = datagram_ip msg in
         if a = 0 then Some [] else fwd_loop a [] (drop 9 msg)))"

text \<open>One datagram: \<open>recvfrom\<close> fills at most the whole buffer, then a zero byte is stored behind it.\<close>

definition fwd_receive :: "string \<Rightarrow> string list option" where
  "fwd_receive d =
     (let n = min (length d) BUFSIZE in
      if n \<ge> BUFSIZE then None else split_and_send (take n d))"

text \<open>
  \<open>send_to_udp_peer\<close> of the forwarders: there is no pause between two attempts. \<open>rcs\<close> are the
  results of \<open>socket\<close>, one for each channel.
\<close>

definition fwd_connect_udp_peer :: "int \<Rightarrow> int \<Rightarrow> int \<times> int" where
  "fwd_connect_udp_peer rc fd = (if rc < 0 then (1, -1) else (0, rc))"

definition fwd_send_to_udp_peer :: "int \<Rightarrow> string \<Rightarrow> int \<Rightarrow> string option \<times> int" where
  "fwd_send_to_udp_peer rc msg fd =
     (if fd < 1 then
        (case fwd_connect_udp_peer rc fd of (r, fd) \<Rightarrow> if r \<noteq> 0 then (None, fd) else (Some msg, fd))
      else (Some msg, fd))"

definition fwd_channels :: "int list \<Rightarrow> string \<Rightarrow> int list \<Rightarrow> (string option \<times> int) list" where
  "fwd_channels rcs msg fds = map2 (\<lambda>rc fd. fwd_send_to_udp_peer rc msg fd) rcs fds"

text \<open>
  The command line of src/udps_fwd.c after the program's name: the port and pairs of a name
  and a port. \<open>resolve\<close> is \<open>lookup_host\<close>; \<open>None\<close> is the exit with the usage text or an access
  behind the arguments or the sixteen channels.
\<close>

definition NR_MAX_THREADS :: nat where "NR_MAX_THREADS = 16"

fun fwd_pairs :: "(string \<Rightarrow> string) \<Rightarrow> string list \<Rightarrow> (string \<times> int) list option" where
  "fwd_pairs resolve [] = Some []"
| "fwd_pairs resolve [h] = None"
| "fwd_pairs resolve (h # p # as) = map_option ((#) (resolve h, atoi p)) (fwd_pairs resolve as)"

definition fwd_args :: "(string \<Rightarrow> string) \<Rightarrow> string list \<Rightarrow> (int \<times> (string \<times> int) list) option" where
  "fwd_args resolve as =
     (let argc = length as + 1 in
      if argc < 4 \<and> argc mod 2 \<noteq> 0 then None
      else case as of
        [] \<Rightarrow> None
      | prt # rest \<Rightarrow>
          (case fwd_pairs resolve rest of
             None \<Rightarrow> None
           | Some ps \<Rightarrow> if length ps > NR_MAX_THREADS then None else Some (atoi prt, ps)))"

section \<open>The enhanced forwarder\<close>

text \<open>
  With \<open>MULTI_SPLIT\<close> the text of \<open>split_and_send\<close> is the same. With \<open>ADD_IPV4_TAG\<close> the datagram
  is received behind nine bytes for the address of its sender, and sent as one message.
\<close>

definition ef_split_and_send :: "string \<Rightarrow> string list option" where
  "ef_split_and_send = split_and_send"

definition ef_connect_udp_peer :: "int \<Rightarrow> int \<Rightarrow> int \<times> int" where
  "ef_connect_udp_peer = fwd_connect_udp_peer"

definition ef_send_to_udp_peer :: "int \<Rightarrow> string \<Rightarrow> int \<Rightarrow> string option \<times> int" where
  "ef_send_to_udp_peer = fwd_send_to_udp_peer"

definition tag_message :: "string \<Rightarrow> string list option" where
  "tag_message msg =
     (let a = datagram_ip msg in
      if a = 0 then Some [] else map_option (\<lambda>m. [m]) (fwd_message a (drop 9 msg)))"

definition tag_receive :: "u32 \<Rightarrow> string \<Rightarrow> string list option" where
  "tag_receive addr d =
     (let n = min (length d) BUFSIZE in
      if n + 9 > BUFSIZE then None
      else if n = 0 then Some []
      else if n + 9 \<ge> BUFSIZE then None
      else tag_message (hex8 65 addr @ '' '' @ take n d))"

text \<open>
  Without these macros the message is the local array \<open>buf\<close>, which nothing has written:
  \<open>stale\<close> is what is in it.
\<close>

definition plain_message :: "string \<Rightarrow> string \<Rightarrow> string list option" where
  "plain_message stale msg = (if length msg > MAX_LINE_LEN then None else Some [take (length msg) stale])"

definition plain_receive :: "string \<Rightarrow> string \<Rightarrow> string list option" where
  "plain_receive stale d =
     (let n = min (length d) BUFSIZE in
      if n = 0 then Some [] else if n \<ge> BUFSIZE then None else plain_message stale (take n d))"

definition ef_args :: "(string \<Rightarrow> string) \<Rightarrow> string list \<Rightarrow> (string \<times> int \<times> (string \<times> int) list) option" where
  "ef_args resolve as =
     (let argc = length as + 1 in
      if argc < 5 \<and> argc mod 2 \<noteq> 1 then None
      else case as of
        lcl # prt # rest \<Rightarrow>
          (case fwd_pairs resolve rest of
             None \<Rightarrow> None
           | Some ps \<Rightarrow> if length ps > NR_MAX_THREADS then None else Some (lcl, atoi prt, ps))
      | _ \<Rightarrow> None)"

section \<open>The forwarder of IPMI logs\<close>

definition MAX_BACK_SEC :: int where "MAX_BACK_SEC = 15 * 60"
definition IPMI_BUFSIZE :: nat where "IPMI_BUFSIZE = 2 * 1024 * 1024"

text \<open>The peers and the command line have the text of src/udps_fwd.c.\<close>

definition ipmi_connect_udp_peer :: "int \<Rightarrow> int \<Rightarrow> int \<times> int" where
  "ipmi_connect_udp_peer = fwd_connect_udp_peer"

definition ipmi_send_to_udp_peer :: "int \<Rightarrow> string \<Rightarrow> int \<Rightarrow> string option \<times> int" where
  "ipmi_send_to_udp_peer = fwd_send_to_udp_peer"

definition ipmi_args :: "(string \<Rightarrow> string) \<Rightarrow> string list \<Rightarrow> (int \<times> (string \<times> int) list) option" where
  "ipmi_args = fwd_args"

text \<open>
  \<open>get_utc\<close>: the text from the first to the third bar goes to \<open>strptime\<close> and \<open>mktime\<close>. Their
  result \<open>utc\<close> depends on the time zone; \<open>None\<close> is a text that does not match.
\<close>

definition bar_field :: "string \<Rightarrow> (string \<times> string) option" where
  "bar_field s =
     (case dropWhile (\<lambda>c. c \<noteq> CHR 0x0A \<and> c \<noteq> CHR ''|'') s of
        c # cs \<Rightarrow>
          if c = CHR ''|'' then Some (takeWhile (\<lambda>c. c \<noteq> CHR 0x0A \<and> c \<noteq> CHR ''|'') s, cs) else None
      | [] \<Rightarrow> None)"

definition get_utc :: "(string \<Rightarrow> int option) \<Rightarrow> string \<Rightarrow> int" where
  "get_utc utc head =
     (case bar_field head of
        None \<Rightarrow> -1
      | Some (f0, s) \<Rightarrow>
          (case bar_field s of
             None \<Rightarrow> -1
           | Some (f1, s) \<Rightarrow>
               (case bar_field s of
                  None \<Rightarrow> -1
                | Some (f2, s) \<Rightarrow>
                    (case utc (''|'' @ f1 @ ''|'' @ f2) of None \<Rightarrow> -1 | Some t \<Rightarrow> t))))"

fun strstr :: "string \<Rightarrow> string \<Rightarrow> bool" where
  "strstr pat [] \<longleftrightarrow> pat = []"
| "strstr pat (c # cs) \<longleftrightarrow> take (length pat) (c # cs) = pat \<or> strstr pat cs"

definition too_old :: "int \<Rightarrow> int \<Rightarrow> bool" where
  "too_old ctime t \<longleftrightarrow>
     (let delta = ctime - t in
      (delta > MAX_BACK_SEC \<or> delta < - MAX_BACK_SEC) \<and>
      \<not> (delta - 3600 * 8 < MAX_BACK_SEC \<and> delta - 3600 * 8 > - MAX_BACK_SEC))"

definition ipmi_noise :: "string list" where
  "ipmi_noise = ['' | Microcontroller BMC Time Hopping | '', '' | Event Logging Disabled'', '' | Timestamp Clock Sync'',
     '' | Session Audit '', '' | Lower Non-critical going low '']"

text \<open>
  The loop, with the kept part of a line: it is used up by a line with a good time. The
  result has the messages, what is kept and the text from \<open>p1\<close> to the end.
\<close>

fun ipmi_loop ::
  "(string \<Rightarrow> int option) \<Rightarrow> int \<Rightarrow> u32 \<Rightarrow> string \<Rightarrow> string \<Rightarrow> string \<Rightarrow> (string list \<times> string \<times> string) option"
where
  "ipmi_loop utc ctime a partial cur [] = Some ([], partial, cur)"
| "ipmi_loop utc ctime a partial cur (c # cs) =
     (if c \<noteq> CHR 0x0A then ipmi_loop utc ctime a partial (cur @ [c]) cs
      else
        (let t = get_utc utc (take 62 (partial @ strlen_cut cur)) in
         if t > 1 \<and> \<not> too_old ctime t then
           (let out = addr_text a @ '' | '' @ partial @ strlen_cut cur @ [CHR 0x0A] in
            if \<exists>pat \<in> set ipmi_noise. strstr pat (buf_text out) then ipmi_loop utc ctime a [] [] cs
            else
              Option.bind (sent_text out) (\<lambda>m.
                map_option (\<lambda>(ms, r). (m # ms, r)) (ipmi_loop utc ctime a [] [] cs)))
         else ipmi_loop utc ctime a partial [] cs))"

definition ipmi_split_and_send ::
  "(string \<Rightarrow> int option) \<Rightarrow> int \<Rightarrow> string \<Rightarrow> string \<Rightarrow> (string list \<times> string) option" where
  "ipmi_split_and_send utc ctime partial msg =
     (if length msg < 10 \<or> msg ! 8 \<noteq> CHR '' '' then Some ([], partial)
      else
        (let a = datagram_ip msg in
         if a = 0 then Some ([], partial)
         else
           map_option (\<lambda>(ms, partial, cur).
               (ms, if last msg \<noteq> CHR 0x0A \<and> last msg \<noteq> CHR 0x00 then take (MAX_LINE_LEN - 1) (strlen_cut cur) else []))
             (ipmi_loop utc ctime a partial [] (drop 9 msg))))"

fun ipmi_receive ::
  "(string \<Rightarrow> int option) \<Rightarrow> int \<Rightarrow> string \<Rightarrow> string list \<Rightarrow> (string list \<times> string) option" where
  "ipmi_receive utc ctime partial [] = Some ([], partial)"
| "ipmi_receive utc ctime partial (d # ds) =
     Option.bind (ipmi_split_and_send utc ctime partial (take (IPMI_BUFSIZE - 1) d)) (\<lambda>(ms, partial).
       map_option (\<lambda>(ms', p). (ms @ ms', p)) (ipmi_receive utc ctime partial ds))"

section \<open>The address of a datagram\<close>

lemma hex_val_digit: "n < 16 \<Longrightarrow> base = 97 \<or> base = 65 \<Longrightarrow> hex_val (hex_digit base n) = Some n"
  by (cases "n < 10") (auto simp: hex_val_def hex_digit_def of_char_of Let_def)

lemma hex_digit_chars:
  assumes "n < 16" "base = 97 \<or> base = 65"
  shows "\<not> is_space (hex_digit base n)" "hex_digit base n \<noteq> CHR ''-''" "hex_digit base n \<noteq> CHR ''+''"
    "hex_digit base n \<noteq> CHR ''x''" "hex_digit base n \<noteq> CHR ''X''" "hex_digit base n \<noteq> CHR 0x00"
proof -
  have c: "of_char (hex_digit base n) = (if n < 10 then 48 + n else base + (n - 10))"
    using assms by (auto simp: hex_digit_def of_char_of)
  show "\<not> is_space (hex_digit base n)"
  proof
    assume "is_space (hex_digit base n)"
    then have "(of_char (hex_digit base n) :: nat) = 32 \<or> (of_char (hex_digit base n) :: nat) \<le> 13"
      by (auto simp: is_space_def)
    then show False using c assms by (auto split: if_splits)
  qed
  have neq: "hex_digit base n \<noteq> ch" if "(of_char ch :: nat) \<noteq> (if n < 10 then 48 + n else base + (n - 10))" for ch
    using that c by auto
  show "hex_digit base n \<noteq> CHR ''-''" by (rule neq) (use assms in auto)
  show "hex_digit base n \<noteq> CHR ''+''" by (rule neq) (use assms in auto)
  show "hex_digit base n \<noteq> CHR ''x''" by (rule neq) (use assms in auto)
  show "hex_digit base n \<noteq> CHR ''X''" by (rule neq) (use assms in auto)
  show "hex_digit base n \<noteq> CHR 0x00" by (rule neq) (use assms in auto)
qed

definition hex_text :: "nat \<Rightarrow> string \<Rightarrow> bool" where
  "hex_text base s \<longleftrightarrow> (\<forall>c \<in> set s. \<exists>n < 16. c = hex_digit base n)"

lemma strip_0x_hex: "hex_text base s \<Longrightarrow> base = 97 \<or> base = 65 \<Longrightarrow> strip_0x s = s"
proof (cases s rule: remdups_adj.cases)
  case (3 z x cs)
  assume "hex_text base s" "base = 97 \<or> base = 65"
  moreover then obtain n where "n < 16" "x = hex_digit base n" unfolding 3 hex_text_def by auto
  ultimately have "x \<noteq> CHR ''x'' \<and> x \<noteq> CHR ''X''" using hex_digit_chars(4,5) [of n base] by simp
  then show ?thesis by (auto simp: strip_0x_def 3 split: list.splits)
qed (auto simp: strip_0x_def)

lemma strtol16_hex:
  assumes "hex_text base s" "base = 97 \<or> base = 65"
  shows "strtol16 s = fold (\<lambda>c acc. acc * 16 + int (the (hex_val c))) s 0"
proof -
  have d: "hex_val c \<noteq> None" "\<not> is_space c" "c \<noteq> CHR ''-''" "c \<noteq> CHR ''+''" if "c \<in> set s" for c
    using that assms hex_digit_chars [OF _ assms(2)] hex_val_digit [OF _ assms(2)] unfolding hex_text_def by fastforce+
  have sp: "dropWhile is_space s = s" using d(2) by (cases s) auto
  have tw: "takeWhile (\<lambda>c. hex_val c \<noteq> None) s = s" using d(1) by (simp add: takeWhile_eq_all_conv)
  have sg: "(case s of c # cs \<Rightarrow> if c = CHR ''-'' then (True, cs) else if c = CHR ''+'' then (False, cs) else (False, s)
      | [] \<Rightarrow> (False, [])) = (False, s)" using d(3,4) by (cases s) auto
  show ?thesis unfolding strtol16_def by (simp only: Let_def sp sg prod.case strip_0x_hex [OF assms] tw if_False)
qed

lemma hex8_text: "hex_text base (hex8 base w)" "length (hex8 base w) = 8"
proof -
  have "\<exists>n < 16. hex_digit base (k mod 16) = hex_digit base n" for k
    by (rule exI [of _ "k mod 16"]) simp
  then show "hex_text base (hex8 base w)" by (simp add: hex_text_def hex8_def del: power.simps)
qed (simp add: hex8_def)

lemma fold_hex_digits:
  "fold (\<lambda>i acc. acc * 16 + int (m div 16 ^ i mod 16)) (rev [0..<k]) (int (m div 16 ^ k)) = int m"
proof (induction k)
  case (Suc k)
  have "int (m div 16 ^ Suc k) * 16 + int (m div 16 ^ k mod 16) = int (m div 16 ^ k)"
    unfolding power_Suc2 div_mult2_eq by (metis div_mult_mod_eq of_nat_add of_nat_mult of_nat_numeral)
  then show ?case using Suc by (simp del: power_Suc)
qed simp

lemma strtol16_hex8:
  assumes "base = 97 \<or> base = 65"
  shows "strtol16 (hex8 base w) = uint w"
proof -
  have v: "the (hex_val (hex_digit base (k mod 16))) = k mod 16" for k by (simp add: hex_val_digit [OF _ assms])
  have "strtol16 (hex8 base w) = fold (\<lambda>c acc. acc * 16 + int (the (hex_val c))) (hex8 base w) 0"
    by (rule strtol16_hex [OF hex8_text(1) assms])
  also have "\<dots> = fold (\<lambda>i acc. acc * 16 + int (unat w div 16 ^ i mod 16)) [7, 6, 5, 4, 3, 2, 1, 0 :: nat] 0"
    by (simp add: hex8_def v)
  also have "[7, 6, 5, 4, 3, 2, 1, 0 :: nat] = rev [0..<8]" by (simp add: upt_rec)
  also have "(0 :: int) = int (unat w div 16 ^ 8)"
  proof -
    have "unat w < 2 ^ 32" using unsigned_less [of w] by simp
    then show ?thesis by simp
  qed
  finally show ?thesis unfolding fold_hex_digits by simp
qed

lemma datagram_ip_hex:
  assumes "base = 97 \<or> base = 65"
  shows "datagram_ip (hex8 base w @ rest) = w"
proof -
  have "strlen_cut (hex8 base w) = hex8 base w"
    using hex8_text(1) [of base w] hex_digit_chars(6) [OF _ assms] unfolding strlen_cut_def hex_text_def
    by (force simp: takeWhile_eq_all_conv)
  then show ?thesis by (simp add: datagram_ip_def hex8_text(2) strtol16_hex8 [OF assms])
qed

section \<open>Lines that are sent on\<close>

definition log_line :: "string \<Rightarrow> bool" where
  "log_line l \<longleftrightarrow> 20 \<le> length l \<and> l ! 4 = CHR ''-'' \<and> l ! 7 = CHR ''-'' \<and> CHR 0x0A \<notin> set l \<and> CHR 0x00 \<notin> set l"

definition tagged :: "u32 \<Rightarrow> string \<Rightarrow> string" where
  "tagged a l =
     (let n = unat a in
      dec (n div 2 ^ 24) @ ''.'' @ dec (n div 2 ^ 16 mod 256) @ ''.'' @ dec (n div 2 ^ 8 mod 256) @ ''.'' @ dec (n mod 256))
     @ '' '' @ l @ [CHR 0x0A]"

lemma ip_byte_div: "ip_byte a i = unat a div 2 ^ (8 * i) mod 256"
proof -
  have "unat (drop_bit (8 * i) a) = unat a div 2 ^ (8 * i)" unfolding unat_drop_bit_eq by (simp only: drop_bit_eq_div)
  moreover have "ip_byte a i = unat (drop_bit (8 * i) a) mod 2 ^ 8"
    unfolding ip_byte_mask unsigned_take_bit_eq by (rule take_bit_eq_mod)
  ultimately show ?thesis by simp
qed

lemma tagged_addr_text: "tagged a l = addr_text a @ '' '' @ l @ [CHR 0x0A]"
proof -
  have "unat a < 2 ^ 32" using unsigned_less [of a] by simp
  then have "unat a div 2 ^ 24 mod 256 = unat a div 2 ^ 24" by simp
  then show ?thesis by (simp add: tagged_def addr_text_def ip_byte_div Let_def)
qed

lemma fwd_loop_prefix: "CHR 0x0A \<notin> set xs \<Longrightarrow> fwd_loop a cur (xs @ ys) = fwd_loop a (cur @ xs) ys"
  by (induction xs arbitrary: cur) auto

lemma fwd_loop_rest: "CHR 0x0A \<notin> set xs \<Longrightarrow> fwd_loop a cur xs = Some []"
  using fwd_loop_prefix [of xs a cur "[]"] by simp

lemma length_addr_text: "length (addr_text a) \<le> 15"
  using length_dec_le [of "ip_byte a 3" 3] length_dec_le [of "ip_byte a 2" 3] length_dec_le [of "ip_byte a 1" 3]
    length_dec_le [of "ip_byte a 0" 3] ip_byte_less [of a 3] ip_byte_less [of a 2] ip_byte_less [of a 1] ip_byte_less [of a 0]
  by (simp add: addr_text_def)

lemma fwd_loop_line:
  assumes "log_line l" "length l \<le> 4077"
  shows "fwd_loop a [] (l @ CHR 0x0A # cs) = map_option ((#) (tagged a l)) (fwd_loop a [] cs)"
proof -
  have "fwd_message a l = Some (tagged a l)"
    using assms length_addr_text [of a]
    by (simp add: fwd_message_def sent_text_def tagged_addr_text MAX_LINE_LEN_def log_line_def strlen_cut_id)
  then show ?thesis using assms fwd_loop_prefix [of l a "[]" "CHR 0x0A # cs"] by (auto simp: log_line_def)
qed

lemma fwd_loop_skip:
  assumes "CHR 0x0A \<notin> set l" "length l < 20 \<or> l ! 4 \<noteq> CHR ''-'' \<or> l ! 7 \<noteq> CHR ''-''"
  shows "fwd_loop a [] (l @ CHR 0x0A # cs) = fwd_loop a [] cs"
  using assms fwd_loop_prefix [of l a "[]" "CHR 0x0A # cs"] by auto

definition lines_text :: "string list \<Rightarrow> string" where
  "lines_text ls = concat (map (\<lambda>l. l @ [CHR 0x0A]) ls)"

lemma fwd_loop_lines:
  assumes "\<forall>l \<in> set ls. log_line l \<and> length l \<le> 4000"
  shows "fwd_loop a [] (lines_text ls @ cs) = map_option ((@) (map (tagged a) ls)) (fwd_loop a [] cs)"
  using assms
proof (induction ls)
  case (Cons l ls)
  then show ?case by (simp add: lines_text_def fwd_loop_line option.map_comp o_def)
qed (simp add: lines_text_def option.map_ident append_Nil [abs_def] id_def [symmetric] option.map_id)

text \<open>Among other lines: those are dropped, and the search goes on behind them.\<close>

lemma fwd_loop_mixed:
  assumes "\<forall>l \<in> set ls. CHR 0x0A \<notin> set l \<and> CHR 0x00 \<notin> set l \<and> (log_line l \<longrightarrow> length l \<le> 4077)"
  shows "fwd_loop a [] (lines_text ls @ cs) = map_option ((@) (map (tagged a) (filter log_line ls))) (fwd_loop a [] cs)"
  using assms
proof (induction ls)
  case (Cons l ls)
  then have IH: "fwd_loop a [] (lines_text ls @ cs) =
      map_option ((@) (map (tagged a) (filter log_line ls))) (fwd_loop a [] cs)" by simp
  show ?case
  proof (cases "log_line l")
    case True
    then show ?thesis using Cons.prems IH by (simp add: lines_text_def fwd_loop_line option.map_comp o_def)
  next
    case False
    then have "length l < 20 \<or> l ! 4 \<noteq> CHR ''-'' \<or> l ! 7 \<noteq> CHR ''-''" using Cons.prems by (auto simp: log_line_def)
    then have "fwd_loop a [] (l @ CHR 0x0A # lines_text ls @ cs) = fwd_loop a [] (lines_text ls @ cs)"
      using Cons.prems by (intro fwd_loop_skip) auto
    then show ?thesis using False IH by (simp add: lines_text_def)
  qed
qed (simp add: lines_text_def option.map_ident append_Nil [abs_def] id_def [symmetric] option.map_id)

lemma length_chars_of [simp]: "length (chars_of bs) = length bs"
  by (simp add: chars_of_def)

lemma receive_raw:
  assumes "a \<noteq> 0" "bs \<noteq> []" "length bs + 9 < BUFSIZE"
  shows "fwd_receive (raw_datagram a bs) = fwd_loop a [] (chars_of bs)"
proof -
  have "(hex8 97 a @ CHR '' '' # chars_of bs) ! 8 = CHR '' ''" by (simp add: nth_append hex8_text)
  moreover have "\<not> length bs + 9 < 10" using assms(2) by (cases bs) auto
  ultimately show ?thesis using assms
    by (simp del: One_nat_def add: fwd_receive_def split_and_send_def raw_datagram_def hex8_text datagram_ip_hex)
qed

lemma drain_sends:
  assumes "0 \<le> slot_idx s" "\<not> buf_full_stuck s" "0 < snd peer"
  shows "fst (snd (drain_client_udp calloc_ok epoll_rc now rc (Read_data buf) s g peer)) = Some (raw_datagram (ip s) buf)"
  using assms by (simp add: drain_client_udp_def send_to_udp_peer_def)

text \<open>C25. In the build with UDP_FORWARD_RT the log server and udps_fwd.c together send on
  each complete log line of a read, in order and tagged with the address of the client
  in decimal, and drop all other lines and the unfinished end. A log line has at least
  20 characters and a hyphen at positions 4 and 7. The conditions: the read is not
  empty and fits the buffer of the forwarder with its tag, has no zero byte, its log
  lines have at most 4077 characters (longer ones can overrun the buffer,
  UdpFwd.long_line_leaks_stack), the address is not 0.0.0.0 and the socket to the
  forwarder is open.\<close>

theorem tagged_lines_delivered:
  assumes "0 \<le> slot_idx s" "\<not> buf_full_stuck s" "0 < snd peer" and "ip s \<noteq> 0"
    and "chars_of buf = lines_text ls @ rest" "CHR 0x0A \<notin> set rest"
    and "\<forall>l \<in> set ls. CHR 0x0A \<notin> set l \<and> CHR 0x00 \<notin> set l \<and> (log_line l \<longrightarrow> length l \<le> 4077)"
    and "buf \<noteq> []" "length buf + 9 < BUFSIZE"
  shows "\<exists>d. fst (snd (drain_client_udp calloc_ok epoll_rc now rc (Read_data buf) s g peer)) = Some d \<and>
    fwd_receive d = Some (map (tagged (ip s)) (filter log_line ls))"
  using drain_sends [OF assms(1-3)] receive_raw [OF assms(4,8,9)] fwd_loop_mixed [OF assms(7), of "ip s" rest]
    fwd_loop_rest [OF assms(6)] by (simp add: assms(5))

text \<open>A line that the read boundary cuts is in neither datagram.\<close>

theorem cut_line_is_lost:
  assumes "a \<noteq> 0" and "chars_of rd1 = lines_text ls1 @ p" "chars_of rd2 = q @ [CHR 0x0A] @ lines_text ls2"
    and "\<forall>l \<in> set (ls1 @ ls2). log_line l \<and> length l \<le> 4000" and "log_line (p @ q)" "\<not> log_line q"
    and "rd1 \<noteq> []" "length rd1 + 9 < BUFSIZE" "length rd2 + 9 < BUFSIZE"
  shows "fwd_receive (raw_datagram a rd1) = Some (map (tagged a) ls1) \<and>
    fwd_receive (raw_datagram a rd2) = Some (map (tagged a) ls2)"
proof -
  have nl: "CHR 0x0A \<notin> set p" "CHR 0x0A \<notin> set q" "CHR 0x00 \<notin> set q" using assms(5) by (auto simp: log_line_def)
  have "length (chars_of rd2) \<noteq> 0" by (simp add: assms(3) del: length_chars_of)
  then have "rd2 \<noteq> []" by auto
  moreover have "fwd_loop a [] (q @ CHR 0x0A # lines_text ls2) = fwd_loop a [] (lines_text ls2)"
    by (rule fwd_loop_skip [OF nl(2)]) (use assms(6) nl in \<open>auto simp: log_line_def\<close>)
  ultimately show ?thesis
    using receive_raw [OF assms(1,7,8)] receive_raw [OF assms(1) _ assms(9)] fwd_loop_rest [OF nl(1)]
      fwd_loop_lines [of ls1 a p] fwd_loop_lines [of ls2 a "[]"] assms(2-4) by simp
qed

theorem large_read_overflows_forwarder:
  assumes "BUFSIZE \<le> length buf + 9"
  shows "fwd_receive (raw_datagram a buf) = None"
  using assms by (simp add: fwd_receive_def raw_datagram_def hex8_text Let_def)

text \<open>C26. A log line of 4096 bytes or more makes udps_fwd.c send bytes from behind its
  4096-byte buffer: the length that snprintf returns is that of the uncut text.\<close>

theorem long_line_leaks_stack:
  assumes "a \<noteq> 0" "chars_of buf = l @ CHR 0x0A # rest" "log_line l" "MAX_LINE_LEN \<le> length l" "length buf + 9 < BUFSIZE"
  shows "fwd_receive (raw_datagram a buf) = None"
proof -
  have "length (chars_of buf) \<noteq> 0" by (simp add: assms(2) del: length_chars_of)
  then have "buf \<noteq> []" by auto
  moreover have "fwd_message a l = None"
    using assms(3,4) by (simp add: fwd_message_def sent_text_def log_line_def strlen_cut_id MAX_LINE_LEN_def)
  then have "fwd_loop a [] (l @ CHR 0x0A # rest) = None"
    using assms(3) fwd_loop_prefix [of l a "[]" "CHR 0x0A # rest"] by (auto simp: log_line_def)
  ultimately show ?thesis using receive_raw [OF assms(1) _ assms(5)] assms(2) by simp
qed

section \<open>The builds of the enhanced forwarder\<close>

theorem tagged_datagram:
  assumes "a \<noteq> 0" "d \<noteq> []" "length d \<le> 4000" "CHR 0x00 \<notin> set d"
  shows "tag_receive a d = Some [tagged a d]"
  using assms length_addr_text [of a] datagram_ip_hex [of 65 a "CHR '' '' # d"]
  by (simp add: tag_receive_def tag_message_def fwd_message_def sent_text_def tagged_addr_text BUFSIZE_def MAX_LINE_LEN_def
      strlen_cut_id hex8_text Let_def)

theorem plain_build_sends_stack:
  assumes "length d = length d'"
  shows "plain_receive stale d = plain_receive stale d'"
  using assms by (simp add: plain_receive_def plain_message_def Let_def)

section \<open>Lines that are cut between datagrams\<close>

definition ipmi_ok :: "(string \<Rightarrow> int option) \<Rightarrow> int \<Rightarrow> u32 \<Rightarrow> string \<Rightarrow> bool" where
  "ipmi_ok utc ctime a l \<longleftrightarrow>
     1 < get_utc utc (take 62 l) \<and> \<not> too_old ctime (get_utc utc (take 62 l)) \<and> length l \<le> 4000 \<and>
     CHR 0x0A \<notin> set l \<and> CHR 0x00 \<notin> set l \<and>
     (\<forall>pat \<in> set ipmi_noise. \<not> strstr pat (addr_text a @ '' | '' @ l @ [CHR 0x0A]))"

lemma ipmi_loop_prefix:
  "CHR 0x0A \<notin> set xs \<Longrightarrow> ipmi_loop utc ctime a partial cur (xs @ ys) = ipmi_loop utc ctime a partial (cur @ xs) ys"
  by (induction xs arbitrary: cur) auto

lemma ipmi_loop_line:
  assumes "ipmi_ok utc ctime a (p @ q)"
  shows "ipmi_loop utc ctime a p [] (q @ CHR 0x0A # cs) =
    map_option (\<lambda>(ms, r). ((addr_text a @ '' | '' @ (p @ q) @ [CHR 0x0A]) # ms, r)) (ipmi_loop utc ctime a [] [] cs)"
proof -
  let ?out = "addr_text a @ '' | '' @ p @ q @ [CHR 0x0A]"
  have q: "CHR 0x0A \<notin> set q" "CHR 0x00 \<notin> set q" using assms by (auto simp: ipmi_ok_def)
  have "length ?out \<le> MAX_LINE_LEN - 2"
    using assms length_addr_text [of a] by (simp add: ipmi_ok_def MAX_LINE_LEN_def)
  then have "buf_text ?out = ?out" "sent_text ?out = Some ?out" by (simp_all add: buf_text_def sent_text_def)
  then show ?thesis
    using assms q ipmi_loop_prefix [OF q(1), of utc ctime a p "[]" "CHR 0x0A # cs"]
    by (simp add: strlen_cut_id ipmi_ok_def Let_def)
qed

theorem kept_part_goes_to_next_sender:
  assumes "a \<noteq> 0" "b \<noteq> 0" "p \<noteq> []" "length p < IPMI_BUFSIZE - 10" "length q < IPMI_BUFSIZE - 11"
    and "ipmi_ok utc ctime b (p @ q)"
  shows "ipmi_receive utc ctime [] [hex8 97 a @ '' '' @ p, hex8 97 b @ '' '' @ q @ [CHR 0x0A]]
    = Some ([addr_text b @ '' | '' @ (p @ q) @ [CHR 0x0A]], [])"
proof -
  have p: "CHR 0x0A \<notin> set p" "CHR 0x00 \<notin> set p" "length p \<le> 4000" using assms(6) by (auto simp: ipmi_ok_def)
  have "last p \<noteq> CHR 0x0A" "last p \<noteq> CHR 0x00" using p assms(3) last_in_set by metis+
  moreover have "\<not> length p + 9 < 10" using assms(3) by (cases p) auto
  ultimately have first: "ipmi_split_and_send utc ctime [] (hex8 97 a @ CHR '' '' # p) = Some ([], p)"
    using p assms(1,3) ipmi_loop_prefix [OF p(1), of utc ctime a "[]" "[]" "[]"] datagram_ip_hex [of 97 a "CHR '' '' # p"]
    by (simp add: ipmi_split_and_send_def hex8_text nth_append strlen_cut_id MAX_LINE_LEN_def Let_def)
  have second: "ipmi_split_and_send utc ctime p (hex8 97 b @ CHR '' '' # q @ [CHR 0x0A])
      = Some ([addr_text b @ '' | '' @ (p @ q) @ [CHR 0x0A]], [])"
    using assms(2) ipmi_loop_line [OF assms(6), of "[]"] datagram_ip_hex [of 97 b "CHR '' '' # q @ [CHR 0x0A]"]
    by (simp add: ipmi_split_and_send_def hex8_text nth_append Let_def)
  show ?thesis using first second assms(4,5) by (simp add: hex8_text)
qed

section \<open>Instances\<close>

definition bytes_of :: "string \<Rightarrow> bytes" where
  "bytes_of s = map (\<lambda>c. of_nat (of_char c)) s"

lemma chars_of_bytes_of [simp]: "chars_of (bytes_of s) = s"
proof -
  have "unat (of_nat (of_char c) :: u8) = of_char c" for c
  proof -
    have "of_char c < (256 :: nat)" by simp
    then show ?thesis by (simp add: unat_of_nat take_bit_nat_eq_self)
  qed
  then show ?thesis by (simp add: chars_of_def bytes_of_def comp_def)
qed

lemma length_bytes_of [simp]: "length (bytes_of s) = length s" "bytes_of s = [] \<longleftrightarrow> s = []"
  by (simp_all add: bytes_of_def)

theorem tagged_lines_delivered_witness:
  "\<exists>d. fst (snd (drain_client_udp (\<lambda>_. True) 0 100 5
        (Read_data (bytes_of (lines_text [''tail'', ''2020-01-02 10:11:12 up'', '' at main.c, line 1234567''] @ ''2020'')))
      (sample_session\<lparr>slot_idx := 0, ip := 0x0a000001\<rparr>) (gstats sample_server) (0, 3))) = Some d \<and>
    fwd_receive d = Some [''10.0.0.1 2020-01-02 10:11:12 up'' @ [CHR 0x0A]]"
proof -
  have t: "tagged 0x0a000001 l = ''10.0.0.1 '' @ l @ [CHR 0x0A]" for l
    by (simp add: tagged_addr_text addr_text_def ip_byte_def dec.simps char_of_def bit_0)
  show ?thesis
    using tagged_lines_delivered [of "sample_session\<lparr>slot_idx := 0, ip := 0x0a000001\<rparr>" "(0, 3)"
        "bytes_of (lines_text [''tail'', ''2020-01-02 10:11:12 up'', '' at main.c, line 1234567''] @ ''2020'')"
        "[''tail'', ''2020-01-02 10:11:12 up'', '' at main.c, line 1234567'']" "''2020''"
        "\<lambda>_. True" 0 100 5 "gstats sample_server"]
    by (simp add: t sample_session_inv log_line_def lines_text_def BUFSIZE_def)
qed

theorem cut_line_is_lost_witness:
  "fwd_receive (raw_datagram 7 (bytes_of ''2020-01-02 10:11'')) = Some [] \<and>
   fwd_receive (raw_datagram 7 (bytes_of ('':12 up'' @ [CHR 0x0A]))) = Some []"
  using cut_line_is_lost [of 7 "bytes_of ''2020-01-02 10:11''" "[]" "''2020-01-02 10:11''"
      "bytes_of ('':12 up'' @ [CHR 0x0A])" "'':12 up''" "[]"]
  by (simp add: lines_text_def log_line_def BUFSIZE_def)

theorem large_read_overflows_forwarder_witness:
  "fwd_receive (raw_datagram 7 (replicate 8192 65)) = None"
  using large_read_overflows_forwarder [of "replicate 8192 65" 7] by (simp add: BUFSIZE_def)

theorem long_line_leaks_stack_witness:
  "fwd_receive (raw_datagram 7 (bytes_of (''2020-01-02 '' @ replicate 4100 (CHR ''x'') @ [CHR 0x0A]))) = None"
  using long_line_leaks_stack [of 7 "bytes_of (''2020-01-02 '' @ replicate 4100 (CHR ''x'') @ [CHR 0x0A])"
      "''2020-01-02 '' @ replicate 4100 (CHR ''x'')" "[]"]
  by (simp add: log_line_def MAX_LINE_LEN_def BUFSIZE_def)

theorem tagged_datagram_witness:
  "tag_receive 0x0a000001 ''disk full'' = Some [tagged 0x0a000001 ''disk full'']"
  using tagged_datagram [of "0x0a000001" "''disk full''"] by simp

theorem plain_build_sends_stack_witness:
  "plain_receive (''secret'') ''abc'' = plain_receive (''secret'') ''xyz''"
  using plain_build_sends_stack [of "''abc''" "''xyz''"] by simp

theorem kept_part_goes_to_next_sender_witness:
  "ipmi_receive (\<lambda>_. Some 1000) 1000 []
      [hex8 97 1 @ '' '' @ ''1 | 01/02/2020 | 10:1'', hex8 97 2 @ '' '' @ ''1:12 | Fan 3 | failed'' @ [CHR 0x0A]]
    = Some ([''0.0.0.2 | 1 | 01/02/2020 | 10:11:12 | Fan 3 | failed'' @ [CHR 0x0A]], [])"
proof -
  have a: "addr_text 2 = ''0.0.0.2''" by (simp add: addr_text_def ip_byte_def dec.simps char_of_def bit_0)
  have "ipmi_ok (\<lambda>_. Some 1000) 1000 2 (''1 | 01/02/2020 | 10:1'' @ ''1:12 | Fan 3 | failed'')"
    by (simp add: ipmi_ok_def a get_utc_def bar_field_def too_old_def MAX_BACK_SEC_def ipmi_noise_def)
  then show ?thesis
    using kept_part_goes_to_next_sender [of 1 2 "''1 | 01/02/2020 | 10:1''" "''1:12 | Fan 3 | failed''" "\<lambda>_. Some 1000" 1000]
    by (simp add: a IPMI_BUFSIZE_def)
qed

end
