(* ===== verification/Dns.thy ===== *)
theory Dns
  imports Ping
begin

text \<open>
  src/dnsq.c: a DNS query for the address of a name and the parser of the response.

  The buffer is a list of bytes. A result \<open>Some Err\<close> is an access outside an array, or the use of
  bytes that were never written; \<open>None\<close> is a loop that does not end.
\<close>

datatype 'a rd = Err | Ok 'a

definition rd_bind :: "'a rd option \<Rightarrow> ('a \<Rightarrow> 'b rd option) \<Rightarrow> 'b rd option" where
  "rd_bind m f = (case m of None \<Rightarrow> None | Some Err \<Rightarrow> Some Err | Some (Ok x) \<Rightarrow> f x)"

lemma rd_bind_simps [simp]: "rd_bind (Some (Ok x)) f = f x" "rd_bind (Some Err) f = Some Err" "rd_bind None f = None"
  by (simp_all add: rd_bind_def)

section \<open>The query\<close>

text \<open>\<open>ChangetoDnsNameFormat\<close>: \<open>lab\<close> is the part of the name from \<open>lock\<close> to \<open>i\<close>.\<close>

fun dns_loop :: "bytes \<Rightarrow> bytes \<Rightarrow> bytes" where
  "dns_loop lab [] = []"
| "dns_loop lab (c # cs) =
     (if c = 46 then of_nat (length lab) # lab @ dns_loop [] cs else dns_loop (lab @ [c]) cs)"

definition HOSTNAME_LEN :: nat where "HOSTNAME_LEN = 100"

text \<open>The dot is appended to the name in place.\<close>

definition ChangetoDnsNameFormat :: "bytes \<Rightarrow> bytes option" where
  "ChangetoDnsNameFormat host =
     (if length host + 2 > HOSTNAME_LEN then None else Some (dns_loop [] (host @ [46]) @ [0]))"

text \<open>\<open>scanf ("%s", hostname)\<close>; the name is given as bytes.\<close>

definition is_space_byte :: "u8 \<Rightarrow> bool" where
  "is_space_byte b \<longleftrightarrow> b = 32 \<or> (9 \<le> unat b \<and> unat b \<le> 13)"

definition scan_host :: "bytes \<Rightarrow> bytes option" where
  "scan_host inp =
     (let host = takeWhile (\<lambda>b. \<not> is_space_byte b) (dropWhile is_space_byte inp) in
      if length host + 1 > HOSTNAME_LEN then None else Some host)"

text \<open>The header has the process id, the flag for recursion and one question.\<close>

definition dns_query :: "u16 \<Rightarrow> bytes \<Rightarrow> u16 \<Rightarrow> bytes option" where
  "dns_query pid host query_type =
     map_option (\<lambda>qname.
         be16 pid @ [1, 0] @ be16 1 @ be16 0 @ be16 0 @ be16 0 @ qname @ be16 query_type @ be16 1)
       (ChangetoDnsNameFormat host)"

definition get_dns_servers :: "string option \<Rightarrow> string list option" where
  "get_dns_servers resolv = (case resolv of None \<Rightarrow> None | Some _ \<Rightarrow> Some [''10.8.8.8'', ''10.8.8.9''])"

section \<open>Names in the response\<close>

definition NAME_LEN :: nat where "NAME_LEN = 256"

text \<open>
  The first loop of \<open>ReadName\<close>: \<open>r\<close> is the offset of \<open>reader\<close>, \<open>name\<close> what has been stored. A
  byte from 192 on, also inside a label, is the first half of an offset.
\<close>

partial_function (option) name_loop ::
  "bytes \<Rightarrow> nat \<Rightarrow> bytes \<Rightarrow> bool \<Rightarrow> nat \<Rightarrow> (bytes \<times> bool \<times> nat) rd option" where
  "name_loop buf r name jumped count =
     (if length buf \<le> r then Some Err
      else if buf ! r = 0 then Some (Ok (name, jumped, count))
      else if 192 \<le> unat (buf ! r) then
        (if length buf \<le> r + 1 then Some Err
         else name_loop buf (unat (buf ! r) * 256 + unat (buf ! (r + 1)) - 49152) name True count)
      else if NAME_LEN \<le> length name then Some Err
      else name_loop buf (r + 1) (name @ [buf ! r]) jumped (if jumped then count else count + 1))"

text \<open>
  The second loop moves each label over its length and stores a dot behind it. When the last
  length is too large by one, the zero at the end is moved as well.
\<close>

function dotted :: "bytes \<Rightarrow> (bytes \<times> bool) option" where
  "dotted [] = Some ([], False)"
| "dotted (b # bs) =
     (let n = unat b in
      if n \<le> length bs then map_option (\<lambda>(s, e). (take n bs @ [46] @ s, e)) (dotted (drop n bs))
      else if n = length bs + 1 then Some (bs, True)
      else None)"
  by pat_completeness auto
termination by (relation "measure length") auto

text \<open>The last dot is replaced by a zero, which is before the block for an empty name.\<close>

definition dotted_name :: "bytes \<Rightarrow> bytes option" where
  "dotted_name name =
     (if name = [] then None
      else map_option (\<lambda>(s, e). if e then s else butlast s) (dotted name))"

definition ReadName :: "bytes \<Rightarrow> nat \<Rightarrow> (bytes \<times> nat) rd option" where
  "ReadName buf r =
     rd_bind (name_loop buf r [] False 1) (\<lambda>(name, jumped, count).
       if NAME_LEN \<le> length name then Some Err
       else case dotted_name name of
         None \<Rightarrow> Some Err
       | Some s \<Rightarrow> Some (Ok (s, if jumped then count + 1 else count)))"

section \<open>Records\<close>

definition be_at :: "bytes \<Rightarrow> nat \<Rightarrow> nat" where
  "be_at buf r = unat (buf ! r) * 256 + unat (buf ! (r + 1))"

text \<open>
  One record: name, type and data. The data of an address is copied to a block of its length,
  and a zero is stored behind it: \<open>usable n\<close> is the size of the block that \<open>malloc (n)\<close> gives.
  All other data is read as a name.
\<close>

definition read_rr ::
  "(nat \<Rightarrow> nat) \<Rightarrow> bool \<Rightarrow> bytes \<Rightarrow> nat \<Rightarrow> ((bytes \<times> nat \<times> bytes) \<times> nat) rd option" where
  "read_rr usable addrs buf r =
     rd_bind (ReadName buf r) (\<lambda>(nm, stop).
       (let r = r + stop in
        if length buf < r + 10 then Some Err
        else
          (let ty = be_at buf r; len = be_at buf (r + 8); r = r + 10 in
           if addrs \<and> ty = 1 then
             (if length buf < r + len \<or> usable len \<le> len then Some Err
              else Some (Ok ((nm, ty, slice_at r len buf), r + len)))
           else rd_bind (ReadName buf r) (\<lambda>(s, stop). Some (Ok ((nm, ty, s), r + stop))))))"

text \<open>The arrays of records have 20 elements.\<close>

fun read_rrs ::
  "(nat \<Rightarrow> nat) \<Rightarrow> bool \<Rightarrow> bytes \<Rightarrow> nat \<Rightarrow> nat \<Rightarrow> nat \<Rightarrow> ((bytes \<times> nat \<times> bytes) list \<times> nat) rd option" where
  "read_rrs usable addrs buf i 0 r = Some (Ok ([], r))"
| "read_rrs usable addrs buf i (Suc n) r =
     (if 20 \<le> i then Some Err
      else
        rd_bind (read_rr usable addrs buf r) (\<lambda>(rr, r).
          rd_bind (read_rrs usable addrs buf (i + 1) n r) (\<lambda>(rrs, r). Some (Ok (rr # rrs, r)))))"

text \<open>The reader starts behind the question, whose length is that of the string in the buffer.\<close>

definition dns_parse ::
  "(nat \<Rightarrow> nat) \<Rightarrow> bytes \<Rightarrow>
    ((bytes \<times> nat \<times> bytes) list \<times> (bytes \<times> nat \<times> bytes) list \<times> (bytes \<times> nat \<times> bytes) list) rd option" where
  "dns_parse usable buf =
     (let qlen = length (takeWhile (\<lambda>b. b \<noteq> 0) (drop 12 buf)) in
      if length buf \<le> 12 + qlen then Some Err
      else
        rd_bind (read_rrs usable True buf 0 (be_at buf 6) (12 + qlen + 1 + 4)) (\<lambda>(answers, r).
          rd_bind (read_rrs usable False buf 0 (be_at buf 8) r) (\<lambda>(auth, r).
            rd_bind (read_rrs usable True buf 0 (be_at buf 10) r) (\<lambda>(addit, r).
              Some (Ok (answers, auth, addit))))))"

text \<open>The response overwrites the start of the buffer.\<close>

definition DNS_BUF :: nat where "DNS_BUF = 65536"

definition ngethostbyname ::
  "(nat \<Rightarrow> nat) \<Rightarrow> bytes \<Rightarrow> bytes \<Rightarrow>
    ((bytes \<times> nat \<times> bytes) list \<times> (bytes \<times> nat \<times> bytes) list \<times> (bytes \<times> nat \<times> bytes) list) rd option" where
  "ngethostbyname usable buf response = dns_parse usable (overwrite 0 (take DNS_BUF response) buf)"

section \<open>Names survive the round trip\<close>

text \<open>A label as the parser understands it: the bytes of pointers do not occur in it.\<close>

definition label_ok :: "bytes \<Rightarrow> bool" where
  "label_ok l \<longleftrightarrow> l \<noteq> [] \<and> length l < 64 \<and> (\<forall>b \<in> set l. b \<noteq> 0 \<and> b \<noteq> 46 \<and> unat b < 192)"

definition enc :: "bytes list \<Rightarrow> bytes" where
  "enc ls = concat (map (\<lambda>l. of_nat (length l) # l) ls)"

definition dots :: "bytes list \<Rightarrow> bytes" where
  "dots ls = concat (map (\<lambda>l. l @ [46]) ls)"

definition host_name :: "bytes list \<Rightarrow> bytes" where
  "host_name ls = butlast (dots ls)"

lemma dns_loop_label: "46 \<notin> set l \<Longrightarrow> dns_loop lab (l @ 46 # cs) = of_nat (length (lab @ l)) # (lab @ l) @ dns_loop [] cs"
  by (induction l arbitrary: lab) auto

lemma dns_loop_dots: "\<forall>l \<in> set ls. label_ok l \<Longrightarrow> dns_loop [] (dots ls) = enc ls"
proof (induction ls)
  case (Cons l ls)
  then have "46 \<notin> set l" by (auto simp: label_ok_def)
  then show ?case using Cons dns_loop_label [of l "[]" "dots ls"] by (simp add: dots_def enc_def)
qed (simp add: dots_def enc_def)

lemma dots_snoc: "ls \<noteq> [] \<Longrightarrow> host_name ls @ [46] = dots ls"
proof -
  assume "ls \<noteq> []"
  then have "dots ls \<noteq> []" "last (dots ls) = 46" by (induction ls rule: rev_induct) (auto simp: dots_def)
  then show ?thesis unfolding host_name_def by (metis append_butlast_last_id)
qed

lemma length_enc: "length (enc ls) = length (dots ls)"
  by (induction ls) (simp_all add: enc_def dots_def)

lemma unat_label: "label_ok l \<Longrightarrow> unat (of_nat (length l) :: u8) = length l"
  by (simp add: label_ok_def unat_of_nat take_bit_nat_eq_self)

lemma enc_bytes:
  assumes "\<forall>l \<in> set ls. label_ok l" "b \<in> set (enc ls)"
  shows "b \<noteq> 0 \<and> unat b < 192"
proof -
  obtain l where l: "l \<in> set ls" "b = of_nat (length l) \<or> b \<in> set l" using assms(2) by (auto simp: enc_def)
  have ok: "label_ok l" using assms(1) l(1) by simp
  from l(2) show ?thesis
  proof
    assume b: "b = of_nat (length l)"
    have "unat b = length l" using unat_label [OF ok] by (simp add: b)
    moreover have "0 < length l" "length l < 64" using ok by (auto simp: label_ok_def)
    ultimately show ?thesis by auto
  next
    assume "b \<in> set l"
    then show ?thesis using ok by (auto simp: label_ok_def)
  qed
qed

lemma dotted_enc: "\<forall>l \<in> set ls. label_ok l \<Longrightarrow> dotted (enc ls) = Some (dots ls, False)"
proof (induction ls)
  case (Cons l ls)
  then have "unat (of_nat (length l) :: u8) = length l" by (intro unat_label) simp
  then show ?case using Cons by (simp add: enc_def dots_def Let_def)
qed (simp add: enc_def dots_def)

lemma name_loop_bytes:
  "(\<And>b. b \<in> set xs \<Longrightarrow> b \<noteq> 0 \<and> unat b < 192) \<Longrightarrow> slice_at r (length xs) buf = xs \<Longrightarrow> r + length xs \<le> length buf \<Longrightarrow>
    length name + length xs \<le> NAME_LEN \<Longrightarrow>
    name_loop buf r name jumped count =
      name_loop buf (r + length xs) (name @ xs) jumped (if jumped then count else count + length xs)"
proof (induction xs arbitrary: r name count)
  case (Cons x xs)
  have x: "buf ! r = x" "slice_at (r + 1) (length xs) buf = xs"
  proof -
    have "drop r buf = buf ! r # drop (Suc r) buf" using Cons.prems(3) by (simp add: Cons_nth_drop_Suc)
    then show "buf ! r = x" "slice_at (r + 1) (length xs) buf = xs"
      using Cons.prems(2) by (simp_all add: slice_at_def)
  qed
  have "name_loop buf r name jumped count = name_loop buf (r + 1) (name @ [x]) jumped (if jumped then count else count + 1)"
    using Cons.prems(1) [of x] Cons.prems(3,4) x(1) by (subst name_loop.simps) simp
  also have "\<dots> = name_loop buf (r + 1 + length xs) ((name @ [x]) @ xs) jumped
      (if jumped then (if jumped then count else count + 1) else (if jumped then count else count + 1) + length xs)"
    by (rule Cons.IH) (use Cons.prems x(2) in auto)
  finally show ?case by simp
qed simp

lemma slice_nth: "slice_at r n buf = xs \<Longrightarrow> k < length xs \<Longrightarrow> buf ! (r + k) = xs ! k"
  by (auto simp: slice_at_def)

lemma slice_split:
  assumes "slice_at r (length xs + length ys) buf = xs @ ys"
  shows "slice_at r (length xs) buf = xs" "slice_at (r + length xs) (length ys) buf = ys"
proof -
  have "take (length xs) (slice_at r (length xs + length ys) buf) = slice_at r (length xs) buf"
    by (simp add: slice_at_def)
  then show "slice_at r (length xs) buf = xs" using assms by simp
  have "drop (length xs) (slice_at r (length xs + length ys) buf) = slice_at (r + length xs) (length ys) buf"
    by (simp add: slice_at_def drop_take add.commute)
  then show "slice_at (r + length xs) (length ys) buf = ys" using assms by simp
qed

lemma enc_append: "enc (ls1 @ ls2) = enc ls1 @ enc ls2"
  by (simp add: enc_def)

lemma dotted_name_enc: "\<forall>l \<in> set ls. label_ok l \<Longrightarrow> ls \<noteq> [] \<Longrightarrow> dotted_name (enc ls) = Some (host_name ls)"
  using dotted_enc [of ls] by (cases ls) (auto simp: dotted_name_def host_name_def enc_def)

text \<open>A name that is stored at \<open>r\<close>: labels up to a zero, or up to an offset of such labels.\<close>

definition name_at :: "bytes \<Rightarrow> nat \<Rightarrow> bytes list \<Rightarrow> bool" where
  "name_at buf r ls \<longleftrightarrow> slice_at r (length (enc ls) + 1) buf = enc ls @ [0]"

lemma name_at_length: "name_at buf r ls \<Longrightarrow> r + length (enc ls) < length buf"
proof -
  assume "name_at buf r ls"
  then have "length (slice_at r (length (enc ls) + 1) buf) = length (enc ls) + 1" by (simp add: name_at_def)
  then show ?thesis by simp
qed

lemma name_loop_name:
  assumes "\<forall>l \<in> set ls. label_ok l" "name_at buf r ls" "length name + length (enc ls) \<le> NAME_LEN"
  shows "name_loop buf r name jumped count =
    Some (Ok (name @ enc ls, jumped, if jumped then count else count + length (enc ls)))"
proof -
  have s: "slice_at r (length (enc ls)) buf = enc ls" "slice_at (r + length (enc ls)) 1 buf = [0]"
    using slice_split [of r "enc ls" "[0]" buf] assms(2) by (simp_all add: name_at_def)
  have "buf ! (r + length (enc ls)) = 0" using slice_nth [OF s(2), of 0] by simp
  moreover have "r + length (enc ls) < length buf" by (rule name_at_length [OF assms(2)])
  ultimately have "name_loop buf (r + length (enc ls)) (name @ enc ls) jumped c = Some (Ok (name @ enc ls, jumped, c))" for c
    by (subst name_loop.simps) simp
  then show ?thesis
    using name_loop_bytes [OF enc_bytes [OF assms(1)] s(1), of name jumped count] assms(3)
      \<open>r + length (enc ls) < length buf\<close> by simp
qed

lemma ReadName_plain:
  assumes "\<forall>l \<in> set ls. label_ok l" "ls \<noteq> []" "name_at buf r ls" "length (enc ls) < NAME_LEN"
  shows "ReadName buf r = Some (Ok (host_name ls, length (enc ls) + 1))"
  using name_loop_name [OF assms(1,3), of "[]" False 1] assms(4) dotted_name_enc [OF assms(1,2)]
  by (simp add: ReadName_def)

lemma ReadName_pointer:
  assumes ok: "\<forall>l \<in> set (ls1 @ ls2). label_ok l" "ls1 @ ls2 \<noteq> []" "length (enc (ls1 @ ls2)) < NAME_LEN"
    and s: "slice_at r (length (enc ls1) + 2) buf = enc ls1 @ [hi, lo]" "192 \<le> unat hi"
    and t: "name_at buf (unat hi * 256 + unat lo - 49152) ls2"
  shows "ReadName buf r = Some (Ok (host_name (ls1 @ ls2), length (enc ls1) + 2))"
proof -
  have sp: "slice_at r (length (enc ls1)) buf = enc ls1" "slice_at (r + length (enc ls1)) 2 buf = [hi, lo]"
    using slice_split [of r "enc ls1" "[hi, lo]" buf] s(1) by (simp_all add: numeral_2_eq_2)
  have len: "r + length (enc ls1) + 2 \<le> length buf"
  proof -
    have "length (slice_at r (length (enc ls1) + 2) buf) = length (enc ls1) + 2" by (simp only: s(1)) simp
    then show ?thesis by simp
  qed
  have b: "buf ! (r + length (enc ls1)) = hi" "buf ! (r + length (enc ls1) + 1) = lo"
    using slice_nth [OF sp(2), of 0] slice_nth [OF sp(2), of 1] by simp_all
  have "hi \<noteq> 0" using s(2) by auto
  then have "name_loop buf (r + length (enc ls1)) (enc ls1) False (1 + length (enc ls1))
      = name_loop buf (unat hi * 256 + unat lo - 49152) (enc ls1) True (1 + length (enc ls1))"
    using len b s(2) by (subst name_loop.simps) simp
  also have "\<dots> = Some (Ok (enc ls1 @ enc ls2, True, 1 + length (enc ls1)))"
    using name_loop_name [OF _ t, of "enc ls1" True "1 + length (enc ls1)"] ok by (simp add: enc_append)
  finally have "name_loop buf r [] False 1 = Some (Ok (enc (ls1 @ ls2), True, 1 + length (enc ls1)))"
    using name_loop_bytes [OF _ sp(1), of "[]" False 1] enc_bytes [of ls1] ok len by (auto simp: enc_append)
  then show ?thesis using dotted_name_enc [OF ok(1,2)] ok(3) by (simp add: ReadName_def)
qed

theorem name_roundtrip:
  assumes "\<forall>l \<in> set ls. label_ok l" "ls \<noteq> []" "length (host_name ls) + 2 \<le> HOSTNAME_LEN"
    and "ChangetoDnsNameFormat (host_name ls) = Some q" "slice_at r (length q) buf = q"
  shows "ReadName buf r = Some (Ok (host_name ls, length q))"
proof -
  have q: "q = enc ls @ [0]"
    using assms(3,4) dns_loop_dots [OF assms(1)] dots_snoc [OF assms(2)] by (simp add: ChangetoDnsNameFormat_def)
  have "length (host_name ls) + 1 = length (enc ls)"
    using arg_cong [OF dots_snoc [OF assms(2)], of length] by (simp add: length_enc)
  then have "length (enc ls) < NAME_LEN" using assms(3) by (simp add: NAME_LEN_def HOSTNAME_LEN_def)
  then show ?thesis using ReadName_plain [OF assms(1,2), of buf r] assms(5) by (simp add: q name_at_def)
qed

theorem compressed_name:
  assumes "\<forall>l \<in> set (ls1 @ ls2). label_ok l" "ls1 @ ls2 \<noteq> []" "length (enc (ls1 @ ls2)) < NAME_LEN"
    and "slice_at r (length (enc ls1) + 2) buf = enc ls1 @ [hi, lo]" "192 \<le> unat hi"
    and "name_at buf (unat hi * 256 + unat lo - 49152) ls2"
  shows "ReadName buf r = Some (Ok (host_name (ls1 @ ls2), length (enc ls1) + 2))"
  by (rule ReadName_pointer [OF assms])

text \<open>A pointer to itself keeps the loop going.\<close>

lemma self_pointer_loop:
  assumes "r + 1 < length buf" "192 \<le> unat (buf ! r)" "unat (buf ! r) * 256 + unat (buf ! (r + 1)) - 49152 = r"
  shows "name_loop buf r name jumped count = None"
proof -
  have "name_loop b r' nm j c = Some y \<Longrightarrow> b = buf \<longrightarrow> r' \<noteq> r" for b r' nm j c y
  proof (erule name_loop.raw_induct [rotated], goal_cases)
    case (1 f b r' nm j c y)
    show ?case
    proof (intro impI notI)
      assume b: "b = buf" and r: "r' = r"
      have "buf ! r \<noteq> 0" using assms(2) by auto
      then have "f buf r nm True c = Some y" using 1(2) assms unfolding b r by (simp split: if_splits)
      then show False using 1(1) by blast
    qed
  qed
  then show ?thesis by (cases "name_loop buf r name jumped count") blast+
qed

text \<open>C28. ReadName does not return for a name that is an offset of itself.\<close>

theorem self_pointer_never_returns:
  assumes "r + 1 < length buf" "192 \<le> unat (buf ! r)" "unat (buf ! r) * 256 + unat (buf ! (r + 1)) - 49152 = r"
  shows "ReadName buf r = None"
  using self_pointer_loop [OF assms] by (simp add: ReadName_def)

section \<open>A response with addresses\<close>

text \<open>A record whose name is the offset of the question's name.\<close>

definition address_rr :: "bytes \<times> bytes \<Rightarrow> bytes" where
  "address_rr = (\<lambda>(ttl, addr). [192, 12] @ be16 1 @ be16 1 @ ttl @ be16 4 @ addr)"

definition rr_ok :: "bytes \<times> bytes \<Rightarrow> bool" where
  "rr_ok = (\<lambda>(ttl, addr). length ttl = 4 \<and> length addr = 4)"

lemma length_address_rr [simp]: "rr_ok x \<Longrightarrow> length (address_rr x) = 16"
  by (auto simp: address_rr_def rr_ok_def be16_def)

lemma be16_at: "slice_at r 2 buf = be16 w \<Longrightarrow> be_at buf r = unat w"
proof -
  assume s: "slice_at r 2 buf = be16 w"
  have "buf ! r = ucast (drop_bit 8 w)" "buf ! (r + 1) = ucast w"
    using slice_nth [OF s, of 0] slice_nth [OF s, of 1] by (simp_all add: be16_def)
  then show ?thesis using unat_halves16 [of w] by (simp add: be_at_def)
qed

lemma read_address:
  assumes q: "\<forall>l \<in> set ls. label_ok l" "ls \<noteq> []" "length (enc ls) < NAME_LEN" "name_at buf 12 ls"
    and s: "slice_at r 16 buf = address_rr (ttl, addr)" "rr_ok (ttl, addr)"
  shows "read_rr usable True buf r =
    (if usable 4 \<le> 4 then Some Err else Some (Ok ((host_name ls, 1, addr), r + 16)))"
proof -
  have l: "length ttl = 4" "length addr = 4" using s(2) by (simp_all add: rr_ok_def)
  have len: "r + 16 \<le> length buf"
  proof -
    have "length (slice_at r 16 buf) = 16" unfolding s(1) by (rule length_address_rr [OF s(2)])
    then show ?thesis by simp
  qed
  have sub: "slice_at (r + k) m buf = slice_at k m (address_rr (ttl, addr))" if "k + m \<le> 16" for k m
    unfolding s(1) [symmetric] using that by (simp add: slice_at_def drop_take min_def add.commute)
  have p: "slice_at r 2 buf = [192, 12]"
    using sub [of 0 2] by (simp add: address_rr_def slice_at_def)
  have ty: "slice_at (r + 2) 2 buf = be16 1"
    using sub [of 2 2] by (simp add: address_rr_def slice_at_def be16_def)
  have n: "slice_at (r + 10) 2 buf = be16 4"
    using sub [of 10 2] l by (simp add: address_rr_def slice_at_def be16_def)
  have d: "slice_at (r + 12) 4 buf = addr"
    using sub [of 12 4] l by (simp add: address_rr_def slice_at_def be16_def)
  have "slice_at r (length (enc []) + 2) buf = enc [] @ [192, 12]" using p by (simp add: enc_def numeral_2_eq_2)
  then have "ReadName buf r = Some (Ok (host_name ([] @ ls), length (enc []) + 2))"
    by (rule ReadName_pointer [rotated 3]) (use q in simp_all)
  then have "ReadName buf r = Some (Ok (host_name ls, 2))" by (simp add: enc_def)
  moreover have "be_at buf (r + 2) = 1" "be_at buf (r + 10) = 4" using be16_at [OF ty] be16_at [OF n] by simp_all
  moreover have "r + 2 + 8 = r + 10" "r + 2 + 10 = r + 12" "10 + r = r + 10" "12 + r = r + 12" by simp_all
  ultimately show ?thesis using len d by (simp only: read_rr_def Let_def rd_bind_simps prod.case) simp
qed

lemma read_addresses:
  assumes q: "\<forall>l \<in> set ls. label_ok l" "ls \<noteq> []" "length (enc ls) < NAME_LEN" "name_at buf 12 ls" and u: "4 < usable 4"
  shows "\<forall>a \<in> set as. rr_ok a \<Longrightarrow> i + length as \<le> 20 \<Longrightarrow>
    slice_at r (16 * length as) buf = concat (map address_rr as) \<Longrightarrow>
    read_rrs usable True buf i (length as) r = Some (Ok (map (\<lambda>(ttl, addr). (host_name ls, 1, addr)) as, r + 16 * length as))"
proof (induction as arbitrary: i r)
  case (Cons a as)
  obtain ttl addr where a: "a = (ttl, addr)" by (cases a)
  have ok: "rr_ok a" using Cons.prems(1) by simp
  have len: "length (concat (map address_rr as)) = 16 * length as"
    using Cons.prems(1) by (induction as) auto
  have s: "slice_at r 16 buf = address_rr a" "slice_at (r + 16) (16 * length as) buf = concat (map address_rr as)"
    using slice_split [of r "address_rr a" "concat (map address_rr as)" buf] Cons.prems(3) len ok by (simp_all add: add.commute)
  show ?case
    using read_address [where usable = usable, OF q s(1) [unfolded a] ok [unfolded a]] u Cons.IH [of "i + 1" "r + 16", OF _ _ s(2)] Cons.prems(1,2)
    by (simp add: a add.assoc)
qed simp

definition dns_response :: "u16 \<Rightarrow> bytes \<Rightarrow> bytes list \<Rightarrow> (bytes \<times> bytes) list \<Rightarrow> bytes" where
  "dns_response pid flags ls as =
     be16 pid @ flags @ be16 1 @ be16 (of_nat (length as)) @ be16 0 @ be16 0 @
     enc ls @ [0] @ be16 1 @ be16 1 @ concat (map address_rr as)"

text \<open>C27. From a response with any number of up to 20 address records, whose names are
  offsets of the question, dnsq.c reads exactly the name and the addresses, when
  malloc gives larger blocks than requested.\<close>

theorem addresses_are_found:
  assumes "\<forall>l \<in> set ls. label_ok l" "ls \<noteq> []" "length (enc ls) < NAME_LEN" and "4 < usable 4"
    and "\<forall>a \<in> set as. rr_ok a" "length as \<le> 20" "length flags = 2" "length buf = DNS_BUF"
  shows "ngethostbyname usable buf (dns_response pid flags ls as)
    = Some (Ok (map (\<lambda>(ttl, addr). (host_name ls, 1, addr)) as, [], []))"
proof -
  let ?d = "dns_response pid flags ls as"
  let ?n = "length (enc ls)"
  have len: "length (concat (map address_rr as)) = 16 * length as"
    using assms(5) by (induction as) auto
  have ld: "length ?d = 12 + ?n + 5 + 16 * length as"
    using assms(7) by (simp add: dns_response_def be16_def len)
  then have "length ?d \<le> DNS_BUF" using assms(3,6) by (simp add: NAME_LEN_def DNS_BUF_def)
  then obtain z where b: "overwrite 0 (take DNS_BUF ?d) buf = ?d @ z"
    by (simp add: overwrite_def)
  have sub: "slice_at k m (?d @ z) = slice_at k m ?d" if "k + m \<le> length ?d" for k m
    using that by (simp add: slice_at_def)
  have nm: "name_at (?d @ z) 12 ls"
    unfolding name_at_def using sub [of 12 "?n + 1"] ld assms(7)
    by (simp add: dns_response_def be16_def slice_at_def)
  have "takeWhile (\<lambda>b. b \<noteq> 0) (drop 12 (?d @ z)) = enc ls"
  proof -
    have "takeWhile (\<lambda>b. b \<noteq> 0) (enc ls @ 0 # w) = enc ls" for w
      using enc_bytes [OF assms(1)] by (simp add: takeWhile_append2 takeWhile_eq_all_conv)
    moreover have "\<exists>w. drop 12 (?d @ z) = enc ls @ 0 # w" using assms(7) by (simp add: dns_response_def be16_def)
    ultimately show ?thesis by auto
  qed
  moreover have "be_at (?d @ z) 6 = length as"
  proof -
    have "slice_at 6 2 (?d @ z) = be16 (of_nat (length as))"
      using sub [of 6 2] ld assms(7) by (simp add: dns_response_def be16_def slice_at_def)
    moreover have "unat (of_nat (length as) :: u16) = length as"
      using assms(6) by (simp add: unat_of_nat take_bit_nat_eq_self)
    ultimately show ?thesis using be16_at by metis
  qed
  moreover have "be_at (?d @ z) 8 = 0" "be_at (?d @ z) 10 = 0"
  proof -
    have "slice_at 8 2 (?d @ z) = be16 0" "slice_at 10 2 (?d @ z) = be16 0"
      using sub [of 8 2] sub [of 10 2] ld assms(7) by (simp_all add: dns_response_def be16_def slice_at_def)
    then show "be_at (?d @ z) 8 = 0" "be_at (?d @ z) 10 = 0" using be16_at [of _ _ 0] by simp_all
  qed
  moreover have "slice_at (12 + ?n + 5) (16 * length as) (?d @ z) = concat (map address_rr as)"
  proof -
    obtain A where A: "?d = A @ concat (map address_rr as)" "length A = 12 + ?n + 5"
    proof
      show "?d = (be16 pid @ flags @ be16 1 @ be16 (of_nat (length as)) @ be16 0 @ be16 0 @ enc ls @ [0] @ be16 1 @ be16 1)
          @ concat (map address_rr as)" by (simp add: dns_response_def)
    qed (simp add: be16_def assms(7))
    show ?thesis unfolding A(1) using A(2) len by (simp add: slice_at_def)
  qed
  ultimately show ?thesis
    using read_addresses [where usable = usable, OF assms(1-3) nm assms(4,5), of 0 "12 + ?n + 5"] assms(6) ld
    by (simp add: ngethostbyname_def b dns_parse_def Let_def)
qed

text \<open>The zero behind the copied address is outside a block of exactly the requested size.\<close>

theorem address_overflows_block:
  assumes "\<forall>l \<in> set ls. label_ok l" "ls \<noteq> []" "length (enc ls) < NAME_LEN" "name_at buf 12 ls"
    and "slice_at r 16 buf = address_rr (ttl, addr)" "rr_ok (ttl, addr)"
  shows "read_rr (\<lambda>n. n) True buf r = Some Err"
  using read_address [where usable = "\<lambda>n. n", OF assms] by simp

section \<open>Instances\<close>

definition example_com :: "bytes list" where
  "example_com = [[101, 120], [99, 111, 109]]"

lemma example_com_ok: "\<forall>l \<in> set example_com. label_ok l" "example_com \<noteq> []" "enc example_com = [2, 101, 120, 3, 99, 111, 109]"
  "host_name example_com = [101, 120, 46, 99, 111, 109]" "length (enc example_com) < NAME_LEN"
  by (simp_all add: example_com_def label_ok_def enc_def host_name_def dots_def NAME_LEN_def)

theorem name_roundtrip_witness:
  "ReadName [9, 2, 101, 120, 3, 99, 111, 109, 0, 7] 1 = Some (Ok ([101, 120, 46, 99, 111, 109], 8))"
  using name_roundtrip [OF example_com_ok(1,2), of "[2, 101, 120, 3, 99, 111, 109, 0]" 1 "[9, 2, 101, 120, 3, 99, 111, 109, 0, 7]"]
  by (simp add: example_com_ok HOSTNAME_LEN_def ChangetoDnsNameFormat_def slice_at_def)

theorem compressed_name_witness:
  "ReadName [3, 99, 111, 109, 0, 2, 101, 120, 192, 0] 5 = Some (Ok ([101, 120, 46, 99, 111, 109], 5))"
  using compressed_name [of "[[101, 120]]" "[[99, 111, 109]]" 5 "[3, 99, 111, 109, 0, 2, 101, 120, 192, 0]" 192 0]
  by (simp add: label_ok_def enc_def host_name_def dots_def NAME_LEN_def slice_at_def name_at_def)

theorem self_pointer_never_returns_witness: "ReadName [7, 192, 1] 1 = None"
  by (rule self_pointer_never_returns) simp_all

theorem addresses_are_found_witness:
  "ngethostbyname (\<lambda>n. n + 20) (replicate DNS_BUF 0) (dns_response 7 [0x81, 0x80] example_com [([0, 0, 1, 0], [10, 0, 0, 1])])
    = Some (Ok ([([101, 120, 46, 99, 111, 109], 1, [10, 0, 0, 1])], [], []))"
  using addresses_are_found [OF example_com_ok(1,2,5), where usable = "\<lambda>n. n + 20" and as = "[([0, 0, 1, 0], [10, 0, 0, 1])]"
      and flags = "[0x81, 0x80]" and buf = "replicate DNS_BUF 0" and pid = 7]
  by (simp add: rr_ok_def example_com_ok)

theorem address_overflows_block_witness:
  "read_rr (\<lambda>n. n) True (replicate 12 0 @ enc example_com @ [0] @ address_rr ([0, 0, 1, 0], [10, 0, 0, 1])) 20 = Some Err"
  by (rule address_overflows_block [where ttl = "[0, 0, 1, 0]" and addr = "[10, 0, 0, 1]", OF example_com_ok(1,2,5)])
    (simp_all add: name_at_def example_com_ok slice_at_def rr_ok_def address_rr_def be16_def)

end
