(* ===== verification/ParExec.thy ===== *)
theory ParExec
  imports Prelude "HOL-Library.Multiset"
begin

text \<open>
  src/ParallelExecRemote.c: runs a command on every address of a list, with a bounded number
  of child processes at a time. A table maps the process ids of the children to the numbers
  of their addresses.

  What the kernel does is an argument or a step: the results of \<open>fork\<close>, the processes that
  \<open>waitpid\<close> returns, the signals and the output of the children.
\<close>

section \<open>The table of children\<close>

text \<open>\<open>struct stupidMap\<close>: a key 0 marks a free entry.\<close>

type_synonym pidmap = "(int \<times> int) list"

fun add_from :: "nat \<Rightarrow> nat \<Rightarrow> int \<Rightarrow> int \<Rightarrow> pidmap \<Rightarrow> int \<times> pidmap" where
  "add_from 0 i key val m = (-1, m)"
| "add_from (Suc k) i key val m =
     (if fst (m ! i) = 0 then (int i, m[i := (key, val)])
      else add_from k (if i + 1 = length m then 0 else i + 1) key val m)"

definition stupidMap_Add :: "int \<Rightarrow> int \<Rightarrow> pidmap \<Rightarrow> int \<times> pidmap" where
  "stupidMap_Add key val m = add_from (length m) 0 key val m"

fun remove_from :: "nat \<Rightarrow> nat \<Rightarrow> int \<Rightarrow> pidmap \<Rightarrow> int \<times> pidmap" where
  "remove_from 0 i key m = (-1, m)"
| "remove_from (Suc k) i key m =
     (if fst (m ! i) = key then (snd (m ! i), m[i := (0, snd (m ! i))])
      else remove_from k (if i + 1 = length m then 0 else i + 1) key m)"

definition stupidMap_Remove :: "int \<Rightarrow> pidmap \<Rightarrow> int \<times> pidmap" where
  "stupidMap_Remove key m = remove_from (length m) 0 key m"

section \<open>The list of addresses\<close>

text \<open>
  \<open>inet_aton\<close>: one to four numbers with dots between them, decimal, octal or hexadecimal; the
  last one fills the bytes that are left. White space and what follows it is ignored.
\<close>

definition digit_val :: "char \<Rightarrow> nat" where
  "digit_val c =
     (let n = of_char c in
      if 48 \<le> n \<and> n \<le> 57 then n - 48
      else if 97 \<le> n \<and> n \<le> 102 then n - 87
      else if 65 \<le> n \<and> n \<le> 70 then n - 55
      else 16)"

definition aton_number :: "string \<Rightarrow> (nat \<times> string) option" where
  "aton_number s =
     (let (base, t) = (case s of
            z # x # u \<Rightarrow>
              if z = CHR ''0'' \<and> (x = CHR ''x'' \<or> x = CHR ''X'') \<and> u \<noteq> [] \<and> digit_val (hd u) < 16 then (16, u)
              else if z = CHR ''0'' then (8, s) else (10, s)
          | _ \<Rightarrow> (10 :: nat, s));
          ds = takeWhile (\<lambda>c. digit_val c < base) t
      in if s = [] \<or> digit_val (hd s) \<ge> 10 then None
         else Some (fold (\<lambda>c acc. acc * base + digit_val c) ds 0, dropWhile (\<lambda>c. digit_val c < base) t))"

fun aton_parts :: "nat \<Rightarrow> string \<Rightarrow> nat list option" where
  "aton_parts 0 s = None"
| "aton_parts (Suc k) s =
     (case aton_number s of
        None \<Rightarrow> None
      | Some (v, []) \<Rightarrow> Some [v]
      | Some (v, c # cs) \<Rightarrow>
          if c = CHR ''.'' then map_option ((#) v) (aton_parts k cs)
          else if is_space c then Some [v]
          else None)"

definition inet_aton :: "string \<Rightarrow> nat option" where
  "inet_aton s =
     (case aton_parts 4 s of
        None \<Rightarrow> None
      | Some ps \<Rightarrow>
          if (\<forall>p \<in> set (butlast ps). p < 256) \<and> last ps < 256 ^ (5 - length ps)
          then Some (fold (\<lambda>p acc. acc * 256 + p) (butlast ps) 0 * 256 ^ (5 - length ps) + last ps)
          else None)"

text \<open>
  \<open>getIPList\<close>: lines of at most 15 characters, whose last character is cut. \<open>inp\<close> is the local
  variable \<open>in\<close>, which keeps its value when \<open>inet_aton\<close> fails. \<open>None\<close> is a line that starts with
  a zero byte.
\<close>

definition fgets16 :: "string \<Rightarrow> string \<times> string" where
  "fgets16 s = (let k = min (length (takeWhile (\<lambda>c. c \<noteq> CHR 0x0A) s) + 1) 15 in (take k s, drop k s))"

function ip_lines :: "nat \<Rightarrow> string \<Rightarrow> nat list option" where
  "ip_lines inp s =
     (if s = [] then Some []
      else
        (let (buf, rest) = fgets16 s; buf = strlen_cut buf in
         if buf = [] then None
         else
           (let inp = (case inet_aton (butlast buf) of None \<Rightarrow> inp | Some a \<Rightarrow> a) in
            map_option ((#) inp) (ip_lines inp rest))))"
  by pat_completeness auto
termination by (relation "measure (length \<circ> snd)") (auto simp: fgets16_def Let_def)

declare ip_lines.simps [simp del]

definition getIPList :: "nat \<Rightarrow> string \<Rightarrow> nat list option" where
  "getIPList stale s = ip_lines stale s"

section \<open>Options\<close>

definition NR_PARALLEL :: int where "NR_PARALLEL = 40960"

record pe_config =
  script_path :: string
  extra_args :: string
  pe_exec :: bool
  parallel_num :: int
  pe_verbose :: int
  con_timeout :: int
  ip_list_path :: string

definition pe_default :: pe_config where
  "pe_default = \<lparr>script_path = [], extra_args = [], pe_exec = False, parallel_num = NR_PARALLEL, pe_verbose = 0,
     con_timeout = 1, ip_list_path = []\<rparr>"

text \<open>Strings are cut to the arrays; other options are ignored.\<close>

definition pe_option :: "char \<Rightarrow> string \<Rightarrow> pe_config \<Rightarrow> pe_config" where
  "pe_option opt optarg c =
     (if opt = CHR ''v'' then c\<lparr>pe_verbose := pe_verbose c + 1\<rparr>
      else if opt = CHR ''x'' then c\<lparr>pe_exec := True\<rparr>
      else if opt = CHR ''s'' then c\<lparr>script_path := take 255 optarg\<rparr>
      else if opt = CHR ''e'' then c\<lparr>extra_args := take 255 optarg\<rparr>
      else if opt = CHR ''l'' then c\<lparr>ip_list_path := take 255 optarg\<rparr>
      else if opt = CHR ''n'' then c\<lparr>parallel_num := atoi optarg\<rparr>
      else if opt = CHR ''t'' then c\<lparr>con_timeout := atoi optarg\<rparr>
      else c)"

definition pe_limits :: "pe_config \<Rightarrow> pe_config" where
  "pe_limits c =
     (let c = (if con_timeout c < 1 then c\<lparr>con_timeout := 1\<rparr> else c);
          c = (if con_timeout c > 60 then c\<lparr>con_timeout := 60\<rparr> else c)
      in if parallel_num c < 1 \<or> parallel_num c > NR_PARALLEL then c\<lparr>parallel_num := NR_PARALLEL\<rparr> else c)"

text \<open>
  The program gives up without addresses or command; to copy a file it sets the target, which
  has to fit the array.
\<close>

definition pe_config_of :: "(char \<times> string) list \<Rightarrow> nat list \<Rightarrow> pe_config option" where
  "pe_config_of os ips =
     (let c = pe_limits (fold (\<lambda>(opt, optarg). pe_option opt optarg) os pe_default) in
      if length ips < 1 then None
      else if script_path c = [] then None
      else if pe_exec c then Some c
      else
        (let target = ''/tmp/'' @ base_name (script_path c) in
         if length target \<ge> 256 then None else Some (c\<lparr>extra_args := target\<rparr>)))"

section \<open>Children\<close>

text \<open>
  The arguments of the program that a child becomes. \<open>None\<close>: they do not fit the 64 and 128
  characters of the local arrays.
\<close>

definition pe_ip_dots :: "nat \<Rightarrow> string" where
  "pe_ip_dots a = dec (a div 2 ^ 24 mod 256) @ ''.'' @ dec (a div 2 ^ 16 mod 256) @ ''.'' @ dec (a div 2 ^ 8 mod 256) @ ''.'' @
     dec (a mod 256)"

definition child_args :: "pe_config \<Rightarrow> nat \<Rightarrow> string list option" where
  "child_args c a =
     (let timeout_str = ''-oConnectTimeout='' @ dec (nat (con_timeout c));
          opts = [timeout_str, ''-oPasswordAuthentication=no'', ''-oStrictHostKeyChecking=no''] in
      if \<not> pe_exec c then
        (let buf = ''root@'' @ pe_ip_dots a @ '':'' @ extra_args c in
         if length buf \<ge> 64 then None else Some ([''/usr/bin/scp''] @ opts @ [''-pr'', script_path c, buf]))
      else
        (let buf = ''root@'' @ pe_ip_dots a; cmd_path = script_path c @ '' '' @ extra_args c in
         if length cmd_path \<ge> 128 then None else Some ([''/usr/bin/ssh''] @ opts @ [buf, cmd_path])))"

text \<open>The state of the parent; \<open>pe_report\<close> has the process id, the number and the status of each report.\<close>

record pe_state =
  pidmap :: pidmap
  pos :: int
  alive :: int
  nr_exit2 :: int
  pe_stop :: bool
  pe_report :: "(int \<times> int \<times> int) list"

text \<open>A process that \<open>waitpid\<close> returns. \<open>Inl\<close> ends the program: the assertion fails, or it prints a text without end.\<close>

datatype pe_fault = Assertion | No_terminator

definition pe_reap :: "int \<times> int \<Rightarrow> pe_state \<Rightarrow> pe_fault + pe_state" where
  "pe_reap = (\<lambda>(pid, retcode) s.
     (let (slot, m) = stupidMap_Remove pid (pidmap s) in
      if slot < 0 then Inl Assertion
      else Inr (s\<lparr>pidmap := m, nr_exit2 := nr_exit2 s + 1, alive := alive s - 1,
        pe_report := pe_report s @ [(pid, slot, retcode)]\<rparr>)))"

fun pe_reaps :: "(int \<times> int) list \<Rightarrow> pe_state \<Rightarrow> pe_fault + pe_state" where
  "pe_reaps [] s = Inr s"
| "pe_reaps (x # xs) s = (case pe_reap x s of Inl e \<Rightarrow> Inl e | Inr s \<Rightarrow> pe_reaps xs s)"

definition pe_check :: "int \<Rightarrow> pe_state \<Rightarrow> pe_state" where
  "pe_check total_ips s = (if nr_exit2 s = total_ips then s\<lparr>pe_stop := True\<rparr> else s)"

definition pe_fork :: "int \<Rightarrow> pe_state \<Rightarrow> pe_state" where
  "pe_fork pid s =
     s\<lparr>pidmap := snd (stupidMap_Add pid (pos s) (pidmap s)), pos := pos s + 1, alive := alive s + 1\<rparr>"

text \<open>The children that are started at the end of a turn: \<open>pids\<close> are the results of \<open>fork\<close>.\<close>

fun pe_fill :: "int \<Rightarrow> int \<Rightarrow> int list \<Rightarrow> pe_state \<Rightarrow> pe_state" where
  "pe_fill total_ips par [] s = s"
| "pe_fill total_ips par (pid # pids) s =
     (if pos s < total_ips \<and> alive s < par then pe_fill total_ips par pids (pe_fork pid s) else s)"

text \<open>
  The events of a turn. For the output of a child: the flags, what \<open>read\<close> returns, and as
  result whether the descriptor is closed and the text printed; \<open>None\<close> is a text without end.
\<close>

datatype pe_event = Sigchld "(int \<times> int) list" | Sig_ignored | Sig_exit | Output u32 int

definition BUF_MAX :: int where "BUF_MAX = 4096"

definition pe_output :: "u32 \<Rightarrow> int \<Rightarrow> (bool \<times> bool) option" where
  "pe_output ev t =
     (let end1 = (ev AND 1 = 0 \<or> ev AND 8 \<noteq> 0 \<or> ev AND 16 \<noteq> 0); end2 = (end1 \<or> t < 1) in
      if end2 \<and> t < 1 then Some (end2, False)
      else if t = BUF_MAX then None
      else Some (end2, True))"

fun pe_events :: "int \<Rightarrow> pe_event list \<Rightarrow> pe_state \<Rightarrow> pe_fault + pe_state" where
  "pe_events total_ips [] s = Inr s"
| "pe_events total_ips (e # es) s =
     (if pe_stop s then Inr s
      else case e of
        Sigchld pids \<Rightarrow> (case pe_reaps pids s of Inl f \<Rightarrow> Inl f | Inr s \<Rightarrow> pe_events total_ips es (pe_check total_ips s))
      | Sig_ignored \<Rightarrow> pe_events total_ips es s
      | Sig_exit \<Rightarrow> Inr (s\<lparr>pe_stop := True\<rparr>)
      | Output ev t \<Rightarrow> (case pe_output ev t of None \<Rightarrow> Inl No_terminator | Some _ \<Rightarrow> pe_events total_ips es s))"

definition core_process :: "int \<Rightarrow> int \<Rightarrow> pe_event list \<Rightarrow> int list \<Rightarrow> pe_state \<Rightarrow> pe_fault + pe_state" where
  "core_process total_ips par es pids s =
     (case pe_events total_ips es s of
        Inl f \<Rightarrow> Inl f
      | Inr s \<Rightarrow> Inr (if pe_stop s then s else pe_fill total_ips par pids s))"

text \<open>The first children fill the table from its start.\<close>

definition pe_start :: "nat \<Rightarrow> nat \<Rightarrow> int list \<Rightarrow> pe_state" where
  "pe_start total_ips par pids =
     (let n = min total_ips par in
      \<lparr>pidmap = map (\<lambda>i. if i < n then (pids ! i, int i) else (0, 0)) [0..<par], pos = int n, alive = int n,
       nr_exit2 = 0, pe_stop = False, pe_report = []\<rparr>)"

section \<open>The table of children: lemmas\<close>

abbreviation entries :: "pidmap \<Rightarrow> (int \<times> int) multiset" where
  "entries m \<equiv> filter_mset (\<lambda>e. fst e \<noteq> 0) (mset m)"

lemma add_from_free:
  assumes "i + k = length m" "\<exists>j. i \<le> j \<and> j < length m \<and> fst (m ! j) = 0"
  shows "\<exists>j < length m. fst (m ! j) = 0 \<and> add_from k i key val m = (int j, m[j := (key, val)])"
  using assms
proof (induction k arbitrary: i)
  case (Suc k)
  show ?case
  proof (cases "fst (m ! i) = 0")
    case True
    with Suc.prems show ?thesis by (intro exI [of _ i]) auto
  next
    case False
    with Suc.prems(2) obtain j where j: "i + 1 \<le> j" "j < length m" "fst (m ! j) = 0"
      by (metis Suc_eq_plus1 le_antisym not_less_eq_eq)
    then have "i + 1 \<noteq> length m" by simp
    with False Suc.IH [of "i + 1"] Suc.prems(1) j show ?thesis by auto
  qed
qed auto

lemma remove_from_found:
  assumes "i + k = length m" "\<exists>j. i \<le> j \<and> j < length m \<and> fst (m ! j) = key"
  shows "\<exists>j < length m. fst (m ! j) = key \<and> remove_from k i key m = (snd (m ! j), m[j := (0, snd (m ! j))])"
  using assms
proof (induction k arbitrary: i)
  case (Suc k)
  show ?case
  proof (cases "fst (m ! i) = key")
    case True
    with Suc.prems show ?thesis by (intro exI [of _ i]) auto
  next
    case False
    with Suc.prems(2) obtain j where j: "i + 1 \<le> j" "j < length m" "fst (m ! j) = key"
      by (metis Suc_eq_plus1 le_antisym not_less_eq_eq)
    then have "i + 1 \<noteq> length m" by simp
    with False Suc.IH [of "i + 1"] Suc.prems(1) j show ?thesis by auto
  qed
qed auto

lemma entries_add:
  assumes "size (entries m) < length m" "key \<noteq> 0"
  shows "length (snd (stupidMap_Add key val m)) = length m"
    and "entries (snd (stupidMap_Add key val m)) = add_mset (key, val) (entries m)"
proof -
  have "\<exists>j < length m. fst (m ! j) = 0"
  proof (rule ccontr)
    assume "\<not> ?thesis"
    then have "\<And>e. e \<in> set m \<Longrightarrow> fst e \<noteq> 0" unfolding in_set_conv_nth by blast
    then have "filter (\<lambda>e. fst e \<noteq> 0) m = m" by simp
    then have "entries m = mset m" by (metis mset_filter)
    with assms(1) show False by simp
  qed
  with add_from_free [of 0 "length m" m key val] obtain j
    where j: "j < length m" "fst (m ! j) = 0" "stupidMap_Add key val m = (int j, m[j := (key, val)])"
    unfolding stupidMap_Add_def by auto
  then show "length (snd (stupidMap_Add key val m)) = length m" by simp
  show "entries (snd (stupidMap_Add key val m)) = add_mset (key, val) (entries m)"
    using j assms(2) by (simp add: mset_update)
qed

lemma entries_remove:
  assumes "key \<in># image_mset fst (entries m)"
  obtains slot m' where "stupidMap_Remove key m = (slot, m')" "length m' = length m"
    "entries m = add_mset (key, slot) (entries m')"
proof -
  from assms have k: "key \<noteq> 0" and "\<exists>j < length m. fst (m ! j) = key"
    by (auto simp: in_set_conv_nth)
  with remove_from_found [of 0 "length m" m key] obtain j
    where j: "j < length m" "fst (m ! j) = key" "stupidMap_Remove key m = (snd (m ! j), m[j := (0, snd (m ! j))])"
    unfolding stupidMap_Remove_def by auto
  have "m ! j \<in># mset m" using j(1) by simp
  then have "entries m = add_mset (m ! j) (entries (m[j := (0, snd (m ! j))]))"
    using j k by (simp add: mset_update)
  with j have "entries m = add_mset (key, snd (m ! j)) (entries (m[j := (0, snd (m ! j))]))"
    by (metis prod.collapse)
  with j show ?thesis by (intro that [OF j(3)]) auto
qed

section \<open>The parent and its children\<close>

text \<open>
  The processes that one call of \<open>epoll_wait\<close> makes the parent wait for, and the results of the
  calls of \<open>fork\<close>: -1, or a process id that no child has.
\<close>

definition reaped :: "pe_event list \<Rightarrow> int list" where
  "reaped es = concat (map (\<lambda>e. case e of Sigchld xs \<Rightarrow> map fst xs | _ \<Rightarrow> []) es)"

lemma reaped_simps [simp]:
  "reaped [] = []"
  "reaped (e # es) = (case e of Sigchld xs \<Rightarrow> map fst xs | _ \<Rightarrow> []) @ reaped es"
  by (simp_all add: reaped_def)

definition new_pids :: "int list \<Rightarrow> int list \<Rightarrow> bool" where
  "new_pids ks pids = (distinct (filter (\<lambda>p. 0 < p) pids) \<and> (\<forall>p \<in> set pids. p = -1 \<or> 0 < p \<and> p \<notin> set ks))"

text \<open>The children that run or wait for the parent, the failed calls of \<open>fork\<close> and the parent.\<close>

record pe_sys =
  kids :: "int list"
  fork_fails :: nat
  parent :: "pe_fault + pe_state"

definition kids_left :: "pe_state \<Rightarrow> pe_state \<Rightarrow> int list \<Rightarrow> int list" where
  "kids_left s s' ks = filter (\<lambda>k. k \<notin> fst ` set (drop (length (pe_report s)) (pe_report s'))) ks"

definition pe_started :: "pe_state \<Rightarrow> pe_state \<Rightarrow> int list \<Rightarrow> int list" where
  "pe_started s s' pids = take (nat (pos s' - pos s)) pids"

definition after_turn :: "pe_state \<Rightarrow> pe_state \<Rightarrow> int list \<Rightarrow> pe_sys \<Rightarrow> pe_sys" where
  "after_turn s s' pids S =
     \<lparr>kids = kids_left s s' (kids S) @ filter (\<lambda>p. 0 < p) (pe_started s s' pids),
      fork_fails = fork_fails S + count_list (pe_started s s' pids) (-1), parent = Inr s'\<rparr>"

inductive pe_turn :: "nat \<Rightarrow> nat \<Rightarrow> pe_sys \<Rightarrow> pe_sys \<Rightarrow> bool" for N par where
  turn: "\<lbrakk>parent S = Inr s; \<not> pe_stop s; distinct (reaped es); set (reaped es) \<subseteq> set (kids S);
     core_process (int N) (int par) es pids s = Inr s'; new_pids (kids_left s s' (kids S)) pids; par \<le> length pids\<rbrakk>
     \<Longrightarrow> pe_turn N par S (after_turn s s' pids S)"
| fault: "\<lbrakk>parent S = Inr s; \<not> pe_stop s; distinct (reaped es); set (reaped es) \<subseteq> set (kids S);
     core_process (int N) (int par) es pids s = Inl e\<rbrakk>
     \<Longrightarrow> pe_turn N par S (S\<lparr>parent := Inl e\<rparr>)"

definition pe_init :: "nat \<Rightarrow> nat \<Rightarrow> int list \<Rightarrow> pe_sys" where
  "pe_init N par pids =
     \<lparr>kids = filter (\<lambda>p. 0 < p) (take (min N par) pids), fork_fails = count_list (take (min N par) pids) (-1),
      parent = Inr (pe_start N par pids)\<rparr>"

text \<open>
  The invariant: the keys of the table are the children and a -1 for each failed \<open>fork\<close>, and its
  values with the reported numbers are the numbers below \<open>pos\<close>.
\<close>

definition pe_inv :: "nat \<Rightarrow> nat \<Rightarrow> int list \<Rightarrow> nat \<Rightarrow> pe_state \<Rightarrow> bool" where
  "pe_inv N par ks f s \<longleftrightarrow>
     length (pidmap s) = par \<and> distinct ks \<and> (\<forall>k \<in> set ks. 0 < k) \<and>
     image_mset fst (entries (pidmap s)) = mset ks + replicate_mset f (-1) \<and>
     alive s = int (length ks + f) \<and> alive s \<le> int par \<and> pos s = alive s + nr_exit2 s \<and> pos s \<le> int N \<and>
     nr_exit2 s = int (length (pe_report s)) \<and>
     image_mset snd (entries (pidmap s)) + mset (map (fst \<circ> snd) (pe_report s)) = mset (map int [0..<nat (pos s)])"

lemma pe_invD:
  assumes "pe_inv N par ks f s"
  shows "length (pidmap s) = par" "distinct ks" "\<And>k. k \<in> set ks \<Longrightarrow> 0 < k"
    "image_mset fst (entries (pidmap s)) = mset ks + replicate_mset f (-1)"
    "alive s = int (length ks + f)" "alive s \<le> int par" "pos s = alive s + nr_exit2 s" "pos s \<le> int N"
    "nr_exit2 s = int (length (pe_report s))"
    "image_mset snd (entries (pidmap s)) + mset (map (fst \<circ> snd) (pe_report s)) = mset (map int [0..<nat (pos s)])"
  using assms unfolding pe_inv_def by blast+

lemma pe_reap_inv:
  assumes i: "pe_inv N par ks f s" and pid: "pid \<in> set ks"
  obtains s' slot where "pe_reap (pid, rc) s = Inr s'" "pe_report s' = pe_report s @ [(pid, slot, rc)]"
    "pe_inv N par (filter (\<lambda>k. k \<noteq> pid) ks) f s'" "pos s' = pos s" "pe_stop s' = pe_stop s"
proof -
  note I = pe_invD [OF i]
  have "pid \<in># image_mset fst (entries (pidmap s))" unfolding I(4) using pid by simp
  then obtain slot m' where m': "stupidMap_Remove pid (pidmap s) = (slot, m')" "length m' = length (pidmap s)"
      and e: "entries (pidmap s) = add_mset (pid, slot) (entries m')"
    by (rule entries_remove)
  have "slot \<in># mset (map int [0..<nat (pos s)])" unfolding I(10) [symmetric] e by simp
  then have slot: "0 \<le> slot" by auto
  define s' where "s' = s\<lparr>pidmap := m', nr_exit2 := nr_exit2 s + 1, alive := alive s - 1,
        pe_report := pe_report s @ [(pid, slot, rc)]\<rparr>"
  have "filter (\<lambda>k. k \<noteq> pid) ks = remove1 pid ks"
    unfolding distinct_remove1_removeAll [OF I(2)] removeAll_filter_not_eq by (rule filter_cong) auto
  then have ks: "mset ks = add_mset pid (mset (filter (\<lambda>k. k \<noteq> pid) ks))" using pid by simp
  then have "length ks = Suc (length (filter (\<lambda>k. k \<noteq> pid) ks))" by (metis size_add_mset size_mset)
  moreover have "image_mset fst (entries m') = mset (filter (\<lambda>k. k \<noteq> pid) ks) + replicate_mset f (-1)"
    using I(4) unfolding e ks by simp
  moreover have "image_mset snd (entries m') + mset (map (fst \<circ> snd) (pe_report s')) = mset (map int [0..<nat (pos s)])"
    using I(10) unfolding e s'_def by simp
  ultimately have "pe_inv N par (filter (\<lambda>k. k \<noteq> pid) ks) f s'"
    using I(1-3,5-9) m'(2) unfolding pe_inv_def s'_def by simp
  with m'(1) slot show ?thesis by (intro that [of s' slot]) (simp_all add: pe_reap_def s'_def)
qed

lemma pe_reaps_inv:
  assumes "pe_inv N par ks f s" "distinct (map fst xs)" "fst ` set xs \<subseteq> set ks"
  shows "\<exists>s' new. pe_reaps xs s = Inr s' \<and> pe_report s' = pe_report s @ new \<and> map fst new = map fst xs \<and>
    pe_inv N par (filter (\<lambda>k. k \<notin> fst ` set xs) ks) f s' \<and> pos s' = pos s \<and> pe_stop s' = pe_stop s"
  using assms
proof (induction xs arbitrary: ks s)
  case (Cons x xs)
  obtain pid rc where x: "x = (pid, rc)" by (cases x)
  from Cons.prems(3) have "pid \<in> set ks" by (simp add: x)
  from Cons.prems(1) this obtain s1 slot where s1: "pe_reap (pid, rc) s = Inr s1"
      "pe_report s1 = pe_report s @ [(pid, slot, rc)]" "pe_inv N par (filter (\<lambda>k. k \<noteq> pid) ks) f s1"
      "pos s1 = pos s" "pe_stop s1 = pe_stop s"
    by (rule pe_reap_inv)
  have "fst ` set xs \<subseteq> set (filter (\<lambda>k. k \<noteq> pid) ks)" using Cons.prems(2,3) by (auto simp: x)
  with Cons.IH [OF s1(3)] Cons.prems(2) obtain s' new where
    "pe_reaps xs s1 = Inr s'" "pe_report s' = pe_report s1 @ new" "map fst new = map fst xs"
    "pe_inv N par (filter (\<lambda>k. k \<notin> fst ` set xs) (filter (\<lambda>k. k \<noteq> pid) ks)) f s'" "pos s' = pos s1" "pe_stop s' = pe_stop s1"
    by auto
  moreover have "filter (\<lambda>k. k \<notin> fst ` set xs) (filter (\<lambda>k. k \<noteq> pid) ks) = filter (\<lambda>k. k \<notin> fst ` set (x # xs)) ks"
    by (auto simp: x intro: filter_cong)
  ultimately show ?case using s1 by (intro exI [of _ s'] exI [of _ "(pid, slot, rc) # new"]) (simp add: x)
qed simp

lemma pe_check_same:
  "pe_inv N par ks f (pe_check n s) = pe_inv N par ks f s" "pe_report (pe_check n s) = pe_report s"
  "pos (pe_check n s) = pos s" "nr_exit2 (pe_check n s) = nr_exit2 s"
  by (simp_all add: pe_check_def pe_inv_def)

text \<open>
  What the events of a turn leave: the reported children are gone, and the program stops when all
  are reported or a signal says so.
\<close>

definition events_post :: "nat \<Rightarrow> nat \<Rightarrow> int list \<Rightarrow> nat \<Rightarrow> pe_event list \<Rightarrow> pe_state \<Rightarrow> pe_state \<Rightarrow> bool" where
  "events_post N par ks f es s s' \<longleftrightarrow>
     (\<exists>new. pe_report s' = pe_report s @ new \<and> pe_inv N par (filter (\<lambda>k. k \<notin> fst ` set new) ks) f s' \<and>
        fst ` set new \<subseteq> set (reaped es) \<and> (\<not> pe_stop s' \<longrightarrow> fst ` set new = set (reaped es))) \<and>
     pos s' = pos s \<and> (pe_stop s \<longrightarrow> s' = s) \<and> (pe_stop s' \<longrightarrow> pe_stop s \<or> nr_exit2 s' = int N \<or> Sig_exit \<in> set es) \<and>
     (nr_exit2 s \<noteq> int N \<and> \<not> pe_stop s' \<longrightarrow> nr_exit2 s' \<noteq> int N)"

lemma pe_events_inv:
  assumes "pe_inv N par ks f s" "distinct (reaped es)" "set (reaped es) \<subseteq> set ks"
  shows "(pe_events (int N) es s = Inl No_terminator \<and> (\<exists>ev. Output ev BUF_MAX \<in> set es)) \<or>
    (\<exists>s'. pe_events (int N) es s = Inr s' \<and> events_post N par ks f es s s')"
  using assms
proof (induction es arbitrary: ks s)
  case Nil
  then show ?case by (simp add: events_post_def)
next
  case (Cons e es)
  show ?case
  proof (cases "pe_stop s")
    case True
    then show ?thesis using Cons.prems by (simp add: events_post_def)
  next
    case False
    show ?thesis
    proof (cases e)
      case (Sigchld xs)
      have d: "distinct (map fst xs)" "fst ` set xs \<subseteq> set ks" "distinct (reaped es)"
          "set (reaped es) \<subseteq> set (filter (\<lambda>k. k \<notin> fst ` set xs) ks)"
        using Cons.prems(2,3) by (auto simp: Sigchld)
      from pe_reaps_inv [OF Cons.prems(1) d(1,2)] obtain s1 new1 where s1: "pe_reaps xs s = Inr s1"
          "pe_report s1 = pe_report s @ new1" "map fst new1 = map fst xs" "pos s1 = pos s" "pe_stop s1 = pe_stop s"
          and i1: "pe_inv N par (filter (\<lambda>k. k \<notin> fst ` set xs) ks) f s1" by blast
      have n1: "fst ` set new1 = fst ` set xs" using s1(3) by (metis set_map)
      let ?s2 = "pe_check (int N) s1"
      have i2: "pe_inv N par (filter (\<lambda>k. k \<notin> fst ` set xs) ks) f ?s2" using i1 by (simp add: pe_check_same)
      have st: "pe_stop ?s2 \<longleftrightarrow> nr_exit2 ?s2 = int N" using False s1(5) by (simp add: pe_check_def)
      have "events_post N par ks f (e # es) s s'" if "events_post N par (filter (\<lambda>k. k \<notin> fst ` set xs) ks) f es ?s2 s'" for s'
      proof -
        from that obtain new where new: "pe_report s' = pe_report ?s2 @ new"
            "pe_inv N par (filter (\<lambda>k. k \<notin> fst ` set new) (filter (\<lambda>k. k \<notin> fst ` set xs) ks)) f s'"
            "fst ` set new \<subseteq> set (reaped es)" "\<not> pe_stop s' \<longrightarrow> fst ` set new = set (reaped es)"
            and rest: "pos s' = pos ?s2" "pe_stop ?s2 \<longrightarrow> s' = ?s2" "pe_stop s' \<longrightarrow> pe_stop ?s2 \<or> nr_exit2 s' = int N \<or> Sig_exit \<in> set es"
              "nr_exit2 ?s2 \<noteq> int N \<and> \<not> pe_stop s' \<longrightarrow> nr_exit2 s' \<noteq> int N"
          unfolding events_post_def by blast
        have f: "filter (\<lambda>k. k \<notin> fst ` set new) (filter (\<lambda>k. k \<notin> fst ` set xs) ks)
            = filter (\<lambda>k. k \<notin> fst ` set (new1 @ new)) ks"
          unfolding filter_filter by (rule filter_cong) (use n1 in auto)
        have r: "set (reaped (e # es)) = fst ` set xs \<union> set (reaped es)" by (simp add: Sigchld)
        have "pe_stop s' \<longrightarrow> nr_exit2 s' = int N \<or> Sig_exit \<in> set es"
          using rest(2,3) st by auto
        moreover have "\<not> pe_stop s' \<longrightarrow> nr_exit2 s' \<noteq> int N"
          using rest(2,4) st by auto
        ultimately show ?thesis
          unfolding events_post_def using new(1,3,4) new(2) [unfolded f] rest(1) False s1(2,4) r n1
          by (intro conjI exI [of _ "new1 @ new"]) (auto simp: pe_check_same)
      qed
      with Cons.IH [OF i2 d(3,4)] show ?thesis by (auto simp: False Sigchld s1)
    next
      case (Output ev t)
      then show ?thesis using Cons.IH [of ks s] Cons.prems False
        by (auto simp: events_post_def pe_output_def Let_def split: option.splits if_splits)
    qed (use Cons.IH [of ks s] Cons.prems False in \<open>auto simp: events_post_def pe_inv_def\<close>)
  qed
qed

lemma pe_fork_inv:
  assumes i: "pe_inv N par ks f s" and "pos s < int N" "alive s < int par" and p: "p = -1 \<or> 0 < p \<and> p \<notin> set ks"
  shows "pe_inv N par (ks @ filter (\<lambda>p. 0 < p) [p]) (f + count_list [p] (-1)) (pe_fork p s)"
proof -
  note I = pe_invD [OF i]
  have "size (entries (pidmap s)) = length ks + f" using arg_cong [OF I(4), of size] by simp
  then have sz: "size (entries (pidmap s)) < length (pidmap s)" using I(1,5) assms(3) by simp
  have p0: "p \<noteq> 0" using p by auto
  note E = entries_add [OF sz p0, of "pos s"]
  have "nat (pos s + 1) = Suc (nat (pos s))" "0 \<le> pos s" using I(5,7,9) by auto
  then have u: "mset (map int [0..<nat (pos s + 1)]) = add_mset (pos s) (mset (map int [0..<nat (pos s)]))" by simp
  let ?m = "pidmap (pe_fork p s)" and ?ks = "ks @ filter (\<lambda>p. 0 < p) [p]" and ?f = "f + count_list [p] (-1)"
  have e: "entries ?m = add_mset (p, pos s) (entries (pidmap s))" "length ?m = length (pidmap s)"
    using E by (simp_all add: pe_fork_def)
  have "image_mset fst (entries ?m) = add_mset p (mset ks + replicate_mset f (-1))"
    unfolding e image_mset_add_mset I(4) by simp
  also have "\<dots> = mset ?ks + replicate_mset ?f (-1)" using p by auto
  finally have keys: "image_mset fst (entries ?m) = mset ?ks + replicate_mset ?f (-1)" .
  have "image_mset snd (entries ?m) + mset (map (fst \<circ> snd) (pe_report (pe_fork p s)))
      = add_mset (pos s) (mset (map int [0..<nat (pos s)]))"
    unfolding e image_mset_add_mset I(10) [symmetric] by (simp add: pe_fork_def)
  then have vals: "image_mset snd (entries ?m) + mset (map (fst \<circ> snd) (pe_report (pe_fork p s)))
      = mset (map int [0..<nat (pos (pe_fork p s))])"
    unfolding u [symmetric] by (simp add: pe_fork_def)
  have "distinct ?ks" "\<forall>k \<in> set ?ks. 0 < k" "length ?ks + ?f = Suc (length ks + f)" using p I(2,3) by auto
  moreover from this(3) have "alive (pe_fork p s) = int (length ?ks + ?f)" using I(5) by (simp add: pe_fork_def)
  moreover have "length ?m = par" using e(2) I(1) by (rule trans)
  moreover have "alive (pe_fork p s) \<le> int par" "pos (pe_fork p s) = alive (pe_fork p s) + nr_exit2 (pe_fork p s)"
    "pos (pe_fork p s) \<le> int N" "nr_exit2 (pe_fork p s) = int (length (pe_report (pe_fork p s)))"
    using I(7,9) assms(2,3) by (simp_all add: pe_fork_def)
  ultimately show ?thesis unfolding pe_inv_def using keys vals by blast
qed

lemma pe_fill_inv:
  assumes "pe_inv N par ks f s" "new_pids ks pids"
  shows "\<exists>k s'. pe_fill (int N) (int par) pids s = s' \<and> pos s' = pos s + int k \<and> k \<le> length pids \<and>
    pe_inv N par (ks @ filter (\<lambda>p. 0 < p) (take k pids)) (f + count_list (take k pids) (-1)) s' \<and>
    pe_report s' = pe_report s \<and> nr_exit2 s' = nr_exit2 s \<and> pe_stop s' = pe_stop s \<and>
    (k < length pids \<longrightarrow> pos s' = int N \<or> alive s' = int par)"
  using assms
proof (induction pids arbitrary: ks f s)
  case Nil
  then show ?case by simp
next
  case (Cons p pids)
  note I = pe_invD [OF Cons.prems(1)]
  show ?case
  proof (cases "pos s < int N \<and> alive s < int par")
    case True
    have p: "p = -1 \<or> 0 < p \<and> p \<notin> set ks" using Cons.prems(2) by (simp add: new_pids_def)
    let ?ks = "ks @ filter (\<lambda>p. 0 < p) [p]" and ?f = "f + count_list [p] (-1)"
    have i: "pe_inv N par ?ks ?f (pe_fork p s)" using True p by (intro pe_fork_inv [OF Cons.prems(1)]) auto
    have n: "new_pids ?ks pids" using Cons.prems(2) by (auto simp: new_pids_def split: if_splits)
    from Cons.IH [OF i n] obtain k s' where IH: "pe_fill (int N) (int par) pids (pe_fork p s) = s'"
      "pos s' = pos (pe_fork p s) + int k" "k \<le> length pids"
      "pe_inv N par (?ks @ filter (\<lambda>p. 0 < p) (take k pids)) (?f + count_list (take k pids) (-1)) s'"
      "pe_report s' = pe_report (pe_fork p s)" "nr_exit2 s' = nr_exit2 (pe_fork p s)" "pe_stop s' = pe_stop (pe_fork p s)"
      "k < length pids \<longrightarrow> pos s' = int N \<or> alive s' = int par" by blast
    moreover have "?ks @ filter (\<lambda>p. 0 < p) (take k pids) = ks @ filter (\<lambda>p. 0 < p) (take (Suc k) (p # pids))"
      "?f + count_list (take k pids) (-1) = f + count_list (take (Suc k) (p # pids)) (-1)" by simp_all
    ultimately have "pe_inv N par (ks @ filter (\<lambda>p. 0 < p) (take (Suc k) (p # pids)))
        (f + count_list (take (Suc k) (p # pids)) (-1)) s'" by (simp only:)
    moreover have "pe_fill (int N) (int par) (p # pids) s = s'" using True IH(1) by simp
    ultimately show ?thesis using IH(2,3,5-8)
      by (intro exI [of _ "Suc k"] exI [of _ s']) (simp add: pe_fork_def)
  next
    case False
    then have "pos s = int N \<or> alive s = int par" using I(6,8) by auto
    moreover have "pe_fill (int N) (int par) (p # pids) s = s" using False by auto
    ultimately show ?thesis using Cons.prems(1) by (intro exI [of _ 0] exI [of _ s]) simp
  qed
qed

text \<open>A turn: the events and, unless they end the program, the new children.\<close>

definition turn_post :: "nat \<Rightarrow> nat \<Rightarrow> int list \<Rightarrow> nat \<Rightarrow> pe_event list \<Rightarrow> int list \<Rightarrow> pe_state \<Rightarrow> pe_state \<Rightarrow> bool" where
  "turn_post N par ks f es pids s s' \<longleftrightarrow>
     pe_inv N par (kids_left s s' ks @ filter (\<lambda>p. 0 < p) (pe_started s s' pids))
       (f + count_list (pe_started s s' pids) (-1)) s' \<and>
     (\<exists>new. pe_report s' = pe_report s @ new \<and> (\<not> pe_stop s' \<longrightarrow> fst ` set new = set (reaped es))) \<and>
     (pe_stop s' \<longrightarrow> nr_exit2 s' = int N \<or> Sig_exit \<in> set es) \<and>
     (nr_exit2 s < int N \<and> \<not> pe_stop s' \<longrightarrow> nr_exit2 s' < int N) \<and>
     (\<not> pe_stop s' \<and> par \<le> length pids \<longrightarrow> pos s' = int N \<or> alive s' = int par)"

lemma kids_left_new: "pe_report s' = pe_report s @ new \<Longrightarrow> kids_left s s' ks = filter (\<lambda>k. k \<notin> fst ` set new) ks"
  by (simp add: kids_left_def)

lemma pe_fill_report: "pe_report (pe_fill n par pids s) = pe_report s"
  by (induction pids arbitrary: s) (simp_all add: pe_fork_def)

lemma core_process_inv:
  assumes "pe_inv N par ks f s" "\<not> pe_stop s" "distinct (reaped es)" "set (reaped es) \<subseteq> set ks"
  shows "core_process (int N) (int par) es pids s = Inl e \<Longrightarrow> e = No_terminator \<and> (\<exists>ev. Output ev BUF_MAX \<in> set es)"
    and "core_process (int N) (int par) es pids s = Inr s' \<Longrightarrow> new_pids (kids_left s s' ks) pids \<Longrightarrow>
      turn_post N par ks f es pids s s'"
proof -
  note E = pe_events_inv [OF assms(1,3,4)]
  show "core_process (int N) (int par) es pids s = Inl e \<Longrightarrow> e = No_terminator \<and> (\<exists>ev. Output ev BUF_MAX \<in> set es)"
    using E by (auto simp: core_process_def split: sum.splits)
  assume c: "core_process (int N) (int par) es pids s = Inr s'" and np: "new_pids (kids_left s s' ks) pids"
  from c obtain s1 where ev: "pe_events (int N) es s = Inr s1" and s': "s' = (if pe_stop s1 then s1 else pe_fill (int N) (int par) pids s1)"
    by (auto simp: core_process_def split: sum.splits)
  from E ev have "events_post N par ks f es s s1" by simp
  then obtain new where new: "pe_report s1 = pe_report s @ new" "pe_inv N par (filter (\<lambda>k. k \<notin> fst ` set new) ks) f s1"
      "\<not> pe_stop s1 \<longrightarrow> fst ` set new = set (reaped es)" and rest: "pos s1 = pos s"
      "pe_stop s1 \<longrightarrow> nr_exit2 s1 = int N \<or> Sig_exit \<in> set es" "nr_exit2 s \<noteq> int N \<and> \<not> pe_stop s1 \<longrightarrow> nr_exit2 s1 \<noteq> int N"
    using assms(2) unfolding events_post_def by blast
  have rep: "pe_report s' = pe_report s @ new" using new(1) by (simp add: s' pe_fill_report)
  have le: "nr_exit2 s1 \<le> int N" using pe_invD(5,7,8) [OF new(2)] by linarith
  show "turn_post N par ks f es pids s s'"
  proof (cases "pe_stop s1")
    case True
    then show ?thesis using new rest s' rep by (auto simp: turn_post_def kids_left_new pe_started_def)
  next
    case False
    have np': "new_pids (filter (\<lambda>k. k \<notin> fst ` set new) ks) pids" using np by (simp add: kids_left_new [OF rep])
    from pe_fill_inv [OF new(2) np'] obtain k s2 where s2: "pe_fill (int N) (int par) pids s1 = s2" "pos s2 = pos s1 + int k"
      "pe_inv N par (filter (\<lambda>k. k \<notin> fst ` set new) ks @ filter (\<lambda>p. 0 < p) (take k pids)) (f + count_list (take k pids) (-1)) s2"
      "nr_exit2 s2 = nr_exit2 s1" "pe_stop s2 = pe_stop s1" "k \<le> length pids"
      "k < length pids \<longrightarrow> pos s2 = int N \<or> alive s2 = int par" by blast
    have eq: "s2 = s'" using False s' s2(1) by simp
    have st: "pe_started s s' pids = take k pids" using s2(2) rest(1) by (simp add: pe_started_def eq)
    have "pos s' = int N \<or> alive s' = int par" if "par \<le> length pids"
    proof (cases "k < length pids")
      case False
      then have k: "k = length pids" using s2(6) by simp
      have "alive s' = alive s1 + int k"
        using pe_invD(7) [OF s2(3)] pe_invD(7) [OF new(2)] s2(2,4) eq by simp
      moreover have "0 \<le> alive s1" using pe_invD(5) [OF new(2)] by simp
      ultimately show ?thesis using that k pe_invD(6) [OF s2(3)] eq by simp
    qed (use s2(7) eq in simp)
    then show ?thesis
      using s2 new rest False le rep unfolding turn_post_def st kids_left_new [OF rep] eq by auto
  qed
qed

definition pe_started_sys :: "nat \<Rightarrow> nat \<Rightarrow> pe_sys \<Rightarrow> bool" where
  "pe_started_sys N par S \<longleftrightarrow>
     0 < N \<and> 0 < par \<and> (\<exists>pids. new_pids [] pids \<and> min N par \<le> length pids \<and> S = pe_init N par pids)"

definition pe_sys_inv :: "nat \<Rightarrow> nat \<Rightarrow> pe_sys \<Rightarrow> bool" where
  "pe_sys_inv N par S \<longleftrightarrow> 0 < N \<and> 0 < par \<and>
     (case parent S of
        Inl e \<Rightarrow> e = No_terminator
      | Inr s \<Rightarrow> pe_inv N par (kids S) (fork_fails S) s \<and>
          (\<not> pe_stop s \<longrightarrow> nr_exit2 s < int N \<and> (pos s = int N \<or> alive s = int par)))"

lemma filter_pids:
  assumes "new_pids [] pids"
  shows "mset pids = mset (filter (\<lambda>p. 0 < p) pids) + replicate_mset (count_list pids (-1)) (-1)"
  using assms
proof (induction pids)
  case (Cons p pids)
  then have "new_pids [] pids" "p = -1 \<or> 0 < p" by (auto simp: new_pids_def split: if_splits)
  then show ?case using Cons.IH by auto
qed simp

lemma pe_init_inv:
  assumes "new_pids [] pids" "min N par \<le> length pids"
  shows "pe_inv N par (kids (pe_init N par pids)) (fork_fails (pe_init N par pids)) (pe_start N par pids)"
proof -
  define n where "n = min N par"
  define used where "used = take n pids"
  have n: "n \<le> N" "n \<le> par" "n \<le> length pids" using assms(2) by (auto simp: n_def)
  have np: "new_pids [] used"
    using assms(1) unfolding new_pids_def used_def
    by (metis (no_types, lifting) append_take_drop_id distinct_append filter_append in_set_takeD)
  have len: "length used = n" using n by (simp add: used_def)
  have sp: "[0..<par] = [0..<n] @ [n..<par]" using n(2) by (metis le_add_diff_inverse upt_add_eq_append zero_le)
  have m: "pidmap (pe_start N par pids) = map (\<lambda>i. (used ! i, int i)) [0..<n] @ replicate (par - n) (0, 0)"
  proof -
    have "map (\<lambda>i. if i < n then (pids ! i, int i) else (0, 0)) [n..<par] = map (\<lambda>_. (0 :: int, 0 :: int)) [n..<par]"
      by (rule map_cong) auto
    then have "map (\<lambda>i. if i < n then (pids ! i, int i) else (0, 0)) [n..<par] = replicate (par - n) (0, 0)"
      by (simp add: map_replicate_const)
    then show ?thesis
      unfolding pe_start_def Let_def n_def [symmetric] by (simp add: sp used_def cong: map_cong)
  qed
  have k0: "used ! i \<noteq> 0" if "i < n" for i using np that len unfolding new_pids_def by (metis nth_mem less_irrefl zero_neq_neg_one)
  have e: "entries (pidmap (pe_start N par pids)) = mset (map (\<lambda>i. (used ! i, int i)) [0..<n])"
  proof -
    have "filter (\<lambda>e. fst e \<noteq> 0) (pidmap (pe_start N par pids)) = map (\<lambda>i. (used ! i, int i)) [0..<n]"
      unfolding m by (simp add: filter_map comp_def k0 cong: filter_cong)
    then show ?thesis by (metis mset_filter)
  qed
  have fst: "image_mset fst (mset (map (\<lambda>i. (used ! i, int i)) [0..<n])) = mset used"
    unfolding mset_map [symmetric] map_map comp_def fst_conv using len by (metis map_nth)
  have snd: "image_mset snd (mset (map (\<lambda>i. (used ! i, int i)) [0..<n])) = mset (map int [0..<n])"
    unfolding mset_map [symmetric] map_map comp_def snd_conv ..
  have p: "mset used = mset (filter (\<lambda>p. 0 < p) used) + replicate_mset (count_list used (-1)) (-1)"
    by (rule filter_pids [OF np])
  have "length used = length (filter (\<lambda>p. 0 < p) used) + count_list used (-1)"
    using arg_cong [OF p, of size] by (simp del: mset_filter)
  then have lenk: "int n = int (length (filter (\<lambda>p. 0 < p) used) + count_list used (-1))" using len by simp
  have k: "kids (pe_init N par pids) = filter (\<lambda>p. 0 < p) used" "fork_fails (pe_init N par pids) = count_list used (-1)"
    by (simp_all add: pe_init_def used_def n_def)
  have f: "alive (pe_start N par pids) = int n" "pos (pe_start N par pids) = int n" "nr_exit2 (pe_start N par pids) = 0"
      "pe_report (pe_start N par pids) = []"
    by (simp_all add: pe_start_def n_def Let_def)
  have "length (pidmap (pe_start N par pids)) = par" using n(2) by (simp add: m)
  moreover have "image_mset fst (entries (pidmap (pe_start N par pids)))
      = mset (filter (\<lambda>p. 0 < p) used) + replicate_mset (count_list used (-1)) (-1)"
    unfolding e fst using p .
  moreover have "image_mset snd (entries (pidmap (pe_start N par pids))) + mset (map (fst \<circ> snd) [])
      = mset (map int [0..<nat (int n)])"
    unfolding e snd by simp
  moreover have "distinct (filter (\<lambda>p. 0 < p) used)" using np by (simp add: new_pids_def)
  ultimately show ?thesis unfolding pe_inv_def k f using lenk n by simp
qed

lemma pe_started_inv: "pe_started_sys N par S \<Longrightarrow> pe_sys_inv N par S"
proof -
  assume "pe_started_sys N par S"
  then obtain pids where p: "0 < N" "0 < par" "new_pids [] pids" "min N par \<le> length pids" "S = pe_init N par pids"
    unfolding pe_started_sys_def by blast
  have "parent S = Inr (pe_start N par pids)" by (simp add: p(5) pe_init_def)
  moreover have "nr_exit2 (pe_start N par pids) < int N"
      "pos (pe_start N par pids) = int N \<or> alive (pe_start N par pids) = int par"
    using p(1) by (simp_all add: pe_start_def Let_def min_def)
  ultimately show ?thesis using pe_init_inv [OF p(3,4)] p(1,2,5) by (simp add: pe_sys_inv_def)
qed

lemma after_turn_inv:
  assumes "turn_post N par (kids S) (fork_fails S) es pids s s'" "0 < N" "0 < par" "nr_exit2 s < int N" "par \<le> length pids"
  shows "pe_sys_inv N par (after_turn s s' pids S)"
  using assms by (auto simp: turn_post_def pe_sys_inv_def after_turn_def)

lemma pe_turn_inv: "pe_turn N par S T \<Longrightarrow> pe_sys_inv N par S \<Longrightarrow> pe_sys_inv N par T"
proof (induction rule: pe_turn.induct)
  case (turn S s es pids s')
  then have i: "pe_inv N par (kids S) (fork_fails S) s" "0 < N" "0 < par" "nr_exit2 s < int N"
    by (simp_all add: pe_sys_inv_def)
  with core_process_inv(2) [OF i(1) turn.hyps(2-6)] turn.hyps(7) show ?case by (intro after_turn_inv) auto
next
  case (fault S s es pids e)
  then have i: "pe_inv N par (kids S) (fork_fails S) s" "0 < N" "0 < par" by (simp_all add: pe_sys_inv_def)
  with core_process_inv(1) [OF i(1) fault.hyps(2-5)] show ?case by (simp add: pe_sys_inv_def)
qed

interpretation parexec: invariant_system "pe_started_sys N par" "pe_turn N par" "pe_sys_inv N par"
  by unfold_locales (auto intro: pe_started_inv pe_turn_inv)

lemma pe_sys_invD:
  assumes "pe_sys_inv N par S" "parent S = Inr s"
  shows "pe_inv N par (kids S) (fork_fails S) s" "0 < N" "0 < par"
    "\<not> pe_stop s \<Longrightarrow> nr_exit2 s < int N" "\<not> pe_stop s \<Longrightarrow> pos s = int N \<or> alive s = int par"
  using assms by (auto simp: pe_sys_inv_def)

lemma reports_distinct:
  assumes "pe_inv N par ks f s"
  shows "distinct (map (fst \<circ> snd) (pe_report s))" "set (map (fst \<circ> snd) (pe_report s)) \<subseteq> {0..<int N}"
    "nr_exit2 s = int N \<Longrightarrow> mset (map (fst \<circ> snd) (pe_report s)) = mset (map int [0..<N])"
proof -
  note I = pe_invD [OF assms]
  have sub: "mset (map (fst \<circ> snd) (pe_report s)) \<subseteq># mset (map int [0..<nat (pos s)])"
    unfolding I(10) [symmetric] by (rule mset_subset_eq_add_right)
  obtain vs where "mset vs = image_mset snd (entries (pidmap s))" using ex_mset by blast
  then have "mset (vs @ map (fst \<circ> snd) (pe_report s)) = mset (map int [0..<nat (pos s)])"
    unfolding mset_append I(10) [symmetric] by simp
  then have "distinct (vs @ map (fst \<circ> snd) (pe_report s))"
    unfolding mset_eq_imp_distinct_iff [OF \<open>mset (vs @ _) = _\<close>] by (simp add: distinct_map)
  then show "distinct (map (fst \<circ> snd) (pe_report s))" by simp
  show "set (map (fst \<circ> snd) (pe_report s)) \<subseteq> {0..<int N}"
    using set_mset_mono [OF sub] I(8) by auto
  assume "nr_exit2 s = int N"
  then have n: "pos s = int N" "length ks = 0" "f = 0" using I(5,7,8) by linarith+
  have "image_mset fst (entries (pidmap s)) = {#}" unfolding I(4) using n(2,3) by simp
  then have "entries (pidmap s) = {#}" by (simp only: image_mset_is_empty_iff)
  then show "mset (map (fst \<circ> snd) (pe_report s)) = mset (map int [0..<N])" using I(10) by (simp only: n image_mset_empty) simp
qed

section \<open>What the program promises\<close>

text \<open>C29. In every reachable state of ParallelExecRemote.c no address number is reported
  twice, at most the given number of children runs, and when as many children are
  reported as there are addresses, each address was executed exactly once.\<close>

theorem addresses_run_once:
  assumes "pe_started_sys N par S0" "(pe_turn N par)\<^sup>*\<^sup>* S0 S" "parent S = Inr s"
  shows "distinct (map (fst \<circ> snd) (pe_report s)) \<and> set (map (fst \<circ> snd) (pe_report s)) \<subseteq> {0..<int N} \<and>
    length (kids S) \<le> par \<and> (nr_exit2 s = int N \<longrightarrow> mset (map (fst \<circ> snd) (pe_report s)) = mset (map int [0..<N]))"
proof -
  have i: "pe_inv N par (kids S) (fork_fails S) s"
    using pe_sys_invD(1) [OF parexec.reachable_inv [OF assms(2,1)] assms(3)] .
  show ?thesis using reports_distinct [OF i] pe_invD(5,6) [OF i] by auto
qed

text \<open>C31. No order of child exits and forks, failing ones included, makes the assertion
  that a returned process id is in the table fail.\<close>

theorem assertion_never_fails:
  assumes "pe_started_sys N par S0" "(pe_turn N par)\<^sup>*\<^sup>* S0 S"
  shows "parent S \<noteq> Inl Assertion"
  using parexec.reachable_inv [OF assms(2,1)] by (auto simp: pe_sys_inv_def)

lemma fresh_pids: obtains pids where "length pids = n" "\<forall>p \<in> set pids. 0 < p" "new_pids ks pids"
proof -
  define b where "b = Max (insert 0 (set ks)) + 1"
  have b: "0 < b" "\<And>k. k \<in> set ks \<Longrightarrow> k < b"
    by (auto simp: b_def zless_add1_eq less_eq_Suc_le add1_zle_eq intro!: Max_ge)
  have "new_pids ks (map (\<lambda>i. b + int i) [0..<n])"
    using b by (fastforce simp: new_pids_def distinct_map inj_on_def intro: distinct_filter)
  with b(1) show ?thesis by (intro that [of "map (\<lambda>i. b + int i) [0..<n]"]) auto
qed

lemma children_to_wait_for:
  assumes "pe_sys_inv N par S" "parent S = Inr s" "\<not> pe_stop s" "fork_fails S = 0"
  shows "kids S \<noteq> []"
  using pe_invD(5,7) [OF pe_sys_invD(1) [OF assms(1,2)]] pe_sys_invD(3-5) [OF assms(1,2)] assms(3,4) by auto

lemma can_finish:
  assumes "pe_sys_inv N par S" "parent S = Inr s" "\<not> pe_stop s" "fork_fails S = 0"
  shows "\<exists>T t. (pe_turn N par)\<^sup>*\<^sup>* S T \<and> parent T = Inr t \<and> pe_stop t \<and> nr_exit2 t = int N"
  using assms
proof (induction "N - nat (nr_exit2 s)" arbitrary: S s rule: less_induct)
  case less
  note D = pe_sys_invD [OF less.prems(1,2)] and I = pe_invD [OF pe_sys_invD(1) [OF less.prems(1,2)]]
  obtain pids where pids: "length pids = par" "\<forall>p \<in> set pids. 0 < p" "new_pids (kids S) pids" by (rule fresh_pids)
  let ?es = "[Sigchld (map (\<lambda>k. (k, 0)) (kids S))]"
  have r: "reaped ?es = kids S" by (simp add: comp_def)
  have C: "distinct (reaped ?es)" "set (reaped ?es) \<subseteq> set (kids S)" unfolding r using I(2) by auto
  have "core_process (int N) (int par) ?es pids s \<noteq> Inl e" for e
    using core_process_inv(1) [OF D(1) less.prems(3) C] by auto
  then obtain s' where s': "core_process (int N) (int par) ?es pids s = Inr s'"
    by (cases "core_process (int N) (int par) ?es pids s") auto
  have np: "new_pids (kids_left s s' (kids S)) pids" using pids(3) by (auto simp: new_pids_def kids_left_def)
  have post: "turn_post N par (kids S) (fork_fails S) ?es pids s s'"
    by (rule core_process_inv(2) [OF D(1) less.prems(3) C s' np])
  let ?T = "after_turn s s' pids S"
  have step: "pe_turn N par S ?T" by (rule pe_turn.turn [OF less.prems(2,3) C s' np]) (simp add: pids)
  have T: "pe_sys_inv N par ?T" "parent ?T = Inr s'"
    using pe_turn_inv [OF step less.prems(1)] by (simp_all add: after_turn_def)
  have "-1 \<notin> set (pe_started s s' pids)" using pids(2) unfolding pe_started_def by (fastforce dest: in_set_takeD)
  then have f: "fork_fails ?T = 0" using less.prems(4) by (simp add: after_turn_def count_list_0_iff)
  show ?case
  proof (cases "pe_stop s'")
    case True
    then have "nr_exit2 s' = int N" using post by (auto simp: turn_post_def)
    with True step T(2) show ?thesis by blast
  next
    case False
    with post obtain new where new: "pe_report s' = pe_report s @ new" "fst ` set new = set (kids S)"
      unfolding turn_post_def r by blast
    have "new \<noteq> []" using children_to_wait_for [OF less.prems] new(2) by auto
    then have "nr_exit2 s < nr_exit2 s'"
      using new(1) I(9) pe_invD(9) [OF pe_sys_invD(1) [OF T]] by simp
    moreover have "nr_exit2 s < int N" "0 \<le> nr_exit2 s" using D(4) less.prems(3) I(9) by auto
    ultimately have "N - nat (nr_exit2 s') < N - nat (nr_exit2 s)" by linarith
    from less.hyps [OF this T False f] step show ?thesis by (meson converse_rtranclp_into_rtranclp)
  qed
qed

text \<open>C30. While no fork has failed, a program that has not ended has a child to wait for,
  and from every such state it can end with all addresses reported.\<close>

theorem run_can_finish:
  assumes "pe_started_sys N par S0" "(pe_turn N par)\<^sup>*\<^sup>* S0 S" "parent S = Inr s" "\<not> pe_stop s" "fork_fails S = 0"
  shows "kids S \<noteq> [] \<and> (\<exists>T t. (pe_turn N par)\<^sup>*\<^sup>* S T \<and> parent T = Inr t \<and> pe_stop t \<and>
    mset (map (fst \<circ> snd) (pe_report t)) = mset (map int [0..<N]))"
proof -
  note i = parexec.reachable_inv [OF assms(2,1)]
  obtain T t where T: "(pe_turn N par)\<^sup>*\<^sup>* S T" "parent T = Inr t" "pe_stop t" "nr_exit2 t = int N"
    using can_finish [OF i assms(3-5)] by blast
  have "pe_inv N par (kids T) (fork_fails T) t" using pe_sys_invD(1) [OF parexec.run_inv [OF T(1) i] T(2)] .
  then show ?thesis using T reports_distinct(3) children_to_wait_for [OF i assms(3-5)] by blast
qed

text \<open>C32. After a failed fork the program no longer ends without a signal, since the
  failed call counts as a running child for ever.\<close>

theorem failed_fork_never_finishes:
  assumes "pe_started_sys N par S0" "(pe_turn N par)\<^sup>*\<^sup>* S0 S" "parent S = Inr s" "\<not> pe_stop s" "0 < fork_fails S"
    and "distinct (reaped es)" "set (reaped es) \<subseteq> set (kids S)" "core_process (int N) (int par) es pids s = Inr s'"
      "new_pids (kids_left s s' (kids S)) pids" "Sig_exit \<notin> set es"
  shows "\<not> pe_stop s' \<and> 0 < fork_fails (after_turn s s' pids S)"
proof -
  have i: "pe_inv N par (kids S) (fork_fails S) s"
    using pe_sys_invD(1) [OF parexec.reachable_inv [OF assms(2,1)] assms(3)] .
  have post: "turn_post N par (kids S) (fork_fails S) es pids s s'"
    by (rule core_process_inv(2) [OF i assms(4,6-9)])
  then have "nr_exit2 s' \<noteq> int N"
    using assms(5) pe_invD(5,7,8) [of N par _ _ s'] unfolding turn_post_def by fastforce
  then show ?thesis using post assms(5,10) by (auto simp: turn_post_def after_turn_def)
qed

section \<open>The address list\<close>

lemma digit_char:
  fixes m :: nat
  assumes "m < 10"
  shows "digit_val (char_of (48 + m)) = m" "char_of (48 + m) \<noteq> CHR 0x0A" "char_of (48 + m) \<noteq> CHR 0x00"
proof -
  have "m = 0 \<or> m = 1 \<or> m = 2 \<or> m = 3 \<or> m = 4 \<or> m = 5 \<or> m = 6 \<or> m = 7 \<or> m = 8 \<or> m = 9" using assms by presburger
  then show "digit_val (char_of (48 + m)) = m" "char_of (48 + m) \<noteq> CHR 0x0A" "char_of (48 + m) \<noteq> CHR 0x00"
    by (elim disjE; simp add: digit_val_def char_of_def bit_0)+
qed

lemma dec_chars: "c \<in> set (dec n) \<Longrightarrow> digit_val c < 10 \<and> c \<noteq> CHR 0x0A \<and> c \<noteq> CHR 0x00"
  using dec_digits [of c n] by (auto simp: is_digit_def digit_val_def)

lemma dec_value: "fold (\<lambda>c acc. acc * 10 + digit_val c) (dec n) 0 = n"
proof (induction n rule: dec.induct)
  case (1 n)
  then show ?case by (subst dec.simps) (simp add: digit_char(1))
qed

lemma dec_hd: "0 < n \<Longrightarrow> hd (dec n) \<noteq> CHR ''0''"
proof (induction n rule: dec.induct)
  case (1 n)
  show ?case
  proof (cases "n < 10")
    case True
    then have "dec n = [char_of (48 + n)]" by (subst dec.simps) simp
    moreover have "digit_val (char_of (48 + n)) = n" using True by (rule digit_char(1))
    moreover have "digit_val (CHR ''0'') = 0" by (simp add: digit_val_def)
    ultimately show ?thesis using 1(2) by auto
  next
    case False
    then have "dec n = dec (n div 10) @ [char_of (48 + n mod 10)]" by (subst dec.simps) simp
    then show ?thesis using 1(1) False by (simp add: dec_nonempty)
  qed
qed

lemma aton_number_dec:
  assumes "r = [] \<or> hd r = CHR ''.''"
  shows "aton_number (dec n @ r) = Some (n, r)"
proof (cases "n = 0")
  case True
  have "dec 0 = ''0''" by (subst dec.simps) (simp add: char_of_def bit_0)
  then show ?thesis using assms by (cases r) (auto simp: True aton_number_def digit_val_def Let_def)
next
  case False
  then have h: "hd (dec n) \<noteq> CHR ''0''" by (simp add: dec_hd)
  obtain z zs where z: "dec n = z # zs" using dec_nonempty by (cases "dec n") auto
  have ds: "takeWhile (\<lambda>c. digit_val c < 10) (dec n @ r) = dec n" "dropWhile (\<lambda>c. digit_val c < 10) (dec n @ r) = r"
    using dec_chars assms by (cases r; force simp: takeWhile_append2 dropWhile_append2 digit_val_def)+
  have "(case dec n @ r of z # x # u \<Rightarrow>
        if z = CHR ''0'' \<and> (x = CHR ''x'' \<or> x = CHR ''X'') \<and> u \<noteq> [] \<and> digit_val (hd u) < 16 then (16, u)
        else if z = CHR ''0'' then (8, dec n @ r) else (10, dec n @ r)
      | _ \<Rightarrow> (10 :: nat, dec n @ r)) = (10, dec n @ r)"
    using h by (auto simp: z split: list.splits)
  moreover have "digit_val (hd (dec n @ r)) < 10" using dec_chars [of z n] by (simp add: z)
  ultimately show ?thesis using dec_value [of n] by (simp add: aton_number_def Let_def ds dec_nonempty not_le)
qed

lemma aton_dots:
  "aton_parts 4 (dec a @ ''.'' @ dec b @ ''.'' @ dec c @ ''.'' @ dec d) = Some [a, b, c, d]"
proof -
  have n: "aton_number (dec x @ CHR ''.'' # r) = Some (x, CHR ''.'' # r)" for x r by (rule aton_number_dec) simp
  have e: "aton_number (dec x) = Some (x, [])" for x using aton_number_dec [of "[]" x] by simp
  show ?thesis by (simp add: numeral_eq_Suc n e)
qed

lemma inet_aton_dots:
  assumes "a < 256" "b < 256" "c < 256" "d < 256"
  shows "inet_aton (dec a @ ''.'' @ dec b @ ''.'' @ dec c @ ''.'' @ dec d) = Some (((a * 256 + b) * 256 + c) * 256 + d)"
  unfolding inet_aton_def aton_dots using assms by simp

lemma ip_split: "a < 2 ^ 32 \<Longrightarrow>
    ((a div 2 ^ 24 mod 256 * 256 + a div 2 ^ 16 mod 256) * 256 + a div 2 ^ 8 mod 256) * 256 + a mod 256 = a" for a :: nat
proof -
  assume "a < 2 ^ 32"
  moreover have "a div 2 ^ 16 = a div 256 div 256" "a div 2 ^ 24 = a div 256 div 256 div 256" "a div 2 ^ 8 = a div 256"
    by (simp_all add: div_mult2_eq [symmetric])
  moreover have "a div 256 div 256 div 256 mod 256 = a div 256 div 256 div 256" using \<open>a < 2 ^ 32\<close> by simp
  ultimately show ?thesis by (simp add: div_mult_mod_eq mult.commute)
qed

definition ip_text_line :: "nat \<Rightarrow> string" where
  "ip_text_line a = pe_ip_dots a @ [CHR 0x0A]"

text \<open>The address that a text of 15 characters without its last one denotes.\<close>

definition cut_ip :: "nat \<Rightarrow> nat" where
  "cut_ip a = a - a mod 256 + a mod 256 div 10"

lemma ip_dots_chars: "c \<in> set (pe_ip_dots a) \<Longrightarrow> c \<noteq> CHR 0x0A \<and> c \<noteq> CHR 0x00"
  using dec_chars by (auto simp: pe_ip_dots_def)

lemma inet_aton_ip: "a < 2 ^ 32 \<Longrightarrow> inet_aton (pe_ip_dots a) = Some a"
proof -
  assume a: "a < 2 ^ 32"
  have m: "x mod 256 < 256" for x :: nat by simp
  show ?thesis unfolding pe_ip_dots_def inet_aton_dots [OF m m m m] by (simp only: ip_split [OF a])
qed

lemma length_dec_byte: "length (dec (a mod 256)) \<le> 3" for a :: nat
  by (rule length_dec_le) simp_all

lemma ip_dots_length: "length (pe_ip_dots a) \<le> 15"
  using length_dec_byte [of "a div 2 ^ 24"] length_dec_byte [of "a div 2 ^ 16"] length_dec_byte [of "a div 2 ^ 8"]
    length_dec_byte [of a] unfolding pe_ip_dots_def by simp

lemma inet_aton_cut:
  assumes "length (pe_ip_dots a) = 15" "a < 2 ^ 32"
  shows "inet_aton (butlast (pe_ip_dots a)) = Some (cut_ip a)"
proof -
  have "length (dec (a mod 256)) = 3"
    using assms(1) length_dec_byte [of "a div 2 ^ 24"] length_dec_byte [of "a div 2 ^ 16"] length_dec_byte [of "a div 2 ^ 8"]
      length_dec_byte [of a] unfolding pe_ip_dots_def by simp
  then have "\<not> a mod 256 < 10" using length_dec_le [of "a mod 256" 1] by auto
  then have "dec (a mod 256) = dec (a mod 256 div 10) @ [char_of (48 + a mod 256 mod 10)]" by (subst dec.simps) simp
  then have b: "butlast (pe_ip_dots a) = dec (a div 2 ^ 24 mod 256) @ ''.'' @ dec (a div 2 ^ 16 mod 256) @ ''.'' @
      dec (a div 2 ^ 8 mod 256) @ ''.'' @ dec (a mod 256 div 10)"
    by (simp add: pe_ip_dots_def butlast_append)
  have m: "x mod 256 < 256" for x :: nat by simp
  have "a mod 256 div 10 < 256" by (meson div_le_dividend le_less_trans mod_less_divisor zero_less_numeral)
  moreover have "((a div 2 ^ 24 mod 256 * 256 + a div 2 ^ 16 mod 256) * 256 + a div 2 ^ 8 mod 256) * 256 = a - a mod 256"
    using ip_split [OF assms(2)] by linarith
  ultimately show ?thesis unfolding b cut_ip_def by (simp only: inet_aton_dots [OF m m m])
qed

lemma fgets16_line: "\<forall>c \<in> set t. c \<noteq> CHR 0x0A \<Longrightarrow> length t \<le> 14 \<Longrightarrow> fgets16 (t @ CHR 0x0A # r) = (t @ [CHR 0x0A], r)"
  by (simp add: fgets16_def takeWhile_append2 Let_def)

lemma fgets16_cut: "\<forall>c \<in> set t. c \<noteq> CHR 0x0A \<Longrightarrow> length t = 15 \<Longrightarrow> fgets16 (t @ CHR 0x0A # r) = (t, CHR 0x0A # r)"
  by (simp add: fgets16_def takeWhile_append2 Let_def)

lemma strlen_cut_none: "\<forall>c \<in> set t. c \<noteq> CHR 0x00 \<Longrightarrow> strlen_cut t = t"
  by (simp add: strlen_cut_def takeWhile_eq_all_conv)

lemma ip_lines_step:
  assumes "s \<noteq> []" "fgets16 s = (buf, r)" "buf \<noteq> []" "\<forall>c \<in> set buf. c \<noteq> CHR 0x00"
  shows "ip_lines inp s = (let inp = (case inet_aton (butlast buf) of None \<Rightarrow> inp | Some a \<Rightarrow> a) in map_option ((#) inp) (ip_lines inp r))"
  using assms by (subst ip_lines.simps) (simp add: strlen_cut_none)

lemma ip_lines_short:
  assumes "length (pe_ip_dots a) \<le> 14" "a < 2 ^ 32"
  shows "ip_lines inp (ip_text_line a @ r) = map_option ((#) a) (ip_lines a r)"
proof -
  have f: "fgets16 (ip_text_line a @ r) = (pe_ip_dots a @ [CHR 0x0A], r)"
    using fgets16_line [of "pe_ip_dots a" r] ip_dots_chars assms(1) by (simp add: ip_text_line_def)
  show ?thesis
    by (subst ip_lines_step [OF _ f]) (use ip_dots_chars in \<open>auto simp: ip_text_line_def inet_aton_ip [OF assms(2)] Let_def\<close>)
qed

lemma inet_aton_empty: "inet_aton [] = None"
  by (simp add: inet_aton_def numeral_eq_Suc aton_number_def)

lemma ip_lines_long:
  assumes "length (pe_ip_dots a) = 15" "a < 2 ^ 32"
  shows "ip_lines inp (ip_text_line a @ r) = map_option (\<lambda>x. cut_ip a # cut_ip a # x) (ip_lines (cut_ip a) r)"
proof -
  have f: "fgets16 (ip_text_line a @ r) = (pe_ip_dots a, CHR 0x0A # r)"
    using fgets16_cut [of "pe_ip_dots a" r] ip_dots_chars assms(1) by (simp add: ip_text_line_def)
  have g: "fgets16 (CHR 0x0A # r) = ([CHR 0x0A], r)" using fgets16_line [of "[]" r] by simp
  have "ip_lines (cut_ip a) (CHR 0x0A # r) = map_option ((#) (cut_ip a)) (ip_lines (cut_ip a) r)"
    by (subst ip_lines_step [OF _ g]) (simp_all add: inet_aton_empty Let_def)
  moreover have "pe_ip_dots a \<noteq> []" using assms(1) by auto
  ultimately show ?thesis
    using inet_aton_cut [OF assms] ip_dots_chars
    by (subst ip_lines_step [OF _ f]) (auto simp: ip_text_line_def option.map_comp comp_def Let_def)
qed

theorem getIPList_reads:
  assumes "\<forall>a \<in> set as. a < 2 ^ 32"
  shows "getIPList stale (concat (map ip_text_line as)) =
    Some (concat (map (\<lambda>a. if length (pe_ip_dots a) \<le> 14 then [a] else [cut_ip a, cut_ip a]) as))"
  using assms unfolding getIPList_def
proof (induction as arbitrary: stale)
  case Nil
  then show ?case by (subst ip_lines.simps) simp
next
  case (Cons a as)
  have "length (pe_ip_dots a) \<le> 14 \<or> length (pe_ip_dots a) = 15" using ip_dots_length [of a] by linarith
  then show ?case using Cons by (auto simp: ip_lines_short ip_lines_long)
qed

theorem getIPList_reads_witness:
  "getIPList 0 (concat (map ip_text_line [0x0a000001, 0xc0a8c8ff])) = Some [0x0a000001, 0xc0a8c8ff - 230, 0xc0a8c8ff - 230]"
proof -
  have d: "dec 10 = ''10''" "dec 0 = ''0''" "dec 1 = ''1''" "dec 192 = ''192''" "dec 168 = ''168''" "dec 200 = ''200''" "dec 255 = ''255''"
    by (simp_all add: dec.simps char_of_def bit_0)
  have "length (pe_ip_dots 0x0a000001) = 8" "length (pe_ip_dots 0xc0a8c8ff) = 15"
    by (simp_all add: pe_ip_dots_def d d(3) [unfolded One_nat_def])
  then show ?thesis
    using getIPList_reads [of "[0x0a000001, 0xc0a8c8ff]" 0] by (simp add: cut_ip_def)
qed

text \<open>Two addresses and one child at a time; in the second example the first \<open>fork\<close> fails.\<close>

lemma sample_started: "pe_started_sys 2 1 (pe_init 2 1 [5])" "pe_started_sys 2 1 (pe_init 2 1 [-1])"
  unfolding pe_started_sys_def
  by (rule conjI, simp, rule conjI, simp, rule exI [of _ "[5]"], simp add: new_pids_def,
      rule conjI, simp, rule conjI, simp, rule exI [of _ "[-1]"], simp add: new_pids_def)

lemma sample_parent: "parent (pe_init 2 1 pids) = Inr (pe_start 2 1 pids)" "\<not> pe_stop (pe_start 2 1 pids)"
  "pidmap (pe_start 2 1 pids) = [(pids ! 0, 0)]" "pos (pe_start 2 1 pids) = 1" "alive (pe_start 2 1 pids) = 1"
  "pe_report (pe_start 2 1 pids) = []" "nr_exit2 (pe_start 2 1 pids) = 0"
  by (simp_all add: pe_init_def pe_start_def Let_def upt_rec)

lemma sample_turn:
  "core_process 2 1 [Sigchld [(5, 0)]] [6] (pe_start 2 1 [5])
     = Inr \<lparr>pidmap = [(6, 1)], pos = 2, alive = 1, nr_exit2 = 1, pe_stop = False, pe_report = [(5, 0, 0)]\<rparr>"
  by (simp add: core_process_def pe_reap_def stupidMap_Remove_def stupidMap_Add_def sample_parent pe_check_def pe_fork_def del: One_nat_def)

lemma sample_reached:
  "pe_turn 2 1 (pe_init 2 1 [5]) \<lparr>kids = [6], fork_fails = 0,
     parent = Inr \<lparr>pidmap = [(6, 1)], pos = 2, alive = 1, nr_exit2 = 1, pe_stop = False, pe_report = [(5, 0, 0)]\<rparr>\<rparr>"
proof -
  let ?s = "\<lparr>pidmap = [(6, 1)], pos = 2, alive = 1, nr_exit2 = 1, pe_stop = False, pe_report = [(5, 0, 0)]\<rparr> :: pe_state"
  have t: "kids (pe_init 2 1 [5]) = [5]" "fork_fails (pe_init 2 1 [5]) = 0" by (simp_all add: pe_init_def del: One_nat_def)
  have "pe_turn 2 1 (pe_init 2 1 [5]) (after_turn (pe_start 2 1 [5]) ?s [6] (pe_init 2 1 [5]))"
    by (rule pe_turn.turn [OF sample_parent(1,2), of "[Sigchld [(5, 0)]]"])
      (simp_all add: t sample_turn kids_left_def sample_parent new_pids_def del: One_nat_def)
  moreover have "after_turn (pe_start 2 1 [5]) ?s [6] (pe_init 2 1 [5]) = \<lparr>kids = [6], fork_fails = 0, parent = Inr ?s\<rparr>"
    by (simp add: after_turn_def kids_left_def pe_started_def sample_parent t del: One_nat_def)
  ultimately show ?thesis by simp
qed

theorem addresses_run_once_witness:
  "\<exists>s. parent \<lparr>kids = [6], fork_fails = 0, parent = Inr \<lparr>pidmap = [(6, 1)], pos = 2, alive = 1, nr_exit2 = 1,
      pe_stop = False, pe_report = [(5, 0, 0)]\<rparr>\<rparr> = Inr s \<and> distinct (map (fst \<circ> snd) (pe_report s)) \<and> pe_report s = [(5, 0, 0)]"
  using addresses_run_once [OF sample_started(1) r_into_rtranclp [of "pe_turn 2 1", OF sample_reached]] by simp

theorem assertion_never_fails_witness: "parent (pe_init 2 1 [5]) \<noteq> Inl Assertion"
  by (rule assertion_never_fails [OF sample_started(1) rtranclp.rtrancl_refl])

theorem run_can_finish_witness:
  "\<exists>T t. (pe_turn 2 1)\<^sup>*\<^sup>* (pe_init 2 1 [5]) T \<and> parent T = Inr t \<and> pe_stop t \<and>
    mset (map (fst \<circ> snd) (pe_report t)) = {#0, 1#}"
  using run_can_finish [OF sample_started(1) rtranclp.rtrancl_refl sample_parent(1,2)] by (simp add: pe_init_def upt_rec del: One_nat_def)

theorem failed_fork_never_finishes_witness:
  "\<not> pe_stop (pe_start 2 1 [-1]) \<and> 0 < fork_fails (after_turn (pe_start 2 1 [-1]) (pe_start 2 1 [-1]) [6] (pe_init 2 1 [-1]))"
  by (rule failed_fork_never_finishes [OF sample_started(2) rtranclp.rtrancl_refl sample_parent(1,2), of "[Sigchld []]"])
    (simp_all add: pe_init_def core_process_def sample_parent pe_check_def new_pids_def kids_left_def del: One_nat_def)

end
