(* ===== verification/Mkpath.thy ===== *)
theory Mkpath
  imports Prelude
begin

text \<open>
  \<open>mkpath\<close>, which the servers and src/disklist.c have: it creates the directories on the way to
  a file. The directories are a list, and \<open>mkdir\<close> needs the parent directory, as the system
  call does; a predicate says where it fails for another reason.
\<close>

datatype mk_result = Created | Exists | Failed

text \<open>The parent of a path: what is before its last slash.\<close>

definition parent_dir :: "string \<Rightarrow> string" where
  "parent_dir p = rev (drop 1 (dropWhile (\<lambda>c. c \<noteq> CHR ''/'') (rev p)))"

definition mkdir :: "(string \<Rightarrow> bool) \<Rightarrow> string \<Rightarrow> string list \<Rightarrow> mk_result \<times> string list" where
  "mkdir deny p dirs =
     (if p \<in> set dirs then (Exists, dirs)
      else if deny p then (Failed, dirs)
      else if parent_dir p \<noteq> [] \<and> parent_dir p \<notin> set dirs then (Failed, dirs)
      else (Created, p # dirs))"

text \<open>
  The loop from the slash at \<open>i\<close> on: the path is cut there for the call. \<open>next_slash\<close> is \<open>strchr\<close>
  from an index.
\<close>

definition next_slash :: "string \<Rightarrow> nat \<Rightarrow> nat option" where
  "next_slash p i =
     (let k = i + length (takeWhile (\<lambda>c. c \<noteq> CHR ''/'') (drop i p)) in if k < length p then Some k else None)"

function mkpath_loop :: "(string \<Rightarrow> bool) \<Rightarrow> string \<Rightarrow> nat \<Rightarrow> string list \<Rightarrow> int \<times> string list" where
  "mkpath_loop deny p i dirs =
     (case next_slash p i of
        None \<Rightarrow> (0, dirs)
      | Some k \<Rightarrow>
          (let (r, dirs) = mkdir deny (take k p) dirs in
           if r = Failed then (-1, dirs) else mkpath_loop deny p (k + 1) dirs))"
  by pat_completeness auto
termination
  by (relation "measure (\<lambda>(_, p, i, _). length p - i)") (auto simp: next_slash_def Let_def split: if_splits)

declare mkpath_loop.simps [simp del]

text \<open>The servers assert a nonempty path; src/disklist.c returns -1 for an empty one.\<close>

definition mkpath :: "(string \<Rightarrow> bool) \<Rightarrow> string \<Rightarrow> string list \<Rightarrow> (int \<times> string list) option" where
  "mkpath deny p dirs = (if p = [] then None else Some (mkpath_loop deny p 1 dirs))"

definition lc_mkpath :: "(string \<Rightarrow> bool) \<Rightarrow> string \<Rightarrow> string list \<Rightarrow> (int \<times> string list) option" where
  "lc_mkpath deny p dirs = (if p = [] then None else Some (mkpath_loop deny p 1 dirs))"

definition dl_mkpath :: "(string \<Rightarrow> bool) \<Rightarrow> string \<Rightarrow> string list \<Rightarrow> int \<times> string list" where
  "dl_mkpath deny p dirs = (if p = [] then (-1, dirs) else mkpath_loop deny p 1 dirs)"

definition cs_mkpath :: "(string \<Rightarrow> bool) \<Rightarrow> string \<Rightarrow> string list \<Rightarrow> (int \<times> string list) option" where
  "cs_mkpath deny p dirs = (if p = [] then None else Some (mkpath_loop deny p 1 dirs))"

definition ci_mkpath :: "(string \<Rightarrow> bool) \<Rightarrow> string \<Rightarrow> string list \<Rightarrow> (int \<times> string list) option" where
  "ci_mkpath deny p dirs = (if p = [] then None else Some (mkpath_loop deny p 1 dirs))"

section \<open>What mkpath does\<close>

lemma next_slash_Some:
  assumes "next_slash p i = Some k"
  shows "i \<le> k" "k < length p" "p ! k = CHR ''/''" "\<And>j. i \<le> j \<Longrightarrow> j < k \<Longrightarrow> p ! j \<noteq> CHR ''/''"
proof -
  let ?t = "takeWhile (\<lambda>c. c \<noteq> CHR ''/'') (drop i p)"
  have k: "k = i + length ?t" "k < length p" using assms by (auto simp: next_slash_def Let_def split: if_splits)
  then show "i \<le> k" "k < length p" by simp_all
  have "length ?t < length (drop i p)" using k by simp
  from nth_length_takeWhile [OF this] show "p ! k = CHR ''/''" using k by simp
  fix j assume j: "i \<le> j" "j < k"
  then have "j - i < length ?t" using k by simp
  then have "?t ! (j - i) \<in> set ?t" "?t ! (j - i) = drop i p ! (j - i)" by (rule nth_mem, rule takeWhile_nth)
  then show "p ! j \<noteq> CHR ''/''" using j k by (auto dest: set_takeWhileD)
qed

lemma next_slash_None: "next_slash p i = None \<Longrightarrow> i \<le> j \<Longrightarrow> j < length p \<Longrightarrow> p ! j \<noteq> CHR ''/''"
proof -
  assume n: "next_slash p i = None" and j: "i \<le> j" "j < length p"
  let ?t = "takeWhile (\<lambda>c. c \<noteq> CHR ''/'') (drop i p)"
  have "length (drop i p) \<le> length ?t" using n j by (auto simp: next_slash_def Let_def split: if_splits)
  then have "?t = drop i p" by (metis take_all takeWhile_eq_take)
  moreover have "p ! j \<in> set (drop i p)" using j by (auto simp: in_set_conv_nth intro!: exI [of _ "j - i"])
  ultimately show "p ! j \<noteq> CHR ''/''" by (metis set_takeWhileD)
qed

text \<open>The directories that the loop is about: the path cut at its slashes, the first character apart.\<close>

definition dirs_of :: "string \<Rightarrow> nat \<Rightarrow> string set" where
  "dirs_of p i = {take k p | k. i \<le> k \<and> k < length p \<and> p ! k = CHR ''/''}"

lemma dirs_of_step: "next_slash p i = Some k \<Longrightarrow> dirs_of p i = insert (take k p) (dirs_of p (k + 1))"
  unfolding dirs_of_def using next_slash_Some [of p i k] by (auto simp: not_less_eq_eq) (metis le_neq_implies_less not_less_eq_eq order_trans)+

lemma mkdir_dirs:
  "mkdir deny p dirs = (r, dirs') \<Longrightarrow> r \<noteq> Failed \<Longrightarrow> set dirs' = insert p (set dirs)"
  by (auto simp: mkdir_def split: if_splits)

theorem mkpath_creates:
  assumes "mkpath_loop deny p i dirs = (0, dirs')"
  shows "set dirs' = set dirs \<union> dirs_of p i"
  using assms
proof (induction deny p i dirs rule: mkpath_loop.induct)
  case (1 deny p i dirs)
  show ?case
  proof (cases "next_slash p i")
    case None
    then have "dirs_of p i = {}" using next_slash_None [OF None] by (auto simp: dirs_of_def)
    then show ?thesis using "1.prems" None by (subst (asm) mkpath_loop.simps) simp
  next
    case (Some k)
    obtain r dirs1 where m: "mkdir deny (take k p) dirs = (r, dirs1)" by (cases "mkdir deny (take k p) dirs")
    have r: "r \<noteq> Failed" "mkpath_loop deny p (k + 1) dirs1 = (0, dirs')"
      using "1.prems" Some m by (subst (asm) mkpath_loop.simps, simp split: if_splits)+
    from "1.IH" [OF Some m [symmetric] refl r] show ?thesis
      using mkdir_dirs [OF m r(1)] dirs_of_step [OF Some] by auto
  qed
qed

lemma parent_last_slash:
  assumes "\<forall>c \<in> set b. c \<noteq> CHR ''/''"
  shows "parent_dir (a @ CHR ''/'' # b) = a" "parent_dir b = []"
proof -
  have "dropWhile (\<lambda>c. c \<noteq> CHR ''/'') (rev b @ x) = dropWhile (\<lambda>c. c \<noteq> CHR ''/'') x" for x
    using assms by (subst dropWhile_append2) auto
  from this [of "CHR ''/'' # rev a"] show "parent_dir (a @ CHR ''/'' # b) = a" by (simp add: parent_dir_def)
  have "dropWhile (\<lambda>c. c \<noteq> CHR ''/'') (rev b) = []" using assms by simp
  then show "parent_dir b = []" unfolding parent_dir_def by (simp only: drop_Nil rev.simps)
qed

lemma parent_take:
  assumes "j < k" "k \<le> length p" "p ! j = CHR ''/''" "\<And>m. j < m \<Longrightarrow> m < k \<Longrightarrow> p ! m \<noteq> CHR ''/''"
  shows "parent_dir (take k p) = take j p"
proof -
  have "take k p = take j p @ CHR ''/'' # drop (j + 1) (take k p)"
    using assms(1-3) id_take_nth_drop [of j "take k p"] by simp
  moreover have "\<forall>c \<in> set (drop (j + 1) (take k p)). c \<noteq> CHR ''/''"
  proof
    fix c assume "c \<in> set (drop (j + 1) (take k p))"
    then obtain m where m: "m < k - (j + 1)" "c = p ! (j + 1 + m)" using assms(2) by (auto simp: in_set_conv_nth)
    show "c \<noteq> CHR ''/''" unfolding m(2) by (rule assms(4)) (use m(1) in auto)
  qed
  ultimately show ?thesis using parent_last_slash(1) by metis
qed

lemma parent_first:
  assumes "k \<le> length p" "\<And>m. 1 \<le> m \<Longrightarrow> m < k \<Longrightarrow> p ! m \<noteq> CHR ''/''"
  shows "parent_dir (take k p) = []"
proof (cases "0 < k \<and> p ! 0 = CHR ''/''")
  case True
  then show ?thesis using parent_take [of 0 k p] assms by simp
next
  case False
  have "\<forall>c \<in> set (take k p). c \<noteq> CHR ''/''"
  proof
    fix c assume "c \<in> set (take k p)"
    then obtain m where m: "m < k" "c = p ! m" using assms(1) by (auto simp: in_set_conv_nth)
    show "c \<noteq> CHR ''/''" using m assms(2) [of m] False by (cases "m = 0") auto
  qed
  then show ?thesis by (rule parent_last_slash(2))
qed

text \<open>It fails only where a directory is missing and cannot be made: the parents are there in time.\<close>

lemma mkpath_loop_succeeds:
  assumes "\<forall>d \<in> dirs_of p i. d \<in> set dirs \<or> \<not> deny d"
    and "i = 1 \<or> 0 < i \<and> p ! (i - 1) = CHR ''/'' \<and> i \<le> length p \<and> take (i - 1) p \<in> set dirs"
  shows "fst (mkpath_loop deny p i dirs) = 0"
  using assms
proof (induction deny p i dirs rule: mkpath_loop.induct)
  case (1 deny p i dirs)
  show ?case
  proof (cases "next_slash p i")
    case None
    then show ?thesis by (subst mkpath_loop.simps) simp
  next
    case (Some k)
    note S = next_slash_Some [OF Some]
    obtain r dirs1 where m: "mkdir deny (take k p) dirs = (r, dirs1)" by (cases "mkdir deny (take k p) dirs")
    have "parent_dir (take k p) = [] \<or> parent_dir (take k p) \<in> set dirs"
    proof (cases "i = 1")
      case True
      then show ?thesis using parent_first [of k p] S by simp
    next
      case False
      then have "parent_dir (take k p) = take (i - 1) p" using "1.prems"(2) S by (intro parent_take) auto
      then show ?thesis using "1.prems"(2) False by simp
    qed
    moreover have "take k p \<in> set dirs \<or> \<not> deny (take k p)" using "1.prems"(1) dirs_of_step [OF Some] by auto
    ultimately have r: "r \<noteq> Failed" using m by (auto simp: mkdir_def split: if_splits)
    have d: "set dirs1 = insert (take k p) (set dirs)" by (rule mkdir_dirs [OF m r])
    have "fst (mkpath_loop deny p (k + 1) dirs1) = 0"
      using "1.IH" [OF Some m [symmetric] refl r] "1.prems"(1) dirs_of_step [OF Some] S d by auto
    then show ?thesis using Some m r by (subst mkpath_loop.simps) simp
  qed
qed

text \<open>C33. When each directory on the way to the file exists or can be made, mkpath
  succeeds and has added exactly these directories to those that existed.\<close>

theorem mkpath_makes_parents:
  assumes "p \<noteq> []" "\<forall>d \<in> dirs_of p 1. d \<in> set dirs \<or> \<not> deny d"
  shows "\<exists>dirs'. mkpath deny p dirs = Some (0, dirs') \<and> set dirs' = set dirs \<union> dirs_of p 1"
proof -
  obtain r dirs' where m: "mkpath_loop deny p 1 dirs = (r, dirs')" by (cases "mkpath_loop deny p 1 dirs")
  then have "r = 0" using mkpath_loop_succeeds [OF assms(2)] by simp
  then show ?thesis using assms(1) m mkpath_creates [of deny p 1 dirs dirs'] by (simp add: mkpath_def)
qed

theorem mkpath_makes_parents_witness:
  "\<exists>dirs'. mkpath (\<lambda>_. False) ''/a/b/c'' [''/a''] = Some (0, dirs') \<and> ''/a/b'' \<in> set dirs'"
proof -
  have "''/a/b'' \<in> dirs_of ''/a/b/c'' 1" unfolding dirs_of_def by (rule CollectI, rule exI [of _ 4]) simp
  then show ?thesis using mkpath_makes_parents [of "''/a/b/c''" "[''/a'']" "\<lambda>_. False"] by auto
qed

end
