(* ===== verification/DiskText.thy ===== *)
theory DiskText
  imports Prelude "HOL-Library.Product_Lexorder"
begin

text \<open>
  The texts, names and byte formats of src/disklist.c: blanks of ATA fields, the inquiry text
  of megacli, SCSI addresses and their order, LUN fields, the descriptors of the device
  identification page with the name of a logical unit, and the selection of directory entries.

  A string argument is the memory that the pointer points to, with what is behind the
  terminator. \<open>None\<close> stands for an access outside an array.
\<close>

unbundle bit_operations_syntax

section \<open>Trimming and swapping\<close>

definition is_blank :: "char \<Rightarrow> bool" where
  "is_blank c \<longleftrightarrow> c = CHR '' ''"

text \<open>
  \<open>trim_string\<close> packs the number of leading blanks and the rest of the length. The loops stop
  after \<open>len\<close> characters, whatever is around them.
\<close>

definition trim_string :: "string \<Rightarrow> nat \<Rightarrow> u32" where
  "trim_string buf len =
     (if len < 1 then 0
      else
        (let leading = length (takeWhile is_blank (take len buf)); tail = length (takeWhile is_blank (rev (take len buf)))
         in (push_bit 16 (of_nat leading) AND 0xFFFF0000) OR (of_int (int len - int tail - int leading) AND 0xFFFF)))"

definition trim_len :: "u32 \<Rightarrow> nat" where
  "trim_len r = unat (r AND 0xFFFF)"

definition trim_off :: "u32 \<Rightarrow> nat" where
  "trim_off r = unat (drop_bit 16 r AND 0xFFFF)"

text \<open>\<open>swap\<close> exchanges the bytes of each word.\<close>

fun swap_pairs :: "nat \<Rightarrow> string \<Rightarrow> string" where
  "swap_pairs (Suc (Suc n)) (a # b # s) = b # a # swap_pairs n s"
| "swap_pairs n s = s"

section \<open>Arrays of characters\<close>

text \<open>
  \<open>put s a\<close> stores characters at the start of an array. \<open>strcpy\<close>, \<open>sprintf\<close> and \<open>snprintf\<close> store
  a terminator, \<open>strncpy\<close> with the length of the text does not, and with a greater length it
  fills up with zeros.
\<close>

definition array_put :: "nat \<Rightarrow> string \<Rightarrow> string \<Rightarrow> string option" where
  "array_put i s a = (if i + length s \<le> length a then Some (take i a @ s @ drop (i + length s) a) else None)"

abbreviation put :: "string \<Rightarrow> string \<Rightarrow> string option" where
  "put \<equiv> array_put 0"

definition strcpy :: "string \<Rightarrow> string \<Rightarrow> string option" where
  "strcpy s a = put (strlen_cut s @ [CHR 0x00]) a"

definition snprintf :: "nat \<Rightarrow> string \<Rightarrow> string \<Rightarrow> string option" where
  "snprintf n s a = (if n = 0 then Some a else put (take (n - 1) (strlen_cut s) @ [CHR 0x00]) a)"

definition strncpy_chars :: "nat \<Rightarrow> string \<Rightarrow> string" where
  "strncpy_chars n s = (let t = take n (strlen_cut s) in t @ replicate (n - length t) (CHR 0x00))"

definition my_strcopy :: "nat \<Rightarrow> string \<Rightarrow> string \<Rightarrow> string option" where
  "my_strcopy n s a =
     (if n < 1 then Some a
      else if CHR 0x00 \<notin> set (take n s) then put (take (n - 1) s @ [CHR 0x00]) a
      else put (strlen_cut s @ [CHR 0x00]) a)"

section \<open>The inquiry text of megacli\<close>

text \<open>
  One piece of \<open>lsi_inq_decode\<close>: the trimmed field of \<open>n\<close> characters at \<open>i\<close> is copied to offset
  \<open>k\<close> of \<open>dst\<close>. The pieces are model, firmware and serial number.
\<close>

definition inq_piece :: "string \<Rightarrow> nat \<Rightarrow> nat \<Rightarrow> nat \<times> string \<Rightarrow> (nat \<times> string) option" where
  "inq_piece buf i n = (\<lambda>(k, dst).
     (let fuse = trim_string (drop i buf) n; len = trim_len fuse; srcoff = trim_off fuse in
      map_option (Pair (k + len)) (array_put k (strncpy_chars len (drop (i + srcoff) buf)) dst)))"

definition inq_sep :: "string \<Rightarrow> nat \<times> string \<Rightarrow> (nat \<times> string) option" where
  "inq_sep s = (\<lambda>(k, dst). map_option (Pair (k + length s)) (array_put k s dst))"

definition inq_fields :: "nat \<times> nat \<Rightarrow> nat \<times> nat \<Rightarrow> nat \<times> nat \<Rightarrow> string \<Rightarrow> string \<Rightarrow> string option" where
  "inq_fields = (\<lambda>(i, n) (i', n') (i'', n'') dst buf.
     Option.bind (inq_piece buf i n (0, dst)) (\<lambda>d. Option.bind (inq_sep '' * '' d) (\<lambda>d.
     Option.bind (inq_piece buf i' n' d) (\<lambda>d. Option.bind (inq_sep '' * '' d) (\<lambda>d.
     Option.bind (inq_piece buf i'' n'' d) (\<lambda>d. map_option snd (inq_sep [CHR 0x00] d)))))))"

definition lsi_inq_decode :: "string \<Rightarrow> string \<Rightarrow> string option" where
  "lsi_inq_decode dst buf =
     (if length (strlen_cut buf) > 60 then inq_fields (20, 40) (60, 8) (0, 20) dst buf
      else inq_fields (8, 16) (24, 4) (28, 20) dst buf)"

section \<open>SCSI addresses\<close>

record addr_hctl =
  hctl_h :: int
  hctl_c :: int
  hctl_t :: int
  hctl_l :: u64
  lun_arr :: "u8 list"

text \<open>The text behind the next colon.\<close>

definition after_colon :: "string \<Rightarrow> string option" where
  "after_colon s = (case dropWhile (\<lambda>c. c \<noteq> CHR '':'') s of [] \<Rightarrow> None | _ # cs \<Rightarrow> Some cs)"

definition lun_bytes :: "u64 \<Rightarrow> u8 list" where
  "lun_bytes z = concat (map (\<lambda>k. let u = drop_bit (16 * k) z AND 0xffff in [ucast (drop_bit 8 u AND 0xff), ucast (u AND 0xff)]) [0..<4])"

definition parse_colon_list :: "string \<Rightarrow> addr_hctl option" where
  "parse_colon_list s =
     Option.bind (scan_int s) (\<lambda>(h, _). Option.bind (after_colon s) (\<lambda>s.
     Option.bind (scan_int s) (\<lambda>(c, _). Option.bind (after_colon s) (\<lambda>s.
     Option.bind (scan_int s) (\<lambda>(t, _). Option.bind (after_colon s) (\<lambda>s.
     map_option (\<lambda>l. \<lparr>hctl_h = h, hctl_c = c, hctl_t = t, hctl_l = l, lun_arr = lun_bytes l\<rparr>) (scan_u64 s)))))))"

definition cmp_hctl :: "addr_hctl \<Rightarrow> addr_hctl \<Rightarrow> int" where
  "cmp_hctl le ri =
     (if hctl_h le = hctl_h ri then
        if hctl_c le = hctl_c ri then
          if hctl_t le = hctl_t ri then
            (if hctl_l le = hctl_l ri then 0 else if hctl_l le < hctl_l ri then -1 else 1)
          else (if hctl_t le < hctl_t ri then -1 else 1)
        else (if hctl_c le < hctl_c ri then -1 else 1)
      else (if hctl_h le < hctl_h ri then -1 else 1))"

text \<open>The comparison that \<open>scandir\<close> uses.\<close>

definition sdev_scandir_sort :: "string \<Rightarrow> string \<Rightarrow> int" where
  "sdev_scandir_sort lnam rnam =
     (case parse_colon_list lnam of None \<Rightarrow> -1
      | Some l \<Rightarrow> (case parse_colon_list rnam of None \<Rightarrow> 1 | Some r \<Rightarrow> cmp_hctl l r))"

text \<open>\<open>lun_word_flip\<close>: the turns 0 to 2 shift, the last one does not.\<close>

definition flip_turn :: "u64 \<times> u64 \<Rightarrow> u64 \<times> u64" where
  "flip_turn = (\<lambda>(res, inp). (push_bit 16 (res OR (inp AND 0xffff)), drop_bit 16 inp))"

definition lun_word_flip :: "u64 \<Rightarrow> u64" where
  "lun_word_flip inp = (let (res, inp) = (flip_turn ^^ 3) (0, inp) in res OR (inp AND 0xffff))"

section \<open>LUN fields\<close>

definition tag_set :: "nat \<Rightarrow> int \<Rightarrow> int list \<Rightarrow> int list option" where
  "tag_set i v tag_arr = (if i < length tag_arr then Some (tag_arr[i := v]) else None)"

fun tag_lun_helper :: "nat \<Rightarrow> nat \<Rightarrow> nat \<Rightarrow> int list \<Rightarrow> int list option" where
  "tag_lun_helper kk j 0 tag_arr = Some tag_arr"
| "tag_lun_helper kk j (Suc n) tag_arr =
     Option.bind (tag_set (2 * kk + j) (if kk > 0 \<and> j = 0 then 2 else 1) tag_arr) (tag_lun_helper kk (j + 1) n)"

text \<open>One level at index \<open>k\<close>; the second component says whether the next level follows.\<close>

definition tag_level :: "nat \<Rightarrow> u8 \<Rightarrow> int list \<Rightarrow> (int list \<times> bool) option" where
  "tag_level k b tag_arr =
     (let a_method = drop_bit 6 b AND 0x3; len_fld = drop_bit 4 (b AND 0x30); e_a_method = b AND 0xf in
      if a_method = 0 then map_option (\<lambda>t. (t, b AND 0x3f \<noteq> 0)) (tag_lun_helper k 0 2 tag_arr)
      else if a_method = 1 \<or> a_method = 2 then map_option (\<lambda>t. (t, False)) (tag_lun_helper k 0 2 tag_arr)
      else map_option (\<lambda>t. (t, False))
        (if len_fld = 0 \<and> e_a_method = 1 then tag_lun_helper k 0 2 tag_arr
         else if len_fld = 1 \<and> e_a_method = 2 then tag_lun_helper k 0 4 tag_arr
         else if len_fld = 2 \<and> e_a_method = 2 then tag_lun_helper k 0 6 tag_arr
         else if len_fld = 3 \<and> e_a_method = 0xf then tag_set (2 * k) (if k > 0 then 2 else 1) tag_arr
         else if len_fld < 2 then tag_lun_helper k 0 4 tag_arr
         else Option.bind (tag_lun_helper k 0 6 tag_arr) (\<lambda>t.
           if len_fld = 3 then Option.bind (tag_set (2 * k + 6) 1 t) (tag_set (2 * k + 7) 1) else Some t)))"

fun tag_levels :: "nat \<Rightarrow> nat \<Rightarrow> u8 list \<Rightarrow> int list \<Rightarrow> int list option" where
  "tag_levels 0 k lunp tag_arr = Some tag_arr"
| "tag_levels (Suc n) k lunp tag_arr =
     Option.bind (tag_level k (lunp ! (2 * k)) tag_arr) (\<lambda>(t, next_level). if next_level then tag_levels n (k + 1) lunp t else Some t)"

definition tag_lun :: "u8 list \<Rightarrow> int list option" where
  "tag_lun lunp =
     (if take 2 lunp = [0xff, 0xff] then Some (replicate 2 1 @ replicate 6 0)
      else tag_levels 4 0 lunp (replicate 8 0))"

section \<open>Descriptors of the device identification page\<close>

text \<open>Negative arguments match every value. The result is the return value and the new \<open>*off\<close>.\<close>

definition desig_match :: "u8 list \<Rightarrow> nat \<Rightarrow> int \<Rightarrow> int \<Rightarrow> int \<Rightarrow> bool" where
  "desig_match bp k m_assoc m_desig_type m_code_set \<longleftrightarrow>
     (m_code_set < 0 \<or> m_code_set = uint (bp ! k AND 0xf)) \<and>
     (m_assoc < 0 \<or> m_assoc = uint (drop_bit 4 (bp ! (k + 1)) AND 0x3)) \<and>
     (m_desig_type < 0 \<or> m_desig_type = uint (bp ! (k + 1) AND 0xf))"

function vpd_loop :: "u8 list \<Rightarrow> int \<Rightarrow> int \<Rightarrow> int \<Rightarrow> int \<Rightarrow> int \<Rightarrow> int + nat" where
  "vpd_loop bp page_len k m_assoc m_desig_type m_code_set =
     (let stop = (\<lambda>k. Inl (if k = page_len then -1 else -2)) in
      if k + 3 < page_len then
        (let k = (if k < 0 then 0 else k + int (unat (bp ! nat (k + 3))) + 4) in
         if k + 4 > page_len then stop k
         else if desig_match bp (nat k) m_assoc m_desig_type m_code_set then Inr (nat k)
         else vpd_loop bp page_len k m_assoc m_desig_type m_code_set)
      else stop k)"
  by pat_completeness auto
termination by (relation "measure (\<lambda>(_, n, k, _). nat (n - k))") (auto intro: add_nonneg_pos)

declare vpd_loop.simps [simp del]

definition sg_vpd_dev_id_iter :: "u8 list \<Rightarrow> nat \<Rightarrow> int \<Rightarrow> int \<Rightarrow> int \<Rightarrow> int \<Rightarrow> int \<times> int" where
  "sg_vpd_dev_id_iter bp page_len off m_assoc m_desig_type m_code_set =
     (case vpd_loop bp (int page_len) off m_assoc m_desig_type m_code_set of
        Inl rc \<Rightarrow> (rc, off) | Inr k \<Rightarrow> (0, int k))"

section \<open>The name of a logical unit\<close>

definition VPD_DEVICE_ID :: u8 where "VPD_DEVICE_ID = 0x83"
definition VPD_ASSOC_LU :: int where "VPD_ASSOC_LU = 0"
definition VPD_ASSOC_TPORT :: int where "VPD_ASSOC_TPORT = 1"
definition TPROTO_ISCSI :: u8 where "TPROTO_ISCSI = 5"

definition hex_nibble :: "u8 \<Rightarrow> char" where
  "hex_nibble w = (if w < 10 then char_of (48 + unat w) else char_of (87 + unat w))"

definition hex2 :: "u8 \<Rightarrow> string" where
  "hex2 w = [hex_nibble (drop_bit 4 w), hex_nibble (w AND 0xF)]"

text \<open>
  Output to \<open>cp\<close> with \<open>b_len\<close> bytes left: the prefix, the hexadecimal digits of the bytes and,
  for a UUID, the dashes before the bytes 4, 6, 8 and 10.
\<close>

definition lu_prefix :: "bool \<Rightarrow> string \<Rightarrow> int \<Rightarrow> string \<times> int" where
  "lu_prefix want_prefix s b_len =
     (if want_prefix then
        (let n = (if int (length s) \<ge> b_len then b_len - 1 else int (length s)) in (take (nat (b_len - 1)) s, b_len - n))
      else ([], b_len))"

fun lu_hex :: "nat list \<Rightarrow> nat \<Rightarrow> u8 list \<Rightarrow> int \<Rightarrow> string" where
  "lu_hex dashes k [] b_len = []"
| "lu_hex dashes k (w # ws) b_len =
     (if b_len > 1 then
        (if k \<in> set dashes
         then take (nat (b_len - 1)) ''-'' @ take (nat (b_len - 2)) (hex2 w) @ lu_hex dashes (k + 1) ws (b_len - 3)
         else take (nat (b_len - 1)) (hex2 w) @ lu_hex dashes (k + 1) ws (b_len - 2))
      else [])"

text \<open>Bytes of the page; \<open>None\<close> when they are behind the array.\<close>

definition page_bytes :: "u8 list \<Rightarrow> nat \<Rightarrow> nat \<Rightarrow> u8 list option" where
  "page_bytes bp i n = (if i + n \<le> length bp then Some (take n (drop i bp)) else None)"

definition bytes_text :: "u8 list \<Rightarrow> string" where
  "bytes_text = map (\<lambda>w. char_of (unat w))"

definition lu_numbers :: "u8 list \<Rightarrow> nat \<Rightarrow> int \<Rightarrow> bool \<Rightarrow> string \<Rightarrow> nat list \<Rightarrow> string option" where
  "lu_numbers bp k b_len want_prefix pfx lens =
     (let dlen = unat (bp ! (k + 3)) in
      if dlen \<notin> set lens then Some []
      else (let (s, b_len) = lu_prefix want_prefix pfx b_len in
        map_option (\<lambda>ws. s @ lu_hex [] 0 ws b_len) (page_bytes bp (k + 4) dlen)))"

definition lu_uuid :: "u8 list \<Rightarrow> nat \<Rightarrow> int \<Rightarrow> bool \<Rightarrow> string option" where
  "lu_uuid bp k b_len want_prefix =
     (if bp ! (k + 4) AND 0xf0 \<noteq> 0x10 \<or> bp ! (k + 3) \<noteq> 18 then Some (take (nat (b_len - 1)) ''??'')
      else (let (s, b_len) = lu_prefix want_prefix ''uuid.'' b_len in
        map_option (\<lambda>ws. s @ lu_hex [4, 6, 8, 10] 0 ws b_len) (page_bytes bp (k + 6) 16)))"

definition lu_t10 :: "u8 list \<Rightarrow> nat \<Rightarrow> int \<Rightarrow> bool \<Rightarrow> string option" where
  "lu_t10 bp k b_len want_prefix =
     (let dlen = unat (bp ! (k + 3)) in
      if dlen < 8 then Some []
      else (let (s, b_len) = lu_prefix want_prefix ''t10.'' b_len in
        map_option (\<lambda>ws. s @ take (nat (b_len - 1)) (strlen_cut (bytes_text ws))) (page_bytes bp (k + 4) dlen)))"

text \<open>
  \<open>get_lu_name\<close> on the memory \<open>u\<close> of 512 bytes into which \<open>res\<close> bytes were read. As in the code
  one variable \<open>off\<close> goes through all the searches.
\<close>

definition lu_other :: "u8 list \<Rightarrow> nat \<Rightarrow> int \<Rightarrow> string option \<Rightarrow> int \<Rightarrow> bool \<Rightarrow> string option" where
  "lu_other bp len off sns b_len want_prefix =
     (let (rc, off) = sg_vpd_dev_id_iter bp len off VPD_ASSOC_LU 3 1 in
      if rc = 0 then lu_numbers bp (nat off) b_len want_prefix ''naa.'' [8, 16]
      else
        (let (rc, off) = sg_vpd_dev_id_iter bp len off VPD_ASSOC_LU 2 1 in
         if rc = 0 then lu_numbers bp (nat off) b_len want_prefix ''eui.'' [8, 12, 16]
         else
           (let (rc, off) = sg_vpd_dev_id_iter bp len off VPD_ASSOC_LU 0xa 1 in
            if rc = 0 then lu_uuid bp (nat off) b_len want_prefix
            else
              (case sns of Some s \<Rightarrow> Some (take (nat (b_len - 1)) s)
               | None \<Rightarrow>
                   (let (rc, off) = sg_vpd_dev_id_iter bp len off VPD_ASSOC_LU 1 (-1) in
                    if rc = 0 \<and> bp ! nat off AND 0xf > 1 then lu_t10 bp (nat off) b_len want_prefix
                    else Some [])))))"

definition lu_of_page :: "u8 list \<Rightarrow> nat \<Rightarrow> int \<Rightarrow> bool \<Rightarrow> string option" where
  "lu_of_page bp len b_len want_prefix =
     (let (rc, off) = sg_vpd_dev_id_iter bp len (-1) VPD_ASSOC_LU 8 3 in
      if rc = 0 then
        (let sns_dlen = unat (bp ! (nat off + 3)) in
         Option.bind (page_bytes bp (nat off + 4) sns_dlen) (\<lambda>ws.
           let s = strlen_cut (bytes_text ws);
               (rc, off) = sg_vpd_dev_id_iter bp len (-1) VPD_ASSOC_TPORT 8 3
           in if rc = 0 \<and> 0x80 AND bp ! 1 \<noteq> 0 \<and> drop_bit 4 (bp ! 0) = TPROTO_ISCSI then Some (take (nat (b_len - 1)) s)
              else lu_other bp len off (if sns_dlen > 0 then Some s else None) b_len want_prefix))
      else lu_other bp len (-1) None b_len want_prefix)"

definition get_lu_name :: "(u8 list \<times> nat) option \<Rightarrow> int \<Rightarrow> bool \<Rightarrow> string option" where
  "get_lu_name file b_len want_prefix =
     (case file of None \<Rightarrow> Some []
      | Some (u, res) \<Rightarrow>
          if res \<le> 8 then Some []
          else if u ! 1 \<noteq> VPD_DEVICE_ID then Some []
          else (let len = unat (u ! 2) * 256 + unat (u ! 3) in
            if len + 4 \<noteq> res then Some [] else lu_of_page (drop 4 u) len b_len want_prefix))"

section \<open>Enclosures and commands\<close>

definition MAX_EC :: nat where "MAX_EC = 8"

text \<open>The table has \<open>MAX_EC\<close> strings of at most 63 characters; an empty string is a free entry.\<close>

definition get_ec_id :: "string \<Rightarrow> string list \<Rightarrow> (int \<times> string list) option" where
  "get_ec_id ec ecdepot =
     (case List.extract (\<lambda>e. e = ec) ecdepot of
        Some (xs, _, _) \<Rightarrow> Some (int (length xs), ecdepot)
      | None \<Rightarrow>
          (case List.extract (\<lambda>e. e = []) ecdepot of
             Some (xs, _, ys) \<Rightarrow> if length ec \<ge> 64 then None else Some (int (length xs), xs @ ec # ys)
           | None \<Rightarrow> Some (-1, ecdepot)))"

text \<open>The command is cut at its last \<open>n\<close>; without one the code writes before the array.\<close>

definition fix_nvme_ns_smartcmd :: "string \<Rightarrow> string option" where
  "fix_nvme_ns_smartcmd cmd =
     (let r = dropWhile (\<lambda>c. c \<noteq> CHR ''n'') (rev cmd) in if r = [] then None else Some (rev (tl r)))"

section \<open>Directory entries\<close>

datatype dirent_type = DT_DIR | DT_LNK | DT_OTHER

type_synonym dirent = "string \<times> dirent_type"

definition FT_OTHER :: nat where "FT_OTHER = 0"
definition FT_BLOCK :: nat where "FT_BLOCK = 1"
definition FT_CHAR :: nat where "FT_CHAR = 2"

record item_t =
  it_name :: string
  it_ft :: nat
  it_d_type :: dirent_type

definition link_or_dir :: "dirent \<Rightarrow> bool" where
  "link_or_dir = (\<lambda>(name, ty). ty = DT_LNK \<or> ty = DT_DIR \<and> take 1 name \<noteq> ''.'')"

definition has_prefix :: "string \<Rightarrow> string \<Rightarrow> bool" where
  "has_prefix p s \<longleftrightarrow> take (length p) s = p"

fun has_infix :: "string \<Rightarrow> string \<Rightarrow> bool" where
  "has_infix p [] = (p = [])"
| "has_infix p (c # s) = (has_prefix p (c # s) \<or> has_infix p s)"

text \<open>The selection functions with their static variable: new value and result.\<close>

definition first_dir_scan_select :: "dirent \<Rightarrow> item_t \<Rightarrow> item_t \<times> bool" where
  "first_dir_scan_select = (\<lambda>(name, ty) it.
     if it_ft it \<noteq> FT_OTHER then (it, False)
     else if \<not> link_or_dir (name, ty) then (it, False)
     else (\<lparr>it_name = name, it_ft = FT_CHAR, it_d_type = ty\<rparr>, True))"

definition sub_dir_scan_select :: "dirent \<Rightarrow> bool" where
  "sub_dir_scan_select = link_or_dir"

definition block_dir_scan_select :: "dirent \<Rightarrow> bool" where
  "block_dir_scan_select = (\<lambda>(name, ty). (ty = DT_LNK \<or> ty = DT_DIR) \<and> take 1 name \<noteq> ''.'' \<and> has_infix ''block'' name)"

definition non_sg_type :: "string \<Rightarrow> nat option" where
  "non_sg_type name =
     (if has_prefix ''scsi_changer'' name then Some FT_CHAR
      else if has_prefix ''block'' name then Some FT_BLOCK
      else if name = ''tape'' then Some FT_CHAR
      else if has_prefix ''scsi_tape:st'' name then (if is_digit (last name) then Some FT_CHAR else None)
      else if has_prefix ''onstream_tape:os'' name then Some FT_CHAR
      else None)"

definition non_sg_dir_scan_select :: "dirent \<Rightarrow> item_t \<Rightarrow> item_t \<times> bool" where
  "non_sg_dir_scan_select = (\<lambda>(name, ty) it.
     if it_ft it \<noteq> FT_OTHER then (it, False)
     else if \<not> link_or_dir (name, ty) then (it, False)
     else case non_sg_type name of None \<Rightarrow> (it, False) | Some ft \<Rightarrow> (\<lparr>it_name = name, it_ft = ft, it_d_type = ty\<rparr>, True))"

definition sg_dir_scan_select :: "dirent \<Rightarrow> item_t \<Rightarrow> item_t \<times> bool" where
  "sg_dir_scan_select = (\<lambda>(name, ty) it.
     if it_ft it \<noteq> FT_OTHER then (it, False)
     else if \<not> link_or_dir (name, ty) then (it, False)
     else if has_prefix ''scsi_generic'' name then (\<lparr>it_name = name, it_ft = FT_CHAR, it_d_type = ty\<rparr>, True)
     else (it, False))"

text \<open>\<open>scandir\<close> with such a function: the number of entries that it selects.\<close>

fun scandir_count :: "(dirent \<Rightarrow> 's \<Rightarrow> 's \<times> bool) \<Rightarrow> dirent list \<Rightarrow> 's \<Rightarrow> nat \<times> 's" where
  "scandir_count fn [] it = (0, it)"
| "scandir_count fn (d # ds) it =
     (let (it, sel) = fn d it; (n, it) = scandir_count fn ds it in ((if sel then n + 1 else n), it))"

definition scan_item :: "(dirent \<Rightarrow> item_t \<Rightarrow> item_t \<times> bool) \<Rightarrow> dirent list option \<Rightarrow> item_t \<Rightarrow> int \<times> item_t" where
  "scan_item fn dir it =
     (let it = it\<lparr>it_ft := FT_OTHER\<rparr> in
      case dir of None \<Rightarrow> (-1, it) | Some ds \<Rightarrow> (let (n, it) = scandir_count fn ds it in (int n, it)))"

definition scan_for_first :: "dirent list option \<Rightarrow> item_t \<Rightarrow> int \<times> item_t" where
  "scan_for_first = scan_item first_dir_scan_select"

definition non_sg_scan :: "dirent list option \<Rightarrow> item_t \<Rightarrow> int \<times> item_t" where
  "non_sg_scan = scan_item non_sg_dir_scan_select"

definition sg_scan :: "dirent list option \<Rightarrow> item_t \<Rightarrow> int \<times> item_t" where
  "sg_scan = scan_item sg_dir_scan_select"

text \<open>\<open>strrchr (s, ':') + 1\<close>\<close>

definition after_last_colon :: "string \<Rightarrow> string option" where
  "after_last_colon s = (if CHR '':'' \<in> set s then Some (rev (takeWhile (\<lambda>c. c \<noteq> CHR '':'') (rev s))) else None)"

definition sas_low_phy_dir_scan_select :: "dirent \<Rightarrow> string \<Rightarrow> string \<times> bool" where
  "sas_low_phy_dir_scan_select = (\<lambda>(name, ty) low.
     if ty = DT_OTHER then (low, False)
     else if has_prefix ''phy'' name then
       (if low = [] then (name, True)
        else case after_last_colon name of None \<Rightarrow> (low, False)
          | Some n \<Rightarrow> (case after_last_colon low of None \<Rightarrow> (low, False)
            | Some m \<Rightarrow> ((if atoi n < atoi m then name else low), True)))
     else (low, False))"

definition sas_low_phy_scan :: "dirent list option \<Rightarrow> int \<times> string" where
  "sas_low_phy_scan dir =
     (case dir of None \<Rightarrow> (-1, [])
      | Some ds \<Rightarrow> (let (n, low) = scandir_count sas_low_phy_dir_scan_select ds [] in (int n, low)))"

text \<open>The filter has -1, or all ones for the LUN, where every value passes.\<close>

definition filter_match :: "addr_hctl \<Rightarrow> addr_hctl \<Rightarrow> bool" where
  "filter_match flt s \<longleftrightarrow>
     (hctl_h flt = -1 \<or> hctl_h s = hctl_h flt) \<and> (hctl_c flt = -1 \<or> hctl_c s = hctl_c flt) \<and>
     (hctl_t flt = -1 \<or> hctl_t s = hctl_t flt) \<and> (hctl_l flt = NOT 0 \<or> hctl_l s = hctl_l flt)"

definition sdev_dir_scan_select :: "addr_hctl option \<Rightarrow> string \<Rightarrow> bool" where
  "sdev_dir_scan_select flt name =
     (if has_infix ''mt'' name \<or> has_infix ''ot'' name \<or> has_infix ''gen'' name \<or> has_prefix ''host'' name \<or>
         has_prefix ''target'' name then False
      else if CHR '':'' \<in> set name then
        (case flt of None \<Rightarrow> True
         | Some f \<Rightarrow> (case parse_colon_list name of None \<Rightarrow> False | Some s \<Rightarrow> filter_match f s))
      else False)"

definition host_dir_scan_select :: "addr_hctl option \<Rightarrow> string \<Rightarrow> bool" where
  "host_dir_scan_select flt name =
     (has_prefix ''host'' name \<and>
      (case flt of None \<Rightarrow> True
       | Some f \<Rightarrow> hctl_h f = -1 \<or> (case scan_int (drop 4 name) of None \<Rightarrow> False | Some (h, _) \<Rightarrow> h = hctl_h f)))"

definition scsi_host_number :: "string \<Rightarrow> u32 option" where
  "scsi_host_number name = (if has_prefix ''host'' name then map_option ucast (scan_u64 (drop 4 name)) else None)"

definition host_scandir_sort :: "string \<Rightarrow> string \<Rightarrow> int" where
  "host_scandir_sort lnam rnam =
     (case scsi_host_number lnam of None \<Rightarrow> -1
      | Some l \<Rightarrow> (case scsi_host_number rnam of None \<Rightarrow> 1 | Some r \<Rightarrow> if l < r then -1 else if r < l then 1 else 0))"

section \<open>Trimmed fields\<close>

lemma halves:
  fixes a b :: u32
  defines "r \<equiv> (push_bit 16 a AND 0xFFFF0000) OR (b AND 0xFFFF)"
  shows "r AND 0xFFFF = take_bit 16 b" "drop_bit 16 r AND 0xFFFF = take_bit 16 a"
proof -
  have m: "0xFFFF = (mask 16 :: u32)" "0xFFFF0000 = push_bit 16 (mask 16 :: u32)" by (simp_all add: mask_eq_exp_minus_1 push_bit_eq_mult)
  show "r AND 0xFFFF = take_bit 16 b" "drop_bit 16 r AND 0xFFFF = take_bit 16 a"
    unfolding r_def m by (rule bit_word_eqI; auto simp: bit_simps)+
qed

text \<open>What \<open>trim_string\<close> is for; it fails for a field of blanks, whose length becomes \<open>- len\<close>.\<close>

definition trim :: "string \<Rightarrow> string" where
  "trim s = rev (dropWhile is_blank (rev (dropWhile is_blank s)))"

lemma take_leading:
  assumes "\<exists>c \<in> set s. \<not> is_blank c"
  shows "trim s = take (length s - length (takeWhile is_blank (rev s)) - length (takeWhile is_blank s)) (drop (length (takeWhile is_blank s)) s)"
    "length (takeWhile is_blank (rev s)) + length (takeWhile is_blank s) \<le> length s"
proof -
  let ?l = "takeWhile is_blank s" and ?r = "dropWhile is_blank s"
  have s: "s = ?l @ ?r" by simp
  have r: "\<exists>c \<in> set ?r. \<not> is_blank c" using assms
    by (metis Un_iff s set_append set_takeWhileD)
  then have t: "takeWhile is_blank (rev s) = takeWhile is_blank (rev ?r)"
    by (subst s, subst rev_append) (metis rev_rev_ident set_rev takeWhile_append1)
  have d: "trim s = take (length ?r - length (takeWhile is_blank (rev ?r))) ?r"
    unfolding trim_def by (metis dropWhile_eq_drop length_rev rev_drop rev_rev_ident)
  have l: "length s = length ?l + length ?r" by (metis s length_append)
  have "drop (length ?l) s = ?r" by (metis append_eq_conv_conj s)
  then show "trim s = take (length s - length (takeWhile is_blank (rev s)) - length ?l) (drop (length ?l) s)"
    using d t l by (simp add: diff_commute)
  show "length (takeWhile is_blank (rev s)) + length ?l \<le> length s"
    unfolding t using l length_takeWhile_le [of is_blank "rev ?r"] by simp
qed

lemma fuse_parts:
  assumes "l < 65536"
  shows "trim_off ((push_bit 16 (of_nat l) AND 0xFFFF0000) OR (of_int d AND 0xFFFF)) = l"
    "trim_len ((push_bit 16 (of_nat l) AND 0xFFFF0000) OR (of_int d AND 0xFFFF)) = nat (d mod 65536)"
proof -
  have "take_bit 16 l = l" using assms by (simp add: take_bit_nat_eq_self)
  then have "take_bit 16 (of_nat l :: u32) = of_nat l" by (simp only: take_bit_of_nat)
  then show "trim_off ((push_bit 16 (of_nat l) AND 0xFFFF0000) OR (of_int d AND 0xFFFF)) = l"
    unfolding trim_off_def halves using assms by (simp add: unat_of_nat)
  show "trim_len ((push_bit 16 (of_nat l) AND 0xFFFF0000) OR (of_int d AND 0xFFFF)) = nat (d mod 65536)"
  proof -
    have "uint (take_bit 16 (of_int d) :: u32) = take_bit 16 d" by (simp add: unsigned_take_bit_eq uint_word_of_int_eq)
    then have "uint (take_bit 16 (of_int d) :: u32) = d mod 65536" by (simp add: take_bit_eq_mod)
    then show ?thesis unfolding trim_len_def halves unat_eq_nat_uint by (rule arg_cong)
  qed
qed

lemma trim_fuse:
  assumes "0 < len" "len \<le> length buf" "len < 65536"
  shows "trim_off (trim_string buf len) = length (takeWhile is_blank (take len buf))"
    "trim_len (trim_string buf len)
      = nat ((int len - int (length (takeWhile is_blank (rev (take len buf)))) - int (length (takeWhile is_blank (take len buf)))) mod 65536)"
proof -
  have "length (takeWhile is_blank (take len buf)) \<le> len"
    using length_takeWhile_le [of is_blank "take len buf"] by simp
  then have l: "length (takeWhile is_blank (take len buf)) < 65536" using assms(3) by linarith
  have "\<not> len < 1" using assms(1) by simp
  then show "trim_off (trim_string buf len) = length (takeWhile is_blank (take len buf))"
    "trim_len (trim_string buf len)
      = nat ((int len - int (length (takeWhile is_blank (rev (take len buf)))) - int (length (takeWhile is_blank (take len buf)))) mod 65536)"
    by (simp_all only: trim_string_def Let_def if_False fuse_parts [OF l])
qed

lemma trim_field:
  assumes "0 < len" "len \<le> length buf" "len < 65536" "\<exists>c \<in> set (take len buf). \<not> is_blank c"
  shows "trim_len (trim_string buf len) = length (trim (take len buf))"
    "take (length (trim (take len buf))) (drop (trim_off (trim_string buf len)) buf) = trim (take len buf)"
proof -
  let ?b = "take len buf"
  note T = take_leading [OF assms(4)]
  have lb: "length ?b = len" using assms(2) by simp
  have n: "length (trim ?b) = len - length (takeWhile is_blank (rev ?b)) - length (takeWhile is_blank ?b)"
    unfolding T(1) using T(2) lb by simp
  have "int len - int (length (takeWhile is_blank (rev ?b))) - int (length (takeWhile is_blank ?b)) = int (length (trim ?b))"
    using n T(2) lb by linarith
  then have "trim_len (trim_string buf len) = nat (int (length (trim ?b)) mod 65536)"
    unfolding trim_fuse(2) [OF assms(1-3)] by simp
  moreover have "int (length (trim ?b)) mod 65536 = int (length (trim ?b))" using n assms(3) by simp
  ultimately show "trim_len (trim_string buf len) = length (trim ?b)" by simp
  have "length (trim ?b) + length (takeWhile is_blank ?b) \<le> len" using n T(2) lb by linarith
  then have "take (length (trim ?b)) (drop (length (takeWhile is_blank ?b)) buf)
      = take (length (trim ?b)) (drop (length (takeWhile is_blank ?b)) ?b)"
    by (simp add: drop_take min_def)
  also have "\<dots> = trim ?b" unfolding n using T(1) lb by simp
  finally show "take (length (trim ?b)) (drop (trim_off (trim_string buf len)) buf) = trim ?b"
    unfolding trim_fuse(1) [OF assms(1-3)] .
qed

lemma trim_blanks:
  assumes "0 < len" "len < 65536"
  shows "trim_off (trim_string (replicate len (CHR '' '') @ r) len) = len"
    "trim_len (trim_string (replicate len (CHR '' '') @ r) len) = 65536 - len"
proof -
  have b: "takeWhile is_blank (replicate len (CHR '' '')) = replicate len (CHR '' '')" by (simp add: is_blank_def)
  have "(int len - int len - int len) mod 65536 = 65536 - int len" using assms by (simp add: zmod_zminus1_eq_if)
  then show "trim_off (trim_string (replicate len (CHR '' '') @ r) len) = len"
    "trim_len (trim_string (replicate len (CHR '' '') @ r) len) = 65536 - len"
    using assms by (simp_all add: trim_fuse b nat_diff_distrib takeWhile_append2 is_blank_def)
qed

lemma swap_pairs_involution: "swap_pairs n (swap_pairs n s) = s"
  by (induction n s rule: swap_pairs.induct) simp_all

lemma length_swap_pairs [simp]: "length (swap_pairs n s) = length s"
  by (induction n s rule: swap_pairs.induct) simp_all

section \<open>LUN fields and addresses\<close>

lemma flip_eq: "lun_word_flip x = push_bit 48 (take_bit 16 x) OR push_bit 32 (take_bit 16 (drop_bit 16 x)) OR
      push_bit 16 (take_bit 16 (drop_bit 32 x)) OR take_bit 16 (drop_bit 48 x)"
proof -
  have m: "0xFFFF = (mask 16 :: u64)" by (simp add: mask_eq_exp_minus_1)
  show ?thesis
    unfolding lun_word_flip_def flip_turn_def numeral_3_eq_3 m
    by (simp add: take_bit_eq_mask [symmetric] push_bit_or or.assoc)
qed

lemma flip_bit: "q < 4 \<Longrightarrow> r < 16 \<Longrightarrow> bit (lun_word_flip x) (16 * q + r) \<longleftrightarrow> bit x (16 * (3 - q) + r)"
proof -
  assume q: "q < 4" and r: "r < 16"
  have "q = 0 \<or> q = 1 \<or> q = 2 \<or> q = 3" using q by presburger
  then show ?thesis
    by (elim disjE; simp add: flip_eq bit_or_iff bit_push_bit_iff bit_take_bit_iff bit_drop_bit_eq r) (use r in \<open>simp_all add: add.commute\<close>)
qed

lemma flip_flip: "lun_word_flip (lun_word_flip x) = x"
proof (rule bit_word_eqI)
  fix n assume "n < LENGTH(64)"
  then have n: "n div 16 < 4" "n mod 16 < 16" by auto
  then have "bit (lun_word_flip (lun_word_flip x)) (16 * (n div 16) + n mod 16) = bit x (16 * (3 - (3 - n div 16)) + n mod 16)"
    using flip_bit [of "n div 16" "n mod 16" "lun_word_flip x"] flip_bit [of "3 - n div 16" "n mod 16" x] by simp
  moreover have "3 - (3 - n div 16) = n div 16" using n by simp
  ultimately show "bit (lun_word_flip (lun_word_flip x)) n = bit x n" by simp
qed

section \<open>Descriptors\<close>

datatype desig = Desig u8 u8 "u8 list"

fun desig_bytes :: "desig \<Rightarrow> u8 list" where
  "desig_bytes (Desig b0 b1 dat) = [b0, b1, 0, of_nat (length dat)] @ dat"

fun desig_ok :: "desig \<Rightarrow> bool" where
  "desig_ok (Desig b0 b1 dat) \<longleftrightarrow> length dat < 256"

fun desig_is :: "int \<Rightarrow> int \<Rightarrow> int \<Rightarrow> desig \<Rightarrow> bool" where
  "desig_is m_assoc m_desig_type m_code_set (Desig b0 b1 dat) \<longleftrightarrow>
     (m_code_set < 0 \<or> m_code_set = uint (b0 AND 0xf)) \<and> (m_assoc < 0 \<or> m_assoc = uint (drop_bit 4 b1 AND 0x3)) \<and>
     (m_desig_type < 0 \<or> m_desig_type = uint (b1 AND 0xf))"

abbreviation descs :: "desig list \<Rightarrow> u8 list" where
  "descs ds \<equiv> concat (map desig_bytes ds)"

fun find_desig :: "(desig \<Rightarrow> bool) \<Rightarrow> nat \<Rightarrow> desig list \<Rightarrow> nat option" where
  "find_desig P k [] = None"
| "find_desig P k (d # ds) = (if P d then Some k else find_desig P (k + length (desig_bytes d)) ds)"

lemma desig_at:
  assumes "desig_ok (Desig b0 b1 dat)" "bp = descs pre @ desig_bytes (Desig b0 b1 dat) @ r"
  shows "bp ! length (descs pre) = b0" "bp ! (length (descs pre) + 1) = b1"
    "unat (bp ! (length (descs pre) + 3)) = length dat"
    "drop (length (descs pre) + 4) bp = dat @ r"
  using assms by (simp_all add: nth_append unat_of_nat)

text \<open>\<open>k\<close> is the value of \<open>*off\<close> after the descriptors \<open>pre\<close>.\<close>

definition off_after :: "desig list \<Rightarrow> int \<Rightarrow> bool" where
  "off_after pre k \<longleftrightarrow> (if pre = [] then k = -1 else k = int (length (descs (butlast pre))))"

lemma vpd_next:
  assumes "off_after pre k" "\<forall>d \<in> set pre. desig_ok d" "bp = descs pre @ r"
  shows "(if k < 0 then 0 else k + int (unat (bp ! nat (k + 3))) + 4) = int (length (descs pre))"
proof (cases "pre = []")
  case True
  then show ?thesis using assms(1) by (simp add: off_after_def)
next
  case False
  then obtain p b0 b1 dat where p: "pre = p @ [Desig b0 b1 dat]" by (metis append_butlast_last_id desig.exhaust)
  have k: "k = int (length (descs p))" using assms(1) False by (simp add: off_after_def p)
  have "nat (k + 3) = length (descs p) + 3" using k by simp
  moreover have "unat (bp ! (length (descs p) + 3)) = length dat"
    by (rule desig_at(3) [of b0 b1 dat]) (use assms(2,3) p in auto)
  ultimately show ?thesis using k by (simp add: p)
qed

lemma vpd_loop_find:
  assumes "off_after pre k" "\<forall>d \<in> set (pre @ ds). desig_ok d" "bp = descs (pre @ ds) @ r" "n = length (descs (pre @ ds))"
  shows "(case find_desig (desig_is a t c) (length (descs pre)) ds of
      None \<Rightarrow> \<exists>rc < 0. vpd_loop bp (int n) k a t c = Inl rc
    | Some i \<Rightarrow> vpd_loop bp (int n) k a t c = Inr i)"
  using assms
proof (induction ds arbitrary: pre k)
  case Nil
  then show ?case using vpd_next [OF Nil.prems(1), of bp r] by (subst vpd_loop.simps) (auto simp: Let_def)
next
  case (Cons d ds)
  obtain b0 b1 dat where d: "d = Desig b0 b1 dat" by (cases d)
  have nx: "(if k < 0 then 0 else k + int (unat (bp ! nat (k + 3))) + 4) = int (length (descs pre))"
    by (rule vpd_next [OF Cons.prems(1), of bp "descs (d # ds) @ r"]) (use Cons.prems(2,3) in auto)
  have n: "length (descs pre) + 4 \<le> n" using Cons.prems(4) by (simp add: d)
  have k3: "k + 3 < int n"
  proof (cases "pre = []")
    case True
    then show ?thesis using Cons.prems(1) n by (simp add: off_after_def)
  next
    case False
    then obtain p x where p: "pre = p @ [x]" by (metis append_butlast_last_id)
    then show ?thesis using Cons.prems(1) n by (cases x) (simp add: off_after_def)
  qed
  have m: "desig_match bp (length (descs pre)) a t c \<longleftrightarrow> desig_is a t c d"
    using desig_at(1,2) [of b0 b1 dat bp pre "descs ds @ r"] Cons.prems(2,3) by (simp add: desig_match_def d)
  have step: "vpd_loop bp (int n) k a t c =
      (if desig_is a t c d then Inr (length (descs pre)) else vpd_loop bp (int n) (int (length (descs pre))) a t c)"
    using k3 n by (subst vpd_loop.simps) (simp add: Let_def nx m)
  have "off_after (pre @ [d]) (int (length (descs pre)))" by (simp add: off_after_def)
  from Cons.IH [OF this, of] have IH: "case find_desig (desig_is a t c) (length (descs pre) + length (desig_bytes d)) ds of
      None \<Rightarrow> \<exists>rc < 0. vpd_loop bp (int n) (int (length (descs pre))) a t c = Inl rc
    | Some i \<Rightarrow> vpd_loop bp (int n) (int (length (descs pre))) a t c = Inr i"
    using Cons.prems(2-4) by simp
  show ?case unfolding step find_desig.simps using IH by simp
qed

text \<open>C34. The search in a device identification page returns the first designator that
  matches, as a search in the list of designators does, and an error with the offset
  unchanged when there is none.\<close>

theorem iter_finds_first:
  assumes "\<forall>d \<in> set ds. desig_ok d" "n = length (descs ds)"
  shows "(case find_desig (desig_is a t c) 0 ds of
      None \<Rightarrow> \<exists>rc < 0. sg_vpd_dev_id_iter (descs ds @ r) n (-1) a t c = (rc, -1)
    | Some i \<Rightarrow> sg_vpd_dev_id_iter (descs ds @ r) n (-1) a t c = (0, int i))"
  using vpd_loop_find [of "[]" "-1" ds "descs ds @ r" r n a t c] assms
  by (auto simp: off_after_def sg_vpd_dev_id_iter_def split: option.splits)

definition two_desigs :: "desig list" where
  "two_desigs = [Desig 0x61 0x93 (replicate 8 1), Desig 0x61 0x94 (replicate 4 2)]"

theorem iter_finds_first_witness: "sg_vpd_dev_id_iter (descs two_desigs @ [7]) 20 (-1) 1 4 (-1) = (0, 12)"
proof -
  have f: "find_desig (desig_is 1 4 (-1)) 0 two_desigs = Some 12" by (simp add: two_desigs_def)
  have n: "20 = length (descs two_desigs)" and ok: "\<forall>d \<in> set two_desigs. desig_ok d" by (simp_all add: two_desigs_def)
  from iter_finds_first [OF ok n, where a = 1 and t = 4 and c = "-1" and r = "[7]"] show ?thesis unfolding f by simp
qed

lemma iter_next:
  assumes "off_after pre k" "\<forall>d \<in> set (pre @ ds). desig_ok d" "bp = descs (pre @ ds) @ r" "n = length (descs (pre @ ds))"
  shows "find_desig (desig_is a t c) (length (descs pre)) ds = None \<Longrightarrow>
      \<exists>rc < 0. sg_vpd_dev_id_iter bp n k a t c = (rc, k)"
    and "find_desig (desig_is a t c) (length (descs pre)) ds = Some i \<Longrightarrow> sg_vpd_dev_id_iter bp n k a t c = (0, int i)"
  using vpd_loop_find [OF assms, of a t c] by (auto simp: sg_vpd_dev_id_iter_def)

lemma find_desig_none: "find_desig P k ds = None \<longleftrightarrow> (\<forall>d \<in> set ds. \<not> P d)"
  by (induction ds arbitrary: k) auto

lemma find_desig_first: "\<forall>d \<in> set pre. \<not> P d \<Longrightarrow> P d \<Longrightarrow> find_desig P k (pre @ d # ds) = Some (k + length (descs pre))"
  by (induction pre arbitrary: k) auto

abbreviation lu_desig :: "int \<Rightarrow> int \<Rightarrow> desig \<Rightarrow> bool" where
  "lu_desig \<equiv> desig_is VPD_ASSOC_LU"

text \<open>A page: the header, the descriptors, and what was in the rest of the array before.\<close>

definition vpd_page :: "desig list \<Rightarrow> u8 list \<Rightarrow> (u8 list \<times> nat) option" where
  "vpd_page ds r = (let n = length (descs ds) in
     Some ([0, VPD_DEVICE_ID, of_nat (n div 256), of_nat (n mod 256)] @ descs ds @ r, n + 4))"

lemma get_lu_name_page:
  assumes "4 < length (descs ds)" "length (descs ds) < 65536"
  shows "get_lu_name (vpd_page ds r) b_len wp = lu_of_page (descs ds @ r) (length (descs ds)) b_len wp"
  using assms by (simp add: get_lu_name_def vpd_page_def Let_def unat_of_nat)

lemma page_bytes_desig:
  assumes "desig_ok (Desig b0 b1 dat)"
  shows "unat ((descs pre @ desig_bytes (Desig b0 b1 dat) @ r) ! (length (descs pre) + 3)) = length dat"
    "page_bytes (descs pre @ desig_bytes (Desig b0 b1 dat) @ r) (length (descs pre) + 4) (length dat) = Some dat"
  using desig_at(3,4) [OF assms refl, of pre r] assms by (simp_all add: page_bytes_def)

lemma lu_hex_all: "2 * int (length ws) < b_len \<Longrightarrow> lu_hex [] k ws b_len = concat (map hex2 ws)"
proof (induction ws arbitrary: k b_len)
  case (Cons w ws)
  then have "lu_hex [] (k + 1) ws (b_len - 2) = concat (map hex2 ws)" by simp
  moreover have "take (nat (b_len - 1)) (hex2 w) = hex2 w" using Cons.prems by (simp add: hex2_def)
  ultimately show ?case using Cons.prems by simp
qed simp

theorem naa_name_found:
  assumes ok: "\<forall>x \<in> set (pre @ Desig b0 b1 dat # ds). desig_ok x"
    and no_sns: "\<forall>x \<in> set (pre @ Desig b0 b1 dat # ds). \<not> lu_desig 8 3 x"
    and first: "\<forall>x \<in> set pre. \<not> lu_desig 3 1 x" "lu_desig 3 1 (Desig b0 b1 dat)" "length dat = 8 \<or> length dat = 16"
    and len: "length (descs (pre @ Desig b0 b1 dat # ds)) < 65536"
  shows "get_lu_name (vpd_page (pre @ Desig b0 b1 dat # ds) r) 256 wp
    = Some ((if wp then ''naa.'' else []) @ concat (map hex2 dat))"
proof -
  let ?ds = "pre @ Desig b0 b1 dat # ds"
  let ?bp = "descs ?ds @ r" and ?n = "length (descs ?ds)"
  have p: "off_after [] (-1)" by (simp add: off_after_def)
  note N = iter_next [OF p, of ?ds ?bp r ?n, simplified append_Nil, OF ok refl refl]
  obtain rc where rc: "rc < 0" "sg_vpd_dev_id_iter ?bp ?n (-1) VPD_ASSOC_LU 8 3 = (rc, -1)"
    using N(1) no_sns unfolding find_desig_none by blast
  have naa: "sg_vpd_dev_id_iter ?bp ?n (-1) VPD_ASSOC_LU 3 1 = (0, int (length (descs pre)))"
    by (rule N(2)) (use find_desig_first [where P = "lu_desig 3 1" and k = 0, OF first(1,2)] in simp)
  have ok1: "desig_ok (Desig b0 b1 dat)" using ok by simp
  have bp: "?bp = descs pre @ desig_bytes (Desig b0 b1 dat) @ (descs ds @ r)" by simp
  have l: "unat (?bp ! (length (descs pre) + 3)) = length dat" "page_bytes ?bp (length (descs pre) + 4) (length dat) = Some dat"
    unfolding bp by (rule page_bytes_desig [OF ok1])+
  have h: "lu_hex [] 0 dat 256 = concat (map hex2 dat)" "lu_hex [] 0 dat 252 = concat (map hex2 dat)"
    using first(3) by (auto intro!: lu_hex_all)
  have "4 < ?n" using first(3) by auto
  from get_lu_name_page [OF this len] have "get_lu_name (vpd_page ?ds r) 256 wp = lu_of_page ?bp ?n 256 wp" .
  also have "\<dots> = lu_other ?bp ?n (-1) None 256 wp" using rc by (simp add: lu_of_page_def)
  also have "\<dots> = lu_numbers ?bp (length (descs pre)) 256 wp ''naa.'' [8, 16]" unfolding lu_other_def naa by simp
  also have "\<dots> = Some ((if wp then ''naa.'' else []) @ concat (map hex2 dat))"
    using first(3) l h by (auto simp: lu_numbers_def Let_def lu_prefix_def)
  finally show ?thesis .
qed

text \<open>
  If the page has a name string of the unit and one of the target port, the other searches go
  on behind the latter: an NAA name before it is not found, and the name string is used.
\<close>

text \<open>C35. With name strings of the unit and of a target port in a page, get_lu_name does
  not find an NAA, EUI or UUID name in front of the string of the port and returns the
  name string.\<close>

theorem naa_before_port_missed:
  assumes ok: "\<forall>x \<in> set (pre @ t # post). desig_ok x"
    and sns: "pre = p1 @ Desig s0 s1 sd # p2" "\<forall>x \<in> set p1. \<not> lu_desig 8 3 x" "lu_desig 8 3 (Desig s0 s1 sd)" "sd \<noteq> []"
    and port: "\<forall>x \<in> set pre. \<not> desig_is VPD_ASSOC_TPORT 8 3 x" "desig_is VPD_ASSOC_TPORT 8 3 t"
    and head: "pre = Desig h0 h1 hd0 # p3" "0x80 AND h1 = 0 \<or> drop_bit 4 h0 \<noteq> TPROTO_ISCSI"
    and post: "\<forall>x \<in> set post. \<not> lu_desig 3 1 x \<and> \<not> lu_desig 2 1 x \<and> \<not> lu_desig 0xa 1 x"
    and len: "length (descs (pre @ t # post)) < 65536"
  shows "get_lu_name (vpd_page (pre @ t # post) r) 256 wp = Some (take 255 (strlen_cut (bytes_text sd)))"
proof -
  let ?ds = "pre @ t # post"
  let ?bp = "descs ?ds @ r" and ?n = "length (descs ?ds)" and ?k = "int (length (descs pre))"
  have p0: "off_after [] (-1)" and p1: "off_after (pre @ [t]) ?k" by (simp_all add: off_after_def)
  note N0 = iter_next [OF p0, of ?ds ?bp r ?n, simplified append_Nil, OF ok refl refl]
  have "(pre @ [t]) @ post = ?ds" by simp
  note N1 = iter_next [OF p1, of post ?bp r ?n, unfolded this, OF ok refl refl]
  have "find_desig (lu_desig 8 3) 0 ?ds = Some (length (descs p1))"
    using find_desig_first [where P = "lu_desig 8 3" and k = 0 and pre = p1 and d = "Desig s0 s1 sd" and ds = "p2 @ t # post"] sns(2,3)
    by (simp add: sns(1))
  then have i1: "sg_vpd_dev_id_iter ?bp ?n (-1) VPD_ASSOC_LU 8 3 = (0, int (length (descs p1)))"
    by (intro N0(2)) simp
  have "find_desig (desig_is VPD_ASSOC_TPORT 8 3) 0 ?ds = Some (length (descs pre))"
    using find_desig_first [where P = "desig_is VPD_ASSOC_TPORT 8 3" and k = 0, OF port] by simp
  then have i2: "sg_vpd_dev_id_iter ?bp ?n (-1) VPD_ASSOC_TPORT 8 3 = (0, ?k)"
    by (intro N0(2)) simp
  have none: "\<exists>rc < 0. sg_vpd_dev_id_iter ?bp ?n ?k VPD_ASSOC_LU 3 1 = (rc, ?k)"
      "\<exists>rc < 0. sg_vpd_dev_id_iter ?bp ?n ?k VPD_ASSOC_LU 2 1 = (rc, ?k)"
      "\<exists>rc < 0. sg_vpd_dev_id_iter ?bp ?n ?k VPD_ASSOC_LU 0xa 1 = (rc, ?k)"
    by (rule N1(1), simp add: find_desig_none post)+
  have ok1: "desig_ok (Desig s0 s1 sd)" using ok by (simp add: sns(1))
  have bp: "?bp = descs p1 @ desig_bytes (Desig s0 s1 sd) @ (descs (p2 @ t # post) @ r)" by (simp add: sns(1))
  have l: "unat (?bp ! (length (descs p1) + 3)) = length sd" "page_bytes ?bp (length (descs p1) + 4) (length sd) = Some sd"
    unfolding bp by (rule page_bytes_desig [OF ok1])+
  have h: "?bp ! 0 = h0" "?bp ! 1 = h1" by (simp_all add: head(1))
  have "4 < ?n" using sns(4) by (simp add: sns(1))
  from get_lu_name_page [OF this len] have "get_lu_name (vpd_page ?ds r) 256 wp = lu_of_page ?bp ?n 256 wp" .
  also have "\<dots> = lu_other ?bp ?n ?k (Some (strlen_cut (bytes_text sd))) 256 wp"
    unfolding lu_of_page_def i1 i2 using l h head(2) sns(4) by (auto simp: Let_def)
  also have "\<dots> = Some (take 255 (strlen_cut (bytes_text sd)))"
    unfolding lu_other_def using none by auto
  finally show ?thesis .
qed

theorem naa_before_port_missed_witness:
  "get_lu_name (vpd_page ([Desig 1 3 (replicate 8 0x50), Desig 3 8 [0x61, 0x62, 0]] @ Desig 0x63 0x98 [0x63] # []) []) 256 True
    = Some (take 255 (strlen_cut (bytes_text [0x61, 0x62, 0])))"
  by (rule naa_before_port_missed [where ?p1.0 = "[Desig 1 3 (replicate 8 0x50)]" and ?s0.0 = 3 and ?s1.0 = 8 and ?p2.0 = "[]" and ?h0.0 = 1 and
      ?h1.0 = 3 and ?p3.0 = "[Desig 3 8 [0x61, 0x62, 0]]"])
    (simp_all add: VPD_ASSOC_LU_def VPD_ASSOC_TPORT_def)

section \<open>Inquiry texts\<close>

lemma strlen_cut_take: "CHR 0x00 \<notin> set (take n s) \<Longrightarrow> take n (strlen_cut s) = take n s"
  unfolding strlen_cut_def by (induction s arbitrary: n) (auto simp: take_Cons split: nat.splits)

lemma strncpy_field:
  assumes "0 < n" "n \<le> length b" "n < 65536" "\<exists>c \<in> set (take n b). \<not> is_blank c" "CHR 0x00 \<notin> set (take n b)"
  shows "strncpy_chars (trim_len (trim_string b n)) (drop (trim_off (trim_string b n)) b) = trim (take n b)"
proof -
  note F = trim_field [OF assms(1-4)]
  have "set (trim (take n b)) \<subseteq> set (take n b)"
    unfolding trim_def by (metis set_dropWhileD set_rev subsetI)
  then have "CHR 0x00 \<notin> set (take (length (trim (take n b))) (drop (trim_off (trim_string b n)) b))"
    unfolding F(2) using assms(5) by blast
  from strlen_cut_take [OF this] show ?thesis unfolding F(1) strncpy_chars_def F(2) by (simp add: F(2))
qed

lemma length_trim: "length (trim s) \<le> length s"
  unfolding trim_def by (metis length_dropWhile_le length_rev order_trans)

definition inq_field :: "string \<Rightarrow> bool" where
  "inq_field s \<longleftrightarrow> (\<exists>c \<in> set s. \<not> is_blank c) \<and> CHR 0x00 \<notin> set s"

text \<open>The state after the characters \<open>a\<close> have been written to \<open>dst\<close>.\<close>

definition written :: "string \<Rightarrow> string \<Rightarrow> nat \<times> string" where
  "written dst a = (length a, a @ drop (length a) dst)"

lemma put_written:
  "length a + length s \<le> length dst \<Longrightarrow> array_put (length a) s (a @ drop (length a) dst) = Some (a @ s @ drop (length a + length s) dst)"
  by (simp add: array_put_def add.commute)

lemma inq_sep_written: "length a + length s \<le> length dst \<Longrightarrow> inq_sep s (written dst a) = Some (written dst (a @ s))"
  by (simp add: inq_sep_def written_def put_written)

lemma inq_piece_written:
  assumes "drop i buf = s @ r" "length s = n" "inq_field s" "0 < n" "n < 65536" "length a + n \<le> length dst"
  shows "inq_piece buf i n (written dst a) = Some (written dst (a @ trim s))"
proof -
  have f: "take n (drop i buf) = s" using assms(1,2) by simp
  have n: "n \<le> length (drop i buf)" using assms(1,2) by simp
  have b: "\<exists>c \<in> set (take n (drop i buf)). \<not> is_blank c" "CHR 0x00 \<notin> set (take n (drop i buf))"
    using assms(3) unfolding f inq_field_def by auto
  have l: "trim_len (trim_string (drop i buf) n) = length (trim s)"
    using trim_field(1) [OF assms(4) n assms(5) b(1)] unfolding f .
  have d: "strncpy_chars (length (trim s)) (drop (i + trim_off (trim_string (drop i buf) n)) buf) = trim s"
    using strncpy_field [OF assms(4) n assms(5) b] unfolding f l by (simp add: add.commute)
  have "length a + length (trim s) \<le> length dst" using length_trim [of s] assms(2,6) by linarith
  from put_written [OF this] show ?thesis by (simp add: inq_piece_def Let_def l d written_def)
qed

lemma length_strncpy_chars [simp]: "length (strncpy_chars n s) = n"
  by (simp add: strncpy_chars_def Let_def)

lemma inq_piece_blanks:
  assumes "drop i buf = replicate n (CHR '' '') @ r" "0 < n" "n < 65536" "k + (65536 - n) > length dst"
  shows "inq_piece buf i n (k, dst) = None"
proof -
  have "trim_len (trim_string (drop i buf) n) = 65536 - n" unfolding assms(1) by (rule trim_blanks(2) [OF assms(2,3)])
  then show ?thesis using assms(4) by (simp add: inq_piece_def Let_def array_put_def)
qed

lemma lsi_inq_decode_fields_aux:
  assumes "length sn = 20" "length model = 40" "length fw = 8" "inq_field sn" "inq_field model" "inq_field fw" "length dst = 96"
  shows "lsi_inq_decode dst (sn @ model @ fw @ CHR 0x00 # rest)
    = Some (let txt = trim model @ '' * '' @ trim fw @ '' * '' @ trim sn @ [CHR 0x00] in txt @ drop (length txt) dst)"
proof -
  let ?buf = "sn @ model @ fw @ CHR 0x00 # rest"
  have "strlen_cut ?buf = sn @ model @ fw"
    using assms(4-6) unfolding strlen_cut_def inq_field_def by (auto simp: takeWhile_append)
  then have l: "length (strlen_cut ?buf) > 60" using assms(1-3) by simp
  have b: "drop 20 ?buf = model @ fw @ CHR 0x00 # rest" "drop 60 ?buf = fw @ CHR 0x00 # rest"
      "drop 0 ?buf = sn @ model @ fw @ CHR 0x00 # rest"
    using assms(1,2) by simp_all
  have T: "length (trim sn) \<le> 20" "length (trim model) \<le> 40" "length (trim fw) \<le> 8"
    using length_trim [of sn] length_trim [of model] length_trim [of fw] assms(1-3) by simp_all
  have z: "(0, dst) = written dst []" by (simp add: written_def)
  let ?a = "trim model" let ?b = "?a @ '' * ''" let ?c = "?b @ trim fw" let ?d = "?c @ '' * ''" let ?e = "?d @ trim sn"
  have s1: "inq_piece ?buf 20 40 (0, dst) = Some (written dst ?a)"
    unfolding z using inq_piece_written [OF b(1) assms(2,5), of "[]" dst] assms(7) by simp
  have s2: "inq_sep '' * '' (written dst ?a) = Some (written dst ?b)"
    by (rule inq_sep_written) (use T assms(7) in simp)
  have s3: "inq_piece ?buf 60 8 (written dst ?b) = Some (written dst ?c)"
    by (rule inq_piece_written [OF b(2) assms(3,6)]) (use T assms(7) in simp_all)
  have s4: "inq_sep '' * '' (written dst ?c) = Some (written dst ?d)"
    by (rule inq_sep_written) (use T assms(7) in simp)
  have s5: "inq_piece ?buf 0 20 (written dst ?d) = Some (written dst ?e)"
    by (rule inq_piece_written [OF b(3) assms(1,4)]) (use T assms(7) in simp_all)
  have s6: "inq_sep [CHR 0x00] (written dst ?e) = Some (written dst (?e @ [CHR 0x00]))"
    by (rule inq_sep_written) (use T assms(7) in simp)
  have "lsi_inq_decode dst ?buf = Some (snd (written dst (?e @ [CHR 0x00])))"
    unfolding lsi_inq_decode_def inq_fields_def using l s1 s2 s3 s4 s5 s6 by simp
  then show ?thesis by (simp add: written_def Let_def)
qed

theorem lsi_inq_decode_fields:
  assumes "length sn = 20" "length model = 40" "length fw = 8" "inq_field sn" "inq_field model" "inq_field fw" "length dst = 96"
  shows "lsi_inq_decode dst (sn @ model @ fw @ CHR 0x00 # rest)
    = Some (let txt = trim model @ '' * '' @ trim fw @ '' * '' @ trim sn @ [CHR 0x00] in txt @ drop (length txt) dst)"
  by (rule lsi_inq_decode_fields_aux [OF assms])

theorem blank_serial_overflows:
  assumes "length model = 40" "length fw = 8" "length dst = 96" "CHR 0x00 \<notin> set (model @ fw)"
  shows "lsi_inq_decode dst (replicate 20 (CHR '' '') @ model @ fw @ CHR 0x00 # rest) = None"
proof -
  let ?buf = "replicate 20 (CHR '' '') @ model @ fw @ CHR 0x00 # rest"
  have "strlen_cut ?buf = replicate 20 (CHR '' '') @ model @ fw"
    using assms(4) unfolding strlen_cut_def by (auto simp: takeWhile_append)
  then have l: "length (strlen_cut ?buf) > 60" using assms(1,2) by simp
  have none: "inq_piece ?buf 0 20 d = None" if "length (snd d) = 96" for d
    using inq_piece_blanks [of 0 ?buf 20 "model @ fw @ CHR 0x00 # rest" "snd d" "fst d"] that by simp
  have len: "length (snd d') = 96" if "inq_piece ?buf i n d = Some d'" "length (snd d) = 96" for i n d d'
    using that by (auto simp: inq_piece_def array_put_def Let_def split: prod.splits if_splits)
  have sep: "length (snd d') = 96" if "inq_sep s d = Some d'" "length (snd d) = 96" for s d d'
    using that by (auto simp: inq_sep_def array_put_def split: prod.splits if_splits)
  show ?thesis
    unfolding lsi_inq_decode_def inq_fields_def using l none len sep assms(3)
    by (auto simp: bind_eq_None_conv)
qed

section \<open>Addresses\<close>

definition hctl_text :: "nat \<Rightarrow> nat \<Rightarrow> nat \<Rightarrow> nat \<Rightarrow> string" where
  "hctl_text h c t l = dec h @ '':'' @ dec c @ '':'' @ dec t @ '':'' @ dec l"

lemma after_colon_dec: "after_colon (dec n @ CHR '':'' # r) = Some r"
proof -
  have "\<forall>c \<in> set (dec n). c \<noteq> CHR '':''" using dec_digits by (force simp: is_digit_def)
  then show ?thesis by (simp add: after_colon_def dropWhile_append2)
qed

theorem parse_colon_list_text:
  assumes "h < 2 ^ 31" "c < 2 ^ 31" "t < 2 ^ 31" "l < 2 ^ 64"
  shows "parse_colon_list (hctl_text h c t l)
    = Some \<lparr>hctl_h = int h, hctl_c = int c, hctl_t = int t, hctl_l = of_nat l, lun_arr = lun_bytes (of_nat l)\<rparr>"
proof -
  have s: "scan_int (dec n @ CHR '':'' # r) = Some (int n, CHR '':'' # r)" if "n < 2 ^ 31" for n r
    using that by (intro scan_int_dec) (simp_all add: is_digit_def)
  have e: "scan_u64 (dec l) = Some (of_nat l)" using scan_u64_dec [of "[]" l] assms(4) by simp
  show ?thesis using assms(1-3) by (simp add: parse_colon_list_def hctl_text_def s e after_colon_dec)
qed

lemma cmp_hctl_lex:
  "cmp_hctl a b = (let ka = (hctl_h a, hctl_c a, hctl_t a, hctl_l a); kb = (hctl_h b, hctl_c b, hctl_t b, hctl_l b) in
     if ka < kb then -1 else if ka = kb then 0 else 1)"
  by (auto simp: cmp_hctl_def Let_def less_prod_def)

text \<open>C36. The comparison of scandir orders SCSI addresses as tuples of numbers, for
  hosts, channels and targets below 2^31 and LUNs below 2^64; greater numbers are
  converted as sscanf does and need not keep the order.\<close>

theorem sdev_sort_is_numeric:
  assumes "h < 2 ^ 31" "c < 2 ^ 31" "t < 2 ^ 31" "l < 2 ^ 64"
    and "h' < 2 ^ 31" "c' < 2 ^ 31" "t' < 2 ^ 31" "l' < 2 ^ 64"
  shows "sdev_scandir_sort (hctl_text h c t l) (hctl_text h' c' t' l')
    = (if (h, c, t, l) < (h', c', t', l') then -1 else if (h, c, t, l) = (h', c', t', l') then 0 else 1)"
proof -
  have "(of_nat l :: u64) < of_nat l' \<longleftrightarrow> l < l'" "(of_nat l :: u64) = of_nat l' \<longleftrightarrow> l = l'"
    using assms(4,8) by (simp_all add: word_less_nat_alt word_unat_eq_iff unat_of_nat)
  then show ?thesis
    by (simp add: sdev_scandir_sort_def parse_colon_list_text [OF assms(1-4)] parse_colon_list_text [OF assms(5-8)] cmp_hctl_lex Let_def less_prod_def)
qed

theorem sdev_sort_is_numeric_witness:
  "sdev_scandir_sort (hctl_text 2 0 10 0) (hctl_text 2 0 9 1) = 1"
  using sdev_sort_is_numeric [where h = 2 and c = 0 and t = 10 and l = 0 and h' = 2 and c' = 0 and t' = 9 and l' = 1] by simp

lemma two_bytes:
  fixes u :: u64
  assumes "take_bit 16 u = u"
  shows "push_bit 8 (ucast (ucast (drop_bit 8 u AND 0xff) :: u8) :: u64) OR ucast (ucast (u AND 0xff) :: u8) = u"
proof (rule bit_word_eqI)
  have m: "0xff = (mask 8 :: u64)" by (simp add: mask_eq_exp_minus_1)
  fix n assume n: "n < LENGTH(64)"
  have "bit u n \<Longrightarrow> n < 16" using assms by (metis bit_take_bit_iff)
  then show "bit (push_bit 8 (ucast (ucast (drop_bit 8 u AND 0xff) :: u8) :: u64) OR ucast (ucast (u AND 0xff) :: u8)) n = bit u n"
    using n unfolding m by (auto simp: bit_simps)
qed

definition big_endian :: "u8 list \<Rightarrow> u64" where
  "big_endian bs = fold (\<lambda>b acc. push_bit 8 acc OR ucast b) bs 0"

theorem lun_arr_is_flipped: "big_endian (lun_bytes l) = lun_word_flip l"
proof -
  have m: "0xffff = (mask 16 :: u64)" by (simp add: mask_eq_exp_minus_1)
  define u where "u k = take_bit 16 (drop_bit (16 * k) l)" for k :: nat
  have b: "lun_bytes l = concat (map (\<lambda>k. [ucast (drop_bit 8 (u k) AND 0xff), ucast (u k AND 0xff)]) [0, 1, 2, 3])"
    unfolding lun_bytes_def Let_def u_def take_bit_eq_mask m [symmetric]
    by (simp add: upt_rec numeral_2_eq_2 numeral_3_eq_3)
  have t: "fold (\<lambda>b acc. push_bit 8 acc OR ucast b) [ucast (drop_bit 8 (u k) AND 0xff) :: u8, ucast (u k AND 0xff)] acc
      = push_bit 16 acc OR u k" for acc k
    using two_bytes [of "u k"] by (simp add: push_bit_or or.assoc u_def)
  have "big_endian (lun_bytes l)
      = push_bit 16 (push_bit 16 (push_bit 16 (push_bit 16 0 OR u 0) OR u 1) OR u 2) OR u 3"
    unfolding big_endian_def b by (simp only: list.map concat.simps append_Nil2 fold_append comp_def t)
  then show ?thesis unfolding flip_eq u_def by (simp add: push_bit_or or.assoc)
qed

section \<open>Enclosures and directories\<close>

lemma extract_cases:
  obtains "List.extract P xs = None" "\<forall>x \<in> set xs. \<not> P x"
    | ys x zs where "List.extract P xs = Some (ys, x, zs)" "xs = ys @ x # zs" "P x" "\<forall>y \<in> set ys. \<not> P y"
  by (cases "List.extract P xs") (auto simp: extract_None_iff extract_Some_iff)

lemma extract_first: "\<forall>y \<in> set ys. \<not> P y \<Longrightarrow> P x \<Longrightarrow> List.extract P (ys @ x # zs) = Some (ys, x, zs)"
  by (simp add: extract_Some_iff)

theorem get_ec_id_stable:
  assumes "get_ec_id ec d = Some (i, d')" "0 \<le> i" "ec \<noteq> []"
  shows "nat i < length d' \<and> d' ! nat i = ec \<and> get_ec_id ec d' = Some (i, d') \<and> length d' = length d \<and>
    (\<forall>e \<in> set d. e \<noteq> [] \<longrightarrow> get_ec_id e d' = Some (fst (the (get_ec_id e d)), d'))"
proof (cases rule: extract_cases [of "\<lambda>e. e = ec" d])
  case (2 ys x zs)
  then have i: "i = int (length ys)" "d' = d" using assms(1) by (simp_all add: get_ec_id_def)
  have "get_ec_id e d = Some (fst (the (get_ec_id e d)), d)" if "e \<in> set d" for e
    using that by (cases rule: extract_cases [of "\<lambda>x. x = e" d]) (auto simp: get_ec_id_def)
  then show ?thesis using i 2 assms(1) by (simp add: nth_append)
next
  case 1
  show ?thesis
  proof (cases rule: extract_cases [of "\<lambda>e. e = []" d])
    case 1
    then show ?thesis using \<open>List.extract (\<lambda>e. e = ec) d = None\<close> assms by (simp add: get_ec_id_def)
  next
    case (2 ys x zs)
    then have i: "i = int (length ys)" "d' = ys @ ec # zs"
      using 1 assms(1) by (auto simp: get_ec_id_def split: if_splits)
    have d: "d = ys @ [] # zs" "\<forall>y \<in> set ys. y \<noteq> []" using 2 by auto
    have nec: "\<forall>y \<in> set ys \<union> set zs. y \<noteq> ec" using 1(2) d by auto
    have "List.extract (\<lambda>e. e = ec) d' = Some (ys, ec, zs)" unfolding i using nec by (intro extract_first) auto
    then have id: "get_ec_id ec d' = Some (i, d')" by (simp add: get_ec_id_def i)
    have "get_ec_id e d' = Some (fst (the (get_ec_id e d)), d')" if e: "e \<in> set d" "e \<noteq> []" for e
    proof -
      have ne: "e \<noteq> ec" using e 1(2) by auto
      show ?thesis
      proof (cases "e \<in> set ys")
        case True
        then obtain as bs where ys: "ys = as @ e # bs" "e \<notin> set as" by (meson split_list_first)
        have "List.extract (\<lambda>x. x = e) d' = Some (as, e, bs @ ec # zs)" "List.extract (\<lambda>x. x = e) d = Some (as, e, bs @ [] # zs)"
          using extract_first [of as "\<lambda>x. x = e" e "bs @ ec # zs"] extract_first [of as "\<lambda>x. x = e" e "bs @ [] # zs"] ys(2)
          by (auto simp: i d(1) ys(1))
        then show ?thesis by (simp add: get_ec_id_def i d(1) ys(1))
      next
        case False
        then have "e \<in> set zs" using e d by auto
        then obtain as bs where zs: "zs = as @ e # bs" "e \<notin> set as" by (meson split_list_first)
        have "List.extract (\<lambda>x. x = e) d' = Some (ys @ ec # as, e, bs)" "List.extract (\<lambda>x. x = e) d = Some (ys @ [] # as, e, bs)"
          using extract_first [of "ys @ ec # as" "\<lambda>x. x = e" e bs] extract_first [of "ys @ [] # as" "\<lambda>x. x = e" e bs]
            zs(2) False ne e(2) by (auto simp: i d(1) zs(1))
        then show ?thesis by (simp add: get_ec_id_def i d(1) zs(1))
      qed
    qed
    then show ?thesis using id by (simp add: i d(1) nth_append)
  qed
qed

lemma atoi_dec: "atoi (dec n) = int n"
proof -
  obtain c cs where c: "dec n = c # cs" using dec_nonempty by (cases "dec n") auto
  have dig: "\<forall>c \<in> set (dec n). is_digit c" using dec_digits by blast
  then have "is_digit c" by (simp add: c)
  then have c': "\<not> is_space c" "c \<noteq> CHR ''-''" "c \<noteq> CHR ''+''" by (auto simp: is_digit_def is_space_def)
  have w: "dropWhile is_space (dec n) = dec n" "takeWhile is_digit (dec n) = dec n"
    using c' dig by (simp_all add: c takeWhile_eq_all_conv)
  have sg: "(case dec n of c # cs \<Rightarrow> if c = CHR ''-'' then (True, cs) else if c = CHR ''+'' then (False, cs) else (False, dec n)
      | [] \<Rightarrow> (False, [])) = (False, dec n)"
    using c' by (simp add: c)
  have "fold (\<lambda>c acc. acc * 10 + (int (of_char c) - 48)) (dec n) 0 = int n"
    using fold_digits [OF dig, of 0] by (simp add: undec_dec)
  then show ?thesis by (simp only: atoi_def Let_def w sg prod.case if_False)
qed

definition phy_name :: "nat \<Rightarrow> nat \<Rightarrow> string" where
  "phy_name h n = ''phy-'' @ dec h @ '':'' @ dec n"

lemma phy_number: "after_last_colon (phy_name h n) = Some (dec n)"
proof -
  have "\<forall>c \<in> set (rev (dec n)). c \<noteq> CHR '':''" using dec_digits by (force simp: is_digit_def)
  then have "takeWhile (\<lambda>c. c \<noteq> CHR '':'') (rev (dec n) @ CHR '':'' # r) = rev (dec n)" for r
    by (subst takeWhile_append2) auto
  then show ?thesis by (simp add: after_last_colon_def phy_name_def)
qed

lemma low_phy_fold:
  "scandir_count sas_low_phy_dir_scan_select (map (\<lambda>n. (phy_name h n, DT_LNK)) ns) (phy_name h m)
    = (length ns, phy_name h (Min (insert m (set ns))))"
proof (induction ns arbitrary: m)
  case (Cons n ns)
  have "sas_low_phy_dir_scan_select (phy_name h n, DT_LNK) (phy_name h m) = (phy_name h (min n m), True)"
    by (simp add: sas_low_phy_dir_scan_select_def phy_number atoi_dec has_prefix_def min_def) (simp add: phy_name_def)
  moreover have "Min (insert (min n m) (set ns)) = Min (insert m (set (n # ns)))"
    by (cases "ns = []") (simp_all add: min.assoc min.commute min.left_commute)
  ultimately show ?case using Cons.IH [of "min n m"] by simp
qed simp

theorem lowest_phy_found:
  assumes "ns \<noteq> []"
  shows "sas_low_phy_scan (Some (map (\<lambda>n. (phy_name h n, DT_LNK)) ns)) = (int (length ns), phy_name h (Min (set ns)))"
proof -
  obtain n ns' where ns: "ns = n # ns'" using assms by (cases ns) auto
  have "sas_low_phy_dir_scan_select (phy_name h n, DT_LNK) [] = (phy_name h n, True)"
    by (simp add: sas_low_phy_dir_scan_select_def has_prefix_def phy_name_def)
  then show ?thesis by (simp add: sas_low_phy_scan_def ns low_phy_fold)
qed

lemma scan_item_done:
  assumes "\<And>d it. it_ft it \<noteq> FT_OTHER \<Longrightarrow> fn d it = (it, False)" "it_ft it \<noteq> FT_OTHER"
  shows "scandir_count fn ds it = (0, it)"
  using assms by (induction ds) simp_all

lemma first_scan:
  assumes "it_ft it = FT_OTHER"
  shows "scandir_count first_dir_scan_select ds it =
    (case List.find link_or_dir ds of
       None \<Rightarrow> (0, it)
     | Some (name, ty) \<Rightarrow> (1, \<lparr>it_name = name, it_ft = FT_CHAR, it_d_type = ty\<rparr>))"
proof (induction ds)
  case (Cons d ds)
  have d: "scandir_count first_dir_scan_select ds \<lparr>it_name = name, it_ft = FT_CHAR, it_d_type = ty\<rparr>
      = (0, \<lparr>it_name = name, it_ft = FT_CHAR, it_d_type = ty\<rparr>)" for name ty
    by (rule scan_item_done) (auto simp: first_dir_scan_select_def FT_CHAR_def FT_OTHER_def)
  obtain name ty where nt: "d = (name, ty)" by (cases d)
  have step: "first_dir_scan_select (name, ty) it =
      (if link_or_dir (name, ty) then (\<lparr>it_name = name, it_ft = FT_CHAR, it_d_type = ty\<rparr>, True) else (it, False))"
    using assms by (simp add: first_dir_scan_select_def)
  show ?case using Cons by (cases "link_or_dir (name, ty)") (simp_all add: nt step d split: prod.splits)
qed simp

theorem scan_for_first_finds:
  "scan_for_first (Some ds) it =
    (case List.find link_or_dir ds of
       None \<Rightarrow> (0, it\<lparr>it_ft := FT_OTHER\<rparr>)
     | Some (name, ty) \<Rightarrow> (1, \<lparr>it_name = name, it_ft = FT_CHAR, it_d_type = ty\<rparr>))"
  using first_scan [of "it\<lparr>it_ft := FT_OTHER\<rparr>" ds]
  by (simp add: scan_for_first_def scan_item_def split: option.splits prod.splits)

text \<open>The fields of a well-formed LUN fit the array, but one whose fourth level has an extended field does not.\<close>

lemma tag_lun_overflows: "tag_lun [1, 0, 1, 0, 1, 0, 0xe2, 0] = None"
  by code_simp

end
