(* ===== verification/DiskEntry.thy ===== *)
theory DiskEntry
  imports DiskText
begin

text \<open>
  The entries of src/disklist.c, their fields from SCSI replies and from the output of
  megacli. The arrays of an entry are lists of their length, whose contents behind a
  terminator are kept: \<open>strncpy\<close> with the length of the text does not write a terminator, so old
  characters show. \<open>None\<close> is an access outside an array.
\<close>

section \<open>Entries\<close>

text \<open>
  Sizes stand for the computation of the \<open>float\<close>: -1, a number of gigabytes, or the value of a
  text in TB or GB.
\<close>

datatype gb = Unset | Gb nat | Raw_size string bool

record disk_entry =
  d_host :: int
  d_bus :: int
  d_target :: int
  d_lun :: int
  d_vd_idx :: int
  d_pd_idx :: int
  d_ec :: int
  d_slot :: int
  d_did :: int
  d_SN :: string
  d_VER :: string
  d_MODEL :: string
  d_sizeGB :: gb
  d_pcipath :: string
  d_pd_type :: string
  d_wwn :: string
  d_peer_addr :: string
  d_ec_addr :: string
  d_path :: string
  d_sgpath :: string
  d_disk_type :: string
  d_raid_inq :: string
  d_connect_type :: string
  d_type_usb :: int

definition to_short :: "int \<Rightarrow> int" where
  "to_short n = signed_take_bit 15 n"

definition zeros :: "nat \<Rightarrow> string" where
  "zeros n = replicate n (CHR 0x00)"

text \<open>The static arrays.\<close>

definition zero_entry :: disk_entry where
  "zero_entry = \<lparr>d_host = 0, d_bus = 0, d_target = 0, d_lun = 0, d_vd_idx = 0, d_pd_idx = 0, d_ec = 0, d_slot = 0, d_did = 0,
     d_SN = zeros 32, d_VER = zeros 64, d_MODEL = zeros 64, d_sizeGB = Gb 0, d_pcipath = zeros 16, d_pd_type = zeros 32,
     d_wwn = zeros 64, d_peer_addr = zeros 64, d_ec_addr = zeros 32, d_path = zeros 16, d_sgpath = zeros 16,
     d_disk_type = zeros 16, d_raid_inq = zeros 96, d_connect_type = zeros 16, d_type_usb = 0\<rparr>"

definition na :: "string \<Rightarrow> string" where
  "na a = ''NA'' @ [CHR 0x00] @ drop 3 a"

definition init_disk_entry :: "disk_entry \<Rightarrow> disk_entry" where
  "init_disk_entry e = e\<lparr>d_host := -1, d_bus := -1, d_target := -1, d_lun := -1, d_vd_idx := -1, d_pd_idx := -1, d_ec := -1,
     d_slot := -1, d_did := -1, d_VER := na (d_VER e), d_SN := na (d_SN e), d_MODEL := na (d_MODEL e), d_sizeGB := Unset,
     d_pcipath := na (d_pcipath e), d_pd_type := na (d_pd_type e), d_wwn := na (d_wwn e), d_peer_addr := na (d_peer_addr e),
     d_ec_addr := na (d_ec_addr e), d_path := na (d_path e), d_sgpath := na (d_sgpath e), d_disk_type := na (d_disk_type e),
     d_raid_inq := na (d_raid_inq e), d_connect_type := na (d_connect_type e), d_type_usb := 0\<rparr>"

text \<open>The string in an array; \<open>None\<close> without a terminator.\<close>

definition cstr :: "string \<Rightarrow> string option" where
  "cstr a = (if CHR 0x00 \<in> set a then Some (strlen_cut a) else None)"

section \<open>Replies to SCSI commands\<close>

text \<open>
  The reply to a command, \<open>None\<close> when opening or sending fails or the status is bad. \<open>buf\<close> is the
  local array, which has no value at first. A reply without a zero byte behind the start of a
  field is read past its end.
\<close>

definition reply_field :: "bool \<Rightarrow> nat \<Rightarrow> nat \<Rightarrow> string \<Rightarrow> string \<Rightarrow> (string \<times> string) option" where
  "reply_field swapped off n reply buf =
     map_option (\<lambda>buf.
       (let buf = (if swapped then swap_pairs n buf else buf); r = trim_string buf n in
        (take (trim_len r) (strlen_cut (drop (trim_off r) buf)), buf)))
     (if CHR 0x00 \<in> set (drop off reply) then snprintf (n + 1) (drop off reply) buf else None)"

definition page_code :: "string \<Rightarrow> nat" where
  "page_code reply = of_char (reply ! 1)"

definition vpd80 :: "string option \<Rightarrow> string \<Rightarrow> disk_entry \<Rightarrow> (int \<times> disk_entry) option" where
  "vpd80 reply buf e =
     (if d_type_usb e \<noteq> 0 then Some (1, e)
      else case reply of None \<Rightarrow> Some (1, e)
      | Some reply \<Rightarrow>
          if page_code reply \<noteq> 0x80 then Some (1, e)
          else Option.bind (reply_field False 4 20 reply buf) (\<lambda>(sn, buf).
            map_option (\<lambda>a. (0, e\<lparr>d_SN := a\<rparr>)) (strcpy sn (d_SN e))))"

definition vpd89 :: "string option \<Rightarrow> string \<Rightarrow> disk_entry \<Rightarrow> (int \<times> disk_entry) option" where
  "vpd89 reply buf e =
     (if d_type_usb e \<noteq> 0 then Some (1, e)
      else case reply of None \<Rightarrow> Some (1, e)
      | Some reply \<Rightarrow>
          if page_code reply \<noteq> 0x89 then Some (1, e)
          else Option.bind (reply_field True (60 + 10 * 2) 20 reply buf) (\<lambda>(s, buf). Option.bind (strcpy s (d_SN e)) (\<lambda>sn.
            Option.bind (reply_field True (60 + 23 * 2) 8 reply buf) (\<lambda>(s, buf). Option.bind (strcpy s (d_VER e)) (\<lambda>ver.
            Option.bind (reply_field True (60 + 27 * 2) 40 reply buf) (\<lambda>(s, buf). Option.bind (strcpy s (d_MODEL e)) (\<lambda>model.
              Some (0, e\<lparr>d_SN := sn, d_VER := ver, d_MODEL := model\<rparr>))))))))"

definition vpdb1 :: "string option \<Rightarrow> disk_entry \<Rightarrow> (int \<times> disk_entry) option" where
  "vpdb1 reply e =
     (if d_type_usb e \<noteq> 0 then Some (1, e)
      else case reply of None \<Rightarrow> Some (1, e)
      | Some reply \<Rightarrow>
          if page_code reply \<noteq> 0xb1 then Some (1, e)
          else (let rpm = of_char (reply ! 4) * 256 + of_char (reply ! 5) :: nat in
            map_option (\<lambda>a. (0, e\<lparr>d_disk_type := a\<rparr>)) (strcpy (if rpm = 1 then ''SSD'' else ''HDD'') (d_disk_type e))))"

definition be_number :: "string \<Rightarrow> nat" where
  "be_number s = fold (\<lambda>c acc. acc * 256 + of_char c) s 0"

definition readCap :: "string option \<Rightarrow> disk_entry \<Rightarrow> int \<times> disk_entry" where
  "readCap reply e =
     (if d_type_usb e \<noteq> 0 then (1, e)
      else case reply of None \<Rightarrow> (1, e)
      | Some reply \<Rightarrow>
          (let blks = be_number (take 8 reply); bytes = be_number (take 4 (drop 8 reply)) in
           (0, e\<lparr>d_sizeGB := Gb (bytes * blks mod 2 ^ 64 div 1000 div 1000 div 1000)\<rparr>)))"

text \<open>\<open>rot\<close> is what \<open>fgets\<close> reads from the file \<open>rotational\<close>, \<open>Some []\<close> nothing.\<close>

definition fill_disk_type :: "(string \<Rightarrow> string option) \<Rightarrow> disk_entry \<Rightarrow> disk_entry option" where
  "fill_disk_type rot e =
     (if d_path e ! 5 = CHR ''n'' \<and> d_path e ! 6 = CHR ''v''
      then map_option (\<lambda>a. e\<lparr>d_disk_type := a\<rparr>) (strcpy ''NVME SSD'' (d_disk_type e))
      else if d_disk_type e ! 0 = CHR ''H'' \<or> d_disk_type e ! 0 = CHR ''S'' then Some e
      else Option.bind (cstr (drop 5 (d_path e))) (\<lambda>name.
        case rot name of None \<Rightarrow> Some e
        | Some s \<Rightarrow>
            (let c = take 1 (if s = [] then name else s) in
             if c = ''0'' then map_option (\<lambda>a. e\<lparr>d_disk_type := a\<rparr>) (strcpy ''SSD'' (d_disk_type e))
             else if c = ''1'' then map_option (\<lambda>a. e\<lparr>d_disk_type := a\<rparr>) (strcpy ''HDD'' (d_disk_type e))
             else Some e)))"

section \<open>The output of megacli\<close>

text \<open>
  \<open>sscanf\<close> with literal text before a \<open>%d\<close>: a blank of the format matches any white space.
\<close>

fun scan_fmt :: "string \<Rightarrow> string \<Rightarrow> int option" where
  "scan_fmt [] s = map_option fst (scan_int s)"
| "scan_fmt (f # fs) s =
     (if is_space f then scan_fmt fs (dropWhile is_space s)
      else case s of c # cs \<Rightarrow> if c = f then scan_fmt fs cs else None | [] \<Rightarrow> None)"

text \<open>A line as \<open>fgets\<close> leaves it in the array, with its last character replaced.\<close>

definition line_into :: "string \<Rightarrow> string \<Rightarrow> string option" where
  "line_into line buf = put (butlast line @ [CHR 0x00, CHR 0x00]) buf"

definition starts :: "string \<Rightarrow> string \<Rightarrow> bool" where
  "starts p buf \<longleftrightarrow> has_prefix p (strlen_cut buf)"

text \<open>\<open>sscanf\<close> leaves the variable alone when the line does not match.\<close>

definition scan_into :: "string \<Rightarrow> string \<Rightarrow> int \<Rightarrow> int" where
  "scan_into fmt buf v = (case scan_fmt fmt (strlen_cut buf) of None \<Rightarrow> v | Some n \<Rightarrow> n)"

text \<open>\<open>strncpy (dst, buf + k, strlen (buf + k))\<close>\<close>

definition copy_rest :: "nat \<Rightarrow> string \<Rightarrow> string \<Rightarrow> string option" where
  "copy_rest k buf dst = put (strlen_cut (drop k buf)) dst"

text \<open>The fields that both functions read in the same way; the variables are the slot and device numbers.\<close>

definition pd_field :: "string \<Rightarrow> int \<times> int \<Rightarrow> disk_entry \<Rightarrow> ((int \<times> int) \<times> disk_entry) option" where
  "pd_field buf = (\<lambda>(slot_id, did) e.
     (if starts ''Slot Number'' buf then
        (let slot_id = scan_into ''Slot Number: '' buf slot_id in Some ((slot_id, did), e\<lparr>d_slot := to_short slot_id\<rparr>))
      else if starts ''Device Id'' buf then
        (let did = scan_into ''Device Id: '' buf did in Some ((slot_id, did), e\<lparr>d_did := to_short did\<rparr>))
      else if starts ''WWN'' buf then map_option (\<lambda>a. ((slot_id, did), e\<lparr>d_wwn := a\<rparr>)) (copy_rest 5 buf (d_wwn e))
      else if starts ''Raw Size'' buf then
        Some ((slot_id, did), e\<lparr>d_sizeGB := Raw_size (strlen_cut (drop 10 buf)) (has_infix ''TB'' (strlen_cut buf))\<rparr>)
      else if starts ''Device Firmware Level'' buf then
        map_option (\<lambda>a. ((slot_id, did), e\<lparr>d_VER := a\<rparr>)) (copy_rest 23 buf (d_VER e))
      else if starts ''SAS Address(0)'' buf then
        map_option (\<lambda>a. ((slot_id, did), e\<lparr>d_peer_addr := a\<rparr>)) (copy_rest 18 buf (d_peer_addr e))
      else if starts ''Inquiry Data'' buf then
        map_option (\<lambda>a. ((slot_id, did), e\<lparr>d_raid_inq := a\<rparr>)) (lsi_inq_decode (d_raid_inq e) (drop 14 buf))
      else Some ((slot_id, did), e)))"

definition MAX_DISK :: nat where "MAX_DISK = 128"

record jbod_state =
  j_buf :: string
  j_ec :: int
  j_vars :: "int \<times> int"
  j_depot :: "disk_entry list"
  j_idx :: nat

definition upd_entry :: "(disk_entry \<Rightarrow> disk_entry) \<Rightarrow> jbod_state \<Rightarrow> jbod_state option" where
  "upd_entry f s =
     (if j_idx s < length (j_depot s) then Some (s\<lparr>j_depot := (j_depot s)[j_idx s := f (j_depot s ! j_idx s)]\<rparr>) else None)"

definition jbod_line :: "string \<Rightarrow> jbod_state \<Rightarrow> jbod_state option" where
  "jbod_line line s =
     Option.bind (line_into line (j_buf s)) (\<lambda>buf.
       let s = s\<lparr>j_buf := buf\<rparr> in
       Option.bind
         (if starts ''Enclosure Device ID'' buf
          then (let ec = scan_into ''Enclosure Device ID: '' buf (j_ec s) in
            upd_entry (\<lambda>e. init_disk_entry e\<lparr>d_ec := to_short ec\<rparr>) (s\<lparr>j_ec := ec\<rparr>))
          else Some s) (\<lambda>s.
       if j_ec s < 0 then Some s
       else if starts ''Firmware state'' buf then
         (if take 4 (drop 16 buf) \<noteq> ''JBOD'' then upd_entry init_disk_entry (s\<lparr>j_ec := -1\<rparr>) else Some s)
       else if starts ''Media Type'' buf then
         (if j_idx s < length (j_depot s) then
            Option.bind (copy_rest 12 buf (d_pd_type (j_depot s ! j_idx s))) (\<lambda>a.
            map_option (\<lambda>s. s\<lparr>j_idx := j_idx s + 1, j_ec := -1\<rparr>) (upd_entry (\<lambda>e. e\<lparr>d_pd_type := a\<rparr>) s))
          else None)
       else if j_idx s < length (j_depot s) then
         Option.bind (pd_field buf (j_vars s) (j_depot s ! j_idx s)) (\<lambda>(vars, e).
           upd_entry (\<lambda>_. e) (s\<lparr>j_vars := vars\<rparr>))
       else None))"

fun jbod_lines :: "string list \<Rightarrow> jbod_state \<Rightarrow> jbod_state option" where
  "jbod_lines [] s = Some s"
| "jbod_lines (l # ls) s = Option.bind (jbod_line l s) (jbod_lines ls)"

text \<open>\<open>out\<close> is the output of megacli as \<open>fgets\<close> returns it, \<open>None\<close> when it is not installed or fails.\<close>

definition mega_jbod_list :: "string list option \<Rightarrow> string \<Rightarrow> disk_entry list \<times> nat \<Rightarrow> (disk_entry list \<times> nat) option" where
  "mega_jbod_list out buf = (\<lambda>(depot, idx).
     case out of None \<Rightarrow> Some (depot, idx)
     | Some ls \<Rightarrow> map_option (\<lambda>s. (j_depot s, j_idx s))
         (jbod_lines ls \<lparr>j_buf = buf, j_ec = -1, j_vars = (-1, -1), j_depot = depot, j_idx = idx\<rparr>))"

text \<open>One physical disk of a logical drive: lines up to the media type. The rest of the lines is returned.\<close>

fun ld_pd :: "string list \<Rightarrow> string \<Rightarrow> int \<Rightarrow> int \<times> int \<Rightarrow> disk_entry \<Rightarrow>
    (string list \<times> string \<times> int \<times> (int \<times> int) \<times> disk_entry) option" where
  "ld_pd [] buf ec vars e = Some ([], buf, ec, vars, e)"
| "ld_pd (line # ls) buf ec vars e =
     Option.bind (line_into line buf) (\<lambda>buf.
       if starts ''Enclosure Device ID'' buf then
         (let ec = scan_into ''Enclosure Device ID: '' buf ec in ld_pd ls buf ec vars (e\<lparr>d_ec := to_short ec\<rparr>))
       else if starts ''Media Type'' buf then
         map_option (\<lambda>a. (ls, buf, ec, vars, e\<lparr>d_pd_type := a\<rparr>)) (copy_rest 12 buf (d_pd_type e))
       else Option.bind (pd_field buf vars e) (\<lambda>(vars, e). ld_pd ls buf ec vars e))"

text \<open>The disks \<open>j\<close>, \<open>j + 1\<close>, ... of the logical drive \<open>vd\<close>; each takes the next entry.\<close>

fun ld_pds :: "nat \<Rightarrow> int \<Rightarrow> int \<Rightarrow> string list \<Rightarrow> string \<Rightarrow> int \<Rightarrow> int \<times> int \<Rightarrow> disk_entry list \<times> nat \<Rightarrow>
    (string list \<times> string \<times> (int \<times> int) \<times> disk_entry list \<times> nat) option" where
  "ld_pds 0 j vd ls buf ec vars d = Some (ls, buf, vars, d)"
| "ld_pds (Suc n) j vd ls buf ec vars (depot, idx) =
     (if idx < length depot then
        Option.bind (ld_pd ls buf ec vars (init_disk_entry (depot ! idx)\<lparr>d_vd_idx := to_short vd, d_pd_idx := to_short j\<rparr>))
          (\<lambda>(ls, buf, ec, vars, e). ld_pds n (j + 1) vd ls buf ec vars (depot[idx := e], idx + 1))
      else None)"

record ld_state =
  l_buf :: string
  l_vd :: int
  l_pd :: int
  l_span :: int
  l_per_span :: int
  l_did :: int

text \<open>One line outside the disks: the new state.\<close>

definition ld_head :: "string \<Rightarrow> ld_state \<Rightarrow> ld_state option" where
  "ld_head line s =
     map_option (\<lambda>buf.
       (let s = s\<lparr>l_buf := buf\<rparr>;
            s = (if starts ''Virtual Drive'' buf
                 then s\<lparr>l_vd := scan_into ''Virtual Drive: '' buf (l_vd s), l_pd := -1, l_span := -1, l_per_span := -1\<rparr> else s);
            s = (if starts ''Number Of Drives'' buf
                 then s\<lparr>l_pd := scan_into ''Number Of Drives    : '' buf (l_pd s),
                        l_per_span := scan_into ''Number Of Drives per span:'' buf (l_per_span s)\<rparr> else s);
            s = (if starts ''Number of Spans'' buf then s\<lparr>l_span := scan_into ''Number of Spans: '' buf (l_span s)\<rparr> else s)
        in if l_per_span s > 1 \<and> l_span s > 0 then s\<lparr>l_pd := l_per_span s * l_span s\<rparr> else s))
     (line_into line (l_buf s))"

lemma ld_pd_length: "ld_pd ls buf ec vars e = Some (ls', x) \<Longrightarrow> length ls' \<le> length ls"
  by (induction ls buf ec vars e rule: ld_pd.induct)
    (fastforce split: if_splits bind_splits simp: Let_def)+

lemma ld_pds_length: "ld_pds n j vd ls buf ec vars d = Some (ls', x) \<Longrightarrow> length ls' \<le> length ls"
proof (induction n j vd ls buf ec vars d rule: ld_pds.induct)
  case (2 n j vd ls buf ec vars depot idx)
  then show ?case by (auto split: if_splits bind_splits prod.splits dest!: ld_pd_length) (meson order_trans)
qed simp

text \<open>The second loop of \<open>mega_ld_list\<close>.\<close>

function ld_loop :: "string list \<Rightarrow> ld_state \<Rightarrow> disk_entry list \<times> nat \<Rightarrow> (disk_entry list \<times> nat) option" where
  "ld_loop [] s d = Some d"
| "ld_loop (line # ls) s d =
     (case ld_head line s of
        None \<Rightarrow> None
      | Some s \<Rightarrow>
          if l_pd s > 0 then
            (case ld_pds (nat (l_pd s)) 0 (l_vd s) ls (l_buf s) (-1) (-1, l_did s) d of
               None \<Rightarrow> None
             | Some (ls, buf, (_, did), d) \<Rightarrow>
                 ld_loop ls (s\<lparr>l_buf := buf, l_did := did, l_pd := -1, l_span := -1, l_per_span := -1\<rparr>) d)
          else ld_loop ls s d)"
  by pat_completeness auto
termination
  by (relation "measure (length \<circ> fst)") (auto dest!: ld_pds_length)

text \<open>The first loop: lines up to the number of virtual disks.\<close>

fun ld_first :: "string list \<Rightarrow> string \<Rightarrow> (string list \<times> string) option" where
  "ld_first [] buf = Some ([], buf)"
| "ld_first (line # ls) buf =
     Option.bind (line_into line buf) (\<lambda>buf.
       if starts ''Number of Virtual Disks'' buf then Some (ls, buf) else ld_first ls buf)"

definition mega_ld_list :: "string list option \<Rightarrow> string \<Rightarrow> disk_entry list \<times> nat \<Rightarrow> (disk_entry list \<times> nat) option" where
  "mega_ld_list out buf d =
     (case out of None \<Rightarrow> Some d
      | Some ls \<Rightarrow> Option.bind (ld_first ls buf) (\<lambda>(ls, buf).
          ld_loop ls \<lparr>l_buf = buf, l_vd = -1, l_pd = -1, l_span = -1, l_per_span = -1, l_did = -1\<rparr> d))"

section \<open>Arrays keep their lengths\<close>

definition entry_ok :: "disk_entry \<Rightarrow> bool" where
  "entry_ok e \<longleftrightarrow>
     length (d_SN e) = 32 \<and> length (d_VER e) = 64 \<and> length (d_MODEL e) = 64 \<and> length (d_pcipath e) = 16 \<and>
     length (d_pd_type e) = 32 \<and> length (d_wwn e) = 64 \<and> length (d_peer_addr e) = 64 \<and> length (d_ec_addr e) = 32 \<and>
     length (d_path e) = 16 \<and> length (d_sgpath e) = 16 \<and> length (d_disk_type e) = 16 \<and> length (d_raid_inq e) = 96 \<and>
     length (d_connect_type e) = 16"

lemma zero_entry_ok: "entry_ok zero_entry"
  by (simp add: entry_ok_def zero_entry_def zeros_def)

lemma length_na [simp]: "2 < length a \<Longrightarrow> length (na a) = length a"
  by (simp add: na_def)

lemma init_entry_ok [simp]: "entry_ok e \<Longrightarrow> entry_ok (init_disk_entry e)"
  by (simp add: entry_ok_def init_disk_entry_def)

lemma array_put_length: "array_put i s a = Some b \<Longrightarrow> length b = length a"
  by (auto simp: array_put_def split: if_splits)

lemma store_length:
  "strcpy s a = Some b \<Longrightarrow> length b = length a" "snprintf n s a = Some b \<Longrightarrow> length b = length a"
  "copy_rest k s a = Some b \<Longrightarrow> length b = length a"
  by (auto simp: strcpy_def snprintf_def copy_rest_def dest: array_put_length split: if_splits)

lemma inq_fields_length: "inq_fields p q r dst buf = Some b \<Longrightarrow> length b = length dst"
  by (fastforce simp: inq_fields_def inq_piece_def inq_sep_def Let_def split: prod.splits bind_splits dest: array_put_length)

lemma lsi_inq_length: "lsi_inq_decode dst buf = Some b \<Longrightarrow> length b = length dst"
  by (auto simp: lsi_inq_decode_def dest: inq_fields_length split: if_splits)

lemma pd_field_ok: "pd_field buf vars e = Some (vars', e') \<Longrightarrow> entry_ok e \<Longrightarrow> entry_ok e'"
  by (auto simp: pd_field_def Let_def entry_ok_def split: if_splits prod.splits dest: store_length lsi_inq_length)

definition depot_ok :: "disk_entry list \<Rightarrow> bool" where
  "depot_ok d \<longleftrightarrow> (\<forall>e \<in> set d. entry_ok e)"

lemma depot_ok_update: "depot_ok d \<Longrightarrow> entry_ok e \<Longrightarrow> depot_ok (d[i := e])"
  by (auto simp: depot_ok_def dest: set_update_subset_insert [THEN subsetD])

lemma depot_ok_nth: "depot_ok d \<Longrightarrow> i < length d \<Longrightarrow> entry_ok (d ! i)"
  by (simp add: depot_ok_def)

lemma upd_entry_ok:
  assumes "upd_entry f s = Some t" "depot_ok (j_depot s)" "\<And>e. entry_ok e \<Longrightarrow> entry_ok (f e)"
  shows "depot_ok (j_depot t) \<and> length (j_depot t) = length (j_depot s)"
  using assms by (auto simp: upd_entry_def depot_ok_update depot_ok_nth split: if_splits)

lemma init_ec_ok: "entry_ok e \<Longrightarrow> entry_ok (init_disk_entry e\<lparr>d_ec := n\<rparr>)"
  by (frule init_entry_ok) (simp add: entry_ok_def)

lemma pd_type_ok: "entry_ok e \<Longrightarrow> length a = 32 \<Longrightarrow> entry_ok (e\<lparr>d_pd_type := a\<rparr>)"
  by (simp add: entry_ok_def)

section \<open>Fields of a reply\<close>

lemma even_swap: "even (length a) \<Longrightarrow> swap_pairs (length a) (a @ r) = swap_pairs (length a) a @ r"
  by (induction a rule: induct_list012) simp_all

text \<open>
  The text that a reply has for a field of \<open>n\<close> characters: \<open>k\<close> blanks, the value, and blanks up to
  the end.
\<close>

definition pad :: "nat \<Rightarrow> nat \<Rightarrow> string \<Rightarrow> string" where
  "pad k n s = replicate k (CHR '' '') @ s @ replicate (n - k - length s) (CHR '' '')"

definition field_text :: "string \<Rightarrow> bool" where
  "field_text s \<longleftrightarrow> s \<noteq> [] \<and> CHR 0x00 \<notin> set s \<and> \<not> is_blank (hd s) \<and> \<not> is_blank (last s)"

lemma trim_pad:
  assumes "field_text s"
  shows "trim (pad k n s) = s"
proof -
  obtain c cs where s: "s = c # cs" "\<not> is_blank c" using assms by (cases s) (auto simp: field_text_def)
  have d: "dropWhile is_blank (pad k n s) = s @ replicate (n - k - length s) (CHR '' '')"
    unfolding pad_def using s(2) by (subst dropWhile_append2) (auto simp: is_blank_def s(1))
  have r: "dropWhile is_blank (rev (s @ replicate m (CHR '' ''))) = dropWhile is_blank (rev s)" for m
    unfolding rev_append rev_replicate by (subst dropWhile_append2) (auto simp: is_blank_def)
  have "rev s = last s # rev (butlast s)" using s by (metis append_butlast_last_id list.distinct(1) rev.simps(2) rev_rev_ident)
  then have "dropWhile is_blank (rev s) = rev s" using assms by (metis dropWhile.simps(2) field_text_def)
  then show ?thesis by (simp only: trim_def d r rev_rev_ident)
qed

lemma swap_set: "set (swap_pairs n s) = set s"
  by (induction n s rule: swap_pairs.induct) auto

lemma reply_field_text:
  assumes "drop off reply = (if sw then swap_pairs n (pad k n s) else pad k n s) @ r" "even n" "0 < n" "k + length s \<le> n" "n < 60"
    and "field_text s" "length buf = 64" "CHR 0x00 \<in> set r"
  shows "\<exists>buf'. reply_field sw off n reply buf = Some (s, buf') \<and> length buf' = 64"
proof -
  let ?f = "if sw then swap_pairs n (pad k n s) else pad k n s"
  have lp: "length (pad k n s) = n" using assms(4) by (simp add: pad_def)
  then have lf: "length ?f = n" by simp
  have z: "CHR 0x00 \<in> set (drop off reply)" using assms(1,8) by simp
  have nz: "CHR 0x00 \<notin> set ?f" using assms(6) by (auto simp: swap_set pad_def field_text_def)
  have "take n (strlen_cut (?f @ r)) = ?f"
    using strlen_cut_take [of n "?f @ r"] nz lf by simp
  then have p: "snprintf (n + 1) (drop off reply) buf = Some (?f @ CHR 0x00 # drop (n + 1) buf)"
    using assms(5,7) lf by (simp add: snprintf_def assms(1) array_put_def)
  have sw: "(if sw then swap_pairs n (?f @ CHR 0x00 # drop (n + 1) buf) else ?f @ CHR 0x00 # drop (n + 1) buf)
      = pad k n s @ CHR 0x00 # drop (n + 1) buf"
    using even_swap [of "swap_pairs n (pad k n s)" "CHR 0x00 # drop (n + 1) buf"] lp assms(2)
    by (simp add: swap_pairs_involution)
  let ?b = "pad k n s @ CHR 0x00 # drop (n + 1) buf"
  have t: "take n ?b = pad k n s" using lp by simp
  have ne: "\<exists>c \<in> set (take n ?b). \<not> is_blank c" unfolding t using assms(6) by (cases s) (auto simp: pad_def field_text_def)
  have nle: "n \<le> length ?b" "n < 65536" using lp assms(5) by simp_all
  note F = trim_field [OF assms(3) nle ne, unfolded t trim_pad [OF assms(6)]]
  have "CHR 0x00 \<notin> set (take (length s) (drop (trim_off (trim_string ?b n)) ?b))"
    unfolding F(2) using assms(6) by (simp add: field_text_def)
  from strlen_cut_take [OF this] have "take (length s) (strlen_cut (drop (trim_off (trim_string ?b n)) ?b)) = s"
    unfolding F(2) .
  then have "reply_field sw off n reply buf = Some (s, ?b)"
    unfolding reply_field_def if_P [OF z] p option.map Let_def sw F(1) by simp
  moreover have "length ?b = 64" using lp assms(5,7) by simp
  ultimately show ?thesis by blast
qed

lemma strcpy_field: "field_text s \<Longrightarrow> length s < length a \<Longrightarrow> strcpy s a = Some (s @ CHR 0x00 # drop (length s + 1) a)"
  by (simp add: strcpy_def array_put_def field_text_def strlen_cut_id)

text \<open>The answer of an ATA disk to the inquiry of page 0x89.\<close>

text \<open>C37. From the reply of an ATA disk vpd89 takes serial number, firmware and model
  with their words swapped back and the blanks on both sides removed, however the
  value lies in its field. The reply has a zero byte behind each field, since snprintf
  looks for one.\<close>

theorem vpd89_reads_identify:
  assumes "entry_ok e" "d_type_usb e = 0" "page_code reply = 0x89" "length buf = 64"
    and "drop 80 reply = swap_pairs 20 (pad k1 20 sn) @ r1" "drop 106 reply = swap_pairs 8 (pad k2 8 ver) @ r2"
      "drop 114 reply = swap_pairs 40 (pad k3 40 model) @ r3"
    and "field_text sn" "field_text ver" "field_text model" "k1 + length sn \<le> 20" "k2 + length ver \<le> 8" "k3 + length model \<le> 40"
    and "CHR 0x00 \<in> set r1" "CHR 0x00 \<in> set r2" "CHR 0x00 \<in> set r3"
  shows "\<exists>e'. vpd89 (Some reply) buf e = Some (0, e') \<and> cstr (d_SN e') = Some sn \<and> cstr (d_VER e') = Some ver \<and>
    cstr (d_MODEL e') = Some model"
proof -
  obtain b1 where b1: "reply_field True 80 20 reply buf = Some (sn, b1)" "length b1 = 64"
    using reply_field_text [of 80 reply True 20 k1 sn r1 buf] assms by auto
  obtain b2 where b2: "reply_field True 106 8 reply b1 = Some (ver, b2)" "length b2 = 64"
    using reply_field_text [of 106 reply True 8 k2 ver r2 b1] assms b1 by auto
  obtain b3 where b3: "reply_field True 114 40 reply b2 = Some (model, b3)"
    using reply_field_text [of 114 reply True 40 k3 model r3 b2] assms b2 by auto
  have c: "cstr (s @ CHR 0x00 # x) = Some s" if "field_text s" for s x
    using that by (auto simp: cstr_def strlen_cut_def field_text_def takeWhile_append)
  have l: "length sn < length (d_SN e)" "length ver < length (d_VER e)" "length model < length (d_MODEL e)"
    using assms(1,11-13) by (simp_all add: entry_ok_def)
  show ?thesis
    using assms(2,3) by (simp add: vpd89_def b1 b2 b3 strcpy_field [OF assms(8) l(1)] strcpy_field [OF assms(9) l(2)]
        strcpy_field [OF assms(10) l(3)] c assms(8-10))
qed

definition ata_reply :: string where
  "ata_reply = [CHR 0x00, CHR 0x89] @ replicate 78 (CHR 0x00) @ swap_pairs 20 (pad 12 20 ''Z4D4DG1C'') @ replicate 6 (CHR 0x00) @
     swap_pairs 8 (pad 2 8 ''MA88'') @ swap_pairs 40 (pad 0 40 ''ST6000NM0024'') @ [CHR 0x00]"

theorem vpd89_reads_identify_witness:
  "\<exists>e. vpd89 (Some ata_reply) (zeros 64) (init_disk_entry zero_entry) = Some (0, e) \<and> cstr (d_SN e) = Some ''Z4D4DG1C'' \<and>
    cstr (d_VER e) = Some ''MA88'' \<and> cstr (d_MODEL e) = Some ''ST6000NM0024''"
proof (rule vpd89_reads_identify)
  show "entry_ok (init_disk_entry zero_entry)" by (rule init_entry_ok [OF zero_entry_ok])
  show "drop 80 ata_reply = swap_pairs 20 (pad 12 20 ''Z4D4DG1C'') @ replicate 6 (CHR 0x00) @ swap_pairs 8 (pad 2 8 ''MA88'') @
      swap_pairs 40 (pad 0 40 ''ST6000NM0024'') @ [CHR 0x00]"
    "drop 106 ata_reply = swap_pairs 8 (pad 2 8 ''MA88'') @ swap_pairs 40 (pad 0 40 ''ST6000NM0024'') @ [CHR 0x00]"
    "drop 114 ata_reply = swap_pairs 40 (pad 0 40 ''ST6000NM0024'') @ [CHR 0x00]"
    by (simp_all add: ata_reply_def pad_def numeral_eq_Suc)
qed (simp_all add: init_disk_entry_def page_code_def ata_reply_def field_text_def is_blank_def zeros_def)

text \<open>
  READ CAPACITY returns the number of the last block, so the size is one block too small, which
  shows when the disk has a whole number of gigabytes.
\<close>

fun be_chars :: "nat \<Rightarrow> nat \<Rightarrow> string" where
  "be_chars 0 n = []"
| "be_chars (Suc k) n = be_chars k (n div 256) @ [char_of (n mod 256)]"

lemma length_be_chars [simp]: "length (be_chars k n) = k"
  by (induction k arbitrary: n) simp_all

lemma be_number_chars: "n < 256 ^ k \<Longrightarrow> be_number (be_chars k n) = n"
proof (induction k arbitrary: n)
  case (Suc k)
  then have "n div 256 < 256 ^ k" by (simp add: less_mult_imp_div_less mult.commute)
  with Suc.IH [of "n div 256"] show ?case by (simp add: be_number_def of_char_of)
qed (simp add: be_number_def)

declare be_chars.simps [simp del]

lemma readCap_reply:
  assumes "d_type_usb e = 0" "last_blk < 256 ^ 8" "blksz < 256 ^ 4"
  shows "readCap (Some (be_chars 8 last_blk @ be_chars 4 blksz @ r)) e
    = (0, e\<lparr>d_sizeGB := Gb (blksz * last_blk mod 2 ^ 64 div 1000 div 1000 div 1000)\<rparr>)"
proof -
  note n = be_number_chars [OF assms(2)] be_number_chars [OF assms(3)]
  have t: "take 8 (be_chars 8 last_blk @ x) = be_chars 8 last_blk" "drop 8 (be_chars 8 last_blk @ x) = x" for x
    using length_be_chars [of 8 last_blk] by (metis append_eq_conv_conj)+
  have u: "take 4 (be_chars 4 blksz @ x) = be_chars 4 blksz" for x
    using length_be_chars [of 4 blksz] by (metis append_eq_conv_conj)
  show ?thesis unfolding readCap_def option.case Let_def t u n using assms(1) by (simp only: if_False simp_thms)
qed

text \<open>A size of \<open>g\<close> gigabytes exactly is shown as \<open>g - 1\<close>.\<close>

theorem full_gigabytes_lose_one:
  assumes "d_type_usb e = 0" "blocks * blksz = g * 1000000000" "0 < g" "blocks < 2 ^ 64" "blksz < 2 ^ 32" "blksz \<le> 1000000000"
    "g * 1000000000 < 2 ^ 64"
  shows "readCap (Some (be_chars 8 (blocks - 1) @ be_chars 4 blksz @ r)) e = (0, e\<lparr>d_sizeGB := Gb (g - 1)\<rparr>)"
proof -
  have "blocks * blksz \<noteq> 0" using assms(2,3) by simp
  then have pos: "0 < blksz" by simp
  have m: "blksz * (blocks - 1) = g * 1000000000 - blksz" using assms(2) by (simp add: right_diff_distrib' mult.commute)
  have "g * 1000000000 - blksz = (g - 1) * 1000000000 + (1000000000 - blksz)"
    using assms(3,6) by (cases g) simp_all
  moreover have "1000000000 - blksz < 1000000000" using pos by simp
  ultimately have d: "(g * 1000000000 - blksz) div 1000000000 = g - 1" by simp
  have p: "(2 :: nat) ^ 64 = 256 ^ 8" "(2 :: nat) ^ 32 = 256 ^ 4" by simp_all
  have "g * 1000000000 - blksz < 2 ^ 64" using assms(7) by linarith
  then have "blksz * (blocks - 1) mod 2 ^ 64 = g * 1000000000 - blksz" unfolding m by (rule mod_less)
  moreover have "x div 1000 div 1000 div 1000 = x div 1000000000" for x :: nat by (simp add: div_mult2_eq [symmetric])
  moreover have "blocks - 1 < 256 ^ 8" using assms(4) unfolding p by linarith
  ultimately show ?thesis using readCap_reply [OF assms(1) _ assms(5) [unfolded p], of "blocks - 1" r] d by (simp only:)
qed

end
