(* ===== verification/DiskMega.thy ===== *)
theory DiskMega
  imports DiskEntry
begin

text \<open>
  The disks that \<open>mega_jbod_list\<close> of src/disklist.c takes from the output of megacli: the entries of
  the JBOD disks in their order, with the fields of their lines.
\<close>

section \<open>What the parser of megacli reads\<close>

text \<open>A physical disk and its lines, without the line ends.\<close>

record pd_text =
  t_ec :: nat
  t_slot :: nat
  t_did :: nat
  t_wwn :: string
  t_size :: string
  t_state :: string
  t_fw :: string
  t_sas :: string
  t_sn :: string
  t_model :: string
  t_inq_fw :: string
  t_type :: string

definition pd_lines :: "pd_text \<Rightarrow> string list" where
  "pd_lines t =
     [''Enclosure Device ID: '' @ dec (t_ec t), ''Slot Number: '' @ dec (t_slot t), ''Device Id: '' @ dec (t_did t), ''WWN: '' @ t_wwn t,
      ''Raw Size: '' @ t_size t, ''Firmware state: '' @ t_state t, ''Device Firmware Level: '' @ t_fw t, ''SAS Address(0): '' @ t_sas t,
      ''Inquiry Data: '' @ t_sn t @ t_model t @ t_inq_fw t, ''Media Type: '' @ t_type t]"

definition pd_text_ok :: "pd_text \<Rightarrow> bool" where
  "pd_text_ok t \<longleftrightarrow>
     t_ec t < 2 ^ 15 \<and> t_slot t < 2 ^ 15 \<and> t_did t < 2 ^ 15 \<and>
     (\<forall>s \<in> {t_wwn t, t_size t, t_state t, t_fw t, t_sas t, t_type t}. CHR 0x00 \<notin> set s \<and> length s < 32) \<and> 2 \<le> length (t_sas t) \<and>
     length (t_sn t) = 20 \<and> length (t_model t) = 40 \<and> length (t_inq_fw t) = 8 \<and>
     inq_field (t_sn t) \<and> inq_field (t_model t) \<and> inq_field (t_inq_fw t)"

definition jbod_text :: "pd_text \<Rightarrow> bool" where
  "jbod_text t \<longleftrightarrow> take 4 (t_state t) = ''JBOD''"

text \<open>The entry of the disk in place of the entry \<open>e\<close>.\<close>

definition over :: "string \<Rightarrow> string \<Rightarrow> string" where
  "over s a = s @ drop (length s) a"

definition pd_entry :: "pd_text \<Rightarrow> disk_entry \<Rightarrow> disk_entry" where
  "pd_entry t e =
     (let e = init_disk_entry e in
      e\<lparr>d_ec := int (t_ec t), d_slot := int (t_slot t), d_did := int (t_did t), d_wwn := over (t_wwn t) (d_wwn e),
        d_sizeGB := Raw_size (t_size t) (has_infix ''TB'' (''Raw Size: '' @ t_size t)), d_VER := over (t_fw t) (d_VER e),
        d_peer_addr := over (drop 2 (t_sas t)) (d_peer_addr e),
        d_raid_inq := over (trim (t_model t) @ '' * '' @ trim (t_inq_fw t) @ '' * '' @ trim (t_sn t) @ [CHR 0x00]) (d_raid_inq e),
        d_pd_type := over (t_type t) (d_pd_type e)\<rparr>)"

text \<open>The array after a line.\<close>

definition buf_of :: "string \<Rightarrow> string \<Rightarrow> string" where
  "buf_of t buf = t @ [CHR 0x00, CHR 0x00] @ drop (length t + 2) buf"

lemma buf_of_props:
  assumes "CHR 0x00 \<notin> set t" "length t + 2 \<le> length buf"
  shows "line_into (t @ [CHR 0x0A]) buf = Some (buf_of t buf)" "length (buf_of t buf) = length buf"
    "strlen_cut (buf_of t buf) = t" "starts p (buf_of t buf) \<longleftrightarrow> has_prefix p t"
    "k \<le> length t \<Longrightarrow> strlen_cut (drop k (buf_of t buf)) = drop k t" "scan_into fmt (buf_of t buf) v = (case scan_fmt fmt t of None \<Rightarrow> v | Some n \<Rightarrow> n)"
proof -
  show "line_into (t @ [CHR 0x0A]) buf = Some (buf_of t buf)" "length (buf_of t buf) = length buf"
    using assms(2) by (simp_all add: line_into_def buf_of_def array_put_def)
  have c: "strlen_cut (s @ CHR 0x00 # x) = s" if "CHR 0x00 \<notin> set s" for s x
    using that unfolding strlen_cut_def by (subst takeWhile_append2) auto
  show s: "strlen_cut (buf_of t buf) = t" using c [OF assms(1)] by (simp add: buf_of_def)
  then show "starts p (buf_of t buf) \<longleftrightarrow> has_prefix p t" "scan_into fmt (buf_of t buf) v = (case scan_fmt fmt t of None \<Rightarrow> v | Some n \<Rightarrow> n)"
    by (simp_all add: starts_def scan_into_def)
  assume "k \<le> length t"
  moreover have "CHR 0x00 \<notin> set (drop k t)" using assms(1) by (meson in_set_dropD)
  ultimately show "strlen_cut (drop k (buf_of t buf)) = drop k t" using c [of "drop k t"] by (simp add: buf_of_def)
qed

lemma copy_over: "strlen_cut (drop k buf) = s \<Longrightarrow> length s \<le> length a \<Longrightarrow> copy_rest k buf a = Some (over s a)"
  by (simp add: copy_rest_def array_put_def over_def)

lemma dec_no_nul [simp]: "CHR 0x00 \<notin> set (dec n)"
  using dec_digits [of "CHR 0x00" n] by (auto simp: is_digit_def)

lemma scan_dec [simp]: "n < 2 ^ 15 \<Longrightarrow> scan_int (dec n) = Some (int n, [])"
  using scan_int_dec [of "[]" n] by simp

lemma drop_space_dec [simp]: "dropWhile is_space (dec n) = dec n"
proof -
  obtain c cs where c: "dec n = c # cs" using dec_nonempty by (cases "dec n") auto
  have "is_digit c" using dec_digits [of c n] by (simp add: c)
  then show ?thesis by (auto simp: c is_digit_def is_space_def)
qed

lemma to_short_small: "n < 2 ^ 15 \<Longrightarrow> to_short (int n) = int n"
  by (simp add: to_short_def signed_take_bit_int_eq_self)


lemma dec_short: "n < 2 ^ 15 \<Longrightarrow> length (dec n) \<le> 5"
  by (rule length_dec_le) simp_all

text \<open>A line that fits the array.\<close>

definition mega_line_ok :: "string \<Rightarrow> bool" where
  "mega_line_ok t \<longleftrightarrow> CHR 0x00 \<notin> set t \<and> length t \<le> 126"

lemma mega_line_ok_props:
  assumes "mega_line_ok t" "length buf = 128"
  shows "line_into (t @ [CHR 0x0A]) buf = Some (buf_of t buf)" "length (buf_of t buf) = 128"
    "strlen_cut (buf_of t buf) = t" "starts p (buf_of t buf) \<longleftrightarrow> has_prefix p t"
    "k \<le> length t \<Longrightarrow> strlen_cut (drop k (buf_of t buf)) = drop k t" "scan_into fmt (buf_of t buf) v = (case scan_fmt fmt t of None \<Rightarrow> v | Some n \<Rightarrow> n)"
  using buf_of_props [of t buf] assms by (simp_all add: mega_line_ok_def)

lemma jbod_field_line:
  assumes "mega_line_ok t" "length (j_buf s) = 128" "0 \<le> j_ec s" "j_idx s < length (j_depot s)"
    and "\<not> has_prefix ''Enclosure Device ID'' t" "\<not> has_prefix ''Firmware state'' t" "\<not> has_prefix ''Media Type'' t"
    and "pd_field (buf_of t (j_buf s)) (j_vars s) (j_depot s ! j_idx s) = Some (vars, e)"
  shows "jbod_line (t @ [CHR 0x0A]) s
    = Some (s\<lparr>j_buf := buf_of t (j_buf s), j_vars := vars, j_depot := (j_depot s)[j_idx s := e]\<rparr>)"
  using assms by (simp add: jbod_line_def mega_line_ok_props upd_entry_def)

lemma jbod_skipped_line:
  assumes "mega_line_ok t" "length (j_buf s) = 128" "j_ec s < 0" "\<not> has_prefix ''Enclosure Device ID'' t"
  shows "jbod_line (t @ [CHR 0x0A]) s = Some (s\<lparr>j_buf := buf_of t (j_buf s)\<rparr>)"
  using assms by (simp add: jbod_line_def mega_line_ok_props)

lemma jbod_first_line:
  assumes "length (j_buf s) = 128" "j_idx s < length (j_depot s)" "n < 2 ^ 15"
  shows "\<exists>buf. jbod_line ((''Enclosure Device ID: '' @ dec n) @ [CHR 0x0A]) s
    = Some (s\<lparr>j_buf := buf, j_ec := int n, j_depot := (j_depot s)[j_idx s := init_disk_entry (j_depot s ! j_idx s)\<lparr>d_ec := int n\<rparr>]\<rparr>) \<and> length buf = 128"
proof -
  let ?t = "''Enclosure Device ID: '' @ dec n"
  have ok: "mega_line_ok ?t" using dec_short [OF assms(3)] by (simp add: mega_line_ok_def)
  have p: "has_prefix ''Enclosure Device ID'' ?t" "\<not> has_prefix ''Firmware state'' ?t" "\<not> has_prefix ''Media Type'' ?t"
    by (simp_all add: has_prefix_def)
  have sc: "scan_fmt ''Enclosure Device ID: '' ?t = Some (int n)" using assms(3) by (simp add: is_space_def)
  have f: "pd_field (buf_of ?t (j_buf s)) vars e = Some (vars, e)" for vars e
    unfolding pd_field_def mega_line_ok_props(4) [OF ok assms(1)] by (cases vars) (simp add: has_prefix_def)
  show ?thesis
    unfolding jbod_line_def mega_line_ok_props(1,4,6) [OF ok assms(1)] bind.bind_lunit Let_def
    using p sc f assms(2) mega_line_ok_props(2) [OF ok assms(1)] to_short_small [OF assms(3)]
    by (intro exI [of _ "buf_of ?t (j_buf s)"]) (simp del: append.simps add: mega_line_ok_props(1,4,6) [OF ok assms(1)] upd_entry_def)
qed


lemma jbod_field_step:
  assumes "mega_line_ok t" "length buf = 128" "idx < length depot"
    and "\<not> has_prefix ''Enclosure Device ID'' t" "\<not> has_prefix ''Firmware state'' t" "\<not> has_prefix ''Media Type'' t"
    and "\<exists>vars'. pd_field (buf_of t buf) vars e = Some (vars', e')"
  shows "\<exists>buf' vars'. jbod_lines ((t @ [CHR 0x0A]) # ls) \<lparr>j_buf = buf, j_ec = int n, j_vars = vars, j_depot = depot[idx := e], j_idx = idx\<rparr>
      = jbod_lines ls \<lparr>j_buf = buf', j_ec = int n, j_vars = vars', j_depot = depot[idx := e'], j_idx = idx\<rparr> \<and> length buf' = 128"
proof -
  obtain vars' where "pd_field (buf_of t buf) vars e = Some (vars', e')" using assms(7) by blast
  then have "jbod_line (t @ [CHR 0x0A]) \<lparr>j_buf = buf, j_ec = int n, j_vars = vars, j_depot = depot[idx := e], j_idx = idx\<rparr>
      = Some \<lparr>j_buf = buf_of t buf, j_ec = int n, j_vars = vars', j_depot = depot[idx := e'], j_idx = idx\<rparr>"
    using jbod_field_line [of t "\<lparr>j_buf = buf, j_ec = int n, j_vars = vars, j_depot = depot[idx := e], j_idx = idx\<rparr>" vars' e'] assms
    by simp
  then show ?thesis using mega_line_ok_props(2) [OF assms(1,2)] by (intro exI conjI) (simp, assumption)
qed

lemma pd_field_slot:
  assumes "mega_line_ok (''Slot Number: '' @ dec n)" "length buf = 128" "n < 2 ^ 15"
  shows "\<exists>vars'. pd_field (buf_of (''Slot Number: '' @ dec n) buf) vars e = Some (vars', e\<lparr>d_slot := int n\<rparr>)"
  unfolding pd_field_def mega_line_ok_props(4,6) [OF assms(1,2)]
  using assms(3) by (cases vars) (simp add: has_prefix_def is_space_def to_short_small [OF assms(3)] Let_def)

lemma pd_field_did:
  assumes "mega_line_ok (''Device Id: '' @ dec n)" "length buf = 128" "n < 2 ^ 15"
  shows "\<exists>vars'. pd_field (buf_of (''Device Id: '' @ dec n) buf) vars e = Some (vars', e\<lparr>d_did := int n\<rparr>)"
  unfolding pd_field_def mega_line_ok_props(4,6) [OF assms(1,2)]
  using assms(3) by (cases vars) (simp add: has_prefix_def is_space_def to_short_small [OF assms(3)] Let_def)

lemma pd_field_wwn:
  assumes "mega_line_ok (''WWN: '' @ x)" "length buf = 128" "length x \<le> length (d_wwn e)"
  shows "\<exists>vars'. pd_field (buf_of (''WWN: '' @ x) buf) vars e = Some (vars', e\<lparr>d_wwn := over x (d_wwn e)\<rparr>)"
  using copy_over [OF _ assms(3), of 5 "buf_of (''WWN: '' @ x) buf"] mega_line_ok_props(5) [OF assms(1,2)]
  unfolding pd_field_def mega_line_ok_props(4,6) [OF assms(1,2)]
  by (cases vars) (simp add: has_prefix_def)

lemma pd_field_size:
  assumes "mega_line_ok (''Raw Size: '' @ x)" "length buf = 128"
  shows "\<exists>vars'. pd_field (buf_of (''Raw Size: '' @ x) buf) vars e = Some (vars', e\<lparr>d_sizeGB := Raw_size x (has_infix ''TB'' (''Raw Size: '' @ x))\<rparr>)"
  unfolding pd_field_def mega_line_ok_props(3,4,6) [OF assms]
  by (cases vars) (simp add: has_prefix_def mega_line_ok_props(5) [OF assms, of 10, simplified])

lemma pd_field_fw:
  assumes "mega_line_ok (''Device Firmware Level: '' @ x)" "length buf = 128" "length x \<le> length (d_VER e)"
  shows "\<exists>vars'. pd_field (buf_of (''Device Firmware Level: '' @ x) buf) vars e = Some (vars', e\<lparr>d_VER := over x (d_VER e)\<rparr>)"
  using copy_over [OF _ assms(3), of 23 "buf_of (''Device Firmware Level: '' @ x) buf"] mega_line_ok_props(5) [OF assms(1,2)]
  unfolding pd_field_def mega_line_ok_props(4,6) [OF assms(1,2)]
  by (cases vars) (simp add: has_prefix_def)

lemma pd_field_sas:
  assumes "mega_line_ok (''SAS Address(0): '' @ x)" "length buf = 128" "length x \<le> length (d_peer_addr e)" "2 \<le> length x"
  shows "\<exists>vars'. pd_field (buf_of (''SAS Address(0): '' @ x) buf) vars e = Some (vars', e\<lparr>d_peer_addr := over (drop 2 x) (d_peer_addr e)\<rparr>)"
  using copy_over [of 18 "buf_of (''SAS Address(0): '' @ x) buf" "drop 2 x" "d_peer_addr e"] mega_line_ok_props(5) [OF assms(1,2)] assms(3,4)
  unfolding pd_field_def mega_line_ok_props(4,6) [OF assms(1,2)]
  by (cases vars) (simp add: has_prefix_def)

lemma pd_field_inq:
  assumes "mega_line_ok (''Inquiry Data: '' @ sn @ model @ fw)" "length buf = 128" "length (d_raid_inq e) = 96"
    and "length sn = 20" "length model = 40" "length fw = 8" "inq_field sn" "inq_field model" "inq_field fw"
  shows "\<exists>vars'. pd_field (buf_of (''Inquiry Data: '' @ sn @ model @ fw) buf) vars e
    = Some (vars', e\<lparr>d_raid_inq := over (trim model @ '' * '' @ trim fw @ '' * '' @ trim sn @ [CHR 0x00]) (d_raid_inq e)\<rparr>)"
proof -
  have "drop 14 (buf_of (''Inquiry Data: '' @ sn @ model @ fw) buf) = sn @ model @ fw @ CHR 0x00 # CHR 0x00 # drop 84 buf"
    using assms(4-6) by (simp add: buf_of_def)
  then show ?thesis
    using lsi_inq_decode_fields_aux [OF assms(4-6,7-9,3)]
    unfolding pd_field_def mega_line_ok_props(4,6) [OF assms(1,2)]
    by (cases vars) (simp add: has_prefix_def over_def Let_def)
qed


text \<open>A line that \<open>mega_jbod_list\<close> has no test for after the enclosure.\<close>

lemma jbod_state_line:
  assumes "mega_line_ok t" "length buf = 128" "idx < length depot" "t = ''Firmware state: '' @ st"
  shows "\<exists>buf'. jbod_lines ((t @ [CHR 0x0A]) # ls) \<lparr>j_buf = buf, j_ec = int n, j_vars = vars, j_depot = depot[idx := e], j_idx = idx\<rparr>
      = jbod_lines ls (if take 4 (st @ [CHR 0x00, CHR 0x00] @ drop (length t + 2) buf) = ''JBOD''
          then \<lparr>j_buf = buf', j_ec = int n, j_vars = vars, j_depot = depot[idx := e], j_idx = idx\<rparr>
          else \<lparr>j_buf = buf', j_ec = -1, j_vars = vars, j_depot = depot[idx := init_disk_entry e], j_idx = idx\<rparr>) \<and> length buf' = 128"
proof -
  have p: "\<not> has_prefix ''Enclosure Device ID'' t" "has_prefix ''Firmware state'' t"
    by (simp_all add: has_prefix_def assms(4))
  have d: "drop 16 (buf_of t buf) = st @ [CHR 0x00, CHR 0x00] @ drop (length t + 2) buf"
    unfolding buf_of_def assms(4) by simp
  show ?thesis
    using p d assms(3) mega_line_ok_props(2) [OF assms(1,2)]
    by (intro exI [of _ "buf_of t buf"]) (simp add: jbod_line_def mega_line_ok_props(1,4) [OF assms(1,2)] upd_entry_def)
qed

lemma jbod_type_line:
  assumes "mega_line_ok t" "length buf = 128" "idx < length depot" "t = ''Media Type: '' @ ty" "length ty \<le> length (d_pd_type e)"
  shows "\<exists>buf'. jbod_lines ((t @ [CHR 0x0A]) # ls) \<lparr>j_buf = buf, j_ec = int n, j_vars = vars, j_depot = depot[idx := e], j_idx = idx\<rparr>
      = jbod_lines ls \<lparr>j_buf = buf', j_ec = -1, j_vars = vars, j_depot = depot[idx := e\<lparr>d_pd_type := over ty (d_pd_type e)\<rparr>], j_idx = idx + 1\<rparr>
      \<and> length buf' = 128"
proof -
  have p: "\<not> has_prefix ''Enclosure Device ID'' t" "\<not> has_prefix ''Firmware state'' t" "has_prefix ''Media Type'' t"
    by (simp_all add: has_prefix_def assms(4))
  have "strlen_cut (drop 12 (buf_of t buf)) = ty" using mega_line_ok_props(5) [OF assms(1,2), of 12] assms(4) by simp
  note c = copy_over [OF this assms(5)]
  show ?thesis
    using p c assms(3) mega_line_ok_props(2) [OF assms(1,2)]
    by (intro exI [of _ "buf_of t buf"]) (simp add: jbod_line_def mega_line_ok_props(1,4) [OF assms(1,2)] upd_entry_def)
qed

lemma jbod_skip:
  assumes "\<forall>t \<in> set ts. mega_line_ok t \<and> \<not> has_prefix ''Enclosure Device ID'' t" "length buf = 128" "ec < 0"
  shows "\<exists>buf'. jbod_lines (map (\<lambda>t. t @ [CHR 0x0A]) ts @ ls) \<lparr>j_buf = buf, j_ec = ec, j_vars = vars, j_depot = depot, j_idx = idx\<rparr>
      = jbod_lines ls \<lparr>j_buf = buf', j_ec = ec, j_vars = vars, j_depot = depot, j_idx = idx\<rparr> \<and> length buf' = 128"
  using assms
proof (induction ts arbitrary: buf)
  case (Cons t ts)
  then have "length (buf_of t buf) = 128" by (simp add: mega_line_ok_props)
  then show ?case using Cons.IH [of "buf_of t buf"] Cons.prems by (simp add: jbod_skipped_line)
qed auto

text \<open>The lines of a disk before its state, for a disk of any kind.\<close>

definition pd_head :: "pd_text \<Rightarrow> disk_entry \<Rightarrow> disk_entry" where
  "pd_head t e =
     (let e = init_disk_entry e in
      e\<lparr>d_ec := int (t_ec t), d_slot := int (t_slot t), d_did := int (t_did t), d_wwn := over (t_wwn t) (d_wwn e),
        d_sizeGB := Raw_size (t_size t) (has_infix ''TB'' (''Raw Size: '' @ t_size t))\<rparr>)"

lemma pd_lines_ok: "pd_text_ok t \<Longrightarrow> \<forall>l \<in> set (pd_lines t). mega_line_ok l"
  using dec_short [of "t_ec t"] dec_short [of "t_slot t"] dec_short [of "t_did t"]
  by (auto simp: pd_lines_def pd_text_ok_def mega_line_ok_def inq_field_def)


lemma jbod_word: "take 4 (st @ [CHR 0x00, CHR 0x00] @ x) = ''JBOD'' \<longleftrightarrow> take 4 st = ''JBOD''"
  by (cases st; cases "tl st"; cases "tl (tl st)"; cases "tl (tl (tl st))") auto

lemma jbod_disk_head:
  assumes "pd_text_ok t" "length buf = 128" "idx < length depot" "entry_ok (depot ! idx)"
  shows "\<exists>buf' vars'. jbod_lines (map (\<lambda>l. l @ [CHR 0x0A]) (take 5 (pd_lines t)) @ ls) \<lparr>j_buf = buf, j_ec = -1, j_vars = vars, j_depot = depot, j_idx = idx\<rparr>
    = jbod_lines ls \<lparr>j_buf = buf', j_ec = int (t_ec t), j_vars = vars', j_depot = depot[idx := pd_head t (depot ! idx)], j_idx = idx\<rparr> \<and> length buf' = 128"
proof -
  let ?nl = "\<lambda>l. l @ [CHR 0x0A]"
  let ?S = "\<lambda>buf vars e. \<lparr>j_buf = buf, j_ec = int (t_ec t), j_vars = vars, j_depot = depot[idx := e], j_idx = idx\<rparr>"
  define l1 l2 l3 l4 l5 where l: "l1 = ''Enclosure Device ID: '' @ dec (t_ec t)" "l2 = ''Slot Number: '' @ dec (t_slot t)"
    "l3 = ''Device Id: '' @ dec (t_did t)" "l4 = ''WWN: '' @ t_wwn t" "l5 = ''Raw Size: '' @ t_size t"
  have five: "map ?nl (take 5 (pd_lines t)) @ ls = ?nl l1 # ?nl l2 # ?nl l3 # ?nl l4 # ?nl l5 # ls"
    unfolding pd_lines_def l by (simp del: append.simps(2) add: numeral_eq_Suc)
  have ok: "mega_line_ok l2" "mega_line_ok l3" "mega_line_ok l4" "mega_line_ok l5"
    using pd_lines_ok [OF assms(1)] unfolding pd_lines_def l by simp_all
  have np2: "\<not> has_prefix ''Enclosure Device ID'' l2" "\<not> has_prefix ''Firmware state'' l2" "\<not> has_prefix ''Media Type'' l2"
    unfolding l by (simp_all add: has_prefix_def)
  have np3: "\<not> has_prefix ''Enclosure Device ID'' l3" "\<not> has_prefix ''Firmware state'' l3" "\<not> has_prefix ''Media Type'' l3"
    unfolding l by (simp_all add: has_prefix_def)
  have np4: "\<not> has_prefix ''Enclosure Device ID'' l4" "\<not> has_prefix ''Firmware state'' l4" "\<not> has_prefix ''Media Type'' l4"
    unfolding l by (simp_all add: has_prefix_def)
  have np5: "\<not> has_prefix ''Enclosure Device ID'' l5" "\<not> has_prefix ''Firmware state'' l5" "\<not> has_prefix ''Media Type'' l5"
    unfolding l by (simp_all add: has_prefix_def)
  have lim: "t_ec t < 2 ^ 15" "t_slot t < 2 ^ 15" "t_did t < 2 ^ 15" "length (t_wwn t) < 32" using assms(1) by (auto simp: pd_text_ok_def)
  let ?e = "init_disk_entry (depot ! idx)"
  have w: "length (d_wwn ?e) = 64" using init_entry_ok [OF assms(4)] by (simp add: entry_ok_def)
  let ?e1 = "?e\<lparr>d_ec := int (t_ec t)\<rparr>" let ?e2 = "?e1\<lparr>d_slot := int (t_slot t)\<rparr>" let ?e3 = "?e2\<lparr>d_did := int (t_did t)\<rparr>"
  let ?e4 = "?e3\<lparr>d_wwn := over (t_wwn t) (d_wwn ?e)\<rparr>"
  have w': "d_wwn ?e3 = d_wwn ?e" by simp
  have w4: "length (t_wwn t) \<le> length (d_wwn ?e3)" using lim(4) w by simp
  obtain b1 where 1: "jbod_line (?nl l1) \<lparr>j_buf = buf, j_ec = -1, j_vars = vars, j_depot = depot, j_idx = idx\<rparr> = Some (?S b1 vars ?e1)"
      "length b1 = 128"
    using jbod_first_line [of "\<lparr>j_buf = buf, j_ec = -1, j_vars = vars, j_depot = depot, j_idx = idx\<rparr>"] assms(2,3) lim(1) unfolding l by auto
  obtain b2 v2 where 2: "jbod_lines (?nl l2 # ?nl l3 # ?nl l4 # ?nl l5 # ls) (?S b1 vars ?e1) = jbod_lines (?nl l3 # ?nl l4 # ?nl l5 # ls) (?S b2 v2 ?e2)"
      "length b2 = 128"
    using jbod_field_step [OF ok(1) 1(2) assms(3) np2 pd_field_slot [OF ok(1) [unfolded l] 1(2) lim(2), folded l]] by blast
  obtain b3 v3 where 3: "jbod_lines (?nl l3 # ?nl l4 # ?nl l5 # ls) (?S b2 v2 ?e2) = jbod_lines (?nl l4 # ?nl l5 # ls) (?S b3 v3 ?e3)"
      "length b3 = 128"
    using jbod_field_step [OF ok(2) 2(2) assms(3) np3 pd_field_did [OF ok(2) [unfolded l] 2(2) lim(3), folded l]] by blast
  obtain b4 v4 where 4: "jbod_lines (?nl l4 # ?nl l5 # ls) (?S b3 v3 ?e3) = jbod_lines (?nl l5 # ls) (?S b4 v4 ?e4)" "length b4 = 128"
    using jbod_field_step [OF ok(3) 3(2) assms(3) np4 pd_field_wwn [OF ok(3) [unfolded l] 3(2) w4, folded l]] unfolding w' by blast
  obtain b5 v5 where 5: "jbod_lines (?nl l5 # ls) (?S b4 v4 ?e4) = jbod_lines ls (?S b5 v5 (pd_head t (depot ! idx)))" "length b5 = 128"
    using jbod_field_step [OF ok(4) 4(2) assms(3) np5 pd_field_size [OF ok(4) [unfolded l] 4(2), folded l]] unfolding pd_head_def Let_def l(5) [symmetric] by blast
  have "jbod_lines (?nl l1 # ?nl l2 # ?nl l3 # ?nl l4 # ?nl l5 # ls) \<lparr>j_buf = buf, j_ec = -1, j_vars = vars, j_depot = depot, j_idx = idx\<rparr>
      = jbod_lines ls (?S b5 v5 (pd_head t (depot ! idx)))"
    unfolding jbod_lines.simps(2) [of "?nl l1"] 1(1) bind.bind_lunit 2(1) 3(1) 4(1) 5(1) by (rule refl)
  with 5(2) show ?thesis unfolding five by blast
qed


lemma jbod_disk_tail:
  assumes "pd_text_ok t" "length buf = 128" "idx < length depot" "entry_ok e" "e = pd_head t e0"
  shows "\<exists>buf' vars'. jbod_lines (map (\<lambda>l. l @ [CHR 0x0A]) (drop 5 (pd_lines t)) @ ls)
      \<lparr>j_buf = buf, j_ec = int (t_ec t), j_vars = vars, j_depot = depot[idx := e], j_idx = idx\<rparr>
    = jbod_lines ls (if jbod_text t then \<lparr>j_buf = buf', j_ec = -1, j_vars = vars', j_depot = depot[idx := pd_entry t e0], j_idx = idx + 1\<rparr>
        else \<lparr>j_buf = buf', j_ec = -1, j_vars = vars', j_depot = depot[idx := init_disk_entry e], j_idx = idx\<rparr>) \<and> length buf' = 128"
proof -
  let ?nl = "\<lambda>l. l @ [CHR 0x0A]"
  let ?S = "\<lambda>buf vars e. \<lparr>j_buf = buf, j_ec = int (t_ec t), j_vars = vars, j_depot = depot[idx := e], j_idx = idx\<rparr>"
  define l1 l2 l3 l4 l5 where l: "l1 = ''Firmware state: '' @ t_state t" "l2 = ''Device Firmware Level: '' @ t_fw t"
    "l3 = ''SAS Address(0): '' @ t_sas t" "l4 = ''Inquiry Data: '' @ t_sn t @ t_model t @ t_inq_fw t" "l5 = ''Media Type: '' @ t_type t"
  have five: "drop 5 (pd_lines t) = [l1, l2, l3, l4, l5]"
    unfolding pd_lines_def l by (simp del: append.simps(2) add: numeral_eq_Suc)
  have ok: "mega_line_ok l1" "mega_line_ok l2" "mega_line_ok l3" "mega_line_ok l4" "mega_line_ok l5"
    using pd_lines_ok [OF assms(1)] unfolding pd_lines_def l by simp_all
  have np2: "\<not> has_prefix ''Enclosure Device ID'' l2" "\<not> has_prefix ''Firmware state'' l2" "\<not> has_prefix ''Media Type'' l2"
    unfolding l by (simp_all add: has_prefix_def)
  have np3: "\<not> has_prefix ''Enclosure Device ID'' l3" "\<not> has_prefix ''Firmware state'' l3" "\<not> has_prefix ''Media Type'' l3"
    unfolding l by (simp_all add: has_prefix_def)
  have np4: "\<not> has_prefix ''Enclosure Device ID'' l4" "\<not> has_prefix ''Firmware state'' l4" "\<not> has_prefix ''Media Type'' l4"
    unfolding l by (simp_all add: has_prefix_def)
  have np5: "\<not> has_prefix ''Enclosure Device ID'' l5" unfolding l by (simp add: has_prefix_def)
  have lim: "length (t_fw t) < 32" "length (t_sas t) < 32" "2 \<le> length (t_sas t)" "length (t_type t) < 32" using assms(1) by (auto simp: pd_text_ok_def)
  have inq: "length (t_sn t) = 20" "length (t_model t) = 40" "length (t_inq_fw t) = 8"
    "inq_field (t_sn t)" "inq_field (t_model t)" "inq_field (t_inq_fw t)" using assms(1) by (simp_all add: pd_text_ok_def)
  have ar: "length (d_VER e) = 64" "length (d_peer_addr e) = 64" "length (d_raid_inq e) = 96" "length (d_pd_type e) = 32"
    using assms(4) by (simp_all add: entry_ok_def)
  have j: "take 4 (t_state t @ [CHR 0x00, CHR 0x00] @ x) = ''JBOD'' \<longleftrightarrow> jbod_text t" for x
    unfolding jbod_word jbod_text_def ..
  obtain b1 where 1: "jbod_lines (?nl l1 # map ?nl [l2, l3, l4, l5] @ ls) (?S buf vars e)
      = jbod_lines (map ?nl [l2, l3, l4, l5] @ ls) (if jbod_text t then ?S b1 vars e
          else \<lparr>j_buf = b1, j_ec = -1, j_vars = vars, j_depot = depot[idx := init_disk_entry e], j_idx = idx\<rparr>)" "length b1 = 128"
    using jbod_state_line [OF ok(1) assms(2,3) l(1)] unfolding j by blast
  show ?thesis
  proof (cases "jbod_text t")
    case False
    have "\<forall>t \<in> set [l2, l3, l4, l5]. mega_line_ok t \<and> \<not> has_prefix ''Enclosure Device ID'' t" using ok np2 np3 np4 np5 by simp
    then obtain b2 where "jbod_lines (map ?nl [l2, l3, l4, l5] @ ls) \<lparr>j_buf = b1, j_ec = -1, j_vars = vars, j_depot = depot[idx := init_disk_entry e], j_idx = idx\<rparr>
        = jbod_lines ls \<lparr>j_buf = b2, j_ec = -1, j_vars = vars, j_depot = depot[idx := init_disk_entry e], j_idx = idx\<rparr>" "length b2 = 128"
      using jbod_skip [OF _ 1(2)] by (metis neg_less_0_iff_less zero_less_one)
    with 1(1) False show ?thesis unfolding five by (simp only: list.map append.simps if_False) blast
  next
    case True
    let ?e2 = "e\<lparr>d_VER := over (t_fw t) (d_VER e)\<rparr>" let ?e3 = "?e2\<lparr>d_peer_addr := over (drop 2 (t_sas t)) (d_peer_addr ?e2)\<rparr>"
    let ?e4 = "?e3\<lparr>d_raid_inq := over (trim (t_model t) @ '' * '' @ trim (t_inq_fw t) @ '' * '' @ trim (t_sn t) @ [CHR 0x00]) (d_raid_inq ?e3)\<rparr>"
    let ?e5 = "?e4\<lparr>d_pd_type := over (t_type t) (d_pd_type ?e4)\<rparr>"
    have a: "length (t_fw t) \<le> length (d_VER e)" "length (t_sas t) \<le> length (d_peer_addr ?e2)" "length (d_raid_inq ?e3) = 96"
      "length (t_type t) \<le> length (d_pd_type ?e4)" using ar lim by simp_all
    obtain b2 v2 where 2: "jbod_lines (?nl l2 # ?nl l3 # ?nl l4 # ?nl l5 # ls) (?S b1 vars e) = jbod_lines (?nl l3 # ?nl l4 # ?nl l5 # ls) (?S b2 v2 ?e2)"
        "length b2 = 128"
      using jbod_field_step [OF ok(2) 1(2) assms(3) np2 pd_field_fw [OF ok(2) [unfolded l] 1(2) a(1), folded l]] by blast
    obtain b3 v3 where 3: "jbod_lines (?nl l3 # ?nl l4 # ?nl l5 # ls) (?S b2 v2 ?e2) = jbod_lines (?nl l4 # ?nl l5 # ls) (?S b3 v3 ?e3)"
        "length b3 = 128"
      using jbod_field_step [OF ok(3) 2(2) assms(3) np3 pd_field_sas [OF ok(3) [unfolded l] 2(2) a(2) lim(3), folded l]] by blast
    obtain b4 v4 where 4: "jbod_lines (?nl l4 # ?nl l5 # ls) (?S b3 v3 ?e3) = jbod_lines (?nl l5 # ls) (?S b4 v4 ?e4)" "length b4 = 128"
      using jbod_field_step [OF ok(4) 3(2) assms(3) np4 pd_field_inq [OF ok(4) [unfolded l] 3(2) a(3) inq, folded l]] by blast
    obtain b5 where 5: "jbod_lines (?nl l5 # ls) (?S b4 v4 ?e4)
        = jbod_lines ls \<lparr>j_buf = b5, j_ec = -1, j_vars = v4, j_depot = depot[idx := ?e5], j_idx = idx + 1\<rparr>" "length b5 = 128"
      using jbod_type_line [OF ok(5) 4(2) assms(3) l(5) a(4)] by blast
    have e5: "?e5 = pd_entry t e0" unfolding assms(5) pd_head_def pd_entry_def Let_def by simp
    have "jbod_lines (map ?nl [l1, l2, l3, l4, l5] @ ls) (?S buf vars e)
        = jbod_lines ls \<lparr>j_buf = b5, j_ec = -1, j_vars = v4, j_depot = depot[idx := pd_entry t e0], j_idx = idx + 1\<rparr>"
      using 1(1) 2(1) 3(1) 4(1) 5(1) True unfolding e5 by (simp only: list.map append.simps if_True)
    with 5(2) True show ?thesis unfolding five by (simp only: if_True) blast
  qed
qed


lemma jbod_disk:
  assumes "pd_text_ok t" "length buf = 128" "idx < length depot" "entry_ok (depot ! idx)"
  shows "\<exists>buf' vars'. jbod_lines (map (\<lambda>l. l @ [CHR 0x0A]) (pd_lines t) @ ls) \<lparr>j_buf = buf, j_ec = -1, j_vars = vars, j_depot = depot, j_idx = idx\<rparr>
    = jbod_lines ls (if jbod_text t then \<lparr>j_buf = buf', j_ec = -1, j_vars = vars', j_depot = depot[idx := pd_entry t (depot ! idx)], j_idx = idx + 1\<rparr>
        else \<lparr>j_buf = buf', j_ec = -1, j_vars = vars', j_depot = depot[idx := init_disk_entry (pd_head t (depot ! idx))], j_idx = idx\<rparr>) \<and> length buf' = 128"
proof -
  let ?nl = "\<lambda>l. l @ [CHR 0x0A]"
  have "length (over (t_wwn t) (d_wwn (init_disk_entry (depot ! idx)))) = 64"
    using assms(1) init_entry_ok [OF assms(4)] by (simp add: over_def entry_ok_def pd_text_ok_def)
  then have ok: "entry_ok (pd_head t (depot ! idx))"
    using init_entry_ok [OF assms(4)] by (simp add: entry_ok_def pd_head_def Let_def)
  have "map ?nl (pd_lines t) @ ls = map ?nl (take 5 (pd_lines t)) @ map ?nl (drop 5 (pd_lines t)) @ ls"
    by (simp only: append_assoc [symmetric] map_append [symmetric] append_take_drop_id)
  then show ?thesis
    using jbod_disk_head [OF assms, of "map ?nl (drop 5 (pd_lines t)) @ ls" vars]
      jbod_disk_tail [OF assms(1) _ assms(3) ok refl, of _ ls] by metis
qed

text \<open>Entries whose arrays have nothing but zeros where the texts of a disk with such a WWN do not reach.\<close>

definition pd_blank :: "nat \<Rightarrow> disk_entry \<Rightarrow> bool" where
  "pd_blank n e \<longleftrightarrow> entry_ok e \<and> drop n (d_wwn e) = zeros (64 - n) \<and>
     init_disk_entry e = init_disk_entry zero_entry\<lparr>d_wwn := na (d_wwn e)\<rparr>"

lemma pd_blank_zero: "pd_blank n zero_entry"
  using zero_entry_ok by (simp add: pd_blank_def zero_entry_def zeros_def init_disk_entry_def)

lemma drop_na:
  assumes "3 \<le> n"
  shows "drop n (na a) = drop n a"
proof -
  obtain m where "n = Suc (Suc (Suc m))" using assms by (metis add.commute add_Suc_right le_Suc_ex numeral_3_eq_3 plus_nat.add_0)
  then show ?thesis by (simp add: na_def numeral_3_eq_3)
qed

lemma pd_blank_entry:
  assumes "pd_blank n e" "length (t_wwn t) = n" "3 \<le> n"
  shows "pd_entry t e = pd_entry t zero_entry"
proof -
  note w = drop_na [OF assms(3)]
  have "drop n (d_wwn (init_disk_entry e)) = drop n (d_wwn (init_disk_entry zero_entry))"
    using assms(1) by (simp add: init_disk_entry_def w pd_blank_def zero_entry_def zeros_def)
  then have o: "over (t_wwn t) (d_wwn (init_disk_entry e)) = over (t_wwn t) (d_wwn (init_disk_entry zero_entry))"
    using assms(2) by (simp add: over_def)
  have i: "init_disk_entry e = init_disk_entry zero_entry\<lparr>d_wwn := na (d_wwn e)\<rparr>" using assms(1) by (simp add: pd_blank_def)
  show ?thesis unfolding pd_entry_def Let_def o unfolding i by simp
qed

lemma pd_blank_head:
  assumes "pd_blank n e" "length (t_wwn t) = n" "3 \<le> n" "pd_text_ok t"
  shows "pd_blank n (init_disk_entry (pd_head t e))"
proof -
  have i: "init_disk_entry e = init_disk_entry zero_entry\<lparr>d_wwn := na (d_wwn e)\<rparr>" and e: "entry_ok e"
    and d: "drop n (d_wwn e) = zeros (64 - n)" using assms(1) by (simp_all add: pd_blank_def)
  note ok = init_entry_ok [OF e]
  have n: "n < 32" using assms(2,4) by (simp add: pd_text_ok_def)
  note w = drop_na [OF assms(3)]
  have nn: "na (na a) = na a" for a by (simp add: na_def)
  let ?w = "over (t_wwn t) (d_wwn (init_disk_entry e))"
  have wl: "length ?w = 64" using ok assms(2) n by (simp add: over_def entry_ok_def)
  have wd: "drop n ?w = zeros (64 - n)" using assms(2) d by (simp add: over_def init_disk_entry_def w)
  have "entry_ok (pd_head t e)" using ok wl by (simp add: entry_ok_def pd_head_def Let_def)
  then have ok': "entry_ok (init_disk_entry (pd_head t e))" by simp
  have dw: "d_wwn (init_disk_entry (pd_head t e)) = na ?w" by (simp add: init_disk_entry_def pd_head_def Let_def)
  have h: "init_disk_entry (pd_head t e) = init_disk_entry zero_entry\<lparr>d_wwn := na ?w\<rparr>"
    unfolding pd_head_def Let_def i by (simp add: init_disk_entry_def nn)
  show ?thesis unfolding pd_blank_def dw using ok' wd
    by (simp add: w h) (simp add: init_disk_entry_def nn)
qed

lemma jbod_disks:
  assumes "\<forall>t \<in> set ts. pd_text_ok t \<and> length (t_wwn t) = n" "3 \<le> n" "length buf = 128" "idx + length ts \<le> length depot"
    and "\<forall>i < length depot. idx \<le> i \<longrightarrow> pd_blank n (depot ! i)"
  shows "\<exists>s. jbod_lines (concat (map (\<lambda>t. map (\<lambda>l. l @ [CHR 0x0A]) (pd_lines t)) ts))
        \<lparr>j_buf = buf, j_ec = -1, j_vars = vars, j_depot = depot, j_idx = idx\<rparr> = Some s \<and>
      j_idx s = idx + length (filter jbod_text ts) \<and>
      take (j_idx s) (j_depot s) = take idx depot @ map (\<lambda>t. pd_entry t zero_entry) (filter jbod_text ts)"
  using assms
proof (induction ts arbitrary: buf vars depot idx)
  case (Cons t ts)
  let ?nl = "\<lambda>l. l @ [CHR 0x0A]"
  have idx: "idx < length depot" and b: "pd_blank n (depot ! idx)" using Cons.prems(4,5) by simp_all
  have ok: "entry_ok (depot ! idx)" using b by (simp add: pd_blank_def)
  have t: "pd_text_ok t" "length (t_wwn t) = n" using Cons.prems(1) by simp_all
  let ?rest = "concat (map (\<lambda>t. map ?nl (pd_lines t)) ts)"
  obtain buf' vars' where d: "jbod_lines (map ?nl (pd_lines t) @ ?rest) \<lparr>j_buf = buf, j_ec = -1, j_vars = vars, j_depot = depot, j_idx = idx\<rparr>
    = jbod_lines ?rest (if jbod_text t then \<lparr>j_buf = buf', j_ec = -1, j_vars = vars', j_depot = depot[idx := pd_entry t (depot ! idx)], j_idx = idx + 1\<rparr>
        else \<lparr>j_buf = buf', j_ec = -1, j_vars = vars', j_depot = depot[idx := init_disk_entry (pd_head t (depot ! idx))], j_idx = idx\<rparr>)" "length buf' = 128"
    using jbod_disk [OF t(1) Cons.prems(3) idx ok] by blast
  show ?case
  proof (cases "jbod_text t")
    case True
    have "\<forall>i < length (depot[idx := pd_entry t (depot ! idx)]). idx + 1 \<le> i \<longrightarrow> pd_blank n (depot[idx := pd_entry t (depot ! idx)] ! i)"
      using Cons.prems(5) by simp
    with Cons.IH [OF _ Cons.prems(2) d(2), of "idx + 1" "depot[idx := pd_entry t (depot ! idx)]" vars'] Cons.prems(1,4) d(1) True
    show ?thesis using pd_blank_entry [OF b t(2) Cons.prems(2)] idx by (auto simp: take_Suc_conv_app_nth)
  next
    case False
    let ?depot = "depot[idx := init_disk_entry (pd_head t (depot ! idx))]"
    have "\<forall>i < length ?depot. idx \<le> i \<longrightarrow> pd_blank n (?depot ! i)"
      using Cons.prems(5) pd_blank_head [OF b t(2) Cons.prems(2) t(1)] by (simp add: nth_list_update)
    with Cons.IH [OF _ Cons.prems(2) d(2), of idx ?depot vars'] Cons.prems(1,4) d(1) False
    show ?thesis by auto
  qed
qed simp



text \<open>A disk of an array and a disk on its own.\<close>

definition array_disk :: pd_text where
  "array_disk = \<lparr>t_ec = 252, t_slot = 0, t_did = 8, t_wwn = ''5000C500A1B2C3D4'', t_size = ''5.458 TB [0x2baa0f4b0 Sectors]'',
     t_state = ''Online, Spun Up'', t_fw = ''MA88'', t_sas = ''0x4433221100000000'', t_sn = ''            Z4D4DG1C'',
     t_model = ''ST6000NM0024-1US17Z                     '', t_inq_fw = ''    MA88'', t_type = ''Hard Disk Device''\<rparr>"

definition jbod_disk_text :: pd_text where
  "jbod_disk_text = array_disk\<lparr>t_slot := 1, t_did := 9, t_wwn := ''5000C500A1B2C3D5'', t_state := ''JBOD'', t_sn := ''            Z4D4DG1D''\<rparr>"

lemma sample_disks_ok: "pd_text_ok array_disk" "pd_text_ok jbod_disk_text"
  by (simp_all add: pd_text_ok_def array_disk_def jbod_disk_text_def inq_field_def is_blank_def)


end
