(* ===== verification/DiskList.thy ===== *)
theory DiskList
  imports DiskMega Mkpath
begin

text \<open>
  The inventory of src/disklist.c: the entries of the SCSI devices from sysfs, their matching
  with the entries of megacli, and the SMART logs.

  The kernel's answers are an argument: the files and directories of sysfs, the replies to
  SCSI commands, the output of programs.
\<close>

section \<open>Reading sysfs\<close>

record sysfs =
  sy_file :: "string \<Rightarrow> string option"
  sy_dir :: "string \<Rightarrow> bool"
  sy_cwd :: "string \<Rightarrow> string option"
  sy_list :: "string \<Rightarrow> dirent list option"
  sy_page :: "string \<Rightarrow> (u8 list \<times> nat) option"
  sy_link :: "string \<Rightarrow> string"
  sy_reply :: "string \<Rightarrow> nat \<Rightarrow> string option"
  sy_rotational :: "string \<Rightarrow> string option"

definition sysfsroot :: string where "sysfsroot = ''/sys''"
definition bus_scsi_devs :: string where "bus_scsi_devs = ''/bus/scsi/devices''"
definition class_scsi_dev :: string where "class_scsi_dev = ''/class/scsi_device/''"
definition scsi_host :: string where "scsi_host = ''/class/scsi_host/''"
definition sas_host :: string where "sas_host = ''/class/sas_host/''"
definition sas_phy :: string where "sas_phy = ''/class/sas_phy/''"
definition sas_device :: string where "sas_device = ''/class/sas_device/''"
definition sas_end_device :: string where "sas_end_device = ''/class/sas_end_device/''"
definition dev_dir :: string where "dev_dir = ''/dev''"
definition LMAX_NAME :: nat where "LMAX_NAME = 256"

text \<open>The first line of a file, cut to the length of the array.\<close>

definition first_line :: "nat \<Rightarrow> string \<Rightarrow> string" where
  "first_line n s =
     (let t = take (min (length (takeWhile (\<lambda>c. c \<noteq> CHR 0x0A) s) + 1) (n - 1)) s in
      if t \<noteq> [] \<and> last t = CHR 0x0A then butlast t else t)"

definition get_value :: "sysfs \<Rightarrow> string \<Rightarrow> string \<Rightarrow> nat \<Rightarrow> string option" where
  "get_value fs dir base n = map_option (first_line n) (sy_file fs (dir @ ''/'' @ base))"

definition if_directory_chdir :: "sysfs \<Rightarrow> string \<Rightarrow> string \<Rightarrow> bool" where
  "if_directory_chdir fs dir base = sy_dir fs (dir @ ''/'' @ base)"

definition if_directory_ch2generic :: "sysfs \<Rightarrow> item_t \<Rightarrow> string \<Rightarrow> string option" where
  "if_directory_ch2generic fs it dir =
     (if sy_dir fs (dir @ ''/generic'') then Some (dir @ ''/generic'')
      else
        (let (n, it) = sg_scan (sy_list fs dir) it in
         if n \<noteq> 1 then None
         else if sy_dir fs (dir @ ''/'' @ it_name it) then Some (dir @ ''/'' @ it_name it) else None))"

text \<open>What is behind the last slash.\<close>

definition path_base :: "string \<Rightarrow> string" where
  "path_base p = rev (takeWhile (\<lambda>c. c \<noteq> CHR ''/'') (rev p))"

fun find_sub :: "string \<Rightarrow> string \<Rightarrow> nat option" where
  "find_sub p [] = (if p = [] then Some 0 else None)"
| "find_sub p (c # s) = (if has_prefix p (c # s) then Some 0 else map_option Suc (find_sub p s))"

text \<open>\<open>get_usb_devname\<close>: the component of the working directory before \<open>/host\<close>.\<close>

definition get_usb_devname :: "sysfs \<Rightarrow> string \<Rightarrow> string \<Rightarrow> string option" where
  "get_usb_devname fs buff np =
     (if \<not> if_directory_chdir fs buff np then None
      else case sy_cwd fs (buff @ ''/'' @ np) of None \<Rightarrow> None
      | Some bf2 \<Rightarrow>
          if \<not> has_infix ''usb'' bf2 then None
          else case find_sub ''/host'' bf2 of None \<Rightarrow> Some []
            | Some cp \<Rightarrow>
                if cp \<ge> 2 \<and> CHR ''/'' \<in> set (take (cp - 1) bf2) then
                  Some (path_base (take (cp - 1) bf2) @ drop (cp - 1) (take cp bf2))
                else Some [])"

datatype transport = T_UNKNOWN | T_SAS | T_SAS_CLASS | T_SBP | T_USB | T_ATA | T_SATA

text \<open>\<open>snprintf (b, b_len, ...)\<close>\<close>

definition clip :: "nat \<Rightarrow> string \<Rightarrow> string" where
  "clip n s = take (n - 1) s"

definition ata_prefix :: "string \<Rightarrow> (transport \<times> string) option" where
  "ata_prefix wd =
     (if wd = ''ahci'' then Some (T_SATA, ''sata:'')
      else if has_infix ''ata'' wd then (if has_prefix ''sata'' wd then Some (T_SATA, ''sata:'') else Some (T_ATA, ''ata:''))
      else None)"

text \<open>
  \<open>transport_tport\<close>: the new transport and \<open>sas_hold_end_device\<close>, and the string, \<open>None\<close> for
  false. The outer \<open>None\<close> is a page whose name is outside the array.
\<close>

definition transport_tport :: "sysfs \<Rightarrow> string \<Rightarrow> nat \<Rightarrow> transport \<times> string \<Rightarrow> ((transport \<times> string) \<times> string option) option" where
  "transport_tport fs devname b_len = (\<lambda>(tid, hold).
     (case parse_colon_list devname of None \<Rightarrow> Some ((tid, hold), None)
      | Some hctl \<Rightarrow>
          (let host = ''host'' @ (if hctl_h hctl < 0 then ''-'' else []) @ dec (nat \<bar>hctl_h hctl\<bar>) in
           if sy_dir fs (sysfsroot @ sas_host @ host) then
             (let buff = sysfsroot @ class_scsi_dev @ devname in
              if \<not> if_directory_chdir fs buff ''device'' then Some ((T_SAS, hold), None)
              else case sy_cwd fs (buff @ ''/device'') of None \<Rightarrow> Some ((T_SAS, hold), None)
              | Some wd \<Rightarrow>
                  if CHR ''/'' \<notin> set wd \<or> CHR ''/'' \<notin> set (parent_dir wd) then Some ((T_SAS, hold), None)
                  else (let cp = base_name (parent_dir (parent_dir wd));
                            v = (case get_value fs (sysfsroot @ sas_device @ cp) ''sas_address'' (b_len - 4) of
                                   Some v \<Rightarrow> v | None \<Rightarrow> clip (b_len - 4) ''0x0000000000000000'')
                        in Some ((T_SAS, cp), Some (''sas:'' @ v))))
           else
             (let buff = sysfsroot @ bus_scsi_devs @ ''/'' @ devname; sas = if_directory_chdir fs buff ''sas_device'';
                  tid = (if sas then T_SAS_CLASS else tid) in
              case (if sas then get_value fs (buff @ ''/sas_device'') ''sas_addr'' (b_len - 4) else None) of
                Some v \<Rightarrow> Some ((T_SAS_CLASS, hold), Some (''sas:'' @ v))
              | None \<Rightarrow>
                 (case (if sas then None else get_value fs buff ''ieee1394_id'' 4096) of
                    Some v \<Rightarrow> Some ((T_SBP, hold), Some (clip b_len (''sbp:'' @ v)))
                  | None \<Rightarrow>
                     (case get_usb_devname fs (sysfsroot @ class_scsi_dev) devname of
                        Some cp \<Rightarrow> Some ((T_USB, hold), Some (clip b_len (''usb:'' @ cp)))
                      | None \<Rightarrow>
                         (case Option.bind (get_value fs (sysfsroot @ scsi_host @ host) ''proc_name'' 4096) ata_prefix of
                            None \<Rightarrow> Some ((tid, hold), None)
                          | Some (t, pfx) \<Rightarrow>
                              map_option (\<lambda>lu. ((t, hold), Some (pfx @ clip (b_len - length pfx) lu)))
                                (get_lu_name (sy_page fs devname) 4096 False))))))))"

text \<open>\<open>transport_tport_mini\<close> with the table of the enclosures.\<close>

definition nonempty :: "string option \<Rightarrow> string option" where
  "nonempty v = (case v of Some (c # cs) \<Rightarrow> Some (c # cs) | _ \<Rightarrow> None)"

definition transport_tport_mini :: "sysfs \<Rightarrow> transport \<Rightarrow> string \<Rightarrow> disk_entry \<times> string list \<Rightarrow> (disk_entry \<times> string list) option" where
  "transport_tport_mini fs tid hold = (\<lambda>(e, depot).
     (if tid \<noteq> T_SAS then Some (e, depot)
      else
        (let buff = sysfsroot @ sas_device @ hold;
             e = (case nonempty (get_value fs buff ''bay_identifier'' LMAX_NAME) of
                    Some v \<Rightarrow> e\<lparr>d_slot := to_short (atoi v)\<rparr> | None \<Rightarrow> e)
         in map_option (\<lambda>(e, depot).
              (case nonempty (get_value fs buff ''phy_identifier'' LMAX_NAME) of
                 Some v \<Rightarrow> (if d_slot e < 0 then e\<lparr>d_slot := to_short (atoi v)\<rparr> else e, depot)
               | None \<Rightarrow> (e, depot)))
            (case nonempty (get_value fs buff ''enclosure_identifier'' LMAX_NAME) of
               None \<Rightarrow> Some (e, depot)
             | Some v \<Rightarrow>
                 Option.bind (get_ec_id (drop 2 v) depot) (\<lambda>(i, depot).
                 map_option (\<lambda>a. (e\<lparr>d_ec := to_short i, d_ec_addr := a\<rparr>, depot)) (snprintf 32 (drop 2 v) (d_ec_addr e)))))))"

text \<open>\<open>transport_init\<close> for a host.\<close>

definition transport_init :: "sysfs \<Rightarrow> string \<Rightarrow> nat \<Rightarrow> transport \<Rightarrow> transport \<times> string option" where
  "transport_init fs devname b_len tid =
     (let buff = sysfsroot @ sas_host @ devname; sas = sy_dir fs buff;
          (n, low) = sas_low_phy_scan (sy_list fs (buff @ ''/device''))
      in if sas \<and> n < 1 then (T_SAS, None)
         else case (if sas then get_value fs (sysfsroot @ sas_phy @ low) ''sas_address'' (b_len - 4) else None) of
           Some v \<Rightarrow> (T_SAS, Some (''sas:'' @ v))
         | None \<Rightarrow>
            (let tid = (if sas then T_SAS else tid); buff = sysfsroot @ scsi_host @ devname @ ''/device/sas/ha''; ha = sy_dir fs buff in
             case (if ha then get_value fs buff ''device_name'' (b_len - 4) else None) of
               Some v \<Rightarrow> (T_SAS_CLASS, Some (''sas:'' @ v))
             | None \<Rightarrow>
                (let tid = (if ha then T_SAS_CLASS else tid) in
                 case get_usb_devname fs (sysfsroot @ scsi_host) devname of
                   Some cp \<Rightarrow> (T_USB, Some (clip b_len (''usb:'' @ cp)))
                 | None \<Rightarrow>
                    (case Option.bind (get_value fs (sysfsroot @ scsi_host @ devname) ''proc_name'' 4096) ata_prefix of
                       Some (t, pfx) \<Rightarrow> (t, Some pfx)
                     | None \<Rightarrow> (tid, None)))))"

text \<open>
  \<open>print_host_pci_path\<close> on the memory \<open>s\<close> after \<open>readlink\<close>: the 12 characters that end before the
  slash before the first name of an adapter.
\<close>

definition pci_stop :: "string \<Rightarrow> bool" where
  "pci_stop p \<longleftrightarrow> has_prefix ''ata'' p \<or> has_prefix ''hos'' p \<or> has_prefix ''nvm'' p \<or> has_prefix ''usb'' p"

fun pci_search :: "nat \<Rightarrow> string \<Rightarrow> nat \<Rightarrow> nat" where
  "pci_search 0 s i = i"
| "pci_search (Suc n) s i = (if pci_stop (drop i s) then i else pci_search n s (i + 1))"

definition print_host_pci_path :: "string \<Rightarrow> disk_entry \<Rightarrow> disk_entry option" where
  "print_host_pci_path s e =
     (let n = length (strlen_cut s); i = pci_search (max n 1) s 0;
          e = (if has_prefix ''usb'' (drop i s) then e\<lparr>d_type_usb := 1\<rparr> else e) in
      if i < 13 then None
      else map_option (\<lambda>a. e\<lparr>d_pcipath := a\<rparr>) (strcpy (take 12 (drop (i - 13) s)) (d_pcipath e)))"

definition sub_scan :: "sysfs \<Rightarrow> string \<Rightarrow> string \<Rightarrow> (dirent \<Rightarrow> bool) \<Rightarrow> string option" where
  "sub_scan fs dir sub_str fn =
     (case map_option (filter fn) (sy_list fs dir) of
        Some ((name, _) # _) \<Rightarrow>
          (let dir = dir @ ''/'' @ name in
           if has_infix sub_str dir then Some dir
           else case map_option (filter sub_dir_scan_select) (sy_list fs dir) of
             Some ((name, _) # _) \<Rightarrow> Some (dir @ ''/'' @ name)
           | _ \<Rightarrow> None)
      | _ \<Rightarrow> None)"

definition block_scan :: "sysfs \<Rightarrow> string \<Rightarrow> string option" where
  "block_scan fs dir = sub_scan fs dir ''block:'' block_dir_scan_select"

definition scsi_short_device_types :: "string list" where
  "scsi_short_device_types =
     [''disk   '', ''tape   '', ''printer'', ''process'', ''worm   '', ''cd/dvd '', ''scanner'', ''optical'', ''mediumx'', ''comms  '',
      ''(0xa)  '', ''(0xb)  '', ''storage'', ''enclosu'', ''sim dsk'', ''opti rd'', ''bridge '', ''osd    '', ''adi    '', ''sec man'',
      ''zbc    '', ''(0x15) '', ''(0x16) '', ''(0x17) '', ''(0x18) '', ''(0x19) '', ''(0x1a) '', ''(0x1b) '', ''(0x1c) '', ''(0x1e) '',
      ''wlun   '', ''no dev '']"

section \<open>The entry of a device\<close>

text \<open>
  The parts of \<open>one_sdev_entry\<close> in their order. \<open>stale\<close> has the values of local variables that
  nothing has written: the type and the arrays of the replies.
\<close>

definition sdev_type :: "sysfs \<Rightarrow> string \<Rightarrow> int \<Rightarrow> disk_entry \<Rightarrow> (int \<times> disk_entry) option" where
  "sdev_type fs buff stale e =
     (case get_value fs buff ''type'' LMAX_NAME of None \<Rightarrow> Some (stale, e)
      | Some v \<Rightarrow>
          (case scan_int v of None \<Rightarrow> Some (stale, e)
           | Some (ty, _) \<Rightarrow>
               if ty < 0 \<or> ty > 31 then Some (ty, e)
               else map_option (\<lambda>a. (ty, e\<lparr>d_pd_type := a\<rparr>)) (snprintf 16 (scsi_short_device_types ! nat ty) (d_pd_type e))))"

definition sdev_address :: "string \<Rightarrow> disk_entry \<Rightarrow> disk_entry" where
  "sdev_address devname e =
     (case parse_colon_list devname of None \<Rightarrow> e
      | Some a \<Rightarrow> e\<lparr>d_host := to_short (hctl_h a), d_bus := to_short (hctl_c a), d_target := to_short (hctl_t a),
          d_lun := to_short (uint (lun_word_flip (hctl_l a)))\<rparr>)"

definition sdev_connect :: "string option \<Rightarrow> disk_entry \<Rightarrow> disk_entry option" where
  "sdev_connect value e =
     (case value of None \<Rightarrow> Some e
      | Some v \<Rightarrow>
          Option.bind
            (if has_prefix ''sas'' v then
               Option.bind (put (strncpy_chars 64 (drop 6 v)) (d_peer_addr e)) (\<lambda>p.
               map_option (\<lambda>a. e\<lparr>d_peer_addr := p, d_connect_type := a\<rparr>) (strcpy ''SAS_HBA'' (d_connect_type e)))
             else Some e) (\<lambda>e.
          if has_prefix ''sat'' v then
            map_option (\<lambda>a. e\<lparr>d_ec := 0, d_slot := d_host e, d_connect_type := a\<rparr>) (strcpy ''SATA_HBA'' (d_connect_type e))
          else Some e))"

definition sdev_wwn :: "string \<Rightarrow> disk_entry \<Rightarrow> disk_entry option" where
  "sdev_wwn value e = (if length value < 1 then Some e else map_option (\<lambda>a. e\<lparr>d_wwn := a\<rparr>) (strcpy value (d_wwn e)))"

text \<open>The name of the block device; \<open>None\<close> without one.\<close>

definition sdev_block :: "sysfs \<Rightarrow> item_t \<times> item_t \<Rightarrow> string \<Rightarrow> string option" where
  "sdev_block fs = (\<lambda>(non_sg, aa_first) buff.
     (let (n, it) = non_sg_scan (sy_list fs buff) non_sg in
      if n \<noteq> 1 then None
      else
        (let loc = (if it_d_type it = DT_DIR then
                      (let wd = buff @ ''/'' @ it_name it; (n, first) = scan_for_first (sy_list fs wd) aa_first in
                       if n = 1 then Some (wd, it_name first) else None)
                    else Some (buff, it_name it))
         in case loc of None \<Rightarrow> None
           | Some (wd, extra) \<Rightarrow>
               if wd \<noteq> [] \<and> if_directory_chdir fs wd extra
               then map_option base_name (sy_cwd fs (wd @ ''/'' @ extra))
               else if wd \<noteq> [] then Some (base_name wd) else None)))"

definition dev_name :: "string \<Rightarrow> string" where
  "dev_name name = clip 16 (dev_dir @ ''/'' @ name)"

definition sdev_path :: "string option \<Rightarrow> disk_entry \<Rightarrow> disk_entry option" where
  "sdev_path name e = (case name of None \<Rightarrow> Some e | Some s \<Rightarrow> map_option (\<lambda>a. e\<lparr>d_path := a\<rparr>) (strcpy (dev_name s) (d_path e)))"

definition sdev_sgpath :: "string option \<Rightarrow> disk_entry \<Rightarrow> disk_entry option" where
  "sdev_sgpath name e = (case name of None \<Rightarrow> Some e | Some s \<Rightarrow> map_option (\<lambda>a. e\<lparr>d_sgpath := a\<rparr>) (strcpy (dev_name s) (d_sgpath e)))"

text \<open>The values of \<open>rev\<close> and \<open>model\<close> are the format of \<open>sprintf\<close>: with a percent sign it is undefined.\<close>

definition sprintf_value :: "string \<Rightarrow> string \<Rightarrow> string option" where
  "sprintf_value v a = (if CHR ''%'' \<in> set v then None else strcpy v a)"

definition sdev_vpd :: "sysfs \<Rightarrow> string \<Rightarrow> string option \<Rightarrow> string option \<Rightarrow> string \<Rightarrow> disk_entry \<Rightarrow> disk_entry option" where
  "sdev_vpd fs stale sg blk buff e =
     Option.bind
       (case (case sg of Some s \<Rightarrow> Some (dev_name s) | None \<Rightarrow> map_option dev_name blk) of
          None \<Rightarrow> Some (1, e)
        | Some d \<Rightarrow> Option.bind (vpd89 (sy_reply fs d 0x89) stale e) (\<lambda>(rc, e).
            map_option (\<lambda>(_, e). (rc, e)) (vpdb1 (sy_reply fs d 0xb1) e))) (\<lambda>(rc, e).
     if rc = 0 then Some e
     else
       Option.bind (case get_value fs buff ''rev'' LMAX_NAME of None \<Rightarrow> Some e
         | Some v \<Rightarrow> map_option (\<lambda>a. e\<lparr>d_VER := a\<rparr>) (sprintf_value v (d_VER e))) (\<lambda>e.
       Option.bind (case get_value fs buff ''model'' LMAX_NAME of None \<Rightarrow> Some e
         | Some v \<Rightarrow> map_option (\<lambda>a. e\<lparr>d_MODEL := a\<rparr>) (sprintf_value v (d_MODEL e))) (\<lambda>e.
       case sg of None \<Rightarrow> Some e
       | Some s \<Rightarrow> map_option snd (vpd80 (sy_reply fs (dev_name s) 0x80) stale e))))"

definition sdev_size :: "sysfs \<Rightarrow> int \<Rightarrow> string \<Rightarrow> disk_entry \<Rightarrow> disk_entry" where
  "sdev_size fs ty buff e =
     (case (if ty = 0 then block_scan fs buff else None) of None \<Rightarrow> e
      | Some dir \<Rightarrow>
          if \<not> if_directory_chdir fs dir ''.'' then e
          else case get_value fs dir ''size'' LMAX_NAME of None \<Rightarrow> e
          | Some v \<Rightarrow>
              (let blocks = push_bit 9 (of_int (atoi v)) :: u64 in
               if blocks > 0 then e\<lparr>d_sizeGB := Gb (unat blocks div 1000 div 1000 div 1000)\<rparr> else e))"

record scan_vars =
  sv_hold :: string
  sv_ecs :: "string list"
  sv_items :: "item_t \<times> item_t \<times> item_t"

definition one_sdev_entry :: "sysfs \<Rightarrow> int \<times> string \<Rightarrow> string \<Rightarrow> string \<Rightarrow> disk_entry \<times> scan_vars \<Rightarrow> (disk_entry \<times> scan_vars) option" where
  "one_sdev_entry fs = (\<lambda>(stale_type, stale_buf) dir devname (e, sv).
     (let buff = dir @ ''/'' @ devname; e = sdev_address devname (init_disk_entry e); (it_non_sg, it_first, it_sg) = sv_items sv in
      Option.bind (sdev_type fs buff stale_type e) (\<lambda>(ty, e).
      Option.bind (transport_tport fs devname LMAX_NAME (T_UNKNOWN, sv_hold sv)) (\<lambda>((tid, hold), value).
      Option.bind (sdev_connect value e) (\<lambda>e.
      Option.bind (transport_tport_mini fs tid hold (e, sv_ecs sv)) (\<lambda>(e, ecs).
      Option.bind (get_lu_name (sy_page fs devname) (int LMAX_NAME) False) (\<lambda>lu.
      Option.bind (sdev_wwn lu e) (\<lambda>e.
      (let blk = sdev_block fs (it_non_sg, it_first) buff;
           sg = Option.bind (if_directory_ch2generic fs it_sg buff) (\<lambda>d. map_option base_name (sy_cwd fs d)) in
       Option.bind (sdev_path blk e) (\<lambda>e.
       Option.bind (sdev_sgpath sg e) (\<lambda>e.
       Option.bind (sdev_vpd fs stale_buf sg blk buff e) (\<lambda>e.
       Option.bind (print_host_pci_path (sy_link fs buff) e) (\<lambda>e.
         Some (sdev_size fs ty buff e, sv\<lparr>sv_hold := hold, sv_ecs := ecs\<rparr>))))))))))))))"

text \<open>The entries of all devices in the order of \<open>scandir\<close>.\<close>

fun scan_sdevices :: "sysfs \<Rightarrow> int \<times> string \<Rightarrow> string list \<Rightarrow> disk_entry list \<times> nat \<times> scan_vars \<Rightarrow>
    (disk_entry list \<times> nat \<times> scan_vars) option" where
  "scan_sdevices fs stale [] d = Some d"
| "scan_sdevices fs stale (devname # names) (depot, idx, sv) =
     (if idx < length depot then
        Option.bind (one_sdev_entry fs stale (sysfsroot @ bus_scsi_devs) devname (depot ! idx, sv)) (\<lambda>(e, sv).
          scan_sdevices fs stale names (depot[idx := e], idx + 1, sv))
      else None)"

text \<open>One namespace of an NVMe controller: model, firmware, serial number and identifier of its vendor.\<close>

definition nvme_field :: "string \<Rightarrow> string \<Rightarrow> string \<Rightarrow> string option" where
  "nvme_field mem field a = snprintf (trim_len (trim_string field (length field)) + 1) (field @ mem) a"

definition nvme_entry :: "string \<Rightarrow> string \<Rightarrow> string \<times> string \<times> string \<Rightarrow> u8 \<times> u8 \<times> u8 \<Rightarrow> nat \<Rightarrow> string \<Rightarrow> disk_entry \<Rightarrow> disk_entry option" where
  "nvme_entry dev mem = (\<lambda>(mn, fr, sn) (ieee0, ieee1, ieee2) nsze link e.
     (let e = init_disk_entry e in
      Option.bind (put dev (d_path e)) (\<lambda>p. Option.bind (nvme_field mem mn (d_MODEL e)) (\<lambda>mo.
      Option.bind (nvme_field mem fr (d_VER e)) (\<lambda>ve. Option.bind (nvme_field mem sn (d_SN e)) (\<lambda>s.
      Option.bind (snprintf 17 (''5'' @ hex2 ieee2 @ hex2 ieee1 @ hex2 ieee0 @ ''000000000'') (d_wwn e)) (\<lambda>w.
      Option.bind (strcpy ''NVME SSD'' (d_disk_type e)) (\<lambda>dt. Option.bind (strcpy ''PCIE'' (d_connect_type e)) (\<lambda>ct.
      map_option (\<lambda>e. e\<lparr>d_sizeGB := Gb (nsze * 512 mod 2 ^ 64 div 1000 div 1000 div 1000)\<rparr>)
        (print_host_pci_path link (e\<lparr>d_path := p, d_MODEL := mo, d_VER := ve, d_SN := s, d_wwn := w, d_disk_type := dt,
           d_connect_type := ct\<rparr>)))))))))))"

text \<open>
  A namespace in the directory of a controller: its name, the fields that the identify commands
  return, \<open>None\<close> when a call fails, and what is in memory behind a field. A controller has a name, its
  namespaces and the memory after \<open>readlink\<close>.
\<close>

record nvme_ns =
  ns_name :: string
  ns_id :: "((string \<times> string \<times> string) \<times> (u8 \<times> u8 \<times> u8) \<times> nat) option"
  ns_mem :: string

type_synonym nvme_ctrl = "string \<times> nvme_ns list option \<times> string"

definition nvme_one :: "string \<Rightarrow> string \<Rightarrow> nvme_ns \<Rightarrow> disk_entry list \<times> nat \<Rightarrow> (disk_entry list \<times> nat) option" where
  "nvme_one ctrl link ns = (\<lambda>(depot, idx).
     (if take 2 (ns_name ns) \<noteq> ''nv'' then Some (depot, idx)
      else if length (''/sys/class/nvme/'' @ ctrl @ ''/'' @ ns_name ns) > 63 then None
      else case ns_id ns of None \<Rightarrow> Some (depot, idx)
      | Some (texts, ieee, nsze) \<Rightarrow>
          if idx < length depot then
            map_option (\<lambda>e. (depot[idx := e], idx + 1)) (nvme_entry (''/dev/'' @ ns_name ns) (ns_mem ns) texts ieee nsze link (depot ! idx))
          else None))"

fun nvme_all :: "string \<Rightarrow> string \<Rightarrow> nvme_ns list \<Rightarrow> disk_entry list \<times> nat \<Rightarrow> (disk_entry list \<times> nat) option" where
  "nvme_all ctrl link [] d = Some d"
| "nvme_all ctrl link (ns # nss) d = Option.bind (nvme_one ctrl link ns d) (nvme_all ctrl link nss)"

fun scan_nvme_ns :: "nvme_ctrl list \<Rightarrow> disk_entry list \<times> nat \<Rightarrow> (disk_entry list \<times> nat) option" where
  "scan_nvme_ns [] d = Some d"
| "scan_nvme_ns ((ctrl, nss, link) # cs) d =
     (if take 1 ctrl \<noteq> ''n'' then scan_nvme_ns cs d
      else if length (''/sys/class/nvme/'' @ ctrl) > 63 then None
      else case nss of None \<Rightarrow> scan_nvme_ns cs d
      | Some nss \<Rightarrow> Option.bind (nvme_all ctrl link nss d) (scan_nvme_ns cs))"

section \<open>Matching\<close>

text \<open>The texts that the code uses as strings; an array without a terminator is undefined.\<close>

definition long_wwn :: "disk_entry \<Rightarrow> bool option" where
  "long_wwn e = map_option (\<lambda>s. 32 \<le> length s) (cstr (d_wwn e))"

definition text_into :: "string \<Rightarrow> string \<Rightarrow> string option" where
  "text_into src dst = Option.bind (cstr src) (\<lambda>s. strcpy s dst)"

definition smartctl :: string where "smartctl = ''/etc/sysop/healthd2/bin/smartctl -Ai ''"

definition megaraid_cmd :: "int \<Rightarrow> string" where
  "megaraid_cmd n = smartctl @ ''-d megaraid,'' @ (if n < 0 then ''-'' else []) @ dec (nat \<bar>n\<bar>) @ '' /dev''"

type_synonym final = "disk_entry \<times> string"

text \<open>Path, SCSI device, PCI path and address of the system's entry for a disk of the controller.\<close>

definition take_address :: "disk_entry \<Rightarrow> disk_entry \<Rightarrow> disk_entry option" where
  "take_address src dst =
     Option.bind (text_into (d_path src) (d_path dst)) (\<lambda>p. Option.bind (text_into (d_sgpath src) (d_sgpath dst)) (\<lambda>g.
     map_option (\<lambda>c. dst\<lparr>d_path := p, d_sgpath := g, d_pcipath := c, d_host := d_host src, d_bus := d_bus src,
         d_target := d_target src, d_lun := d_lun src\<rparr>)
       (text_into (d_pcipath src) (d_pcipath dst))))"

definition raid_member :: "disk_entry \<Rightarrow> disk_entry \<Rightarrow> final option" where
  "raid_member src pd =
     Option.bind (take_address src pd) (\<lambda>dst. Option.bind (strcpy ''RAID_RAID'' (d_connect_type dst)) (\<lambda>ct.
     Option.bind (if d_pd_type pd ! 0 = CHR ''H'' then strcpy ''HDD'' (d_disk_type dst)
                  else if d_pd_type pd ! 0 = CHR ''S'' then strcpy ''SSD'' (d_disk_type dst) else Some (d_disk_type dst)) (\<lambda>dt.
       Some (dst\<lparr>d_connect_type := ct, d_disk_type := dt\<rparr>,
         megaraid_cmd (if d_did dst > -1 \<and> d_did dst \<noteq> d_slot dst then d_did dst else d_slot dst)))))"

definition jbod_member :: "(string \<Rightarrow> string option) \<Rightarrow> disk_entry \<Rightarrow> disk_entry \<Rightarrow> final option" where
  "jbod_member rot src pd =
     Option.bind (take_address src pd) (\<lambda>dst. Option.bind (text_into (d_MODEL src) (d_MODEL dst)) (\<lambda>mo.
     Option.bind (text_into (d_VER src) (d_VER dst)) (\<lambda>ve. Option.bind (text_into (d_SN src) (d_SN dst)) (\<lambda>sn.
     Option.bind (strcpy ''RAID_JBOD'' (d_connect_type dst)) (\<lambda>ct.
     map_option (\<lambda>dst. (dst, megaraid_cmd (d_slot dst)))
       (fill_disk_type rot (dst\<lparr>d_MODEL := mo, d_VER := ve, d_SN := sn, d_vd_idx := 999, d_pd_idx := 0, d_connect_type := ct\<rparr>)))))))"

text \<open>A member of an array of an mpt controller gets the path and the size of the first array in the list.\<close>

fun first_array :: "disk_entry list \<Rightarrow> disk_entry option option" where
  "first_array [] = Some None"
| "first_array (e # es) = Option.bind (long_wwn e) (\<lambda>l. if l then Some (Some e) else first_array es)"

definition mpt_member :: "(string \<Rightarrow> string option) \<Rightarrow> (string \<Rightarrow> string option) \<Rightarrow> disk_entry list \<Rightarrow> int \<Rightarrow> disk_entry \<Rightarrow> final option" where
  "mpt_member rot cap sys n src =
     Option.bind (first_array sys) (\<lambda>a.
     Option.bind (case a of None \<Rightarrow> Some src
       | Some e \<Rightarrow> map_option (\<lambda>p. src\<lparr>d_path := p, d_sizeGB := d_sizeGB e\<rparr>) (text_into (d_path e) (d_path src))) (\<lambda>dst.
     Option.bind (strcpy ''SAS_HBA_RAID'' (d_connect_type dst)) (\<lambda>ct.
     Option.bind (fill_disk_type rot (dst\<lparr>d_connect_type := ct\<rparr>)) (\<lambda>dst.
     map_option (\<lambda>g. (snd (readCap (cap g) (dst\<lparr>d_vd_idx := 0, d_pd_idx := to_short n\<rparr>)), smartctl @ g)) (cstr (d_sgpath dst))))))"

definition plain_disk :: "(string \<Rightarrow> string option) \<Rightarrow> disk_entry \<Rightarrow> final option" where
  "plain_disk rot src =
     Option.bind (fill_disk_type rot src) (\<lambda>dst.
       if d_sgpath dst ! 0 = CHR ''/'' then map_option (\<lambda>g. (dst, smartctl @ g)) (cstr (d_sgpath dst))
       else Option.bind (cstr (d_path dst)) (\<lambda>p. Option.bind (cstr (d_disk_type dst)) (\<lambda>t.
         if t = ''NVME SSD'' then map_option (Pair dst) (fix_nvme_ns_smartcmd (smartctl @ p))
         else Some (dst, smartctl @ p))))"

fun omap :: "('a \<Rightarrow> 'b option) \<Rightarrow> 'a list \<Rightarrow> 'b list option" where
  "omap f [] = Some []"
| "omap f (x # xs) = Option.bind (f x) (\<lambda>y. map_option ((#) y) (omap f xs))"

definition unset :: "disk_entry \<Rightarrow> bool" where
  "unset e \<longleftrightarrow> d_sizeGB e = Unset"

definition is_disk :: "disk_entry \<Rightarrow> bool" where
  "is_disk e \<longleftrightarrow> d_pd_type e ! 0 = CHR ''d''"

text \<open>What one system entry adds to the final list, and the new number of members of mpt arrays.\<close>

definition match_one :: "sysfs \<Rightarrow> disk_entry list \<Rightarrow> disk_entry list \<Rightarrow> disk_entry \<Rightarrow> int \<Rightarrow> (final list \<times> int) option" where
  "match_one fs sys pds src n =
     (if unset src \<and> \<not> is_disk src then Some ([], n)
      else if unset src \<and> is_disk src \<and> d_path src ! 0 = CHR ''/'' then Some ([], n)
      else if unset src \<and> is_disk src then
        map_option (\<lambda>f. ([f], n + 1)) (mpt_member (sy_rotational fs) (\<lambda>g. sy_reply fs g 0x9e) sys n src)
      else Option.bind (long_wwn src) (\<lambda>long.
        if long then map_option (\<lambda>fs. (fs, n)) (omap (raid_member src) (filter (\<lambda>pd. d_vd_idx pd = d_target src) pds))
        else if d_ec src < 0 \<and> d_slot src < 0 \<and> d_disk_type src ! 1 \<noteq> CHR ''V'' then
          (case List.find (\<lambda>pd. d_slot pd = d_target src) pds of
             None \<Rightarrow> Some ([], n)
           | Some pd \<Rightarrow> map_option (\<lambda>f. ([f], n)) (jbod_member (sy_rotational fs) src pd))
        else map_option (\<lambda>f. ([f], n)) (plain_disk (sy_rotational fs) src)))"

fun match_all :: "sysfs \<Rightarrow> disk_entry list \<Rightarrow> disk_entry list \<Rightarrow> disk_entry list \<Rightarrow> int \<Rightarrow> final list \<Rightarrow> final list option" where
  "match_all fs sys pds [] n final = Some final"
| "match_all fs sys pds (src # srcs) n final =
     Option.bind (match_one fs sys pds src n) (\<lambda>(new, n).
       if length final + length new \<le> MAX_DISK then match_all fs sys pds srcs n (final @ new) else None)"

text \<open>
  \<open>list_sdevices\<close>: \<open>ld\<close> and \<open>jbod\<close> are the outputs of megacli, \<open>names\<close> what \<open>scandir\<close> returns, and
  \<open>nvme\<close> the NVMe controllers, none without the directory.
\<close>

definition list_sdevices ::
  "sysfs \<Rightarrow> int \<times> string \<Rightarrow> string list option \<times> string list option \<times> string \<Rightarrow> string list option \<Rightarrow>
    nvme_ctrl list \<Rightarrow> scan_vars \<Rightarrow> final list option" where
  "list_sdevices fs stale = (\<lambda>(ld, jbod, buf) names nvme sv.
     (case names of None \<Rightarrow> Some []
      | Some names \<Rightarrow>
          Option.bind (mega_ld_list ld buf (replicate MAX_DISK zero_entry, 0)) (\<lambda>d.
          Option.bind (mega_jbod_list jbod buf d) (\<lambda>(raid, nr).
          Option.bind (scan_sdevices fs stale names (replicate MAX_DISK zero_entry, 0, sv)) (\<lambda>(depot, idx, _).
          Option.bind (scan_nvme_ns nvme (depot, idx)) (\<lambda>(depot, idx).
            match_all fs (take idx depot) (take nr raid) (take idx depot) 0 []))))))"

section \<open>The list and the SMART logs\<close>

definition dec_int :: "int \<Rightarrow> string" where
  "dec_int n = (if n < 0 then ''-'' @ dec (nat (- n)) else dec (nat n))"

definition bar :: string where "bar = '' | ''"

text \<open>A line of \<open>write_list_to_file\<close>; \<open>gbs\<close> prints the size.\<close>

definition list_line :: "(gb \<Rightarrow> string) \<Rightarrow> disk_entry \<Rightarrow> string option" where
  "list_line gbs e =
     map_option (\<lambda>ts. (case ts of [sg, pa, ww, pe, ec, pc, pt, dt, ct, ri, mo, ve, sn] \<Rightarrow>
       sg @ bar @ pa @ bar @ dec_int (d_ec e) @ bar @ dec_int (d_slot e) @ bar @ dec_int (d_vd_idx e) @ bar @ dec_int (d_pd_idx e) @ bar @
       ww @ bar @ pe @ bar @ ec @ bar @ pc @ bar @ pt @ bar @ dt @ bar @ ct @ bar @
       dec_int (d_host e) @ bar @ dec_int (d_bus e) @ bar @ dec_int (d_target e) @ bar @ dec_int (d_lun e) @ bar @
       gbs (d_sizeGB e) @ bar @ ri @ bar @ mo @ bar @ ve @ bar @ sn @ '' '' @ [CHR 0x0A] | _ \<Rightarrow> []))
     (omap cstr [d_sgpath e, d_path e, d_wwn e, d_peer_addr e, d_ec_addr e, d_pcipath e, d_pd_type e, d_disk_type e,
        d_connect_type e, d_raid_inq e, d_MODEL e, d_VER e, d_SN e])"

definition write_list_to_file :: "(gb \<Rightarrow> string) \<Rightarrow> string \<Rightarrow> string \<Rightarrow> disk_entry list \<Rightarrow> string option" where
  "write_list_to_file gbs date ver es =
     map_option (\<lambda>ls. [CHR 0x0A] @ ''=== DISK LIST ### '' @ date @ '' ### VER '' @ ver @ '' ==='' @ [CHR 0x0A] @ concat ls @ [CHR 0x0A])
       (omap (list_line gbs) es)"

text \<open>
  \<open>gen_list\<close> writes the list below \<open>log_path\<close>: the directories afterwards, the path, and the contents
  when the file can be opened.
\<close>

definition disk_gen_list :: "(string \<Rightarrow> bool) \<Rightarrow> (gb \<Rightarrow> string) \<Rightarrow> string \<times> string \<Rightarrow> bool \<Rightarrow> disk_entry list \<Rightarrow> string \<Rightarrow> string list \<Rightarrow>
    (string list \<times> string \<times> string option) option" where
  "disk_gen_list deny gbs = (\<lambda>(date, ver) opened es log_path dirs.
     (let fpath = clip 255 (log_path @ ''/disklist.txt''); (_, dirs) = dl_mkpath deny fpath dirs in
      if opened then map_option (\<lambda>t. (dirs, fpath, Some t)) (write_list_to_file gbs date ver es) else Some (dirs, fpath, None)))"

text \<open>
  \<open>snprintf (DM, len, "%s", p2)\<close> with the length of the text, which cuts its last character;
  \<open>None\<close> when it does not fit the 64 characters.
\<close>

definition smart_value :: "string \<Rightarrow> string \<Rightarrow> string \<Rightarrow> string option" where
  "smart_value key line old =
     (if has_prefix key line then
        (let v = dropWhile (\<lambda>c. c = CHR '' '') (drop (length key) line) in
         if v = [] then Some old else if length v > 64 then None else Some (butlast v))
      else Some old)"

text \<open>
  The keys are tested one after the other; \<open>p2\<close> has moved behind the key and the blanks when one
  matched.
\<close>

definition smart_rest :: "string \<Rightarrow> string \<Rightarrow> string" where
  "smart_rest key line =
     (if has_prefix key line then dropWhile (\<lambda>c. c = CHR '' '') (drop (length key) line) else line)"

fun smart_keys :: "string list \<Rightarrow> string \<Rightarrow> string \<Rightarrow> (string \<times> string) option" where
  "smart_keys [] line old = Some (line, old)"
| "smart_keys (k # ks) line old = Option.bind (smart_value k line old) (smart_keys ks (smart_rest k line))"

definition smart_line :: "string \<Rightarrow> string \<times> string \<Rightarrow> (string \<times> string) option" where
  "smart_line line = (\<lambda>(dm, sn).
     Option.bind (smart_keys [''Device Model:'', ''Product:'', ''Model Number:''] line dm) (\<lambda>(line, dm).
     map_option (\<lambda>(_, sn). (dm, sn)) (smart_keys [''Serial Number:'', ''Serial number:''] line sn)))"

text \<open>The lines of the output go to a buffer of \<open>max_len\<close> bytes while 1024 are left.\<close>

fun smart_output :: "nat \<Rightarrow> string list \<Rightarrow> string \<Rightarrow> string \<times> string \<Rightarrow> (string \<times> string \<times> string) option" where
  "smart_output max_len [] buf v = Some (buf, v)"
| "smart_output max_len (l # ls) buf v =
     (if length buf + 1024 < max_len then Option.bind (smart_line l v) (smart_output max_len ls (buf @ l)) else Some (buf, v))"

text \<open>
  The log of a disk: the directories afterwards, and the path and the contents of the file.
  Nothing is written without output, or when the file cannot be opened; the result of \<open>mkpath\<close>
  is not looked at.
\<close>

definition smart_log :: "(string \<Rightarrow> bool) \<Rightarrow> bool \<Rightarrow> nat \<Rightarrow> string \<Rightarrow> string list option \<Rightarrow> string \<Rightarrow> string list \<Rightarrow>
    (string list \<times> (string \<times> string) option) option" where
  "smart_log deny opened max_len dir out path dirs =
     (case out of None \<Rightarrow> Some (dirs, None)
      | Some ls \<Rightarrow>
          map_option (\<lambda>(buf, dm, sn).
            (let fsize = (if length buf > 0 then length buf - 1 else 0) in
             if fsize = 0 then (dirs, None)
             else
               (let fpath = clip 255 (dir @ ''/'' @ dm @ ''.'' @ sn @ ''.'' @ base_name path @ ''.log'');
                    (_, dirs) = dl_mkpath deny fpath dirs in
                (dirs, if opened then Some (fpath, take fsize buf) else None))))
          (smart_output max_len ls [] ([], [])))"


section \<open>The members of an array\<close>

lemma cstr_text: "CHR 0x00 \<notin> set s \<Longrightarrow> cstr (s @ CHR 0x00 # x) = Some s"
  unfolding cstr_def strlen_cut_def by (simp, subst takeWhile_append2) auto

lemma cstr_no_nul: "cstr a = Some s \<Longrightarrow> CHR 0x00 \<notin> set s"
  by (auto simp: cstr_def strlen_cut_def split: if_splits dest: set_takeWhileD)

lemma takeWhile_shorter: "x \<in> set a \<Longrightarrow> \<not> P x \<Longrightarrow> length (takeWhile P a) < length a"
  by (induction a) auto

lemma length_cstr: "cstr a = Some s \<Longrightarrow> length s < length a"
  by (auto simp: cstr_def strlen_cut_def split: if_splits intro: takeWhile_shorter)

lemma strcpy_total:
  assumes "CHR 0x00 \<notin> set s" "length s < length a"
  shows "\<exists>b. strcpy s a = Some b \<and> cstr b = Some s \<and> length b = length a"
proof -
  have "strcpy s a = Some (s @ CHR 0x00 # drop (length s + 1) a)"
    using assms(2) by (simp add: strcpy_def array_put_def strlen_cut_id [OF assms(1)])
  then show ?thesis using cstr_text [OF assms(1)] assms(2) by simp
qed

lemma text_into_total:
  assumes "cstr src = Some s" "length src \<le> length dst"
  obtains a where "text_into src dst = Some a" "cstr a = Some s" "length a = length dst"
  using strcpy_total [OF cstr_no_nul [OF assms(1)], of dst] length_cstr [OF assms(1)] assms by (auto simp: text_into_def)

text \<open>An entry of the system whose texts end.\<close>

definition texts_end :: "disk_entry \<Rightarrow> bool" where
  "texts_end e \<longleftrightarrow> (\<forall>a \<in> {d_wwn e, d_path e, d_sgpath e, d_pcipath e}. CHR 0x00 \<in> set a)"

definition place :: "disk_entry \<Rightarrow> string option \<times> string option \<times> string option \<times> int \<times> int \<times> int \<times> int" where
  "place e = (cstr (d_path e), cstr (d_sgpath e), cstr (d_pcipath e), d_host e, d_bus e, d_target e, d_lun e)"

definition identity :: "disk_entry \<Rightarrow> int \<times> int \<times> int \<times> int \<times> int \<times> string \<times> gb" where
  "identity e = (d_ec e, d_slot e, d_did e, d_vd_idx e, d_pd_idx e, d_raid_inq e, d_sizeGB e)"

definition raid_entry :: "disk_entry \<Rightarrow> disk_entry \<Rightarrow> final \<Rightarrow> bool" where
  "raid_entry src pd = (\<lambda>(e, cmd).
     place e = place src \<and> identity e = identity pd \<and> cstr (d_connect_type e) = Some ''RAID_RAID'' \<and>
     cmd = megaraid_cmd (if d_did pd > -1 \<and> d_did pd \<noteq> d_slot pd then d_did pd else d_slot pd))"

lemma raid_member_total:
  assumes "entry_ok src" "texts_end src" "entry_ok pd"
  shows "\<exists>f. raid_member src pd = Some f \<and> raid_entry src pd f"
proof -
  obtain p g c where t: "cstr (d_path src) = Some p" "cstr (d_sgpath src) = Some g" "cstr (d_pcipath src) = Some c"
    using assms(2) by (auto simp: texts_end_def cstr_def)
  have l: "length (d_path src) \<le> length (d_path pd)" "length (d_sgpath src) \<le> length (d_sgpath pd)"
      "length (d_pcipath src) \<le> length (d_pcipath pd)" "length (d_connect_type pd) = 16" "length (d_disk_type pd) = 16"
    using assms(1,3) by (simp_all add: entry_ok_def)
  obtain p' where p: "text_into (d_path src) (d_path pd) = Some p'" "cstr p' = Some p" by (rule text_into_total [OF t(1) l(1)])
  obtain g' where g: "text_into (d_sgpath src) (d_sgpath pd) = Some g'" "cstr g' = Some g" by (rule text_into_total [OF t(2) l(2)])
  obtain c' where c: "text_into (d_pcipath src) (d_pcipath pd) = Some c'" "cstr c' = Some c" by (rule text_into_total [OF t(3) l(3)])
  obtain k where k: "strcpy ''RAID_RAID'' (d_connect_type pd) = Some k" "cstr k = Some ''RAID_RAID''"
    using strcpy_total [of "''RAID_RAID''" "d_connect_type pd"] l(4) by auto
  have "\<exists>y. (if d_pd_type pd ! 0 = CHR ''H'' then strcpy ''HDD'' (d_disk_type pd)
      else if d_pd_type pd ! 0 = CHR ''S'' then strcpy ''SSD'' (d_disk_type pd) else Some (d_disk_type pd)) = Some y"
    using strcpy_total [of "''HDD''" "d_disk_type pd"] strcpy_total [of "''SSD''" "d_disk_type pd"] l(5)
    by (cases "d_pd_type pd ! 0 = CHR ''H''"; cases "d_pd_type pd ! 0 = CHR ''S''") auto
  then obtain y where y: "(if d_pd_type pd ! 0 = CHR ''H'' then strcpy ''HDD'' (d_disk_type pd)
      else if d_pd_type pd ! 0 = CHR ''S'' then strcpy ''SSD'' (d_disk_type pd) else Some (d_disk_type pd)) = Some y" by blast
  show ?thesis
    by (simp split del: if_split cong: if_cong add: raid_member_def take_address_def raid_entry_def place_def identity_def p g c k y t)
qed

lemma omap_total:
  assumes "\<And>x. x \<in> set xs \<Longrightarrow> \<exists>y. f x = Some y \<and> P x y"
  shows "\<exists>ys. omap f xs = Some ys \<and> list_all2 P xs ys"
  using assms
proof (induction xs)
  case (Cons x xs)
  obtain y where y: "f x = Some y" "P x y" using Cons.prems by fastforce
  obtain ys where "omap f xs = Some ys" "list_all2 P xs ys" using Cons.IH Cons.prems by auto
  with y show ?case by simp
qed simp

text \<open>C39. A logical drive gives one final entry for each physical disk whose array number
  is the target of the drive, in their order: the identity of the disk, the place of
  the drive and the smartctl command with the number of the disk.\<close>

theorem raid_members_listed:
  assumes "entry_ok src" "texts_end src" "\<not> unset src" "32 \<le> length (strlen_cut (d_wwn src))" "\<forall>pd \<in> set pds. entry_ok pd"
  shows "\<exists>out. match_one fs sys pds src n = Some (out, n) \<and>
    list_all2 (raid_entry src) (filter (\<lambda>pd. d_vd_idx pd = d_target src) pds) out"
proof -
  have "\<exists>y. raid_member src pd = Some y \<and> raid_entry src pd y" if "pd \<in> set (filter (\<lambda>pd. d_vd_idx pd = d_target src) pds)" for pd
    by (rule raid_member_total [OF assms(1,2)]) (use that assms(5) in simp)
  from omap_total [of _ "raid_member src" "raid_entry src", OF this] obtain out where
    "omap (raid_member src) (filter (\<lambda>pd. d_vd_idx pd = d_target src) pds) = Some out"
    "list_all2 (raid_entry src) (filter (\<lambda>pd. d_vd_idx pd = d_target src) pds) out" by blast
  moreover have "long_wwn src = Some True" using assms(2,4) by (simp add: long_wwn_def texts_end_def cstr_def)
  ultimately show ?thesis using assms(3) by (simp add: match_one_def)
qed


section \<open>The name of a SMART log\<close>

definition smart_dm_keys :: "string list" where
  "smart_dm_keys = [''Device Model:'', ''Product:'', ''Model Number:'']"

definition smart_sn_keys :: "string list" where
  "smart_sn_keys = [''Serial Number:'', ''Serial number:'']"

text \<open>A line without a key.\<close>

definition no_key :: "string \<Rightarrow> bool" where
  "no_key line \<longleftrightarrow> (\<forall>k \<in> set (smart_dm_keys @ smart_sn_keys). \<not> has_prefix k line)"

lemma smart_keys_none: "\<forall>k \<in> set ks. \<not> has_prefix k line \<Longrightarrow> smart_keys ks line old = Some (line, old)"
  by (induction ks) (simp_all add: smart_value_def smart_rest_def)

lemma smart_line_none: "no_key line \<Longrightarrow> smart_line line v = Some v"
  by (cases v) (simp add: smart_line_def smart_value_def smart_rest_def no_key_def smart_dm_keys_def smart_sn_keys_def)

text \<open>A line with a key, blanks and a value.\<close>

definition key_line :: "string \<Rightarrow> nat \<Rightarrow> string \<Rightarrow> string" where
  "key_line k n v = k @ replicate n (CHR '' '') @ v @ [CHR 0x0A]"

definition smart_text :: "string \<Rightarrow> bool" where
  "smart_text v \<longleftrightarrow> v \<noteq> [] \<and> hd v \<noteq> CHR '' '' \<and> length v < 64 \<and> no_key (v @ [CHR 0x0A])"

lemma smart_skip:
  assumes "smart_text v"
  shows "dropWhile (\<lambda>c. c = CHR '' '') (drop (length k) (key_line k n v)) = v @ [CHR 0x0A]"
proof -
  obtain c cs where "v = c # cs" "c \<noteq> CHR '' ''" using assms by (cases v) (simp_all add: smart_text_def)
  then show ?thesis unfolding key_line_def by (simp, subst dropWhile_append2) auto
qed

lemma smart_value_key: "smart_text v \<Longrightarrow> smart_value k (key_line k n v) old = Some v"
  using smart_skip [of v k n] unfolding smart_value_def smart_text_def
  by (simp only: append_eq_append_conv2 has_prefix_def key_line_def) (simp add: Let_def)

lemma smart_rest_key: "smart_text v \<Longrightarrow> smart_rest k (key_line k n v) = v @ [CHR 0x0A]"
  using smart_skip [of v k n] by (simp add: smart_rest_def has_prefix_def key_line_def)

lemma smart_line_model:
  assumes "smart_text v"
  shows "smart_line (key_line ''Device Model:'' n v) (dm, sn) = Some (v, sn)"
proof -
  have n: "no_key (v @ [CHR 0x0A])" using assms by (simp add: smart_text_def)
  have a: "smart_keys [''Product:'', ''Model Number:''] (v @ [CHR 0x0A]) v = Some (v @ [CHR 0x0A], v)"
    "smart_keys [''Serial Number:'', ''Serial number:''] (v @ [CHR 0x0A]) sn = Some (v @ [CHR 0x0A], sn)"
    by (rule smart_keys_none; use n in \<open>simp add: no_key_def smart_dm_keys_def smart_sn_keys_def\<close>)+
  show ?thesis
    unfolding smart_line_def smart_keys.simps(2) [of "''Device Model:''"] smart_value_key [OF assms] smart_rest_key [OF assms]
    by (simp only: a bind.bind_lunit prod.case option.map)
qed

lemma smart_line_serial:
  assumes "smart_text v"
  shows "smart_line (key_line ''Serial Number:'' n v) (dm, sn) = Some (dm, v)"
proof -
  have n: "no_key (v @ [CHR 0x0A])" using assms by (simp add: smart_text_def)
  have a: "smart_keys [''Device Model:'', ''Product:'', ''Model Number:''] (key_line ''Serial Number:'' n v) dm = Some (key_line ''Serial Number:'' n v, dm)"
    by (rule smart_keys_none) (simp add: has_prefix_def key_line_def)
  have b: "smart_keys [''Serial number:''] (v @ [CHR 0x0A]) v = Some (v @ [CHR 0x0A], v)"
    by (rule smart_keys_none) (use n in \<open>simp add: no_key_def smart_dm_keys_def smart_sn_keys_def\<close>)
  show ?thesis
    unfolding smart_line_def prod.case a bind.bind_lunit
    unfolding smart_keys.simps(2) [of "''Serial Number:''"] smart_value_key [OF assms] smart_rest_key [OF assms]
    by (simp only: b bind.bind_lunit prod.case option.map)
qed

lemma smart_output_none:
  assumes "\<forall>l \<in> set ls. no_key l" "length buf + length (concat ls) + 1024 < max_len"
  shows "smart_output max_len (ls @ rest) buf v = smart_output max_len rest (buf @ concat ls) v"
  using assms by (induction ls arbitrary: buf) (simp_all add: smart_line_none)

text \<open>C40. The SMART log of a disk has the output of smartctl without its last character,
  in a file named after the model, the serial number and the device, if the file can
  be opened; the directories of its path are created before, and a failure of that is
  ignored. The whole output fits the buffer.\<close>

theorem smart_log_named:
  assumes "\<forall>l \<in> set (a @ b @ c). no_key l" "smart_text dm" "smart_text sn"
    and "ls = a @ key_line ''Device Model:'' i dm # b @ key_line ''Serial Number:'' j sn # c"
    and "length (concat ls) + 1024 < max_len"
  shows "smart_log deny opened max_len dir (Some ls) path dirs
    = (let fpath = clip 255 (dir @ ''/'' @ dm @ ''.'' @ sn @ ''.'' @ base_name path @ ''.log'') in
       Some (snd (dl_mkpath deny fpath dirs), if opened then Some (fpath, butlast (concat ls)) else None))"
proof -
  let ?d = "key_line ''Device Model:'' i dm" let ?s = "key_line ''Serial Number:'' j sn"
  have len: "length (concat a) + length ?d + length (concat b) + length ?s + length (concat c) + 1024 < max_len"
    using assms(5) unfolding assms(4) by simp
  have "smart_output max_len ls [] ([], []) = smart_output max_len (?d # b @ ?s # c) (concat a) ([], [])"
    unfolding assms(4) using smart_output_none [of a "[]" max_len "?d # b @ ?s # c" "([], [])"] assms(1) len by simp
  also have "\<dots> = smart_output max_len (b @ ?s # c) (concat a @ ?d) (dm, [])"
    using len smart_line_model [OF assms(2)] by simp
  also have "\<dots> = smart_output max_len (?s # c) (concat a @ ?d @ concat b) (dm, [])"
    using smart_output_none [of b "concat a @ ?d" max_len "?s # c" "(dm, [])"] assms(1) len by simp
  also have "\<dots> = smart_output max_len c (concat a @ ?d @ concat b @ ?s) (dm, sn)"
    using len smart_line_serial [OF assms(3)] by simp
  also have "\<dots> = Some (concat ls, dm, sn)"
    using smart_output_none [of c "concat a @ ?d @ concat b @ ?s" max_len "[]" "(dm, sn)"] assms(1,4) len by simp
  finally have o: "smart_output max_len ls [] ([], []) = Some (concat ls, dm, sn)" .
  have "1 < length (concat ls)" unfolding assms(4) by (simp add: key_line_def)
  moreover define x where "x = concat ls"
  ultimately have "1 < length x" "smart_output max_len ls [] ([], []) = Some (x, dm, sn)" using o by simp_all
  then show ?thesis unfolding x_def [symmetric] by (cases x) (simp_all add: smart_log_def Let_def butlast_conv_take case_prod_beta)
qed


definition smart_sample :: "string list" where
  "smart_sample = [''smartctl 6.6'' @ [CHR 0x0A], key_line ''Device Model:'' 5 ''ST6000NM0024'', key_line ''Serial Number:'' 4 ''Z4D4DG1C'',
     ''Firmware Version: MA88'' @ [CHR 0x0A]]"

theorem smart_log_named_witness:
  "smart_log (\<lambda>_. True) True 65536 ''/tmp'' (Some smart_sample) ''/dev/sda'' [''/tmp'']
    = (let fpath = clip 255 (''/tmp'' @ ''/'' @ ''ST6000NM0024'' @ ''.'' @ ''Z4D4DG1C'' @ ''.'' @ base_name ''/dev/sda'' @ ''.log'') in
       Some (snd (dl_mkpath (\<lambda>_. True) fpath [''/tmp'']), if True then Some (fpath, butlast (concat smart_sample)) else None))"
  by (rule smart_log_named [of "[''smartctl 6.6'' @ [CHR 0x0A]]" "[]" "[''Firmware Version: MA88'' @ [CHR 0x0A]]" _ _ _ 5 4])
    (simp_all add: smart_sample_def smart_text_def no_key_def smart_dm_keys_def smart_sn_keys_def has_prefix_def key_line_def)

text \<open>A logical drive and two physical disks, of which one is its member.\<close>

definition drive_entry :: disk_entry where
  "drive_entry = init_disk_entry zero_entry\<lparr>d_host := 0, d_bus := 2, d_target := 1, d_lun := 0, d_sizeGB := Gb 5999,
     d_wwn := replicate 32 (CHR ''6'') @ zeros 32\<rparr>"

definition member_entry :: "int \<Rightarrow> int \<Rightarrow> disk_entry" where
  "member_entry vd slot = init_disk_entry zero_entry\<lparr>d_vd_idx := vd, d_pd_idx := 0, d_ec := 252, d_slot := slot, d_did := slot + 8\<rparr>"

definition no_sysfs :: sysfs where
  "no_sysfs = \<lparr>sy_file = (\<lambda>_. None), sy_dir = (\<lambda>_. False), sy_cwd = (\<lambda>_. None), sy_list = (\<lambda>_. None), sy_page = (\<lambda>_. None),
     sy_link = (\<lambda>_. []), sy_reply = (\<lambda>_ _. None), sy_rotational = (\<lambda>_. None)\<rparr>"

lemma sample_entries_ok:
  "entry_ok drive_entry" "texts_end drive_entry" "\<not> unset drive_entry" "entry_ok (member_entry vd slot)"
  "strlen_cut (d_wwn drive_entry) = replicate 32 (CHR ''6'')" "d_target drive_entry = 1" "d_vd_idx (member_entry vd slot) = vd"
  using zero_entry_ok
  by (auto simp: drive_entry_def member_entry_def entry_ok_def texts_end_def unset_def init_disk_entry_def na_def zeros_def
      strlen_cut_def zero_entry_def takeWhile_append)

theorem raid_members_listed_witness:
  "\<exists>out. match_one no_sysfs [] [member_entry 0 0, member_entry 1 1] drive_entry 0 = Some (out, 0) \<and>
    list_all2 (raid_entry drive_entry) [member_entry 1 1] out"
proof -
  have "filter (\<lambda>pd. d_vd_idx pd = d_target drive_entry) [member_entry 0 0, member_entry 1 1] = [member_entry 1 1]"
    by (simp add: sample_entries_ok)
  with raid_members_listed [of drive_entry "[member_entry 0 0, member_entry 1 1]" no_sysfs "[]" 0] sample_entries_ok
  show ?thesis by simp
qed

end
