(* ===== verification/Spec2Isabelle.thy ===== *)
theory Spec2Isabelle
  imports Prelude Toeplitz LogSession LogDisk ConnTable LogServer LogRace LogCollect LogFixed Khash ConfCli ConfSrv ConfServer ConfInput
    Ping PingRun UdpFwd Dns ParExec Mkpath DiskText DiskEntry DiskMega DiskList
begin

text \<open>
  A verification library for the C programs of this repository. Each program is one
  file under src/; they share little code, so each has its own theories. Definitions
  carry the names of the functions, macros and struct members they translate.

  \<^bold>\<open>The log server\<close>, src/logServer.c. Network threads read from many TCP connections and
  collect the bytes of each in one half of a double buffer; one disk thread scans all
  connections, writes the halves submitted to it to a log file per client and period, and
  frees closed connections; the main thread accepts connections and counts the ticks.
    \<^item> \<open>LogSession\<close>: \<open>struct session\<close>, \<open>get_new_session\<close>, \<open>enlarge_session_buf\<close> and the default
      \<open>pass2write\<close>. Offsets into the one allocation of a session stand for the pointers
      \<open>buf1\<close>, \<open>buf2\<close>, \<open>cur_buf\<close> and \<open>disk_buf\<close>; a copy outside it is the result \<open>UB\<close>, the busy
      wait for the disk thread the result \<open>Spin\<close>.
    \<^item> \<open>LogDisk\<close>: the name, the opening and the rotation of log files, \<open>write2disk\<close>, the release
      of a session, and the body of \<open>disk_write_thread\<close> for one session. Files and
      descriptors are an explicit store, the results of system calls are arguments.
    \<^item> \<open>ConnTable\<close>: the table of one network thread, which all servers of the repository have:
      the search for a free slot and the agreement of the table with its counters
      (\<open>table_ok\<close>), with one lemma for each way a server changes a slot.
    \<^item> \<open>LogServer\<close>: the connection table with \<open>accept_client\<close>, \<open>drain_client\<close>, the events of
      \<open>process_thread\<close>, the scan of the disk thread, \<open>periodic\<close>, the command line, and two
      step relations: \<open>server_step\<close> for the whole table, \<open>pipe_step\<close> for one session, with
      whole calls of \<open>pass2write\<close> and the two critical regions of \<open>write2disk\<close> as steps. The
      pipeline refines a byte queue, it can always drain, and the table and its counters agree.
    \<^item> \<open>LogRace\<close>: the same session with \<open>pass2write\<close> taken apart (\<open>race_step\<close>): its unlocked
      test, critical regions, busy wait and the three parts of its unlocked copy are steps
      between which the disk thread runs. No byte is lost, repeated or reordered as long as
      the exchange of the halves for a timeout does not fall into an unlocked copy, which
      only the time between two scans prevents; when it does, bytes are lost.
    \<^item> \<open>LogFixed\<close>: the build with \<open>FIX_LOG_FILE\<close>, which keeps only the last record in the file.
  \<^bold>\<open>The log collector\<close>, src/logCollectSrv.c, is a later version of the log server: \<open>LogCollect\<close>
  has the functions that differ and takes the others, whose text is the same, from the
  theories above.

  \<^bold>\<open>The configuration client\<close>, src/ConfCli.c, receives lines "key value" and keeps them in a
  hash table that it writes to two files.
    \<^item> \<open>Khash\<close>: the hash table, generic in keys and values as the macros are. It refines a
      map, whatever the hash function, and its probe loops end.
    \<^item> \<open>ConfCli\<close>: the scanner of lines, the table of strings over an explicit heap, the
      connection loop and the disk thread.
  \<^bold>\<open>The configuration server\<close>, src/ConfSrv.c, sends each client the file that belongs to the
  client's address, and again when the file gets newer. \<open>ConfSrv\<close> has the files as a map from
  path names to contents and times, the results of \<open>write\<close> as a list, the sessions in the
  same kind of table, and two step relations: \<open>conf_step\<close>, whose steps are whole handlers and
  which therefore shows nothing about a check during a reply, and \<open>reply_step\<close>, which
  interleaves the reply to one client with the periodic check of its file and loses an
  update. The last sections of this theory compose the servers with the client of \<open>ConfCli\<close>.

  \<^bold>\<open>The server of pushed lines\<close>, src/confServer.c, sends lines "address text" from a local
  socket to the clients with these addresses.
    \<^item> \<open>ConfServer\<close>: \<open>parse_input_conf\<close> over a byte memory in which the code chains lines by
      pointers that it stores over their addresses, the scan that sends the chains, sessions,
      events and options; no session keeps a chain between two rounds.
    \<^item> \<open>ConfInput\<close>: the chains as lists with disjoint cells, and what each client receives
      for a segment of the input: the lines with its address (\<open>lines_to\<close>) in tables for which
      the parser and \<open>accept_client\<close> agree (\<open>routed\<close>); \<open>target\<close> is the code's own lookup, and
      the inputs for which it loses or misdirects lines are shown, too.

  \<^bold>\<open>The ping tools\<close>, src/batchping.c, src/liveping.c and src/sbping.c, send echo requests to a
  list of hosts from the main thread and match the replies in other threads.
    \<^item> \<open>Ping\<close>: the checksum (equal to the ones' complement sum of RFC 1071), the packets as
      byte lists, the replies, the list of hosts and its distribution. An answer to a packet
      is credited to the host it was sent to; the replies and sizes for which this fails.
    \<^item> \<open>PingRun\<close>: options, the main loops and the interleaving of the sender with the
      replies, in which the call of \<open>send\<close>, its return and a reply are separate events; what
      the counter of lost packets means, and when liveping.c finds all hosts.

  \<^bold>\<open>The UDP forwarders\<close>: built with \<open>UDP_FORWARD_RT\<close>, the log server sends each segment that it
  reads to a local port, where src/udps_fwd.c, src/udps_enhanced_fwd.c or src/udps_ipmi.c
  takes it apart. \<open>UdpFwd\<close> has both sides: what becomes of the lines of a read on the way
  through server and forwarder, of lines that are cut or too long, and of the builds.

  \<^bold>\<open>The DNS query tool\<close>, src/dnsq.c: \<open>Dns\<close> has the encoding of names, the decoding with its
  offsets, which need not end and is a partial function, and the records of a response.

  \<^bold>\<open>The parallel execution of a command\<close>, src/ParallelExecRemote.c: \<open>ParExec\<close> has the table of
  children, the reading of the address list, the event loop and the turns of the parent with
  its children (\<open>pe_turn\<close>). The children and the failed calls of \<open>fork\<close> are part of the state:
  each address is executed once and the program can always end, unless a \<open>fork\<close> fails.

  \<^bold>\<open>The disk inventory\<close>, src/disklist.c, makes one list of the disks that the system shows and
  the disks that a RAID controller reports, and collects their SMART logs. What the kernel and
  other programs answer (files and directories of sysfs, replies to SCSI commands, the output
  of megacli and smartctl) are arguments.
    \<^item> \<open>DiskText\<close>: fields of fixed width, SCSI addresses and LUNs, the designators of a device
      identification page, the selection functions of \<open>scandir\<close>.
    \<^item> \<open>DiskEntry\<close>: \<open>struct disk_entry\<close> with its arrays, of which every write keeps the length
      (\<open>entry_ok\<close>), the fields from SCSI replies, \<open>mega_jbod_list\<close> and \<open>mega_ld_list\<close>.
    \<^item> \<open>DiskMega\<close>: which entries the output of megacli gives.
    \<^item> \<open>DiskList\<close>: the entry of a device from sysfs, the NVMe namespaces, the matching of both
      sources, the written list and the SMART logs.
  \<open>Mkpath\<close> has \<open>mkpath\<close>, of which the servers and src/disklist.c have copies.

  \<^bold>\<open>The RSS hash\<close>, src/toeplitz_hash.c: \<open>Toeplitz\<close> has the hash, its keys and the test routines.

  \<^bold>\<open>Interfaces.\<close> \<open>Prelude\<close> states three contracts as locales: \<open>invariant_system\<close> (a start
  predicate, a step relation and an invariant), \<open>simulation\<close> (an abstraction whose steps the
  concrete steps follow) and \<open>kv_map\<close> (lookup, insertion and deletion of a finite map with a
  bound on its growth). They are interpreted on the step relations of the log server, of the
  collector (\<open>collector\<close>), of the parallel execution (\<open>parexec\<close>), of the configuration servers (\<open>conf\<close>, \<open>input_server\<close>) and of the client (\<open>client\<close>,
  \<open>threads\<close>), on the pipeline and its byte queue, and on the hash table.

  \<^bold>\<open>Loops.\<close> Loops that walk data are recursive functions. The probe loops of the hash table
  take a number of turns, twice the number of buckets, and end earlier on every table whose
  size is a power of two (\<open>get_loop_total\<close>); the loop of \<open>write2disk\<close> consumes the list of
  results of \<open>write\<close>; the label \<open>recheck\<close> of \<open>pass2write\<close> ends because each turn enlarges a
  bounded block. \<open>chain_last\<close> walks a chain in memory, which need not end: it is a partial
  function, and \<open>chain_last_chain\<close> shows that it ends on the chains of the program.

  \<^bold>\<open>Assumptions.\<close> In \<open>pipe_step\<close> a call of \<open>pass2write\<close> is one step, and after its busy wait it
  starts anew; in \<open>race_step\<close> it consists of its accesses to the session, and continues after
  the busy wait without a new check, as the code does. Memory is sequentially consistent.
  The step \<open>commit\<close> of both is a \<open>write\<close> that takes the whole request (short and failing
  writes are treated separately in \<open>LogDisk\<close>). \<open>int\<close> counters are integers where the code
  cannot reach their limits; numbers that \<open>sscanf\<close> reads are converted as the C library does
  (\<open>int_of_long\<close>), those of \<open>atoi\<close> are in the range of \<open>int\<close>, and a round trip time outside of
  it is converted as on x86 (\<open>int_of_double\<close>). In \<open>ConfCli\<close> allocations succeed, since the code
  exits otherwise, and one \<open>dump_htable\<close> sees one state of the table; \<open>fopen\<close> may fail.

  \<^bold>\<open>Not modelled.\<close> Sockets, epoll registration, signals and threads creation appear only as
  results and steps; printed reports are left out; the builds
  \<open>DIR_SWITCH_MONTHLY\<close> and \<open>NO_DISK_WRITE\<close> are not translated. Of src/disklist.c the listing of
  hosts, which no call reaches, and the lookup of devices by number are left out. The programs that measure
  instructions, caches, timers or disks consist of machine instructions and system calls and
  have no model here.
\<close>

section \<open>The configuration server and its client\<close>

text \<open>A line of the server's file that the client understands.\<close>

definition served_line :: "string \<times> string \<Rightarrow> bool" where
  "served_line = (\<lambda>(key, val). line_ok (key, val) \<and> length key + length val \<le> 1020)"

definition line_body :: "string \<times> string \<Rightarrow> string" where
  "line_body = (\<lambda>(key, val). key @ '' '' @ val)"

lemma served_conf_lines:
  assumes "\<forall>l \<in> set ls. served_line l"
  shows "\<forall>b \<in> set (map line_body ls). conf_line_ok b"
    "conf_text (map line_body ls) = concat (map line_text ls)" "\<forall>l \<in> set ls. line_ok l"
proof -
  show "\<forall>l \<in> set ls. line_ok l" using assms by (auto simp: served_line_def)
  show "\<forall>b \<in> set (map line_body ls). conf_line_ok b"
    using assms by (auto simp: served_line_def line_body_def conf_line_ok_def line_ok_def key_ok_def val_ok_def
        NL_def NUL_def)
  have "line_body l @ [CHR 0x0A] = line_text l" for l
    by (cases l) (simp add: line_body_def line_text_def NL_def)
  then show "conf_text (map line_body ls) = concat (map line_text ls)" by (simp add: conf_text_def comp_def)
qed

text \<open>C15. The configuration server sends a file of lines "key value" as it is, and the
  client that receives the bytes in reads of any sizes ends up with exactly the
  configuration that the file describes. The conditions: key and value have together
  at most 1020 characters in each line (longer lines lose a byte, ConfSrv.c:571), no
  line gives a value to a key that the lines before have set (the client fails on it,
  see resent_line_breaks_client; a line may delete a key), there are at most 2^28
  lines, each write is complete and the file does not change during the reply.\<close>

theorem configuration_reaches_client:
  assumes "conf_file_of dir a = Some fl" "content fl = concat (map line_text ls)" "\<forall>l \<in> set ls. served_line l"
    and "length ls \<le> 2 ^ 28" "conf_run ls Map.empty = Some m"
  shows "\<exists>sent. reply_conf dir dir (full_writes (map line_body ls)) a
      = Some (int (length sent), check_ts dir a, sent)
    \<and> (\<forall>bufs. concat bufs = sent \<longrightarrow> (\<exists>st. feed bufs init_cli = Some st \<and> config_of st = m))"
proof -
  note ls = served_conf_lines [OF assms(3)]
  have "reply_conf dir dir (full_writes (map line_body ls)) a
      = Some (int (length (content fl)), check_ts dir a, content fl)"
    using reply_conf_file [OF assms(1) _ ls(1)] assms(1,2) ls(2) by (simp add: check_ts_file)
  moreover have "\<exists>st. feed bufs init_cli = Some st \<and> config_of st = m" if "concat bufs = content fl" for bufs
    using stream_state [of bufs ls m] that assms(2,4,5) ls(3) by metis
  ultimately show ?thesis by blast
qed

theorem configuration_reaches_client_witness:
  "\<exists>sent. reply_conf (dir_at 1) (dir_at 1) [4] 0x0a000001 = Some (4, 1, sent)
    \<and> (\<exists>st. feed [take 1 sent, drop 1 sent] init_cli = Some st \<and> config_of st ''k'' = Some ''v'')"
proof -
  let ?l = "(''k'', ''v'')" and ?fl = "\<lparr>content = conf_text [''k v''], st_ctime = 1\<rparr>"
  have "content ?fl = concat (map line_text [?l])" "\<forall>l \<in> set [?l]. served_line l"
      "conf_run [?l] Map.empty = Some [''k'' \<mapsto> ''v'']"
    by (simp_all add: conf_text_def line_text_def NL_def NUL_def served_line_def line_ok_def key_ok_def val_ok_def conf_set_def)
  from configuration_reaches_client [OF file_at this(1,2) _ this(3)] obtain sent where
    s: "reply_conf (dir_at 1) (dir_at 1) (full_writes (map line_body [?l])) 0x0a000001
      = Some (int (length sent), check_ts (dir_at 1) 0x0a000001, sent)"
    "\<And>bufs. concat bufs = sent \<Longrightarrow> \<exists>st. feed bufs init_cli = Some st \<and> config_of st = [''k'' \<mapsto> ''v'']"
    by auto
  have w: "full_writes (map line_body [?l]) = [4]" by (simp add: full_writes_def line_body_def)
  have "concat [take 1 sent, drop 1 sent] = sent" by simp
  from s(2) [OF this] obtain st where st: "feed [take 1 sent, drop 1 sent] init_cli = Some st" "config_of st ''k'' = Some ''v''"
    by auto
  have "\<forall>l \<in> set [''k v'']. conf_line_ok l" by (simp add: conf_line_ok_def)
  from reply_conf_file [OF file_at [of 1] _ this]
  have "reply_conf (dir_at 1) (dir_at 1) [4] 0x0a000001 = Some (4, 1, conf_text [''k v''])"
    by (simp add: full_writes_def to_int32_small conf_text_def)
  then have "length sent = 4" using s(1) w by (simp add: conf_text_def)
  then show ?thesis using s(1) w st check_ts_dir_at [of 1] by (auto simp: to_int32_small)
qed

text \<open>
  The server answers a newer file by sending it again from the start. The first line of it
  that gives a value to a key the client has makes the client's table unusable.
\<close>

text \<open>C16. When the server sends an updated file again from its start, the first line that
  gives a value to a key the client already has loses this key and makes the client
  read released memory when it writes its table.\<close>

theorem resent_line_breaks_client:
  assumes "\<forall>l \<in> set ls. served_line l" "length ls \<le> 2 ^ 28" "conf_run ls Map.empty = Some m"
    and "line_ok (key, val)" "m key \<noteq> None" "take 7 val \<noteq> ''!delete''"
  shows "\<exists>st st'. feed [concat (map line_text ls)] init_cli = Some st \<and> config_of st = m
    \<and> process_content (line_text (key, val)) st = Some (0, st') \<and> config_of st' key = None \<and> dump_htable st' = None"
proof -
  obtain st where st: "feed [concat (map line_text ls)] init_cli = Some st" "config_of st = m" "clean st"
      "cli_ok (length ls) st"
    using stream_state [of "[concat (map line_text ls)]" ls m] served_conf_lines(3) [OF assms(1)] assms(2,3) by auto
  obtain st' where "exec_line key val st = Some (0, st')" "config_of st' key = None" "dump_htable st' = None"
    using overwritten_value_dangles [OF st(4) _ assms(6), of key] st(2) assms(5) by auto
  moreover from this have "process_content (line_text (key, val)) st = Some (0, st')"
    using process_line [OF st(3) assms(4)] by blast
  ultimately show ?thesis using st(1,2) by blast
qed

theorem resent_line_breaks_client_witness:
  "\<exists>st st'. feed [''k v'' @ [CHR 0x0A]] init_cli = Some st \<and> config_of st ''k'' = Some ''v''
    \<and> process_content (''k w'' @ [CHR 0x0A]) st = Some (0, st') \<and> dump_htable st' = None"
proof -
  let ?l = "(''k'', ''v'')"
  have l: "\<forall>l \<in> set [?l]. served_line l" and c: "conf_run [?l] Map.empty = Some [''k'' \<mapsto> ''v'']"
    and k: "line_ok (''k'', ''w'')"
    by (simp_all add: NL_def NUL_def served_line_def line_ok_def key_ok_def val_ok_def conf_set_def)
  have h: "length [?l] \<le> 2 ^ 28" "[''k'' \<mapsto> ''v''] ''k'' \<noteq> None" "take 7 ''w'' \<noteq> ''!delete''" by simp_all
  have tx: "concat (map line_text [?l]) = ''k v'' @ [CHR 0x0A]" "line_text (''k'', ''w'') = ''k w'' @ [CHR 0x0A]"
    by (simp_all add: line_text_def NL_def)
  from resent_line_breaks_client [OF l h(1) c k h(2,3)] obtain st st' where
    "feed [''k v'' @ [CHR 0x0A]] init_cli = Some st" "config_of st = [''k'' \<mapsto> ''v'']"
    "process_content (''k w'' @ [CHR 0x0A]) st = Some (0, st')" "dump_htable st' = None"
    unfolding tx by blast
  moreover from this(2) have "config_of st ''k'' = Some ''v''" by simp
  ultimately show ?thesis by blast
qed

section \<open>Lines pushed through confServer.c\<close>

lemma ip_text_max: "quad_ok q \<Longrightarrow> length (ip_text q) \<le> 15"
proof -
  assume q: "quad_ok q"
  obtain t0 t1 t2 t3 where t: "q = (t0, t1, t2, t3)" by (cases q)
  have "length (dec n) \<le> 3" if "n < 256" for n using length_dec_le [of n 3] that by simp
  then have "length (dec t0) \<le> 3" "length (dec t1) \<le> 3" "length (dec t2) \<le> 3" "length (dec t3) \<le> 3"
    using q by (simp_all add: quad_ok_def t)
  then show ?thesis by (simp add: ip_text_def t)
qed

definition push_line :: "(nat \<times> nat \<times> nat \<times> nat) \<times> string \<times> string \<Rightarrow> (nat \<times> nat \<times> nat \<times> nat) \<times> string" where
  "push_line = (\<lambda>(q, l). (q, line_body l))"

definition push_line_ok :: "(nat \<times> nat \<times> nat \<times> nat) \<times> string \<times> string \<Rightarrow> bool" where
  "push_line_ok = (\<lambda>(q, l). quad_ok q \<and> line_ok l \<and> length (fst l) + length (snd l) \<le> 1000)"

definition pads_of :: "(nat \<times> nat \<times> nat \<times> nat) \<times> string \<times> string \<Rightarrow> nat \<times> string \<times> string" where
  "pads_of = (\<lambda>(q, l). (length (ip_text q) - 7, l))"

lemma push_line_text:
  assumes "push_line_ok l"
  shows "pushed (push_line l) @ [CHR 0x0A] = padded_text (pads_of l)" "padded_ok (pads_of l)"
    "input_line_ok (push_line l)" "snd (pads_of l) = snd l"
proof -
  obtain q key val where l: "l = (q, key, val)" by (cases l)
  have "quad_ok q" using assms by (simp add: push_line_ok_def l)
  then have "length (ip_text q) \<le> 15" by (rule ip_text_max)
  then have "length (ip_text q) - 7 \<le> 8" by simp
  then show "padded_ok (pads_of l)" using assms by (simp add: push_line_ok_def l pads_of_def padded_ok_def)
  show "input_line_ok (push_line l)"
    using assms by (auto simp: push_line_ok_def l push_line_def input_line_ok_def line_body_def line_ok_def key_ok_def
        val_ok_def NL_def NUL_def)
qed (use assms in \<open>auto simp: pushed_def push_line_def line_body_def padded_text_def line_text_def pads_of_def NL_def
    split: prod.splits\<close>)

lemma segment_length: "length ls \<le> length (segment ls)"
  by (induction ls) (auto simp: segment_def)

text \<open>C21. A configuration that is pushed through the input socket as lines "address key
  value" arrives: the client of each address, whatever sizes its reads have, ends up
  with exactly the configuration of the lines for this address. The conditions are
  those of ConfInput.segment_reaches_clients (nWorkers divides 256, routed tables,
  first byte below 128 and second below 64, addresses of 7 characters first, live
  sessions, complete writes, segment within the buffer), and key and value have
  together at most 1000 characters, and no line gives a value to a key that the client
  has.\<close>

theorem pushed_lines_configure_client:
  assumes b: "0 < b" "b + INPUT_BUF_SIZE \<le> 2 ^ 64"
    and S: "(ci_step b)\<^sup>*\<^sup>* (ci_init_server c date) S" "0 < cs_nWorkers c" "all_live S" "routed S" "islots S t k = Some s"
    and ls: "\<forall>l \<in> set ls. push_line_ok l" "short_first (map push_line ls)" "addressed S (map push_line ls)"
      "length (segment (map push_line ls)) \<le> INPUT_BUF_SIZE"
    and ws: "\<And>t k. ws t k = full_replies (client_lines S (map push_line ls) t k)"
    and m: "conf_run (map snd (filter (\<lambda>l. quad_addr (fst l) = iip s) ls)) Map.empty = Some m"
  shows "\<exists>S' n' out. ci_scan_round b ws (input_read (segment (map push_line ls)) S, n) = Some ((S', n'), out)
    \<and> (\<forall>bufs. concat bufs = out (t, k) \<longrightarrow> (\<exists>st. feed bufs init_cli = Some st \<and> config_of st = m))"
proof -
  define mine where "mine = filter (\<lambda>l. quad_addr (fst l) = iip s) ls"
  have ok: "\<forall>l \<in> set (map push_line ls). input_line_ok l" using ls(1) push_line_text(3) by auto
  have q: "\<forall>l \<in> set (map push_line ls). quad_ok (fst l)" using ok by (auto simp: input_line_ok_def)
  have "ci_inv S" using S(1) by (rule input_server.reachable_inv) (use S(2) in blast)
  then have w: "0 < cs_nWorkers (icfg S)" by (simp add: ci_inv_def ci_table_ok_def)
  have ws': "ws t k = full_replies (lines_for S (map push_line ls) t k)" for t k
    using ws lines_routed [OF S(4) w q ls(3)] by simp
  have cl: "client_lines S (map push_line ls) t k = lines_to (iip s) (map push_line ls)"
    by (simp add: client_lines_def S(5))
  have "CHR 0x0A \<notin> set ([] :: string)" "CHR 0x00 \<notin> set ([] :: string)" by simp_all
  note dlv = segment_delivered [OF b S(1-3) ok ls(2) this, of ws n]
  obtain S' n' out where R: "ci_scan_round b ws (input_read (segment (map push_line ls)) S, n) = Some ((S', n'), out)"
    "out (t, k) = reply_text (lines_to (iip s) (map push_line ls))"
    using dlv ls(4) ws' lines_routed [OF S(4) w q ls(3), of t k] cl S(5) by auto
  have mine: "\<forall>l \<in> set mine. push_line_ok l" using ls(1) by (simp add: mine_def)
  have "lines_to (iip s) (map push_line ls) = map (\<lambda>l. pushed (push_line l)) mine"
    by (simp add: lines_to_def mine_def filter_map comp_def push_line_def split_beta)
  then have "out (t, k) = concat (map (\<lambda>l. pushed (push_line l) @ [CHR 0x0A]) mine)"
    using R(2) by (simp add: reply_text_def comp_def)
  also have "map (\<lambda>l. pushed (push_line l) @ [CHR 0x0A]) mine = map padded_text (map pads_of mine)"
    using mine push_line_text(1) by simp
  finally have out: "out (t, k) = concat (map padded_text (map pads_of mine))" .
  have "\<forall>l \<in> set (map pads_of mine). padded_ok l" using mine push_line_text(2) by simp
  moreover have "length (map pads_of mine) \<le> 2 ^ 28"
  proof -
    have "length (map pads_of mine) \<le> length (segment (map push_line ls))"
      unfolding mine_def length_map
      by (rule order_trans [OF length_filter_le]) (use segment_length [of "map push_line ls"] in simp)
    then show ?thesis using ls(4) by (simp add: INPUT_BUF_SIZE_def)
  qed
  moreover have "map snd (map pads_of mine) = map snd mine" using mine push_line_text(4) by simp
  then have "conf_run (map snd (map pads_of mine)) Map.empty = Some m" using m by (simp only: mine_def)
  ultimately have "\<exists>st. feed bufs init_cli = Some st \<and> config_of st = m" if "concat bufs = out (t, k)" for bufs
    using padded_state [of bufs "map pads_of mine" m] that out by metis
  then show ?thesis using R(1) by blast
qed

theorem pushed_lines_configure_client_witness:
  "\<exists>S' n' out. ci_scan_round 1 (\<lambda>t k. if (t, k) = (0, 0) then [4] else [])
      (input_read (''1.2.3.4 k v'' @ [CHR 0x0A]) one_client, 0) = Some ((S', n'), out)
    \<and> (\<forall>bufs. concat bufs = out (0, 0) \<longrightarrow> (\<exists>st. feed bufs init_cli = Some st \<and> config_of st = [''k'' \<mapsto> ''v'']))"
proof -
  let ?ls = "[((1, 2, 3, 4), ''k'', ''v'')]"
  have pl: "map push_line ?ls = [((1, 2, 3, 4), ''k v'')]" by (simp add: push_line_def line_body_def)
  have seg: "segment (map push_line ?ls) = ''1.2.3.4 k v'' @ [CHR 0x0A]"
    unfolding pl by (simp add: segment_def input_line_def ip_text_def dec_digit)
  have p: "pushed ((1, 2, 3, 4), ''k v'') = ''k v''" by (simp add: pushed_def ip_text_def dec_digit)
  have ws: "(if (t, k) = (0, 0) then [4] else []) = full_replies (client_lines one_client (map push_line ?ls) t k)" for t k
    unfolding pl one_client_lines p by (simp add: full_replies_def)
  have ok: "\<forall>l \<in> set ?ls. push_line_ok l" "short_first (map push_line ?ls)"
    by (simp_all add: push_line_ok_def quad_ok_def line_ok_def key_ok_def val_ok_def NL_def NUL_def short_first_def)
  have addr: "addressed one_client (map push_line ?ls)" unfolding pl by (rule one_client_routed)
  have len: "length (segment (map push_line ?ls)) \<le> INPUT_BUF_SIZE" unfolding seg by (simp add: INPUT_BUF_SIZE_def)
  have b: "0 < (1 :: nat)" "1 + INPUT_BUF_SIZE \<le> 2 ^ 64" by (simp_all add: INPUT_BUF_SIZE_def)
  let ?s = "first_client 7 0 (quad_addr (1, 2, 3, 4)) 0"
  have slot: "islots one_client 0 0 = Some ?s" using one_client_facts(1) by simp
  have "filter (\<lambda>l. quad_addr (fst l) = iip ?s) ?ls = ?ls" unfolding one_client_facts(2) by simp
  then have "conf_run (map snd (filter (\<lambda>l. quad_addr (fst l) = iip ?s) ?ls)) Map.empty = Some [''k'' \<mapsto> ''v'']"
    by (simp only: list.map conf_run.simps snd_conv) (simp add: conf_set_def)
  from pushed_lines_configure_client [OF b one_client_reached _ one_client_live one_client_routed(1) slot ok addr len ws this, of 0]
  show ?thesis unfolding seg by simp
qed

end
